(* ===== verification/Xv6_Prelude.thy ===== *)
theory Xv6_Prelude
  imports Main "HOL-Library.Word"
begin

text \<open>
  Shared ground of the development: the constants of \<^verbatim>\<open>param.h\<close>, the ways in which kernel code
  can fail, the result type of every modelled operation, and the generic lemmas on results and
  lists that the component theories use.

  A kernel function that calls \<^verbatim>\<open>panic\<close>, dereferences a null pointer, leaves an array or never
  comes back does not produce a state; each of these is a value of \<open>fault\<close>, so that "the code
  does not fail here" is a statement about the model.
\<close>

section \<open>Faults and results\<close>

datatype fault =
    Panic string      \<comment> \<open>a call of \<^verbatim>\<open>panic(msg)\<close>\<close>
  | NullDeref         \<comment> \<open>a field of a null pointer is read or written\<close>
  | OutOfBounds       \<comment> \<open>an array is accessed past its end\<close>
  | Diverge           \<comment> \<open>a loop over a linked structure does not end\<close>
  | Deadlock          \<comment> \<open>a sleep lock is taken again by the process that holds it\<close>

type_synonym 'a result = "fault + 'a"

definition returns :: "'a result \<Rightarrow> bool" where
  "returns x \<longleftrightarrow> (case x of Inl _ \<Rightarrow> False | Inr _ \<Rightarrow> True)"

lemma returns_simps [simp]: "returns (Inr x)" "\<not> returns (Inl e)"
  by (simp_all add: returns_def)

lemma returns_obtain: "returns x \<Longrightarrow> \<exists>y. x = Inr y"
  by (cases x) auto

definition rbind :: "'a result \<Rightarrow> ('a \<Rightarrow> 'b result) \<Rightarrow> 'b result" where
  "rbind m f = (case m of Inl e \<Rightarrow> Inl e | Inr x \<Rightarrow> f x)"

lemma rbind_simps [simp]:
  "rbind (Inl e) f = Inl e"
  "rbind (Inr x) f = f x"
  by (simp_all add: rbind_def)

lemma rbind_eq_Inr: "rbind m f = Inr y \<longleftrightarrow> (\<exists>x. m = Inr x \<and> f x = Inr y)"
  by (cases m) auto

lemma rbind_eq_Inl: "rbind m f = Inl e \<longleftrightarrow> m = Inl e \<or> (\<exists>x. m = Inr x \<and> f x = Inl e)"
  by (cases m) auto

lemma rbind_assoc: "rbind (rbind m f) g = rbind m (\<lambda>x. rbind (f x) g)"
  by (cases m) auto

lemma rbind_cong [fundef_cong]:
  "m = m' \<Longrightarrow> (\<And>x. m' = Inr x \<Longrightarrow> f x = g x) \<Longrightarrow> rbind m f = rbind m' g"
  by (cases m') auto

text \<open>A C \<^verbatim>\<open>for\<close> loop over an array: run the body on each index in turn, stop at the first fault.\<close>

fun rfold :: "('i \<Rightarrow> 's \<Rightarrow> 's result) \<Rightarrow> 'i list \<Rightarrow> 's \<Rightarrow> 's result" where
  "rfold f [] s = Inr s"
| "rfold f (x # xs) s = rbind (f x s) (rfold f xs)"

lemma rfold_append [simp]: "rfold f (xs @ ys) s = rbind (rfold f xs s) (rfold f ys)"
proof (induction xs arbitrary: s)
  case Nil
  then show ?case by simp
next
  case (Cons x xs)
  then show ?case by (cases "f x s") auto
qed

text \<open>The rule for such a loop: an invariant indexed by the elements already processed.\<close>

lemma rfold_rule:
  assumes "I [] s"
    and "\<And>ys x zs s. xs = ys @ x # zs \<Longrightarrow> I ys s \<Longrightarrow> \<exists>s'. f x s = Inr s' \<and> I (ys @ [x]) s'"
  shows "\<exists>s'. rfold f xs s = Inr s' \<and> I xs s'"
proof -
  have "\<exists>s'. rfold f zs s = Inr s' \<and> I (ys @ zs) s'" if "xs = ys @ zs" "I ys s" for ys zs s
    using that
  proof (induction zs arbitrary: ys s)
    case Nil
    then show ?case by simp
  next
    case (Cons z zs)
    from assms(2) [OF Cons.prems] obtain s' where s': "f z s = Inr s'" "I (ys @ [z]) s'"
      by blast
    with Cons.prems Cons.IH [of "ys @ [z]" s'] show ?case by simp
  qed
  from this [of "[]" xs s] assms(1) show ?thesis by simp
qed

section \<open>First match in an array\<close>

text \<open>The scan \<^verbatim>\<open>for(p = tab; p < &tab[N]; p++) if(P(p)) goto found;\<close>.\<close>

fun first_index :: "(nat \<Rightarrow> bool) \<Rightarrow> nat list \<Rightarrow> nat option" where
  "first_index P [] = None"
| "first_index P (i # is) = (if P i then Some i else first_index P is)"

lemma first_index_None [simp]: "first_index P xs = None \<longleftrightarrow> (\<forall>x\<in>set xs. \<not> P x)"
  by (induction xs) auto

lemma first_index_Some: "first_index P xs = Some i \<Longrightarrow> i \<in> set xs \<and> P i"
  by (induction xs) (auto split: if_splits)

lemma first_index_least: "first_index P [m..<n] = Some i \<Longrightarrow> m \<le> j \<Longrightarrow> j < i \<Longrightarrow> \<not> P j"
proof (induction "n - m" arbitrary: m)
  case 0
  then show ?case by simp
next
  case (Suc k)
  then have "m < n" by simp
  with Suc.prems have "\<not> P m" if "j = m"
    using that by (auto simp: upt_conv_Cons split: if_splits)
  moreover have "\<not> P j" if "j \<noteq> m"
    using Suc.hyps(1) [of "Suc m"] Suc.hyps(2) Suc.prems \<open>m < n\<close> that
    by (auto simp: upt_conv_Cons split: if_splits)
  ultimately show ?case by blast
qed

lemma first_index_cong [fundef_cong]:
  "xs = ys \<Longrightarrow> (\<And>x. x \<in> set ys \<Longrightarrow> P x = Q x) \<Longrightarrow> first_index P xs = first_index Q ys"
  by (induction xs arbitrary: ys) auto

section \<open>Lists\<close>

named_theorems fup_simps "unfolding of the state update operations"

lemma filter_neq_id [simp]: "p \<notin> set xs \<Longrightarrow> filter (\<lambda>x. x \<noteq> p) xs = xs"
  by (induction xs) auto

lemma remove1_split [simp]: "p \<notin> set ys \<Longrightarrow> remove1 p (ys @ p # zs) = ys @ zs"
  by (simp add: remove1_append)

end
