(* ===== verification/Xv6_Machine.thy ===== *)
theory Xv6_Machine
  imports Xv6_Prelude
begin

text \<open>
  What the process managers of project 1 (\<open>Mlfq_Proc\<close>) and of project 2 (\<open>Lwp_Proc\<close>) share: the states of a
  process, the saved registers (\<^verbatim>\<open>x86.h\<close>, \<^verbatim>\<open>proc.h\<close>), the constants of \<^verbatim>\<open>param.h\<close> and \<^verbatim>\<open>mmu.h\<close>, the trap
  frame of the first process, and \<open>kops\<close>, the calls that \<^verbatim>\<open>proc.c\<close> makes on the allocator, the page
  tables, the open files and the inodes.
\<close>

section \<open>Data\<close>

datatype procstate = UNUSED | EMBRYO | SLEEPING | RUNNABLE | RUNNING | ZOMBIE

type_synonym addr = nat

record kcontext =
  c_edi :: "32 word"
  c_esi :: "32 word"
  c_ebx :: "32 word"
  c_ebp :: "32 word"
  c_eip :: "32 word"

record trapframe =
  tf_edi :: "32 word"
  tf_esi :: "32 word"
  tf_ebp :: "32 word"
  tf_oesp :: "32 word"
  tf_ebx :: "32 word"
  tf_edx :: "32 word"
  tf_ecx :: "32 word"
  tf_eax :: "32 word"
  tf_gs :: "16 word"
  tf_fs :: "16 word"
  tf_es :: "16 word"
  tf_ds :: "16 word"
  tf_trapno :: "32 word"
  tf_err :: "32 word"
  tf_eip :: "32 word"
  tf_cs :: "16 word"
  tf_eflags :: "32 word"
  tf_esp :: "32 word"
  tf_ss :: "16 word"

definition NPROC :: nat where "NPROC = 64"

section \<open>Operations outside proc.c\<close>

record 'k kops =
  o_kalloc :: "'k \<Rightarrow> addr \<times> 'k"                        \<comment> \<open>0 when out of memory\<close>
  o_kfree :: "addr \<Rightarrow> 'k \<Rightarrow> 'k result"
  o_copyuvm :: "addr \<Rightarrow> 32 word \<Rightarrow> 'k \<Rightarrow> (addr \<times> 'k) result"
  o_freevm :: "addr \<Rightarrow> 'k \<Rightarrow> 'k result"
  o_filedup :: "addr \<Rightarrow> 'k \<Rightarrow> 'k result"
  o_fileclose :: "addr \<Rightarrow> 'k \<Rightarrow> 'k result"
  o_idup :: "addr \<Rightarrow> 'k \<Rightarrow> 'k result"
  o_iput :: "addr \<Rightarrow> 'k \<Rightarrow> 'k result"                   \<comment> \<open>between \<^verbatim>\<open>begin_op\<close> and \<^verbatim>\<open>end_op\<close>\<close>
  o_setupkvm :: "'k \<Rightarrow> addr \<times> 'k"                     \<comment> \<open>0 when out of memory\<close>
  o_inituvm :: "addr \<Rightarrow> 'k \<Rightarrow> 'k result"              \<comment> \<open>loads \<^verbatim>\<open>initcode\<close> at address 0\<close>
  o_allocuvm :: "addr \<Rightarrow> 32 word \<Rightarrow> 32 word \<Rightarrow> 'k \<Rightarrow> (32 word \<times> 'k) result"
  o_deallocuvm :: "addr \<Rightarrow> 32 word \<Rightarrow> 32 word \<Rightarrow> 'k \<Rightarrow> (32 word \<times> 'k) result"
  o_namei :: "string \<Rightarrow> 'k \<Rightarrow> (addr \<times> 'k) result"
  o_trapret :: "32 word"
  o_forkret :: "32 word"

definition NOFILE :: nat where "NOFILE = 16"
definition KSTACKSIZE :: nat where "KSTACKSIZE = 4096"
definition sizeof_trapframe :: nat where "sizeof_trapframe = 76"
definition sizeof_context :: nat where "sizeof_context = 20"

section \<open>The first process\<close>

definition safestrcpy_name :: "string \<Rightarrow> string" where
  "safestrcpy_name t = take 15 t"

definition PGSIZE :: "32 word" where "PGSIZE = 4096"
definition SEG_UCODE :: "16 word" where "SEG_UCODE = 3"
definition SEG_UDATA :: "16 word" where "SEG_UDATA = 4"
definition DPL_USER :: "16 word" where "DPL_USER = 3"
definition FL_IF :: "32 word" where "FL_IF = 512"

text \<open>The trap frame that \<^verbatim>\<open>userinit\<close> builds for the first process.\<close>

definition init_tf :: trapframe where
  "init_tf = \<lparr>tf_edi = 0, tf_esi = 0, tf_ebp = 0, tf_oesp = 0, tf_ebx = 0, tf_edx = 0, tf_ecx = 0, tf_eax = 0,
     tf_gs = 0, tf_fs = 0, tf_es = or (push_bit 3 SEG_UDATA) DPL_USER, tf_ds = or (push_bit 3 SEG_UDATA) DPL_USER,
     tf_trapno = 0, tf_err = 0, tf_eip = 0, tf_cs = or (push_bit 3 SEG_UCODE) DPL_USER,
     tf_eflags = FL_IF, tf_esp = PGSIZE, tf_ss = or (push_bit 3 SEG_UDATA) DPL_USER\<rparr>"

end
