(* ===== verification/Mlfq_Queue.thy ===== *)
theory Mlfq_Queue
  imports Xv6_Machine
begin

text \<open>
  The intrusive doubly linked process queues of the MLFQ scheduler
  (\<^verbatim>\<open>project1_scheduler/queue.c\<close>, with the data of \<^verbatim>\<open>proc.h\<close>).

  A \<^verbatim>\<open>struct proc *\<close> is an index into \<^verbatim>\<open>ptable.proc\<close> or \<open>None\<close> for \<^verbatim>\<open>NULL\<close>; a
  \<^verbatim>\<open>struct queue *\<close> is an index into \<^verbatim>\<open>ptable.queue\<close> (an index of \<open>NQUEUE\<close> or more is the
  memory behind the array, and using it is \<open>OutOfBounds\<close>).  The process table is an explicit store,
  so the link fields of different processes alias as they do in the code.

  \<open>dseg\<close> says which list of processes the pointers spell; \<open>queue_inv\<close> says that the three queues
  are well formed; the locale \<open>proc_queue\<close> states the list contract that the scheduler
  relies on, and its interpretation at the end of the theory discharges it for the code.
\<close>

section \<open>Data (proc.h, param.h)\<close>

type_synonym procptr = "nat option"
type_synonym queueptr = "nat option"

text \<open>Sleep channels: the code uses addresses of kernel objects as channels.\<close>

datatype chan = NoChan | ChProc nat | ChTicks | ChAddr addr

text \<open>
  \<^verbatim>\<open>struct proc\<close>.  The trap frame and the context live on the kernel stack; the model keeps
  their addresses (\<open>p_tf\<close>, \<open>p_context\<close>) and their contents (\<open>p_tfval\<close>, \<open>p_ctxval\<close>, and the
  return address \<open>p_retaddr\<close> pushed between them).
\<close>

record proc =
  p_sz :: "32 word"
  p_pgdir :: addr
  p_kstack :: addr
  p_state :: procstate
  p_pid :: int
  p_parent :: procptr
  p_tf :: addr
  p_tfval :: trapframe
  p_retaddr :: "32 word"
  p_context :: addr
  p_ctxval :: kcontext
  p_chan :: chan
  p_killed :: bool
  p_ofile :: "addr list"
  p_cwd :: addr
  p_name :: string
  p_level :: int
  p_priority :: int
  p_prev :: procptr
  p_next :: procptr
  p_tq :: int
  p_queue :: queueptr

record queue =
  q_front :: procptr
  q_back :: procptr
  q_level :: int
  q_size :: int

record ptable =
  t_proc :: "nat \<Rightarrow> proc"
  t_queue :: "nat \<Rightarrow> queue"
  t_lockpid :: int

definition NQUEUE :: nat where "NQUEUE = 3"

abbreviation upd_proc :: "nat \<Rightarrow> (proc \<Rightarrow> proc) \<Rightarrow> 'a ptable_scheme \<Rightarrow> 'a ptable_scheme" where
  "upd_proc i f s \<equiv> s\<lparr>t_proc := (t_proc s)(i := f (t_proc s i))\<rparr>"

abbreviation upd_queue :: "nat \<Rightarrow> (queue \<Rightarrow> queue) \<Rightarrow> 'a ptable_scheme \<Rightarrow> 'a ptable_scheme" where
  "upd_queue i f s \<equiv> s\<lparr>t_queue := (t_queue s)(i := f (t_queue s i))\<rparr>"

section \<open>Operations (queue.c)\<close>

text \<open>
  The loops \<^verbatim>\<open>for(p = frontqueue(q); p; p = p->next)\<close> that stop at the first process with \<open>P\<close>.
  The fuel \<open>NPROC\<close> is exact: a walk of more steps through a table of \<open>NPROC\<close> entries has met a
  process twice and never ends.
\<close>

fun scan_queue :: "nat \<Rightarrow> (nat \<Rightarrow> bool) \<Rightarrow> 'a ptable_scheme \<Rightarrow> procptr \<Rightarrow> procptr result" where
  "scan_queue n P s None = Inr None"
| "scan_queue 0 P s (Some a) = Inl Diverge"
| "scan_queue (Suc n) P s (Some a) =
     (if P a then Inr (Some a) else scan_queue n P s (p_next (t_proc s a)))"

definition deref_queue :: "nat \<Rightarrow> 'a ptable_scheme \<Rightarrow> queue result" where
  "deref_queue qi s = (if qi < NQUEUE then Inr (t_queue s qi) else Inl OutOfBounds)"

definition frontqueue :: "nat \<Rightarrow> 'a ptable_scheme \<Rightarrow> procptr result" where
  "frontqueue qi s = rbind (deref_queue qi s) (\<lambda>q. Inr (q_front q))"

text \<open>
  The unlinking part of \<^verbatim>\<open>erasequeue\<close>, after the membership test: the four cases sole element,
  first, last and middle, in the order of the code.
\<close>

definition unlink_proc :: "nat \<Rightarrow> nat \<Rightarrow> 'a ptable_scheme \<Rightarrow> 'a ptable_scheme result" where
  "unlink_proc qi i s =
     (let q = t_queue s qi; p = t_proc s i; clr = upd_proc i (\<lambda>p. p\<lparr>p_prev := None, p_next := None\<rparr>) in
      if q_front q = q_back q then
        Inr (clr (upd_queue qi (\<lambda>q. q\<lparr>q_front := None, q_back := None\<rparr>) s))
      else if q_front q = Some i then
        (case p_next p of
           None \<Rightarrow> Inl NullDeref
         | Some n \<Rightarrow> Inr (clr (upd_proc n (\<lambda>p. p\<lparr>p_prev := None\<rparr>)
                            (upd_queue qi (\<lambda>q. q\<lparr>q_front := Some n\<rparr>) s))))
      else if q_back q = Some i then
        (case p_prev p of
           None \<Rightarrow> Inl NullDeref
         | Some m \<Rightarrow> Inr (clr (upd_proc m (\<lambda>p. p\<lparr>p_next := None\<rparr>)
                            (upd_queue qi (\<lambda>q. q\<lparr>q_back := Some m\<rparr>) s))))
      else
        (case (p_prev p, p_next p) of
           (Some m, Some n) \<Rightarrow>
             Inr (clr (upd_proc n (\<lambda>p. p\<lparr>p_prev := Some m\<rparr>) (upd_proc m (\<lambda>p. p\<lparr>p_next := Some n\<rparr>) s)))
         | _ \<Rightarrow> Inl (Panic (''should have prev and next'' @ [CHR 0x0A]))))"

definition erasequeue :: "queueptr \<Rightarrow> procptr \<Rightarrow> 'a ptable_scheme \<Rightarrow> 'a ptable_scheme result" where
  "erasequeue q p s =
     (case p of
        None \<Rightarrow> Inl NullDeref
      | Some i \<Rightarrow>
          if p_queue (t_proc s i) \<noteq> q then Inl (Panic ''erasequeue:'')
          else case q of
            None \<Rightarrow> Inr s
          | Some qi \<Rightarrow>
              rbind (frontqueue qi s) (\<lambda>f.
              rbind (scan_queue NPROC (\<lambda>a. a = i) s f) (\<lambda>found.
                if found = None then Inl (Panic (''not in queue'' @ [CHR 0x0A]))
                else unlink_proc qi i
                       (upd_queue qi (\<lambda>q. q\<lparr>q_size := q_size q - 1\<rparr>)
                          (upd_proc i (\<lambda>p. p\<lparr>p_queue := None, p_level := - 1\<rparr>) s)))))"

definition pushqueue :: "queueptr \<Rightarrow> procptr \<Rightarrow> 'a ptable_scheme \<Rightarrow> 'a ptable_scheme result" where
  "pushqueue q n s =
     (case (q, n) of
        (Some qi, Some i) \<Rightarrow>
          if p_queue (t_proc s i) \<noteq> None then Inl (Panic ''pushqueue'')
          else rbind (deref_queue qi s) (\<lambda>q.
            let s1 = upd_queue qi (\<lambda>q. q\<lparr>q_size := q_size q + 1\<rparr>)
                       (upd_proc i (\<lambda>p. p\<lparr>p_queue := Some qi, p_level := q_level q, p_prev := q_back q\<rparr>) s)
            in case q_back q of
                 None \<Rightarrow> Inr (upd_proc i (\<lambda>p. p\<lparr>p_prev := None, p_next := None\<rparr>)
                           (upd_queue qi (\<lambda>q. q\<lparr>q_front := Some i, q_back := Some i\<rparr>) s1))
               | Some b \<Rightarrow> Inr (upd_queue qi (\<lambda>q. q\<lparr>q_back := Some i\<rparr>)
                           (upd_proc i (\<lambda>p. p\<lparr>p_next := None\<rparr>)
                              (upd_proc b (\<lambda>p. p\<lparr>p_next := Some i\<rparr>) s1))))
      | _ \<Rightarrow> Inr s)"

definition popqueue :: "nat \<Rightarrow> 'a ptable_scheme \<Rightarrow> (procptr \<times> 'a ptable_scheme) result" where
  "popqueue qi s =
     rbind (deref_queue qi s) (\<lambda>q.
       case q_front q of
         None \<Rightarrow> Inr (None, s)
       | Some r \<Rightarrow>
           let s1 = upd_queue qi (\<lambda>q. q\<lparr>q_size := q_size q - 1\<rparr>)
                      (upd_proc r (\<lambda>p. p\<lparr>p_queue := None, p_level := - 1\<rparr>) s);
               clr = upd_proc r (\<lambda>p. p\<lparr>p_prev := None, p_next := None\<rparr>)
           in if q_front q = q_back q
              then Inr (Some r, clr (upd_queue qi (\<lambda>q. q\<lparr>q_front := None, q_back := None\<rparr>) s1))
              else (case p_next (t_proc s1 r) of
                      None \<Rightarrow> Inl NullDeref
                    | Some n \<Rightarrow> Inr (Some r, clr (upd_proc n (\<lambda>p. p\<lparr>p_prev := None\<rparr>)
                                     (upd_queue qi (\<lambda>q. q\<lparr>q_front := Some n\<rparr>) s1)))))"

definition pushfrontqueue :: "queueptr \<Rightarrow> procptr \<Rightarrow> 'a ptable_scheme \<Rightarrow> 'a ptable_scheme result" where
  "pushfrontqueue q n s =
     (case (q, n) of
        (Some qi, Some i) \<Rightarrow>
          if p_queue (t_proc s i) \<noteq> None then Inl (Panic ''pushfrontqueue'')
          else rbind (deref_queue qi s) (\<lambda>q.
            let s1 = upd_proc i (\<lambda>p. p\<lparr>p_queue := Some qi, p_level := q_level q\<rparr>) s
            in case q_front q of
                 None \<Rightarrow> Inr (upd_proc i (\<lambda>p. p\<lparr>p_prev := None, p_next := None\<rparr>)
                           (upd_queue qi (\<lambda>q. q\<lparr>q_front := Some i, q_back := Some i\<rparr>) s1))
               | Some f \<Rightarrow>
                   let s2 = upd_queue qi (\<lambda>q. q\<lparr>q_size := q_size q + 1\<rparr>) s1
                   in if q_front q = q_back q
                      then Inr (upd_proc f (\<lambda>p. p\<lparr>p_next := None\<rparr>)
                             (upd_proc i (\<lambda>p. p\<lparr>p_prev := None\<rparr>)
                             (upd_proc f (\<lambda>p. p\<lparr>p_prev := Some i\<rparr>)
                             (upd_proc i (\<lambda>p. p\<lparr>p_next := Some f\<rparr>)
                             (upd_queue qi (\<lambda>q. q\<lparr>q_front := Some i\<rparr>) s2)))))
                      else Inr (upd_proc f (\<lambda>p. p\<lparr>p_prev := Some i\<rparr>)
                             (upd_queue qi (\<lambda>q. q\<lparr>q_front := Some i\<rparr>)
                             (upd_proc i (\<lambda>p. p\<lparr>p_prev := None, p_next := Some f\<rparr>) s2))))
      | _ \<Rightarrow> Inr s)"

section \<open>What the links spell\<close>

text \<open>
  \<open>dseg h pr a xs la nx\<close>: in the process store \<open>h\<close>, following \<open>p_next\<close> from \<open>a\<close> visits exactly \<open>xs\<close>
  and arrives at \<open>nx\<close>; the \<open>p_prev\<close> fields point back, the first one to \<open>pr\<close>; \<open>la\<close> is the last process.
\<close>

fun dseg :: "(nat \<Rightarrow> proc) \<Rightarrow> procptr \<Rightarrow> procptr \<Rightarrow> nat list \<Rightarrow> procptr \<Rightarrow> procptr \<Rightarrow> bool" where
  "dseg h pr a [] la nx \<longleftrightarrow> a = nx \<and> la = pr"
| "dseg h pr a (x # xs) la nx \<longleftrightarrow>
     a = Some x \<and> p_prev (h x) = pr \<and> dseg h (Some x) (p_next (h x)) xs la nx"

lemma dseg_append [simp]:
  "dseg h pr a (xs @ ys) la nx \<longleftrightarrow> (\<exists>l m. dseg h pr a xs l m \<and> dseg h l m ys la nx)"
  by (induction xs arbitrary: pr a) auto

lemma dseg_cong:
  assumes "\<And>x. x \<in> set xs \<Longrightarrow> p_prev (h' x) = p_prev (h x) \<and> p_next (h' x) = p_next (h x)"
  shows "dseg h' pr a xs la nx = dseg h pr a xs la nx"
  using assms by (induction xs arbitrary: pr a) auto

lemma dseg_upd_other [simp]:
  "x \<notin> set xs \<Longrightarrow> dseg (h(x := p)) pr a xs la nx = dseg h pr a xs la nx"
  by (rule dseg_cong) auto

lemma dseg_upd_same [simp]:
  "p_prev p = p_prev (h x) \<Longrightarrow> p_next p = p_next (h x) \<Longrightarrow>
     dseg (h(x := p)) pr a xs la nx = dseg h pr a xs la nx"
  by (rule dseg_cong) auto

lemma dseg_last: "dseg h pr a xs la nx \<Longrightarrow> la = (if xs = [] then pr else Some (last xs))"
  by (induction xs arbitrary: pr a) auto

lemma dseg_hd: "dseg h pr a xs la nx \<Longrightarrow> a = (if xs = [] then nx else Some (hd xs))"
  by (cases xs) auto

lemma dseg_unique: "dseg h pr a xs la None \<Longrightarrow> dseg h pr a ys lb None \<Longrightarrow> xs = ys"
proof (induction xs arbitrary: pr a ys)
  case Nil
  then show ?case by (cases ys) auto
next
  case (Cons x xs)
  then show ?case by (cases ys) auto
qed

lemma scan_queue_dseg:
  "dseg (t_proc s) pr a xs la None \<Longrightarrow> length xs \<le> n \<Longrightarrow> scan_queue n P s a = Inr (first_index P xs)"
proof (induction xs arbitrary: n pr a)
  case Nil
  then show ?case by simp
next
  case (Cons x xs)
  then obtain m where "n = Suc m" by (cases n) auto
  with Cons show ?case by auto
qed

definition qseg :: "'a ptable_scheme \<Rightarrow> nat \<Rightarrow> nat list \<Rightarrow> bool" where
  "qseg s qi xs \<longleftrightarrow> dseg (t_proc s) None (q_front (t_queue s qi)) xs (q_back (t_queue s qi)) None"

lemma qseg_front: "qseg s qi xs \<Longrightarrow> q_front (t_queue s qi) = (if xs = [] then None else Some (hd xs))"
  unfolding qseg_def by (rule dseg_hd)

lemma qseg_back: "qseg s qi xs \<Longrightarrow> q_back (t_queue s qi) = (if xs = [] then None else Some (last xs))"
  unfolding qseg_def by (rule dseg_last)

lemma qseg_cong:
  assumes "\<And>x. x \<in> set xs \<Longrightarrow>
      p_prev (t_proc t x) = p_prev (t_proc s x) \<and> p_next (t_proc t x) = p_next (t_proc s x)"
    and "q_front (t_queue t qi) = q_front (t_queue s qi)"
    and "q_back (t_queue t qi) = q_back (t_queue s qi)"
  shows "qseg t qi xs = qseg s qi xs"
  unfolding qseg_def assms(2,3) by (rule dseg_cong) (rule assms(1))

section \<open>Effect of the operations on one queue\<close>

text \<open>
  \<open>links A qi i s s'\<close>: only link fields of the processes in \<open>A\<close>, the membership fields of \<open>i\<close> and
  the ends of queue \<open>qi\<close> differ between \<open>s\<close> and \<open>s'\<close>.
\<close>

definition strip :: "proc \<Rightarrow> proc" where
  "strip p = p\<lparr>p_prev := None, p_next := None, p_queue := None, p_level := 0\<rparr>"

definition same_core :: "'a ptable_scheme \<Rightarrow> 'a ptable_scheme \<Rightarrow> bool" where
  "same_core s s' \<longleftrightarrow> (\<forall>j. strip (t_proc s' j) = strip (t_proc s j))
     \<and> t_lockpid s' = t_lockpid s \<and> ptable.more s' = ptable.more s"

definition links :: "nat set \<Rightarrow> nat \<Rightarrow> nat \<Rightarrow> 'a ptable_scheme \<Rightarrow> 'a ptable_scheme \<Rightarrow> bool" where
  "links A qi i s s' \<longleftrightarrow> same_core s s'
     \<and> (\<forall>j. j \<notin> A \<longrightarrow> t_proc s' j = t_proc s j)
     \<and> (\<forall>j. j \<noteq> i \<longrightarrow> p_queue (t_proc s' j) = p_queue (t_proc s j) \<and> p_level (t_proc s' j) = p_level (t_proc s j))
     \<and> (\<forall>k. k \<noteq> qi \<longrightarrow> t_queue s' k = t_queue s k)
     \<and> (\<forall>k. q_level (t_queue s' k) = q_level (t_queue s k))"

lemmas link_defs = qseg_def links_def same_core_def strip_def

text \<open>The four unlinking cases, each on the list that the queue spells.\<close>

lemma unlink_sole:
  assumes "qseg s qi [i]"
  shows "\<exists>s'. unlink_proc qi i s = Inr s' \<and> qseg s' qi [] \<and> links {i} qi i s s'
    \<and> p_queue (t_proc s' i) = p_queue (t_proc s i) \<and> p_level (t_proc s' i) = p_level (t_proc s i)"
  using assms by (simp add: link_defs unlink_proc_def Let_def)

lemma unlink_first:
  assumes "qseg s qi (i # n # zs)" "distinct (i # n # zs)"
  shows "\<exists>s'. unlink_proc qi i s = Inr s' \<and> qseg s' qi (n # zs) \<and> links (set (i # n # zs)) qi i s s'
    \<and> p_queue (t_proc s' i) = p_queue (t_proc s i) \<and> p_level (t_proc s' i) = p_level (t_proc s i)"
proof -
  have "q_back (t_queue s qi) \<noteq> Some i"
    using qseg_back [OF assms(1)] assms(2) by (auto split: if_splits)
  with assms show ?thesis
    by (auto simp: link_defs unlink_proc_def Let_def)
qed

lemma unlink_last:
  assumes "qseg s qi (ys @ [m, i])" "distinct (ys @ [m, i])"
  shows "\<exists>s'. unlink_proc qi i s = Inr s' \<and> qseg s' qi (ys @ [m]) \<and> links (set (ys @ [m, i])) qi i s s'
    \<and> p_queue (t_proc s' i) = p_queue (t_proc s i) \<and> p_level (t_proc s' i) = p_level (t_proc s i)"
proof -
  have "q_front (t_queue s qi) \<noteq> Some i"
    using qseg_front [OF assms(1)] assms(2) by (cases ys) auto
  with assms show ?thesis
    by (auto simp: link_defs unlink_proc_def Let_def)
qed

lemma unlink_middle:
  assumes "qseg s qi (ys @ [m, i, n] @ zs)" "distinct (ys @ [m, i, n] @ zs)"
  shows "\<exists>s'. unlink_proc qi i s = Inr s' \<and> qseg s' qi (ys @ [m, n] @ zs)
    \<and> links (set (ys @ [m, i, n] @ zs)) qi i s s'
    \<and> p_queue (t_proc s' i) = p_queue (t_proc s i) \<and> p_level (t_proc s' i) = p_level (t_proc s i)"
proof -
  have f: "q_front (t_queue s qi) = Some (hd (ys @ [m]))" and b: "q_back (t_queue s qi) = Some (last (n # zs))"
    using qseg_front [OF assms(1)] qseg_back [OF assms(1)] by (auto simp: hd_append)
  have "hd (ys @ [m]) \<in> set (ys @ [m])" "last (n # zs) \<in> set (n # zs)"
    by (rule hd_in_set, simp, rule last_in_set, simp)
  with assms(2) have "hd (ys @ [m]) \<noteq> i" "last (n # zs) \<noteq> i" "hd (ys @ [m]) \<noteq> last (n # zs)"
    by auto
  with f b assms show ?thesis
    by (auto simp: link_defs unlink_proc_def Let_def)
qed

lemma unlink_proc_qseg:
  assumes "qseg s qi (ys @ i # zs)" "distinct (ys @ i # zs)"
  shows "\<exists>s'. unlink_proc qi i s = Inr s' \<and> qseg s' qi (ys @ zs) \<and> links (set (ys @ i # zs)) qi i s s'
    \<and> p_queue (t_proc s' i) = p_queue (t_proc s i) \<and> p_level (t_proc s' i) = p_level (t_proc s i)"
proof (cases ys rule: rev_cases)
  case Nil
  show ?thesis
  proof (cases zs)
    case Nil
    with \<open>ys = []\<close> assms unlink_sole [of s qi i] show ?thesis by simp
  next
    case (Cons n zs')
    with \<open>ys = []\<close> assms unlink_first [of s qi i n zs'] show ?thesis by simp
  qed
next
  case (snoc ys' m)
  show ?thesis
  proof (cases zs)
    case Nil
    with snoc assms unlink_last [of s qi ys' m i] show ?thesis by simp
  next
    case (Cons n zs')
    with snoc assms unlink_middle [of s qi ys' m i n zs'] show ?thesis by simp
  qed
qed

text \<open>The linking cases: at the back (\<^verbatim>\<open>pushqueue\<close>) and at the front (\<^verbatim>\<open>pushfrontqueue\<close>).\<close>

lemma pushqueue_qseg:
  assumes "qseg s qi xs" "i \<notin> set xs" "distinct xs" "p_queue (t_proc s i) = None" "qi < NQUEUE"
  shows "\<exists>s'. pushqueue (Some qi) (Some i) s = Inr s' \<and> qseg s' qi (xs @ [i])
    \<and> links (insert i (set xs)) qi i s s'
    \<and> p_queue (t_proc s' i) = Some qi \<and> p_level (t_proc s' i) = q_level (t_queue s qi)"
proof (cases xs rule: rev_cases)
  case Nil
  with assms show ?thesis
    by (auto simp: link_defs pushqueue_def deref_queue_def)
next
  case (snoc ys b)
  with assms show ?thesis
    by (auto simp: link_defs pushqueue_def deref_queue_def)
qed

lemma pushfrontqueue_qseg:
  assumes "qseg s qi xs" "i \<notin> set xs" "distinct xs" "p_queue (t_proc s i) = None" "qi < NQUEUE"
  shows "\<exists>s'. pushfrontqueue (Some qi) (Some i) s = Inr s' \<and> qseg s' qi (i # xs)
    \<and> links (insert i (set xs)) qi i s s'
    \<and> p_queue (t_proc s' i) = Some qi \<and> p_level (t_proc s' i) = q_level (t_queue s qi)"
proof (cases xs)
  case Nil
  with assms show ?thesis
    by (auto simp: link_defs pushfrontqueue_def deref_queue_def)
next
  case (Cons f ys)
  show ?thesis
  proof (cases "ys = []")
    case True
    with Cons assms show ?thesis
      by (auto simp: link_defs pushfrontqueue_def deref_queue_def)
  next
    case False
    with Cons assms(1,3) have "q_back (t_queue s qi) \<noteq> Some f"
      using qseg_back [OF assms(1)] by (auto split: if_splits)
    with Cons assms show ?thesis
      by (auto simp: link_defs pushfrontqueue_def deref_queue_def)
  qed
qed

section \<open>The three queues\<close>

fun walk :: "nat \<Rightarrow> 'a ptable_scheme \<Rightarrow> procptr \<Rightarrow> nat list" where
  "walk n s None = []"
| "walk 0 s (Some a) = []"
| "walk (Suc n) s (Some a) = a # walk n s (p_next (t_proc s a))"

definition qlist :: "'a ptable_scheme \<Rightarrow> nat \<Rightarrow> nat list" where
  "qlist s k = walk NPROC s (q_front (t_queue s k))"

lemma walk_dseg: "dseg (t_proc s) pr a xs la None \<Longrightarrow> length xs \<le> n \<Longrightarrow> walk n s a = xs"
proof (induction xs arbitrary: n pr a)
  case Nil
  then show ?case by simp
next
  case (Cons x xs)
  then obtain m where "n = Suc m" by (cases n) auto
  with Cons show ?case by auto
qed

text \<open>
  \<open>queue_ok s qs\<close>: queue \<open>k\<close> spells \<open>qs k\<close> without repetition, its members are table entries that
  record \<open>k\<close> as their queue and level, and every process that records a queue is in it.
\<close>

definition queue_ok :: "'a ptable_scheme \<Rightarrow> (nat \<Rightarrow> nat list) \<Rightarrow> bool" where
  "queue_ok s qs \<longleftrightarrow>
     (\<forall>k<NQUEUE. qseg s k (qs k) \<and> distinct (qs k) \<and> q_level (t_queue s k) = int k \<and>
        (\<forall>j\<in>set (qs k). j < NPROC \<and> p_queue (t_proc s j) = Some k \<and> p_level (t_proc s j) = int k)) \<and>
     (\<forall>j<NPROC. case p_queue (t_proc s j) of None \<Rightarrow> True | Some k \<Rightarrow> k < NQUEUE \<and> j \<in> set (qs k))"

definition queue_inv :: "'a ptable_scheme \<Rightarrow> bool" where
  "queue_inv s \<longleftrightarrow> queue_ok s (qlist s)"

lemma queue_okD:
  assumes "queue_ok s qs" "k < NQUEUE"
  shows "qseg s k (qs k)" "distinct (qs k)" "q_level (t_queue s k) = int k"
    "j \<in> set (qs k) \<Longrightarrow> j < NPROC \<and> p_queue (t_proc s j) = Some k \<and> p_level (t_proc s j) = int k"
  using assms by (auto simp: queue_ok_def)

lemma queue_ok_mem:
  "queue_ok s qs \<Longrightarrow> j < NPROC \<Longrightarrow> p_queue (t_proc s j) = Some k \<longleftrightarrow> k < NQUEUE \<and> j \<in> set (qs k)"
proof
  assume "queue_ok s qs" "j < NPROC" "p_queue (t_proc s j) = Some k"
  then show "k < NQUEUE \<and> j \<in> set (qs k)"
    by (force simp: queue_ok_def)
next
  assume "queue_ok s qs" "j < NPROC" "k < NQUEUE \<and> j \<in> set (qs k)"
  then show "p_queue (t_proc s j) = Some k"
    using queue_okD(4) by blast
qed

lemma queue_ok_disjoint:
  "queue_ok s qs \<Longrightarrow> k < NQUEUE \<Longrightarrow> k' < NQUEUE \<Longrightarrow> j \<in> set (qs k) \<Longrightarrow> j \<in> set (qs k') \<Longrightarrow> k = k'"
  by (metis option.inject queue_okD(4))

lemma queue_ok_length:
  assumes "queue_ok s qs" "k < NQUEUE"
  shows "length (qs k) \<le> NPROC"
proof -
  have "set (qs k) \<subseteq> {..<NPROC}" using queue_okD(4) [OF assms] by auto
  then have "card (set (qs k)) \<le> NPROC" using card_mono [of "{..<NPROC}"] by fastforce
  then show ?thesis using queue_okD(2) [OF assms] by (simp add: distinct_card)
qed

lemma queue_ok_qlist:
  assumes "queue_ok s qs" "k < NQUEUE"
  shows "qlist s k = qs k"
proof -
  have "dseg (t_proc s) None (q_front (t_queue s k)) (qs k) (q_back (t_queue s k)) None"
    using queue_okD(1) [OF assms] by (simp add: qseg_def)
  then show ?thesis
    unfolding qlist_def by (rule walk_dseg) (rule queue_ok_length [OF assms])
qed

lemma queue_ok_mono:
  assumes "queue_ok s qs" and eq: "\<And>k. k < NQUEUE \<Longrightarrow> qs' k = qs k"
  shows "queue_ok s qs'"
proof -
  have "case p_queue (t_proc s j) of None \<Rightarrow> True | Some k \<Rightarrow> k < NQUEUE \<and> j \<in> set (qs' k)"
    if "j < NPROC" for j
  proof (cases "p_queue (t_proc s j)")
    case (Some k)
    with queue_ok_mem [OF assms(1) that, of k] eq [of k] show ?thesis by simp
  qed simp
  then show ?thesis using queue_okD [OF assms(1)] eq by (simp add: queue_ok_def)
qed

lemma queue_ok_inv: "queue_ok s qs \<Longrightarrow> queue_inv s"
  unfolding queue_inv_def using queue_ok_mono queue_ok_qlist by blast

lemma queue_ok_update:
  assumes ok: "queue_ok s qs" and k: "k < NQUEUE" and i: "i < NPROC"
    and l: "links A k i s s'" and A: "A \<subseteq> insert i (set (qs k))"
    and other: "\<And>k'. k' < NQUEUE \<Longrightarrow> k' \<noteq> k \<Longrightarrow> i \<notin> set (qs k')"
    and new: "qseg s' k xs" "distinct xs" "set xs - {i} = set (qs k) - {i}"
    and own: "if i \<in> set xs then p_queue (t_proc s' i) = Some k \<and> p_level (t_proc s' i) = int k
              else p_queue (t_proc s' i) = None"
  shows "queue_ok s' (qs(k := xs))"
proof -
  have fr: "j \<notin> A \<Longrightarrow> t_proc s' j = t_proc s j"
    "j \<noteq> i \<Longrightarrow> p_queue (t_proc s' j) = p_queue (t_proc s j) \<and> p_level (t_proc s' j) = p_level (t_proc s j)"
    "k' \<noteq> k \<Longrightarrow> t_queue s' k' = t_queue s k'" "q_level (t_queue s' k') = q_level (t_queue s k')" for j k'
    using l by (auto simp: links_def)
  have "qseg s' k' (qs k')" if "k' < NQUEUE" "k' \<noteq> k" for k'
  proof -
    have "x \<notin> A" if "x \<in> set (qs k')" for x
      using A that other queue_ok_disjoint [OF ok \<open>k' < NQUEUE\<close> k] \<open>k' \<noteq> k\<close> \<open>k' < NQUEUE\<close> by blast
    then have "qseg s' k' (qs k') = qseg s k' (qs k')"
      by (intro qseg_cong) (auto simp: fr \<open>k' \<noteq> k\<close>)
    then show ?thesis using queue_okD(1) [OF ok \<open>k' < NQUEUE\<close>] by simp
  qed
  moreover have "j < NPROC \<and> p_queue (t_proc s' j) = Some k' \<and> p_level (t_proc s' j) = int k'"
    if "k' < NQUEUE" "j \<in> set ((qs(k := xs)) k')" for j k'
    using that other own i queue_okD(4) [OF ok \<open>k' < NQUEUE\<close>, of j] fr(2) [of j] new(3)
    by (cases "j = i"; cases "k' = k") (auto split: if_splits)
  moreover have "case p_queue (t_proc s' j) of None \<Rightarrow> True | Some k' \<Rightarrow> k' < NQUEUE \<and> j \<in> set ((qs(k := xs)) k')"
    if "j < NPROC" for j
    using that own k queue_ok_mem [OF ok that] fr(2) [of j] new(3)
    by (cases "j = i") (auto split: option.splits if_splits)
  ultimately show ?thesis
    using new(1,2) queue_okD(2,3) [OF ok] fr(4) by (auto simp: queue_ok_def)
qed

section \<open>The operations on the three queues\<close>

text \<open>
  The list contract of each operation: it does not fail, and it changes exactly one queue list.
  \<open>same_core\<close> adds that nothing outside the link fields is touched.
\<close>

lemma links_core: "links A k i s s' \<Longrightarrow> same_core s s'"
  by (simp add: links_def)

lemma same_core_trans: "same_core s s' \<Longrightarrow> same_core s' s'' \<Longrightarrow> same_core s s''"
  by (simp add: same_core_def)

lemma same_core_refl [simp]: "same_core s s"
  by (simp add: same_core_def)

lemma erasequeue_ok:
  assumes ok: "queue_ok s qs" and k: "k < NQUEUE" and mem: "i \<in> set (qs k)"
  shows "\<exists>s'. erasequeue (Some k) (Some i) s = Inr s' \<and> queue_ok s' (qs(k := remove1 i (qs k))) \<and> same_core s s'"
proof -
  note kD = queue_okD [OF ok k]
  obtain ys zs where xs: "qs k = ys @ i # zs" using mem by (meson split_list)
  let ?s = "upd_queue k (\<lambda>q. q\<lparr>q_size := q_size q - 1\<rparr>)
    (upd_proc i (\<lambda>p. p\<lparr>p_queue := None, p_level := - 1\<rparr>) s)"
  have "qseg ?s k (ys @ i # zs) = qseg s k (ys @ i # zs)"
    by (rule qseg_cong) auto
  then obtain s' where s': "unlink_proc k i ?s = Inr s'" "qseg s' k (ys @ zs)"
      "links (set (ys @ i # zs)) k i ?s s'" "p_queue (t_proc s' i) = None"
    using unlink_proc_qseg [of ?s k ys i zs] kD(1,2) xs by auto
  have l: "links (set (ys @ i # zs)) k i s s'"
    using s'(3) by (auto simp: links_def same_core_def strip_def)
  have "scan_queue NPROC (\<lambda>a. a = i) s (q_front (t_queue s k)) = Inr (first_index (\<lambda>a. a = i) (qs k))"
    using kD(1) queue_ok_length [OF ok k] unfolding qseg_def by (rule scan_queue_dseg)
  moreover have "first_index (\<lambda>a. a = i) (qs k) \<noteq> None" using mem by auto
  ultimately have "erasequeue (Some k) (Some i) s = Inr s'"
    using s'(1) kD(4) [OF mem] k by (simp add: erasequeue_def frontqueue_def deref_queue_def)
  moreover have "queue_ok s' (qs(k := ys @ zs))"
    by (rule queue_ok_update [OF ok k _ l]) (use kD xs mem s'(2,4) queue_ok_disjoint [OF ok k] in auto)
  ultimately show ?thesis using xs kD(2) links_core [OF l] by auto
qed

lemma pushqueue_ok:
  assumes ok: "queue_ok s qs" and k: "k < NQUEUE" and i: "i < NPROC" "p_queue (t_proc s i) = None"
  shows "\<exists>s'. pushqueue (Some k) (Some i) s = Inr s' \<and> queue_ok s' (qs(k := qs k @ [i])) \<and> same_core s s'"
proof -
  note kD = queue_okD [OF ok k]
  have new: "i \<notin> set (qs k')" if "k' < NQUEUE" for k'
    using queue_okD(4) [OF ok that, of i] i(2) by auto
  obtain s' where s': "pushqueue (Some k) (Some i) s = Inr s'" "qseg s' k (qs k @ [i])"
      "links (insert i (set (qs k))) k i s s'" "p_queue (t_proc s' i) = Some k"
      "p_level (t_proc s' i) = int k"
    using pushqueue_qseg [OF kD(1) new [OF k] kD(2) i(2) k] kD(3) by auto
  have "queue_ok s' (qs(k := qs k @ [i]))"
    by (rule queue_ok_update [OF ok k i(1) s'(3)]) (use kD s' new [OF k] new in auto)
  with s'(1) links_core [OF s'(3)] show ?thesis by blast
qed

lemma pushfrontqueue_ok:
  assumes ok: "queue_ok s qs" and k: "k < NQUEUE" and i: "i < NPROC" "p_queue (t_proc s i) = None"
  shows "\<exists>s'. pushfrontqueue (Some k) (Some i) s = Inr s' \<and> queue_ok s' (qs(k := i # qs k)) \<and> same_core s s'"
proof -
  note kD = queue_okD [OF ok k]
  have new: "i \<notin> set (qs k')" if "k' < NQUEUE" for k'
    using queue_okD(4) [OF ok that, of i] i(2) by auto
  obtain s' where s': "pushfrontqueue (Some k) (Some i) s = Inr s'" "qseg s' k (i # qs k)"
      "links (insert i (set (qs k))) k i s s'" "p_queue (t_proc s' i) = Some k"
      "p_level (t_proc s' i) = int k"
    using pushfrontqueue_qseg [OF kD(1) new [OF k] kD(2) i(2) k] kD(3) by auto
  have "queue_ok s' (qs(k := i # qs k))"
    by (rule queue_ok_update [OF ok k i(1) s'(3)]) (use kD s' new [OF k] new in auto)
  with s'(1) links_core [OF s'(3)] show ?thesis by blast
qed

text \<open>\<^verbatim>\<open>popqueue\<close> is \<^verbatim>\<open>erasequeue\<close> of the front element, without the search.\<close>

lemma popqueue_erase:
  assumes "queue_ok s qs" "k < NQUEUE" "qs k = i # xs"
  shows "popqueue k s = rbind (erasequeue (Some k) (Some i) s) (\<lambda>s'. Inr (Some i, s'))"
proof -
  note kD = queue_okD [OF assms(1,2)]
  have f: "q_front (t_queue s k) = Some i" and q: "p_queue (t_proc s i) = Some k"
    using qseg_front [OF kD(1)] kD(4) [of i] assms(3) by auto
  obtain n where "NPROC = Suc n" by (simp add: NPROC_def)
  then have "scan_queue NPROC (\<lambda>a. a = i) s (Some i) = Inr (Some i)"
    by (rule ssubst) simp
  with f q assms(2) show ?thesis
    by (simp add: popqueue_def erasequeue_def frontqueue_def deref_queue_def unlink_proc_def Let_def
        split: option.split)
qed

lemma popqueue_empty:
  "queue_ok s qs \<Longrightarrow> k < NQUEUE \<Longrightarrow> qs k = [] \<Longrightarrow> popqueue k s = Inr (None, s)"
  using qseg_front [OF queue_okD(1)] by (fastforce simp: popqueue_def deref_queue_def)

section \<open>The contract of the queues\<close>

text \<open>
  What the scheduler needs of the queues, stated over any store: \<open>ok s qs\<close> relates a store to its
  queue lists and \<open>core s s'\<close> says that only link fields differ.  The moves that the scheduler makes
  (take a process out of its queue, put it at the back or at the front of another) are derived here
  once.
\<close>

definition q_move :: "nat \<Rightarrow> nat \<Rightarrow> nat \<Rightarrow> (nat \<Rightarrow> nat list) \<Rightarrow> (nat \<Rightarrow> nat list)" where
  "q_move k k' i qs = (let qs1 = qs(k := remove1 i (qs k)) in qs1(k' := qs1 k' @ [i]))"

definition q_move_front :: "nat \<Rightarrow> nat \<Rightarrow> nat \<Rightarrow> (nat \<Rightarrow> nat list) \<Rightarrow> (nat \<Rightarrow> nat list)" where
  "q_move_front k k' i qs = (let qs1 = qs(k := remove1 i (qs k)) in qs1(k' := i # qs1 k'))"

locale proc_queue =
  fixes ok :: "'s \<Rightarrow> (nat \<Rightarrow> nat list) \<Rightarrow> bool"
    and core :: "'s \<Rightarrow> 's \<Rightarrow> bool"
    and erase push pushf :: "nat \<Rightarrow> nat \<Rightarrow> 's \<Rightarrow> 's result"
  assumes erase_law: "ok s qs \<Longrightarrow> k < NQUEUE \<Longrightarrow> i \<in> set (qs k) \<Longrightarrow>
      \<exists>s'. erase k i s = Inr s' \<and> ok s' (qs(k := remove1 i (qs k))) \<and> core s s'"
    and push_law: "ok s qs \<Longrightarrow> k < NQUEUE \<Longrightarrow> i < NPROC \<Longrightarrow> (\<And>k. k < NQUEUE \<Longrightarrow> i \<notin> set (qs k)) \<Longrightarrow>
      \<exists>s'. push k i s = Inr s' \<and> ok s' (qs(k := qs k @ [i])) \<and> core s s'"
    and pushf_law: "ok s qs \<Longrightarrow> k < NQUEUE \<Longrightarrow> i < NPROC \<Longrightarrow> (\<And>k. k < NQUEUE \<Longrightarrow> i \<notin> set (qs k)) \<Longrightarrow>
      \<exists>s'. pushf k i s = Inr s' \<and> ok s' (qs(k := i # qs k)) \<and> core s s'"
    and ok_distinct: "ok s qs \<Longrightarrow> k < NQUEUE \<Longrightarrow> distinct (qs k)"
    and ok_bound: "ok s qs \<Longrightarrow> k < NQUEUE \<Longrightarrow> i \<in> set (qs k) \<Longrightarrow> i < NPROC"
    and ok_sole: "ok s qs \<Longrightarrow> k < NQUEUE \<Longrightarrow> k' < NQUEUE \<Longrightarrow> i \<in> set (qs k) \<Longrightarrow> i \<in> set (qs k') \<Longrightarrow> k = k'"
    and core_trans: "core s s' \<Longrightarrow> core s' s'' \<Longrightarrow> core s s''"
begin

lemma erased_absent:
  assumes "ok s qs" "k < NQUEUE" "i \<in> set (qs k)" "k' < NQUEUE"
  shows "i \<notin> set ((qs(k := remove1 i (qs k))) k')"
proof (cases "k' = k")
  case True
  with ok_distinct [OF assms(1,2)] show ?thesis by simp
next
  case False
  with ok_sole [OF assms(1,2,4,3)] show ?thesis by auto
qed

lemma move:
  assumes "ok s qs" "k < NQUEUE" "k' < NQUEUE" "i \<in> set (qs k)"
  shows "\<exists>s'. rbind (erase k i s) (push k' i) = Inr s' \<and> ok s' (q_move k k' i qs) \<and> core s s'"
proof -
  obtain s1 where s1: "erase k i s = Inr s1" "ok s1 (qs(k := remove1 i (qs k)))" "core s s1"
    using erase_law [OF assms(1,2,4)] by blast
  obtain s2 where "push k' i s1 = Inr s2" "ok s2 (q_move k k' i qs)" "core s1 s2"
    using push_law [OF s1(2) assms(3) ok_bound [OF assms(1,2,4)] erased_absent [OF assms(1,2,4)]]
    unfolding q_move_def Let_def by blast
  with s1 core_trans show ?thesis by auto
qed

lemma move_front:
  assumes "ok s qs" "k < NQUEUE" "k' < NQUEUE" "i \<in> set (qs k)"
  shows "\<exists>s'. rbind (erase k i s) (pushf k' i) = Inr s' \<and> ok s' (q_move_front k k' i qs) \<and> core s s'"
proof -
  obtain s1 where s1: "erase k i s = Inr s1" "ok s1 (qs(k := remove1 i (qs k)))" "core s s1"
    using erase_law [OF assms(1,2,4)] by blast
  obtain s2 where "pushf k' i s1 = Inr s2" "ok s2 (q_move_front k k' i qs)" "core s1 s2"
    using pushf_law [OF s1(2) assms(3) ok_bound [OF assms(1,2,4)] erased_absent [OF assms(1,2,4)]]
    unfolding q_move_front_def Let_def by blast
  with s1 core_trans show ?thesis by auto
qed

end

text \<open>The code's queues satisfy the contract.\<close>

lemma queue_ok_absent:
  assumes "queue_ok s qs" "i < NPROC" "\<And>k. k < NQUEUE \<Longrightarrow> i \<notin> set (qs k)"
  shows "p_queue (t_proc s i) = None"
proof (cases "p_queue (t_proc s i)")
  case (Some k)
  with queue_ok_mem [OF assms(1,2), of k] assms(3) show ?thesis by blast
qed simp

interpretation pq: proc_queue "queue_ok :: 'a ptable_scheme \<Rightarrow> _" same_core
  "\<lambda>k i. erasequeue (Some k) (Some i)" "\<lambda>k i. pushqueue (Some k) (Some i)"
  "\<lambda>k i. pushfrontqueue (Some k) (Some i)"
proof unfold_locales
  fix s :: "'a ptable_scheme" and qs k i
  assume ok: "queue_ok s qs" and k: "k < NQUEUE"
  show "i \<in> set (qs k) \<Longrightarrow> \<exists>s'. erasequeue (Some k) (Some i) s = Inr s' \<and>
      queue_ok s' (qs(k := remove1 i (qs k))) \<and> same_core s s'"
    by (rule erasequeue_ok [OF ok k])
  show "i \<in> set (qs k) \<Longrightarrow> i < NPROC" "distinct (qs k)"
    using queue_okD [OF ok k] by auto
  fix k'
  show "k' < NQUEUE \<Longrightarrow> i \<in> set (qs k) \<Longrightarrow> i \<in> set (qs k') \<Longrightarrow> k = k'"
    by (rule queue_ok_disjoint [OF ok k])
next
  fix s :: "'a ptable_scheme" and qs k i
  assume ok: "queue_ok s qs" and k: "k < NQUEUE" and i: "i < NPROC"
    and n: "\<And>k. k < NQUEUE \<Longrightarrow> i \<notin> set (qs k)"
  have free: "p_queue (t_proc s i) = None"
    using ok i n by (rule queue_ok_absent)
  show "\<exists>s'. pushqueue (Some k) (Some i) s = Inr s' \<and> queue_ok s' (qs(k := qs k @ [i])) \<and> same_core s s'"
    "\<exists>s'. pushfrontqueue (Some k) (Some i) s = Inr s' \<and> queue_ok s' (qs(k := i # qs k)) \<and> same_core s s'"
    using pushqueue_ok [OF ok k i free] pushfrontqueue_ok [OF ok k i free] by simp_all
qed (auto intro: same_core_trans)

end
