(* ===== verification/Mlfq_Proc.thy ===== *)
theory Mlfq_Proc
  imports Mlfq_Queue
begin

text \<open>
  Processes and the three level feedback scheduler (\<^verbatim>\<open>project1_scheduler/proc.c\<close>): the life cycle
  of a process (allocproc, fork, exit, wait, sleep, wakeup, kill), the choice of the next process,
  time quanta, priority boosting and the scheduler lock.

  The kernel runs on one CPU; \<open>k_cpuproc\<close> is \<^verbatim>\<open>mycpu()->proc\<close>.  \<^verbatim>\<open>ptable.lock\<close> and
  \<^verbatim>\<open>tickslock\<close> make the critical sections atomic, which is how the model runs them; the checks of
  \<^verbatim>\<open>sched()\<close> on lock nesting and interrupts are therefore not part of this theory.  A function
  that gives up the CPU ends at its call of \<^verbatim>\<open>swtch\<close>, and \<open>scheduler_return\<close> is what the scheduler does
  next.  The allocator, the page tables, the open files and the inodes are reached through \<open>kops\<close>,
  the calls that \<^verbatim>\<open>proc.c\<close> makes on them; messages printed on the console are left out.
\<close>

section \<open>State\<close>

record 'k kernel = ptable +
  k_nextpid :: int
  k_initproc :: procptr
  k_cpuproc :: procptr
  k_ticks :: "32 word"
  k_env :: 'k

definition PASSWORD :: int where "PASSWORD = 2020002960"

abbreviation upd_env :: "('k \<Rightarrow> 'k) \<Rightarrow> 'k kernel \<Rightarrow> 'k kernel" where
  "upd_env f s \<equiv> s\<lparr>k_env := f (k_env s)\<rparr>"

text \<open>A call of one of the operations outside \<^verbatim>\<open>proc.c\<close>.\<close>

definition env_call :: "('k \<Rightarrow> 'k result) \<Rightarrow> 'k kernel \<Rightarrow> 'k kernel result" where
  "env_call f s = rbind (f (k_env s)) (\<lambda>e. Inr (s\<lparr>k_env := e\<rparr>))"

definition chan_of :: "procptr \<Rightarrow> chan" where
  "chan_of p = (case p of None \<Rightarrow> NoChan | Some i \<Rightarrow> ChProc i)"

section \<open>Initialisation and allocation\<close>

definition pinit :: "'k kernel \<Rightarrow> 'k kernel" where
  "pinit s = fold (\<lambda>i s. upd_queue i (\<lambda>q. q\<lparr>q_level := int i\<rparr>) s) [0..<NQUEUE] s"

text \<open>
  The second half of \<^verbatim>\<open>allocproc\<close>: the kernel stack with the trap frame, the return address
  \<^verbatim>\<open>trapret\<close> and the context that starts in \<^verbatim>\<open>forkret\<close>.
\<close>

definition setup_kstack :: "'k kops \<Rightarrow> addr \<Rightarrow> proc \<Rightarrow> proc" where
  "setup_kstack ops ks p =
     p\<lparr>p_kstack := ks,
       p_tf := ks + KSTACKSIZE - sizeof_trapframe,
       p_retaddr := o_trapret ops,
       p_context := ks + KSTACKSIZE - sizeof_trapframe - 4 - sizeof_context,
       p_ctxval := \<lparr>c_edi = 0, c_esi = 0, c_ebx = 0, c_ebp = 0, c_eip = o_forkret ops\<rparr>\<rparr>"

definition allocproc :: "'k kops \<Rightarrow> 'k kernel \<Rightarrow> (procptr \<times> 'k kernel) result" where
  "allocproc ops s =
     (case first_index (\<lambda>i. p_state (t_proc s i) = UNUSED) [0..<NPROC] of
        None \<Rightarrow> Inr (None, s)
      | Some i \<Rightarrow>
          rbind (pushqueue (Some 0) (Some i)
                   ((upd_proc i (\<lambda>p. p\<lparr>p_state := EMBRYO, p_pid := k_nextpid s, p_priority := 3,
                       p_next := None, p_prev := None, p_tq := 0\<rparr>) s)\<lparr>k_nextpid := k_nextpid s + 1\<rparr>))
          (\<lambda>s. case o_kalloc ops (k_env s) of
                 (ks, e) \<Rightarrow>
                   let s = s\<lparr>k_env := e\<rparr> in
                   if ks = 0
                   then Inr (None, upd_proc i (\<lambda>p. p\<lparr>p_kstack := 0, p_state := UNUSED\<rparr>) s)
                   else Inr (Some i, upd_proc i (setup_kstack ops ks) s)))"

definition userinit :: "'k kops \<Rightarrow> 'k kernel \<Rightarrow> 'k kernel result" where
  "userinit ops s =
     rbind (allocproc ops s) (\<lambda>(p, s).
       let s = s\<lparr>k_initproc := p\<rparr> in
       case p of
         None \<Rightarrow> Inl NullDeref
       | Some i \<Rightarrow>
           (case o_setupkvm ops (k_env s) of (pg, e) \<Rightarrow>
             let s = upd_proc i (\<lambda>p. p\<lparr>p_pgdir := pg\<rparr>) (s\<lparr>k_env := e\<rparr>) in
             if pg = 0 then Inl (Panic ''userinit: out of memory?'')
             else
               rbind (env_call (o_inituvm ops pg) s) (\<lambda>s.
                 let s = upd_proc i (\<lambda>p. p\<lparr>p_sz := PGSIZE, p_tfval := init_tf,
                           p_name := safestrcpy_name ''initcode''\<rparr>) s in
               rbind (o_namei ops ''/'' (k_env s)) (\<lambda>(ip, e).
                 Inr (upd_proc i (\<lambda>p. p\<lparr>p_cwd := ip, p_state := RUNNABLE\<rparr>) (s\<lparr>k_env := e\<rparr>))))))"

definition switchuvm :: "nat \<Rightarrow> 'k kernel \<Rightarrow> 'k kernel result" where
  "switchuvm i s =
     (if p_kstack (t_proc s i) = 0 then Inl (Panic ''switchuvm: no kstack'')
      else if p_pgdir (t_proc s i) = 0 then Inl (Panic ''switchuvm: no pgdir'')
      else Inr s)"

text \<open>\<^verbatim>\<open>growproc\<close>; \<^verbatim>\<open>sz + n\<close> is computed in unsigned arithmetic and wraps.\<close>

definition growproc :: "'k kops \<Rightarrow> int \<Rightarrow> 'k kernel \<Rightarrow> (int \<times> 'k kernel) result" where
  "growproc ops n s =
     (case k_cpuproc s of
        None \<Rightarrow> Inl NullDeref
      | Some c \<Rightarrow>
          let pg = p_pgdir (t_proc s c); sz = p_sz (t_proc s c); new = sz + word_of_int n in
          rbind (if n > 0 then o_allocuvm ops pg sz new (k_env s)
                 else if n < 0 then o_deallocuvm ops pg sz new (k_env s)
                 else Inr (sz, k_env s)) (\<lambda>(sz, e).
            if n \<noteq> 0 \<and> sz = 0 then Inr (- 1, s\<lparr>k_env := e\<rparr>)
            else rbind (switchuvm c (upd_proc c (\<lambda>p. p\<lparr>p_sz := sz\<rparr>) (s\<lparr>k_env := e\<rparr>))) (\<lambda>s. Inr (0, s))))"

definition fork :: "'k kops \<Rightarrow> 'k kernel \<Rightarrow> (int \<times> 'k kernel) result" where
  "fork ops s =
     (case k_cpuproc s of
        None \<Rightarrow> Inl NullDeref
      | Some c \<Rightarrow>
          rbind (allocproc ops s) (\<lambda>(np, s).
            case np of
              None \<Rightarrow> Inr (- 1, s)
            | Some n \<Rightarrow>
                rbind (o_copyuvm ops (p_pgdir (t_proc s c)) (p_sz (t_proc s c)) (k_env s)) (\<lambda>(pg, e).
                  let s = upd_proc n (\<lambda>p. p\<lparr>p_pgdir := pg\<rparr>) (s\<lparr>k_env := e\<rparr>) in
                  if pg = 0 then
                    rbind (env_call (o_kfree ops (p_kstack (t_proc s n))) s) (\<lambda>s.
                      Inr (- 1, upd_proc n (\<lambda>p. p\<lparr>p_kstack := 0, p_state := UNUSED\<rparr>) s))
                  else
                    let cp = t_proc s c;
                        s = upd_proc n (\<lambda>p. p\<lparr>p_sz := p_sz cp, p_parent := Some c,
                              p_tfval := (p_tfval cp)\<lparr>tf_eax := 0\<rparr>\<rparr>) s
                    in
                    rbind (rfold (\<lambda>fd s.
                        let f = p_ofile (t_proc s c) ! fd in
                        if f \<noteq> 0
                        then rbind (env_call (o_filedup ops f) s) (\<lambda>s.
                               Inr (upd_proc n (\<lambda>p. p\<lparr>p_ofile := (p_ofile p)[fd := f]\<rparr>) s))
                        else Inr s) [0..<NOFILE] s) (\<lambda>s.
                    rbind (env_call (o_idup ops (p_cwd (t_proc s c))) s) (\<lambda>s.
                      Inr (p_pid (t_proc s n),
                           upd_proc n (\<lambda>p. p\<lparr>p_cwd := p_cwd (t_proc s c),
                             p_name := safestrcpy_name (p_name (t_proc s c)), p_state := RUNNABLE\<rparr>) s))))))"

section \<open>Sleeping, waking, killing\<close>

definition wakeup1 :: "chan \<Rightarrow> 'a ptable_scheme \<Rightarrow> 'a ptable_scheme" where
  "wakeup1 c s = fold (\<lambda>i s.
     if p_state (t_proc s i) = SLEEPING \<and> p_chan (t_proc s i) = c
     then upd_proc i (\<lambda>p. p\<lparr>p_state := RUNNABLE\<rparr>) s else s) [0..<NPROC] s"

definition wakeup :: "chan \<Rightarrow> 'k kernel \<Rightarrow> 'k kernel" where
  "wakeup c s = wakeup1 c s"

definition sched :: "'k kernel \<Rightarrow> 'k kernel result" where
  "sched s =
     (case k_cpuproc s of
        None \<Rightarrow> Inl NullDeref
      | Some i \<Rightarrow> if p_state (t_proc s i) = RUNNING then Inl (Panic ''sched running'') else Inr s)"

definition yield :: "'k kernel \<Rightarrow> 'k kernel result" where
  "yield s =
     (case k_cpuproc s of
        None \<Rightarrow> Inl NullDeref
      | Some i \<Rightarrow> sched (upd_proc i (\<lambda>p. p\<lparr>p_state := RUNNABLE\<rparr>) s))"

text \<open>
  \<^verbatim>\<open>sleep\<close> up to \<^verbatim>\<open>swtch\<close>, and what it does when it is switched to again (the caller's lock is
  never null in the kernel and is not modelled).
\<close>

definition sleep :: "chan \<Rightarrow> 'k kernel \<Rightarrow> 'k kernel result" where
  "sleep c s =
     (case k_cpuproc s of
        None \<Rightarrow> Inl (Panic ''sleep'')
      | Some i \<Rightarrow> sched (upd_proc i (\<lambda>p. p\<lparr>p_chan := c, p_state := SLEEPING\<rparr>) s))"

definition sleep_resume :: "nat \<Rightarrow> 'k kernel \<Rightarrow> 'k kernel" where
  "sleep_resume i s = upd_proc i (\<lambda>p. p\<lparr>p_chan := NoChan\<rparr>) s"

definition kill :: "int \<Rightarrow> 'k kernel \<Rightarrow> int \<times> 'k kernel" where
  "kill pid s =
     (case first_index (\<lambda>i. p_pid (t_proc s i) = pid) [0..<NPROC] of
        None \<Rightarrow> (- 1, s)
      | Some i \<Rightarrow> (0, upd_proc i (\<lambda>p. p\<lparr>p_killed := True,
            p_state := (if p_state p = SLEEPING then RUNNABLE else p_state p)\<rparr>) s))"

section \<open>Scheduler lock, quanta and priorities\<close>

definition getTimeQuantum :: "int \<Rightarrow> int" where
  "getTimeQuantum i = 2 * i + 4"

definition getProc :: "int \<Rightarrow> 'a ptable_scheme \<Rightarrow> procptr" where
  "getProc pid s = first_index (\<lambda>i. p_pid (t_proc s i) = pid \<and> p_state (t_proc s i) \<noteq> UNUSED) [0..<NPROC]"

definition schedulerUnlock :: "int \<Rightarrow> 'k kernel \<Rightarrow> 'k kernel result" where
  "schedulerUnlock password s =
     (let p = k_cpuproc s in
      if password \<noteq> PASSWORD then
        (case p of None \<Rightarrow> Inl NullDeref | Some i \<Rightarrow> Inr (upd_proc i (\<lambda>p. p\<lparr>p_killed := True\<rparr>) s))
      else if t_lockpid s = 0 then Inr s
      else case p of
        None \<Rightarrow> Inr (s\<lparr>t_lockpid := 0\<rparr>)
      | Some i \<Rightarrow>
          if p_pid (t_proc s i) \<noteq> t_lockpid s then Inr s
          else rbind (erasequeue (p_queue (t_proc s i)) p s) (\<lambda>s.
               rbind (pushfrontqueue (Some 0) p s) (\<lambda>s.
                 Inr ((upd_proc i (\<lambda>p. p\<lparr>p_priority := 3, p_tq := 0\<rparr>) s)\<lparr>t_lockpid := 0\<rparr>))))"

definition schedulerLock :: "int \<Rightarrow> 'k kernel \<Rightarrow> 'k kernel result" where
  "schedulerLock password s =
     (case k_cpuproc s of
        None \<Rightarrow> Inl NullDeref
      | Some i \<Rightarrow>
          if password \<noteq> PASSWORD then Inr (upd_proc i (\<lambda>p. p\<lparr>p_killed := True\<rparr>) s)
          else if t_lockpid s \<noteq> p_pid (t_proc s i) \<and> t_lockpid s \<noteq> 0
          then Inr (upd_proc i (\<lambda>p. p\<lparr>p_killed := True\<rparr>) s)
          else Inr (s\<lparr>t_lockpid := p_pid (t_proc s i), k_ticks := 0\<rparr>))"

definition setPriority :: "int \<Rightarrow> int \<Rightarrow> 'k kernel \<Rightarrow> 'k kernel" where
  "setPriority pid priority s =
     (if priority < 0 \<or> priority > 3 then s
      else case getProc pid s of
        None \<Rightarrow> s
      | Some i \<Rightarrow> upd_proc i (\<lambda>p. p\<lparr>p_priority := priority\<rparr>) s)"

definition getLevel :: "'k kernel \<Rightarrow> int" where
  "getLevel s =
     (case k_cpuproc s of
        None \<Rightarrow> - 1
      | Some i \<Rightarrow> let level = p_level (t_proc s i) in
          if level < 0 \<or> level \<ge> int NQUEUE then - 1 else level)"

definition setLevel :: "int \<Rightarrow> int \<Rightarrow> 'k kernel \<Rightarrow> 'k kernel result" where
  "setLevel pid level s =
     (if level < 0 \<or> level > 3 then Inr s
      else case getProc pid s of
        None \<Rightarrow> Inr s
      | Some i \<Rightarrow> rbind (erasequeue (p_queue (t_proc s i)) (Some i) s)
                     (pushqueue (Some (nat level)) (Some i)))"

definition clearProc :: "nat \<Rightarrow> 'k kernel \<Rightarrow> 'k kernel result" where
  "clearProc i s =
     (if p_state (t_proc s i) = UNUSED then Inr s
      else let s = upd_proc i (\<lambda>p. p\<lparr>p_priority := 3, p_tq := 0\<rparr>) s in
           rbind (erasequeue (p_queue (t_proc s i)) (Some i) s) (pushqueue (Some 0) (Some i)))"

definition boostPriority :: "'k kernel \<Rightarrow> 'k kernel result" where
  "boostPriority s =
     (let s = s\<lparr>k_ticks := 0\<rparr> in
      rbind (if t_lockpid s \<noteq> 0 then schedulerUnlock PASSWORD s else Inr s) (\<lambda>s.
        rfold (\<lambda>_. rfold (\<lambda>i s. if p_state (t_proc s i) \<noteq> UNUSED then clearProc i s else Inr s) [0..<NPROC])
          [0..<NPROC] s))"

definition expireTimeQuantum :: "nat \<Rightarrow> 'k kernel \<Rightarrow> 'k kernel result" where
  "expireTimeQuantum i s =
     (let s = upd_proc i (\<lambda>p. p\<lparr>p_tq := 0\<rparr>) s; p = t_proc s i in
      if p_level p < int NQUEUE - 1 then
        rbind (erasequeue (p_queue p) (Some i) s) (\<lambda>s.
          case p_queue p of None \<Rightarrow> Inl OutOfBounds | Some k \<Rightarrow> pushqueue (Some (Suc k)) (Some i) s)
      else if p_priority p = 0 then Inr s
      else Inr (upd_proc i (\<lambda>p. p\<lparr>p_priority := p_priority p - 1\<rparr>) s))"

section \<open>Choosing and running a process\<close>

text \<open>The loop over L2: the first runnable process with the smallest priority below \<open>m\<close>.\<close>

fun scan_min :: "nat \<Rightarrow> 'a ptable_scheme \<Rightarrow> procptr \<Rightarrow> int \<Rightarrow> procptr \<Rightarrow> procptr result" where
  "scan_min n s None m p = Inr p"
| "scan_min 0 s (Some a) m p = Inl Diverge"
| "scan_min (Suc n) s (Some a) m p =
     (if p_state (t_proc s a) \<noteq> RUNNABLE then scan_min n s (p_next (t_proc s a)) m p
      else if p_priority (t_proc s a) < m
      then scan_min n s (p_next (t_proc s a)) (p_priority (t_proc s a)) (Some a)
      else scan_min n s (p_next (t_proc s a)) m p)"

text \<open>The body of \<^verbatim>\<open>for(;;)\<close> in \<^verbatim>\<open>getProcessToRun\<close>, which returns in its first iteration.\<close>

fun scan_levels :: "nat list \<Rightarrow> 'a ptable_scheme \<Rightarrow> procptr result" where
  "scan_levels [] s = rbind (frontqueue (NQUEUE - 1) s) (\<lambda>f. scan_min NPROC s f 4 None)"
| "scan_levels (k # ks) s =
     rbind (frontqueue k s) (\<lambda>f.
     rbind (scan_queue NPROC (\<lambda>a. p_state (t_proc s a) = RUNNABLE) s f) (\<lambda>p.
       case p of Some a \<Rightarrow> Inr (Some a) | None \<Rightarrow> scan_levels ks s))"

definition getProcessToRun :: "'k kernel \<Rightarrow> (procptr \<times> 'k kernel) result" where
  "getProcessToRun s =
     (let pick = (\<lambda>s. rbind (scan_levels [0..<NQUEUE - 1] s) (\<lambda>p. Inr (p, s))) in
      if t_lockpid s \<noteq> 0 then
        (case getProc (t_lockpid s) s of
           None \<Rightarrow> Inl NullDeref
         | Some i \<Rightarrow> if p_state (t_proc s i) = RUNNABLE then Inr (Some i, s)
                     else rbind (schedulerUnlock PASSWORD s) pick)
      else pick s)"

text \<open>
  The inner loop of \<^verbatim>\<open>scheduler\<close>: choose until the chosen process has quantum left.  Running out of
  the fuel \<open>NPROC + 1\<close> is \<open>Diverge\<close>; \<open>sched_loop_ok\<close> in \<open>Mlfq_Steps\<close> shows that it is never used up.
\<close>

fun sched_loop :: "nat \<Rightarrow> 'k kernel \<Rightarrow> (procptr \<times> 'k kernel) result" where
  "sched_loop 0 s = Inl Diverge"
| "sched_loop (Suc n) s =
     rbind (getProcessToRun s) (\<lambda>(p, s).
       case p of
         None \<Rightarrow> Inr (None, s)
       | Some i \<Rightarrow> if p_tq (t_proc s i) = getTimeQuantum (p_level (t_proc s i))
                   then rbind (expireTimeQuantum i s) (sched_loop n)
                   else Inr (Some i, s))"

definition boost_if_due :: "'k kernel \<Rightarrow> 'k kernel result" where
  "boost_if_due s = (if k_ticks s \<ge> 100 then boostPriority s else Inr s)"

text \<open>One round of \<^verbatim>\<open>scheduler\<close>, up to the switch to the chosen process.\<close>

definition scheduler_dispatch :: "'k kernel \<Rightarrow> 'k kernel result" where
  "scheduler_dispatch s =
     rbind (sched_loop (NPROC + 1) s) (\<lambda>(p, s).
       case p of
         None \<Rightarrow> boost_if_due s
       | Some i \<Rightarrow>
           let s = upd_proc i (\<lambda>p. p\<lparr>p_tq := p_tq p + 1\<rparr>) s in
           rbind (if p_level (t_proc s i) < int NQUEUE - 1
                  then rbind (erasequeue (p_queue (t_proc s i)) (Some i) s)
                         (pushqueue (p_queue (t_proc s i)) (Some i))
                  else Inr s) (\<lambda>s.
           rbind (switchuvm i (s\<lparr>k_cpuproc := Some i\<rparr>)) (\<lambda>s.
             Inr (upd_proc i (\<lambda>p. p\<lparr>p_state := RUNNING\<rparr>) s))))"

text \<open>What follows the switch back: \<^verbatim>\<open>c->proc = 0\<close> and the boost every 100 ticks.\<close>

definition scheduler_return :: "'k kernel \<Rightarrow> 'k kernel result" where
  "scheduler_return s = boost_if_due (s\<lparr>k_cpuproc := None\<rparr>)"

section \<open>Exit and wait\<close>

definition reparent :: "nat \<Rightarrow> nat \<Rightarrow> 'k kernel \<Rightarrow> 'k kernel" where
  "reparent c i s =
     (if p_parent (t_proc s i) = Some c then
        let s = upd_proc i (\<lambda>p. p\<lparr>p_parent := k_initproc s\<rparr>) s in
        if p_state (t_proc s i) = ZOMBIE then wakeup1 (chan_of (k_initproc s)) s else s
      else s)"

definition exit :: "'k kops \<Rightarrow> 'k kernel \<Rightarrow> 'k kernel result" where
  "exit ops s =
     (if k_cpuproc s = k_initproc s then Inl (Panic ''init exiting'')
      else case k_cpuproc s of
        None \<Rightarrow> Inl NullDeref
      | Some c \<Rightarrow>
          rbind (rfold (\<lambda>fd s.
              let f = p_ofile (t_proc s c) ! fd in
              if f \<noteq> 0
              then rbind (env_call (o_fileclose ops f) s) (\<lambda>s.
                     Inr (upd_proc c (\<lambda>p. p\<lparr>p_ofile := (p_ofile p)[fd := 0]\<rparr>) s))
              else Inr s) [0..<NOFILE] s) (\<lambda>s.
          rbind (env_call (o_iput ops (p_cwd (t_proc s c))) s) (\<lambda>s.
            let s = upd_proc c (\<lambda>p. p\<lparr>p_cwd := 0\<rparr>) s in
          rbind (if t_lockpid s = p_pid (t_proc s c) then schedulerUnlock PASSWORD s else Inr s) (\<lambda>s.
            let s = wakeup1 (chan_of (p_parent (t_proc s c))) s;
                s = fold (reparent c) [0..<NPROC] s
            in sched (upd_proc c (\<lambda>p. p\<lparr>p_state := ZOMBIE\<rparr>) s)))))"

text \<open>
  The scan of \<^verbatim>\<open>wait\<close>: whether there are children, and the first zombie among them.  \<^verbatim>\<open>wait\<close> either
  returns or goes to sleep on its own process, to scan again when it is woken.
\<close>

fun wait_scan :: "nat \<Rightarrow> 'k kernel \<Rightarrow> nat list \<Rightarrow> bool \<Rightarrow> bool \<times> procptr" where
  "wait_scan c s [] havekids = (havekids, None)"
| "wait_scan c s (i # is) havekids =
     (if p_parent (t_proc s i) \<noteq> Some c then wait_scan c s is havekids
      else if p_state (t_proc s i) = ZOMBIE then (True, Some i)
      else wait_scan c s is True)"

datatype wait_result = WaitReturn int | WaitSleep

definition reap :: "'k kops \<Rightarrow> nat \<Rightarrow> 'k kernel \<Rightarrow> 'k kernel result" where
  "reap ops i s =
     rbind (erasequeue (p_queue (t_proc s i)) (Some i) s) (\<lambda>s.
     rbind (env_call (o_kfree ops (p_kstack (t_proc s i))) s) (\<lambda>s.
       let s = upd_proc i (\<lambda>p. p\<lparr>p_kstack := 0\<rparr>) s in
     rbind (env_call (o_freevm ops (p_pgdir (t_proc s i))) s) (\<lambda>s.
       Inr (upd_proc i (\<lambda>p. p\<lparr>p_pid := 0, p_parent := None, p_name := [], p_killed := False,
         p_state := UNUSED, p_priority := - 1, p_tq := - 1\<rparr>) s))))"

definition wait :: "'k kops \<Rightarrow> 'k kernel \<Rightarrow> (wait_result \<times> 'k kernel) result" where
  "wait ops s =
     (case k_cpuproc s of
        None \<Rightarrow> Inl NullDeref
      | Some c \<Rightarrow>
          (case wait_scan c s [0..<NPROC] False of
             (_, Some i) \<Rightarrow>
               rbind (reap ops i s) (\<lambda>s'. Inr (WaitReturn (p_pid (t_proc s i)), s'))
           | (havekids, None) \<Rightarrow>
               if \<not> havekids \<or> p_killed (t_proc s c) then Inr (WaitReturn (- 1), s)
               else rbind (sleep (ChProc c) s) (\<lambda>s. Inr (WaitSleep, s))))"

text \<open>The clock interrupt of \<^verbatim>\<open>trap\<close> on CPU 0.\<close>

definition timer_tick :: "'k kernel \<Rightarrow> 'k kernel" where
  "timer_tick s = wakeup ChTicks (s\<lparr>k_ticks := k_ticks s + 1\<rparr>)"

end
