(* ===== verification/Mlfq_Sched.thy ===== *)
theory Mlfq_Sched
  imports Mlfq_Proc
begin

text \<open>
  Correctness of the MLFQ scheduler.  \<open>sched_inv\<close> is the invariant of the process table between
  kernel steps: well formed queues that hold exactly the live processes, unique positive pids, at
  most one running process and it is the one on the CPU, a lock holder that is alive, priorities
  between 0 and 3.  The theory holds the frame lemmas of the invariant and characterises the choice
  of \<^verbatim>\<open>getProcessToRun\<close> and the effect of \<^verbatim>\<open>boostPriority\<close> on the queue lists.
\<close>

section \<open>The invariant\<close>

abbreviation live :: "'a ptable_scheme \<Rightarrow> nat \<Rightarrow> bool" where
  "live s i \<equiv> p_state (t_proc s i) \<noteq> UNUSED"

definition queued :: "(nat \<Rightarrow> nat list) \<Rightarrow> nat \<Rightarrow> bool" where
  "queued qs i \<longleftrightarrow> (\<exists>k<NQUEUE. i \<in> set (qs k))"

definition pids_ok :: "'k kernel \<Rightarrow> bool" where
  "pids_ok s \<longleftrightarrow> 0 < k_nextpid s \<and>
     (\<forall>i<NPROC. live s i \<longrightarrow> 0 < p_pid (t_proc s i) \<and> p_pid (t_proc s i) < k_nextpid s) \<and>
     (\<forall>i<NPROC. \<forall>j<NPROC. live s i \<and> live s j \<and> p_pid (t_proc s i) = p_pid (t_proc s j) \<longrightarrow> i = j)"

definition mem_ok :: "'k kernel \<Rightarrow> bool" where
  "mem_ok s \<longleftrightarrow> (\<forall>i<NPROC. p_state (t_proc s i) \<notin> {UNUSED, EMBRYO} \<longrightarrow>
     p_kstack (t_proc s i) \<noteq> 0 \<and> p_pgdir (t_proc s i) \<noteq> 0)"

definition cpu_ok :: "'k kernel \<Rightarrow> bool" where
  "cpu_ok s \<longleftrightarrow> (\<forall>i<NPROC. p_state (t_proc s i) = RUNNING \<longleftrightarrow> k_cpuproc s = Some i) \<and>
     (case k_cpuproc s of None \<Rightarrow> True | Some c \<Rightarrow> c < NPROC)"

definition lock_ok :: "'k kernel \<Rightarrow> bool" where
  "lock_ok s \<longleftrightarrow> (t_lockpid s \<noteq> 0 \<longrightarrow>
     (\<exists>i<NPROC. p_pid (t_proc s i) = t_lockpid s \<and> p_state (t_proc s i) \<notin> {UNUSED, ZOMBIE}))"

definition prio_ok :: "'k kernel \<Rightarrow> bool" where
  "prio_ok s \<longleftrightarrow> (\<forall>i<NPROC. live s i \<longrightarrow>
     0 \<le> p_priority (t_proc s i) \<and> p_priority (t_proc s i) \<le> 3 \<and> 0 \<le> p_tq (t_proc s i))"

definition proc_ok :: "'k kernel \<Rightarrow> bool" where
  "proc_ok s \<longleftrightarrow> pids_ok s \<and> mem_ok s \<and> lock_ok s \<and> prio_ok s"

definition sched_ok :: "'k kernel \<Rightarrow> (nat \<Rightarrow> nat list) \<Rightarrow> bool" where
  "sched_ok s qs \<longleftrightarrow> queue_ok s qs \<and> (\<forall>i<NPROC. live s i \<longleftrightarrow> queued qs i) \<and> proc_ok s"

definition sched_inv :: "'k kernel \<Rightarrow> bool" where
  "sched_inv s \<longleftrightarrow> sched_ok s (qlist s) \<and> cpu_ok s"

lemmas ok_defs = pids_ok_def mem_ok_def lock_ok_def prio_ok_def proc_ok_def

lemma sched_ok_inv: "sched_ok s qs \<Longrightarrow> cpu_ok s \<Longrightarrow> sched_inv s"
proof -
  assume ok: "sched_ok s qs" and c: "cpu_ok s"
  have "queue_ok s (qlist s)"
    using ok queue_ok_inv by (auto simp: sched_ok_def queue_inv_def)
  moreover have "queued (qlist s) i = queued qs i" for i
    using ok by (auto simp: queued_def sched_ok_def queue_ok_qlist)
  ultimately show ?thesis using ok c by (simp add: sched_ok_def sched_inv_def)
qed

section \<open>Frame lemmas\<close>

text \<open>Operations that only relink queues keep every other field.\<close>

lemma same_core_field:
  assumes "same_core s s'"
  shows "p_state (t_proc s' j) = p_state (t_proc s j)" "p_pid (t_proc s' j) = p_pid (t_proc s j)"
    "p_kstack (t_proc s' j) = p_kstack (t_proc s j)" "p_pgdir (t_proc s' j) = p_pgdir (t_proc s j)"
    "p_priority (t_proc s' j) = p_priority (t_proc s j)" "p_tq (t_proc s' j) = p_tq (t_proc s j)"
    "p_parent (t_proc s' j) = p_parent (t_proc s j)" "p_killed (t_proc s' j) = p_killed (t_proc s j)"
    "p_chan (t_proc s' j) = p_chan (t_proc s j)" "p_ofile (t_proc s' j) = p_ofile (t_proc s j)"
    "t_lockpid s' = t_lockpid s"
proof -
  have e: "strip (t_proc s' j) = strip (t_proc s j)" and l: "t_lockpid s' = t_lockpid s"
    using assms by (auto simp: same_core_def)
  show "p_state (t_proc s' j) = p_state (t_proc s j)" "p_pid (t_proc s' j) = p_pid (t_proc s j)"
    "p_kstack (t_proc s' j) = p_kstack (t_proc s j)" "p_pgdir (t_proc s' j) = p_pgdir (t_proc s j)"
    "p_priority (t_proc s' j) = p_priority (t_proc s j)" "p_tq (t_proc s' j) = p_tq (t_proc s j)"
    "p_parent (t_proc s' j) = p_parent (t_proc s j)" "p_killed (t_proc s' j) = p_killed (t_proc s j)"
    "p_chan (t_proc s' j) = p_chan (t_proc s j)" "p_ofile (t_proc s' j) = p_ofile (t_proc s j)"
    "t_lockpid s' = t_lockpid s"
    using arg_cong [OF e, of p_state] arg_cong [OF e, of p_pid] arg_cong [OF e, of p_kstack]
      arg_cong [OF e, of p_pgdir] arg_cong [OF e, of p_priority] arg_cong [OF e, of p_tq]
      arg_cong [OF e, of p_parent] arg_cong [OF e, of p_killed] arg_cong [OF e, of p_chan] arg_cong [OF e, of p_ofile] l
    by (auto simp: strip_def)
qed

lemma same_core_kernel:
  fixes s s' :: "'k kernel"
  assumes "same_core s s'"
  shows "k_nextpid s' = k_nextpid s" "k_initproc s' = k_initproc s" "k_cpuproc s' = k_cpuproc s"
    "k_ticks s' = k_ticks s" "k_env s' = k_env s"
proof -
  have m: "ptable.more s' = ptable.more s" using assms by (simp add: same_core_def)
  from m show "k_nextpid s' = k_nextpid s" "k_initproc s' = k_initproc s" "k_cpuproc s' = k_cpuproc s"
    "k_ticks s' = k_ticks s" "k_env s' = k_env s"
    by (cases s; cases s'; simp)+
qed

lemmas same_core_simps = same_core_field same_core_kernel

lemma proc_ok_core: "same_core s s' \<Longrightarrow> proc_ok s \<Longrightarrow> proc_ok s'"
  by (simp add: ok_defs same_core_simps)

lemma cpu_ok_core: "same_core s s' \<Longrightarrow> cpu_ok s \<Longrightarrow> cpu_ok s'"
  by (simp add: cpu_ok_def same_core_simps)

text \<open>Operations that do not touch the links keep the queues.\<close>

lemma queue_ok_frame:
  assumes "queue_ok s qs" "t_queue s' = t_queue s"
    and "\<And>j. p_prev (t_proc s' j) = p_prev (t_proc s j) \<and> p_next (t_proc s' j) = p_next (t_proc s j)
      \<and> p_queue (t_proc s' j) = p_queue (t_proc s j) \<and> p_level (t_proc s' j) = p_level (t_proc s j)"
  shows "queue_ok s' qs"
proof -
  have "qseg s' k xs = qseg s k xs" for k xs
    by (rule qseg_cong) (simp_all add: assms)
  then show ?thesis using assms(1) by (simp add: queue_ok_def assms(2,3))
qed

lemma queued_move:
  assumes "i \<in> set (qs k)" "k < NQUEUE" "k' < NQUEUE"
  shows "queued (q_move k k' i qs) j \<longleftrightarrow> queued qs j"
proof (cases "j = i")
  case True
  have "i \<in> set (q_move k k' i qs k')" by (simp add: q_move_def Let_def)
  with True assms show ?thesis by (auto simp: queued_def)
next
  case False
  then have "j \<in> set (q_move k k' i qs m) \<longleftrightarrow> j \<in> set (qs m)" for m
    by (simp add: q_move_def Let_def)
  then show ?thesis by (simp add: queued_def)
qed

lemma queued_move_front:
  assumes "i \<in> set (qs k)" "k < NQUEUE" "k' < NQUEUE"
  shows "queued (q_move_front k k' i qs) j \<longleftrightarrow> queued qs j"
proof (cases "j = i")
  case True
  have "i \<in> set (q_move_front k k' i qs k')" by (simp add: q_move_front_def Let_def)
  with True assms show ?thesis by (auto simp: queued_def)
next
  case False
  then have "j \<in> set (q_move_front k k' i qs m) \<longleftrightarrow> j \<in> set (qs m)" for m
    by (simp add: q_move_front_def Let_def)
  then show ?thesis by (simp add: queued_def)
qed

text \<open>The moves of the scheduler keep the invariant.\<close>

lemma sched_ok_queue:
  assumes "sched_ok s qs" "i < NPROC" "live s i"
  obtains k where "k < NQUEUE" "i \<in> set (qs k)" "p_queue (t_proc s i) = Some k" "p_level (t_proc s i) = int k"
proof -
  from assms obtain k where k: "k < NQUEUE" "i \<in> set (qs k)" by (auto simp: sched_ok_def queued_def)
  with queue_okD(4) [of s qs k i] assms(1) that show ?thesis by (auto simp: sched_ok_def)
qed

lemma sched_ok_move:
  assumes ok: "sched_ok s qs" and k: "k < NQUEUE" "k' < NQUEUE" "i \<in> set (qs k)"
  shows "\<exists>s'. rbind (erasequeue (Some k) (Some i) s) (pushqueue (Some k') (Some i)) = Inr s'
    \<and> sched_ok s' (q_move k k' i qs) \<and> same_core s s'"
proof -
  obtain s' where s': "rbind (erasequeue (Some k) (Some i) s) (pushqueue (Some k') (Some i)) = Inr s'"
      "queue_ok s' (q_move k k' i qs)" "same_core s s'"
    using pq.move [of s qs k k' i] ok k by (auto simp: sched_ok_def)
  then show ?thesis
    using ok proc_ok_core queued_move [of i qs k k', OF k(3,1,2)] by (auto simp: sched_ok_def same_core_simps)
qed

lemma sched_ok_move_front:
  assumes ok: "sched_ok s qs" and k: "k < NQUEUE" "k' < NQUEUE" "i \<in> set (qs k)"
  shows "\<exists>s'. rbind (erasequeue (Some k) (Some i) s) (pushfrontqueue (Some k') (Some i)) = Inr s'
    \<and> sched_ok s' (q_move_front k k' i qs) \<and> same_core s s'"
proof -
  obtain s' where s': "rbind (erasequeue (Some k) (Some i) s) (pushfrontqueue (Some k') (Some i)) = Inr s'"
      "queue_ok s' (q_move_front k k' i qs)" "same_core s s'"
    using pq.move_front [of s qs k k' i] ok k by (auto simp: sched_ok_def)
  then show ?thesis
    using ok proc_ok_core queued_move_front [of i qs k k', OF k(3,1,2)] by (auto simp: sched_ok_def same_core_simps)
qed

text \<open>Updates of one process that leave its links alone.\<close>

lemma sched_ok_upd:
  assumes ok: "sched_ok s qs" and q: "t_queue s' = t_queue s"
    and p: "t_proc s' = (t_proc s)(i := p)"
    and l: "p_prev p = p_prev (t_proc s i)" "p_next p = p_next (t_proc s i)"
      "p_queue p = p_queue (t_proc s i)" "p_level p = p_level (t_proc s i)"
    and u: "p_state p = UNUSED \<longleftrightarrow> p_state (t_proc s i) = UNUSED"
    and r: "proc_ok s \<Longrightarrow> proc_ok s'"
  shows "sched_ok s' qs"
proof -
  have "queue_ok s' qs"
    using ok by (intro queue_ok_frame [of s qs s']) (auto simp: sched_ok_def q p l)
  then show ?thesis using ok u r by (auto simp: sched_ok_def p)
qed

text \<open>State changes that keep \<open>proc_ok\<close>: pids and memory stay, nobody is created or reaped.\<close>

lemma proc_ok_mono:
  assumes ok: "proc_ok s" and g: "k_nextpid s' = k_nextpid s" "t_lockpid s' = 0 \<or> t_lockpid s' = t_lockpid s"
    and f: "\<And>j. j < NPROC \<Longrightarrow> p_pid (t_proc s' j) = p_pid (t_proc s j)
      \<and> p_kstack (t_proc s' j) = p_kstack (t_proc s j) \<and> p_pgdir (t_proc s' j) = p_pgdir (t_proc s j)"
    and l: "\<And>j. j < NPROC \<Longrightarrow> live s' j = live s j"
    and e: "\<And>j. j < NPROC \<Longrightarrow> p_state (t_proc s j) = EMBRYO \<Longrightarrow> p_state (t_proc s' j) = EMBRYO"
    and z: "\<And>j. j < NPROC \<Longrightarrow> p_state (t_proc s' j) = ZOMBIE \<Longrightarrow>
      p_state (t_proc s j) = ZOMBIE \<or> p_pid (t_proc s j) \<noteq> t_lockpid s'"
    and p: "\<And>j. j < NPROC \<Longrightarrow> live s' j \<Longrightarrow>
      0 \<le> p_priority (t_proc s' j) \<and> p_priority (t_proc s' j) \<le> 3 \<and> 0 \<le> p_tq (t_proc s' j)"
  shows "proc_ok s'"
proof -
  have "pids_ok s'" using ok g f l by (simp add: proc_ok_def pids_ok_def)
  moreover have "mem_ok s'"
    unfolding mem_ok_def
  proof (intro allI impI)
    fix j assume j: "j < NPROC" "p_state (t_proc s' j) \<notin> {UNUSED, EMBRYO}"
    then have "p_state (t_proc s j) \<notin> {UNUSED, EMBRYO}" using l e by auto
    then show "p_kstack (t_proc s' j) \<noteq> 0 \<and> p_pgdir (t_proc s' j) \<noteq> 0"
      using ok j f by (simp add: proc_ok_def mem_ok_def)
  qed
  moreover have "lock_ok s'"
    unfolding lock_ok_def
  proof
    assume n: "t_lockpid s' \<noteq> 0"
    with g have eq: "t_lockpid s' = t_lockpid s" by auto
    with n ok obtain i where i: "i < NPROC" "p_pid (t_proc s i) = t_lockpid s" "p_state (t_proc s i) \<notin> {UNUSED, ZOMBIE}"
      by (auto simp: proc_ok_def lock_ok_def)
    with l z eq f show "\<exists>i<NPROC. p_pid (t_proc s' i) = t_lockpid s' \<and> p_state (t_proc s' i) \<notin> {UNUSED, ZOMBIE}"
      by (intro exI [of _ i]) auto
  qed
  moreover have "prio_ok s'" using p by (simp add: prio_ok_def)
  ultimately show ?thesis by (simp add: proc_ok_def)
qed

lemma proc_okD:
  assumes "proc_ok s" "j < NPROC" "live s j"
  shows "0 < p_pid (t_proc s j)" "0 \<le> p_priority (t_proc s j)" "p_priority (t_proc s j) \<le> 3" "0 \<le> p_tq (t_proc s j)"
  using assms by (auto simp: ok_defs)

lemma sched_ok_proc: "sched_ok s qs \<Longrightarrow> proc_ok s"
  by (simp add: sched_ok_def)

text \<open>An update of the scheduling data of one process.\<close>

lemma sched_ok_prio:
  assumes ok: "sched_ok s qs"
    and b: "live s i \<Longrightarrow> 0 \<le> p \<and> p \<le> 3 \<and> 0 \<le> t"
  shows "sched_ok (upd_proc i (\<lambda>x. x\<lparr>p_priority := p, p_tq := t\<rparr>) s) qs"
proof (rule sched_ok_upd [OF ok, where i = i and p = "(t_proc s i)\<lparr>p_priority := p, p_tq := t\<rparr>"])
  assume "proc_ok s"
  then show "proc_ok (upd_proc i (\<lambda>x. x\<lparr>p_priority := p, p_tq := t\<rparr>) s)"
    by (rule proc_ok_mono) (use b proc_okD [OF \<open>proc_ok s\<close>] in \<open>auto split: if_splits\<close>)
qed simp_all

section \<open>Boosting\<close>

lemma clearProc_ok:
  assumes ok: "sched_ok s qs" and i: "k < NQUEUE" "i \<in> set (qs k)"
  shows "\<exists>s'. clearProc i s = Inr s' \<and> sched_ok s' (q_move k 0 i qs)
    \<and> same_core (upd_proc i (\<lambda>p. p\<lparr>p_priority := 3, p_tq := 0\<rparr>) s) s'"
proof -
  let ?s = "upd_proc i (\<lambda>p. p\<lparr>p_priority := 3, p_tq := 0\<rparr>) s"
  have kD: "i < NPROC" "p_queue (t_proc s i) = Some k" "live s i"
    using queue_okD(4) [of s qs k i] ok i by (auto simp: sched_ok_def queued_def)
  have ok': "sched_ok ?s qs"
    using sched_ok_prio [OF ok, of i 3 0] by simp
  have "0 < NQUEUE" by (simp add: NQUEUE_def)
  with sched_ok_move [OF ok' i(1) this i(2)] kD show ?thesis
    by (simp add: clearProc_def Let_def)
qed

text \<open>The lists after the processes \<open>ys\<close> of the table have been cleared.\<close>

definition boosted :: "'a ptable_scheme \<Rightarrow> nat list \<Rightarrow> (nat \<Rightarrow> nat list) \<Rightarrow> nat \<Rightarrow> nat list" where
  "boosted s ys qs k = filter (\<lambda>j. j \<notin> set ys) (qs k) @ (if k = 0 then filter (live s) ys else [])"

lemma boosted_snoc_dead: "\<not> queued qs i \<Longrightarrow> \<not> live s i \<Longrightarrow> k < NQUEUE \<Longrightarrow>
    boosted s (ys @ [i]) qs k = boosted s ys qs k"
  by (auto simp: boosted_def queued_def intro!: filter_cong)

lemma boosted_snoc_live:
  assumes "distinct (qs m)" "i \<in> set (qs k)" "i \<notin> set ys" "live s i"
    and "m \<noteq> k \<Longrightarrow> i \<notin> set (qs m)" "distinct (qs k)"
  shows "q_move k 0 i (boosted s ys qs) m = boosted s (ys @ [i]) qs m"
proof -
  have r: "remove1 i (filter (\<lambda>j. j \<notin> set ys) xs @ zs) = filter (\<lambda>j. j \<noteq> i \<and> j \<notin> set ys) xs @ zs"
    if "distinct xs" "i \<in> set xs" for xs zs
  proof -
    have "remove1 i (filter (\<lambda>j. j \<notin> set ys) xs @ zs) = removeAll i (filter (\<lambda>j. j \<notin> set ys) xs) @ zs"
      using that assms(3) by (simp add: remove1_append distinct_remove1_removeAll)
    also have "removeAll i (filter (\<lambda>j. j \<notin> set ys) xs) = filter (\<lambda>j. j \<noteq> i \<and> j \<notin> set ys) xs"
      by (auto simp: removeAll_filter_not_eq intro!: filter_cong)
    finally show ?thesis .
  qed
  have n: "filter (\<lambda>j. j \<noteq> i \<and> j \<notin> set ys) (qs m) = filter (\<lambda>j. j \<notin> set ys) (qs m)" if "m \<noteq> k"
    using assms(5) [OF that] by (auto intro!: filter_cong)
  show ?thesis
    using r [OF assms(6,2)] n assms(4) by (auto simp: q_move_def Let_def boosted_def)
qed

lemma sched_ok_cong:
  assumes "sched_ok s qs" "\<And>k. k < NQUEUE \<Longrightarrow> qs' k = qs k"
  shows "sched_ok s qs'"
proof -
  have "queue_ok s qs'" using queue_ok_mono [of s qs qs'] assms by (auto simp: sched_ok_def)
  moreover have "queued qs' i = queued qs i" for i using assms(2) by (auto simp: queued_def)
  ultimately show ?thesis using assms(1) by (simp add: sched_ok_def)
qed

text \<open>One step of the boosting loop, on a process of the table.\<close>

lemma boost_step:
  assumes ok: "sched_ok s (boosted s0 ys qs)" and i: "i < NPROC" "i \<notin> set ys"
    and qs: "\<And>k. k < NQUEUE \<Longrightarrow> distinct (qs k)"
      "\<And>k k' j. k < NQUEUE \<Longrightarrow> k' < NQUEUE \<Longrightarrow> j \<in> set (qs k) \<Longrightarrow> j \<in> set (qs k') \<Longrightarrow> k = k'"
      "queued qs i \<longleftrightarrow> live s0 i"
    and st: "p_state (t_proc s i) = p_state (t_proc s0 i)"
  shows "\<exists>s'. (if live s i then clearProc i s else Inr s) = Inr s'
    \<and> sched_ok s' (boosted s0 (ys @ [i]) qs)
    \<and> same_core (if live s i then upd_proc i (\<lambda>p. p\<lparr>p_priority := 3, p_tq := 0\<rparr>) s else s) s'"
proof (cases "live s i")
  case False
  then have "\<not> live s0 i" "\<not> queued qs i" using st qs(3) by auto
  then have "sched_ok s (boosted s0 (ys @ [i]) qs)"
    using sched_ok_cong [OF ok] boosted_snoc_dead by blast
  with False show ?thesis by auto
next
  case True
  then have live0: "live s0 i" and "queued qs i" using st qs(3) by auto
  then obtain k where k: "k < NQUEUE" "i \<in> set (qs k)" by (auto simp: queued_def)
  then have "i \<in> set (boosted s0 ys qs k)" using i(2) by (simp add: boosted_def)
  from clearProc_ok [OF ok k(1) this] obtain s' where s': "clearProc i s = Inr s'"
      "sched_ok s' (q_move k 0 i (boosted s0 ys qs))"
      "same_core (upd_proc i (\<lambda>p. p\<lparr>p_priority := 3, p_tq := 0\<rparr>) s) s'" by blast
  have "sched_ok s' (boosted s0 (ys @ [i]) qs)"
  proof (rule sched_ok_cong [OF s'(2)])
    fix m assume m: "m < NQUEUE"
    then have "m \<noteq> k \<Longrightarrow> i \<notin> set (qs m)" using qs(2) [OF m k(1)] k(2) by blast
    with boosted_snoc_live [of qs m i k ys s0] m k qs(1) i(2) live0
    show "boosted s0 (ys @ [i]) qs m = q_move k 0 i (boosted s0 ys qs) m" by simp
  qed
  with s' True show ?thesis by auto
qed

text \<open>What boosting does to the scheduling data; nothing else of a process changes.\<close>

definition boost_rel :: "'k kernel \<Rightarrow> 'k kernel \<Rightarrow> nat set \<Rightarrow> bool" where
  "boost_rel s s' A \<longleftrightarrow> (\<forall>j. p_state (t_proc s' j) = p_state (t_proc s j) \<and>
       p_pid (t_proc s' j) = p_pid (t_proc s j) \<and> p_parent (t_proc s' j) = p_parent (t_proc s j) \<and>
       p_killed (t_proc s' j) = p_killed (t_proc s j) \<and> p_chan (t_proc s' j) = p_chan (t_proc s j) \<and>
       p_priority (t_proc s' j) = (if j \<in> A \<and> live s j then 3 else p_priority (t_proc s j)) \<and>
       p_tq (t_proc s' j) = (if j \<in> A \<and> live s j then 0 else p_tq (t_proc s j))) \<and>
     t_lockpid s' = t_lockpid s \<and> k_nextpid s' = k_nextpid s \<and> k_cpuproc s' = k_cpuproc s \<and>
     k_initproc s' = k_initproc s \<and> k_ticks s' = k_ticks s \<and> k_env s' = k_env s"

lemma boost_rel_step:
  assumes "boost_rel s0 s A"
    and "same_core (if live s i then upd_proc i (\<lambda>p. p\<lparr>p_priority := 3, p_tq := 0\<rparr>) s else s) s'"
  shows "boost_rel s0 s' (insert i A)"
  using assms by (auto simp: boost_rel_def same_core_simps split: if_splits)

lemma boost_rel_refl: "boost_rel s s {}"
  by (simp add: boost_rel_def)

lemma boost_rel_trans: "boost_rel s s' A \<Longrightarrow> boost_rel s' s'' B \<Longrightarrow> boost_rel s s'' (A \<union> B)"
  by (auto simp: boost_rel_def)

definition boost_pass :: "'k kernel \<Rightarrow> 'k kernel result" where
  "boost_pass = rfold (\<lambda>i s. if live s i then clearProc i s else Inr s) [0..<NPROC]"

text \<open>All live processes in table order: what L0 holds after a boost.\<close>

definition live_list :: "'a ptable_scheme \<Rightarrow> nat list" where
  "live_list s = filter (live s) [0..<NPROC]"

lemma boost_pass_ok:
  assumes ok: "sched_ok s qs"
  shows "\<exists>s'. boost_pass s = Inr s' \<and> sched_ok s' (\<lambda>k. if k = 0 then live_list s else [])
    \<and> boost_rel s s' {..<NPROC}"
proof -
  let ?I = "\<lambda>ys s'. sched_ok s' (boosted s ys qs) \<and> boost_rel s s' (set ys)"
  have q: "queue_ok s qs" "\<And>i. i < NPROC \<Longrightarrow> queued qs i \<longleftrightarrow> live s i" using ok by (auto simp: sched_ok_def)
  have "\<exists>s'. rfold (\<lambda>i s. if live s i then clearProc i s else Inr s) [0..<NPROC] s = Inr s' \<and> ?I [0..<NPROC] s'"
  proof (rule rfold_rule [where I = ?I])
    have "boosted s [] qs = qs" by (auto simp: boosted_def)
    with ok boost_rel_refl show "?I [] s" by simp
  next
    fix ys i zs t
    assume l: "[0..<NPROC] = ys @ i # zs" and I: "?I ys t"
    have "distinct (ys @ i # zs)" "i \<in> set [0..<NPROC]" using l by (metis distinct_upt, simp)
    then have i: "i < NPROC" "i \<notin> set ys" by auto
    have "p_state (t_proc t i) = p_state (t_proc s i)" using I by (simp add: boost_rel_def)
    with boost_step [of t s ys qs i] I i q(2) queue_okD(2) [OF q(1)] queue_ok_disjoint [OF q(1)]
    obtain s' where s': "(if live t i then clearProc i t else Inr t) = Inr s'" "sched_ok s' (boosted s (ys @ [i]) qs)"
        "same_core (if live t i then upd_proc i (\<lambda>p. p\<lparr>p_priority := 3, p_tq := 0\<rparr>) t else t) s'"
      by blast
    with I boost_rel_step [of s t "set ys" i s']
    show "\<exists>s'. (if live t i then clearProc i t else Inr t) = Inr s' \<and> ?I (ys @ [i]) s'" by auto
  qed
  then obtain s' where s': "boost_pass s = Inr s'" "sched_ok s' (boosted s [0..<NPROC] qs)"
      "boost_rel s s' {..<NPROC}" by (auto simp: boost_pass_def atLeast_upt)
  have "filter (\<lambda>j. \<not> j < NPROC) (qs k) = []" if "k < NQUEUE" for k
    using queue_okD(4) [OF q(1) that] by (auto simp: filter_empty_conv)
  then have "sched_ok s' (\<lambda>k. if k = 0 then live_list s else [])"
    by (intro sched_ok_cong [OF s'(2)]) (auto simp: boosted_def live_list_def)
  with s' show ?thesis by blast
qed

lemma sched_ok_frame:
  assumes "sched_ok s qs" "t_proc s' = t_proc s" "t_queue s' = t_queue s"
    and "k_nextpid s' = k_nextpid s" "t_lockpid s' = 0 \<or> t_lockpid s' = t_lockpid s"
  shows "sched_ok s' qs"
proof -
  have "queue_ok s' qs"
    by (rule queue_ok_frame [of s qs]) (use assms in \<open>simp_all add: sched_ok_def\<close>)
  moreover have "proc_ok s'"
    using sched_ok_proc [OF assms(1)] assms(4,5)
    by (rule proc_ok_mono) (simp_all add: assms(2) proc_okD [OF sched_ok_proc [OF assms(1)]])
  ultimately show ?thesis using assms by (simp add: sched_ok_def)
qed

definition boost_start :: "'k kernel \<Rightarrow> 'k kernel" where
  "boost_start s = s\<lparr>k_ticks := 0, t_lockpid := 0\<rparr>"

lemma boostPriority_ok:
  assumes ok: "sched_ok s qs" and c: "k_cpuproc s = None"
  shows "\<exists>s'. boostPriority s = Inr s' \<and> sched_ok s' (\<lambda>k. if k = 0 then live_list s else [])
    \<and> boost_rel (boost_start s) s' {..<NPROC}"
proof -
  let ?t = "boost_start s" and ?qs = "\<lambda>k::nat. if k = 0 then live_list s else []"
  have "(if t_lockpid s \<noteq> 0 then schedulerUnlock PASSWORD (s\<lparr>k_ticks := 0\<rparr>) else Inr (s\<lparr>k_ticks := 0\<rparr>)) = Inr ?t"
    using c by (cases s) (auto simp: schedulerUnlock_def Let_def boost_start_def)
  then have b: "boostPriority s = rfold (\<lambda>_. boost_pass) [0..<NPROC] ?t"
    by (simp add: boostPriority_def Let_def boost_pass_def)
  have ok': "sched_ok ?t qs" by (rule sched_ok_frame [OF ok]) (auto simp: boost_start_def)
  have ll: "live_list t = live_list s" if "boost_rel ?t t A" for t A
    using that by (auto simp: live_list_def boost_rel_def boost_start_def)
  let ?I = "\<lambda>(ys::nat list) t. if ys = [] then t = ?t else sched_ok t ?qs \<and> boost_rel ?t t {..<NPROC}"
  have "\<exists>s'. rfold (\<lambda>_. boost_pass) [0..<NPROC] ?t = Inr s' \<and> ?I [0..<NPROC] s'"
  proof (rule rfold_rule [where I = ?I])
    fix ys i zs t
    assume I: "?I ys t"
    have br: "boost_rel ?t t {..<NPROC} \<or> t = ?t" "\<exists>qs'. sched_ok t qs'"
      using I ok' by (auto split: if_splits)
    then obtain qs' where "sched_ok t qs'" by blast
    from boost_pass_ok [OF this] obtain t' where t': "boost_pass t = Inr t'"
        "sched_ok t' (\<lambda>k. if k = 0 then live_list t else [])" "boost_rel t t' {..<NPROC}" by blast
    have eq: "live_list t = live_list s" using br(1) ll boost_rel_refl by blast
    have "sched_ok t' ?qs" using t'(2) unfolding eq .
    moreover have "boost_rel ?t t' {..<NPROC}"
      using br(1) t'(3) boost_rel_trans [of ?t t "{..<NPROC}" t' "{..<NPROC}"] by auto
    ultimately show "\<exists>s'. boost_pass t = Inr s' \<and> ?I (ys @ [i]) s'" using t' by auto
  qed simp
  with b show ?thesis by (auto simp: NPROC_def)
qed

section \<open>Choosing a process\<close>

abbreviation runnable :: "'a ptable_scheme \<Rightarrow> nat \<Rightarrow> bool" where
  "runnable s i \<equiv> p_state (t_proc s i) = RUNNABLE"

text \<open>
  What MLFQ promises: the first runnable process of L0, else of L1, else the runnable process of L2
  with the smallest priority value, the earliest in the queue among equals.
\<close>

definition first_runnable :: "'a ptable_scheme \<Rightarrow> nat list \<Rightarrow> nat \<Rightarrow> bool" where
  "first_runnable s xs i \<longleftrightarrow> runnable s i \<and>
     (\<exists>ys zs. xs = ys @ i # zs \<and> (\<forall>j\<in>set ys. \<not> runnable s j))"

definition min_runnable :: "'a ptable_scheme \<Rightarrow> nat list \<Rightarrow> nat \<Rightarrow> bool" where
  "min_runnable s xs i \<longleftrightarrow> runnable s i \<and>
     (\<exists>ys zs. xs = ys @ i # zs \<and>
        (\<forall>j\<in>set ys. runnable s j \<longrightarrow> p_priority (t_proc s i) < p_priority (t_proc s j)) \<and>
        (\<forall>j\<in>set zs. runnable s j \<longrightarrow> p_priority (t_proc s i) \<le> p_priority (t_proc s j)))"

definition idle :: "'a ptable_scheme \<Rightarrow> nat list \<Rightarrow> bool" where
  "idle s xs \<longleftrightarrow> (\<forall>j\<in>set xs. \<not> runnable s j)"

definition mlfq_choice :: "'a ptable_scheme \<Rightarrow> (nat \<Rightarrow> nat list) \<Rightarrow> procptr \<Rightarrow> bool" where
  "mlfq_choice s qs r \<longleftrightarrow>
     (case r of
        None \<Rightarrow> idle s (qs 0) \<and> idle s (qs 1) \<and> idle s (qs 2)
      | Some i \<Rightarrow> first_runnable s (qs 0) i
          \<or> idle s (qs 0) \<and> first_runnable s (qs 1) i
          \<or> idle s (qs 0) \<and> idle s (qs 1) \<and> min_runnable s (qs 2) i)"

lemma first_index_runnable: "first_index (runnable s) xs = Some i \<Longrightarrow> first_runnable s xs i"
proof (induction xs)
  case (Cons x xs)
  show ?case
  proof (cases "runnable s x")
    case True
    with Cons.prems have "i = x" by simp
    then show ?thesis
      using True unfolding first_runnable_def by (intro conjI exI [of _ "[]"] exI [of _ xs]) auto
  next
    case False
    with Cons obtain ys zs where "runnable s i" "xs = ys @ i # zs" "\<forall>j\<in>set ys. \<not> runnable s j"
      by (auto simp: first_runnable_def)
    with False show ?thesis
      unfolding first_runnable_def by (intro conjI exI [of _ "x # ys"] exI [of _ zs]) auto
  qed
qed simp

text \<open>The loop over L2 as a function of the list.\<close>

fun min_scan :: "'a ptable_scheme \<Rightarrow> nat list \<Rightarrow> int \<Rightarrow> procptr \<Rightarrow> procptr" where
  "min_scan s [] m p = p"
| "min_scan s (x # xs) m p =
     (if runnable s x \<and> p_priority (t_proc s x) < m
      then min_scan s xs (p_priority (t_proc s x)) (Some x) else min_scan s xs m p)"

lemma scan_min_dseg:
  "dseg (t_proc s) pr a xs la None \<Longrightarrow> length xs \<le> n \<Longrightarrow> scan_min n s a m p = Inr (min_scan s xs m p)"
proof (induction xs arbitrary: n pr a m p)
  case Nil
  then show ?case by simp
next
  case (Cons x xs)
  then obtain l where "n = Suc l" by (cases n) auto
  with Cons show ?case by auto
qed

lemma min_scan_spec:
  "(case min_scan s xs m p of
      None \<Rightarrow> p = None \<and> (\<forall>j\<in>set xs. runnable s j \<longrightarrow> m \<le> p_priority (t_proc s j))
    | Some i \<Rightarrow> p = Some i \<and> (\<forall>j\<in>set xs. runnable s j \<longrightarrow> m \<le> p_priority (t_proc s j))
        \<or> min_runnable s xs i \<and> p_priority (t_proc s i) < m)"
proof (induction xs arbitrary: m p)
  case Nil
  then show ?case by (cases p) auto
next
  case (Cons x xs)
  show ?case
  proof (cases "runnable s x \<and> p_priority (t_proc s x) < m")
    case True
    then have e: "min_scan s (x # xs) m p = min_scan s xs (p_priority (t_proc s x)) (Some x)" by simp
    from Cons.IH [where m = "p_priority (t_proc s x)" and p = "Some x"] obtain i where
      i: "min_scan s xs (p_priority (t_proc s x)) (Some x) = Some i"
      and alt: "(i = x \<and> (\<forall>j\<in>set xs. runnable s j \<longrightarrow> p_priority (t_proc s x) \<le> p_priority (t_proc s j)))
        \<or> (min_runnable s xs i \<and> p_priority (t_proc s i) < p_priority (t_proc s x))"
      by (auto split: option.splits)
    from alt have "min_runnable s (x # xs) i \<and> p_priority (t_proc s i) < m"
    proof
      assume "i = x \<and> (\<forall>j\<in>set xs. runnable s j \<longrightarrow> p_priority (t_proc s x) \<le> p_priority (t_proc s j))"
      with True show ?thesis
        unfolding min_runnable_def by (intro conjI exI [of _ "[]"] exI [of _ xs]) auto
    next
      assume a: "min_runnable s xs i \<and> p_priority (t_proc s i) < p_priority (t_proc s x)"
      then obtain ys zs where "runnable s i" "xs = ys @ i # zs"
        "\<forall>j\<in>set ys. runnable s j \<longrightarrow> p_priority (t_proc s i) < p_priority (t_proc s j)"
        "\<forall>j\<in>set zs. runnable s j \<longrightarrow> p_priority (t_proc s i) \<le> p_priority (t_proc s j)"
        by (auto simp: min_runnable_def)
      with True a show ?thesis
        unfolding min_runnable_def by (intro conjI exI [of _ "x # ys"] exI [of _ zs]) auto
    qed
    with e i show ?thesis by simp
  next
    case False
    then have e: "min_scan s (x # xs) m p = min_scan s xs m p" by auto
    have lift: "min_runnable s (x # xs) i" if "min_runnable s xs i" "p_priority (t_proc s i) < m" for i
    proof -
      from that obtain ys zs where "runnable s i" "xs = ys @ i # zs"
        "\<forall>j\<in>set ys. runnable s j \<longrightarrow> p_priority (t_proc s i) < p_priority (t_proc s j)"
        "\<forall>j\<in>set zs. runnable s j \<longrightarrow> p_priority (t_proc s i) \<le> p_priority (t_proc s j)"
        by (auto simp: min_runnable_def)
      with False that(2) show ?thesis
        unfolding min_runnable_def by (intro conjI exI [of _ "x # ys"] exI [of _ zs]) auto
    qed
    from Cons.IH [where m = m and p = p] False lift show ?thesis
      by (auto simp: e split: option.splits)
  qed
qed

lemma scan_levels_ok:
  assumes ok: "queue_ok s qs"
    and pr: "\<And>i. i < NPROC \<Longrightarrow> runnable s i \<Longrightarrow> p_priority (t_proc s i) \<le> 3"
  shows "\<exists>p. scan_levels [0..<NQUEUE - 1] s = Inr p \<and> mlfq_choice s qs p"
proof -
  have lv: "[0..<NQUEUE - 1] = [0, 1]" and n: "0 < NQUEUE" "1 < NQUEUE" "NQUEUE - 1 = 2" "2 < NQUEUE"
    by (simp_all add: NQUEUE_def upt_conv_Cons)
  have q: "scan_queue NPROC (runnable s) s (q_front (t_queue s k)) = Inr (first_index (runnable s) (qs k))"
    "scan_min NPROC s (q_front (t_queue s k)) 4 None = Inr (min_scan s (qs k) 4 None)" if "k < NQUEUE" for k
    using scan_queue_dseg scan_min_dseg queue_okD(1) [OF ok that] queue_ok_length [OF ok that]
    unfolding qseg_def by blast+
  let ?f = "\<lambda>k. first_index (runnable s) (qs k)"
  have e: "scan_levels [0..<NQUEUE - 1] s =
    Inr (case ?f 0 of Some i \<Rightarrow> Some i | None \<Rightarrow> (case ?f 1 of Some i \<Rightarrow> Some i | None \<Rightarrow> min_scan s (qs 2) 4 None))"
    unfolding lv using n
    by (cases "?f 0"; cases "?f 1") (simp_all add: frontqueue_def deref_queue_def q del: first_index_None One_nat_def)
  have m: "case min_scan s (qs 2) 4 None of None \<Rightarrow> idle s (qs 2) | Some i \<Rightarrow> min_runnable s (qs 2) i"
    using min_scan_spec [where s = s and xs = "qs 2" and m = 4 and p = None] queue_okD(4) [OF ok n(4)] pr
    by (fastforce simp: idle_def split: option.splits)
  have i: "?f k = None \<Longrightarrow> idle s (qs k)" for k by (simp add: idle_def)
  show ?thesis
    unfolding e mlfq_choice_def using m i first_index_runnable [of s "qs 0"] first_index_runnable [of s "qs 1"]
    by (auto split: option.splits)
qed

lemma mlfq_choice_runnable:
  assumes "queue_ok s qs" "mlfq_choice s qs (Some i)"
  shows "i < NPROC \<and> runnable s i"
proof -
  have n: "0 < NQUEUE" "1 < NQUEUE" "2 < NQUEUE" by (simp_all add: NQUEUE_def)
  from assms(2) have "runnable s i" "i \<in> set (qs 0) \<or> i \<in> set (qs 1) \<or> i \<in> set (qs 2)"
    by (auto simp: mlfq_choice_def first_runnable_def min_runnable_def)
  then show ?thesis
    using queue_okD(4) [OF assms(1) n(1)] queue_okD(4) [OF assms(1) n(2)] queue_okD(4) [OF assms(1) n(3)] by blast
qed

lemma lock_holder:
  assumes "proc_ok s" "t_lockpid s \<noteq> 0"
  obtains i where "getProc (t_lockpid s) s = Some i" "i < NPROC" "live s i" "p_pid (t_proc s i) = t_lockpid s"
proof -
  from assms have "getProc (t_lockpid s) s \<noteq> None" by (auto simp: proc_ok_def lock_ok_def getProc_def)
  then obtain i where "getProc (t_lockpid s) s = Some i" by blast
  with first_index_Some [of _ "[0..<NPROC]" i] that show ?thesis by (auto simp: getProc_def)
qed

text \<open>
  \<^verbatim>\<open>getProcessToRun\<close>: while the scheduler is locked by a runnable process it returns that process;
  otherwise the lock is dropped and the choice is that of MLFQ.
\<close>

lemma getProcessToRun_ok:
  assumes ok: "sched_ok s qs" and c: "k_cpuproc s = None"
  shows "(\<exists>i. getProcessToRun s = Inr (Some i, s) \<and> i < NPROC \<and> runnable s i
        \<and> t_lockpid s \<noteq> 0 \<and> p_pid (t_proc s i) = t_lockpid s)
    \<or> (\<exists>p. getProcessToRun s = Inr (p, s\<lparr>t_lockpid := 0\<rparr>) \<and> mlfq_choice s qs p)"
proof -
  have q: "queue_ok s qs" and p: "proc_ok s" using ok by (auto simp: sched_ok_def)
  have same: "s\<lparr>t_lockpid := 0\<rparr> = s" if "t_lockpid s = 0" using that by (cases s) simp
  have "queue_ok (s\<lparr>t_lockpid := 0\<rparr>) qs"
    using sched_ok_frame [OF ok, of "s\<lparr>t_lockpid := 0\<rparr>"] by (simp add: sched_ok_def)
  then obtain r where r: "scan_levels [0..<NQUEUE - 1] (s\<lparr>t_lockpid := 0\<rparr>) = Inr r"
      "mlfq_choice (s\<lparr>t_lockpid := 0\<rparr>) qs r"
    using scan_levels_ok [of "s\<lparr>t_lockpid := 0\<rparr>" qs] proc_okD(3) [OF p] by auto
  have r2: "mlfq_choice s qs r"
    using r(2) by (cases r) (simp_all add: mlfq_choice_def first_runnable_def min_runnable_def idle_def)
  show ?thesis
  proof (cases "t_lockpid s = 0")
    case True
    with r(1) r2 same show ?thesis by (simp add: getProcessToRun_def Let_def)
  next
    case False
    from lock_holder [OF p False] obtain i where i: "getProc (t_lockpid s) s = Some i" "i < NPROC"
        "live s i" "p_pid (t_proc s i) = t_lockpid s" .
    have "schedulerUnlock PASSWORD s = Inr (s\<lparr>t_lockpid := 0\<rparr>)"
      using False c by (simp add: schedulerUnlock_def Let_def)
    with False i r(1) r2 show ?thesis
      by (cases "runnable s i") (simp_all add: getProcessToRun_def Let_def)
  qed
qed

end
