(* ===== verification/Mlfq_Steps.thy ===== *)
theory Mlfq_Steps
  imports Mlfq_Sched
begin

text \<open>
  The scheduler loop and the scheduling operations.  \<open>sched_loop_ok\<close> is the termination
  argument of the inner loop of \<^verbatim>\<open>scheduler\<close>; the lemmas \<open>*_inv\<close> say that each operation runs without
  a fault from a state that satisfies \<open>sched_inv\<close> and re-establishes it.
\<close>

section \<open>What scheduling decisions leave alone\<close>

definition keeps :: "'k kernel \<Rightarrow> 'k kernel \<Rightarrow> bool" where
  "keeps s s' \<longleftrightarrow> (\<forall>j. p_state (t_proc s' j) = p_state (t_proc s j) \<and> p_pid (t_proc s' j) = p_pid (t_proc s j)
       \<and> p_parent (t_proc s' j) = p_parent (t_proc s j) \<and> p_killed (t_proc s' j) = p_killed (t_proc s j)
       \<and> p_chan (t_proc s' j) = p_chan (t_proc s j))
     \<and> k_nextpid s' = k_nextpid s \<and> k_initproc s' = k_initproc s \<and> k_cpuproc s' = k_cpuproc s
     \<and> k_env s' = k_env s"

lemma keeps_refl [simp]: "keeps s s"
  by (simp add: keeps_def)

lemma keeps_trans: "keeps s s' \<Longrightarrow> keeps s' s'' \<Longrightarrow> keeps s s''"
  by (simp add: keeps_def)

lemma keeps_core: "same_core s s' \<Longrightarrow> keeps s s'"
  by (simp add: keeps_def same_core_simps)

lemma keeps_boost: "boost_rel s s' A \<Longrightarrow> keeps s s'"
  by (simp add: keeps_def boost_rel_def)

lemma keeps_cpu: "keeps s s' \<Longrightarrow> cpu_ok s \<Longrightarrow> cpu_ok s'"
  by (simp add: keeps_def cpu_ok_def)

section \<open>Time quanta\<close>

text \<open>A process whose quantum is used up, and how many there are.\<close>

definition expired :: "'a ptable_scheme \<Rightarrow> nat \<Rightarrow> bool" where
  "expired s i \<longleftrightarrow> p_tq (t_proc s i) = getTimeQuantum (p_level (t_proc s i))"

definition expired_count :: "'a ptable_scheme \<Rightarrow> nat" where
  "expired_count s = card {i. i < NPROC \<and> live s i \<and> expired s i}"

lemma expired_count_bound: "expired_count s \<le> NPROC"
proof -
  have "{i. i < NPROC \<and> live s i \<and> expired s i} \<subseteq> {..<NPROC}" by auto
  from card_mono [OF _ this] show ?thesis by (simp add: expired_count_def)
qed

lemma proc_prio_tq [simp]:
  "p\<lparr>p_tq := t, p_priority := x\<rparr> = p\<lparr>p_priority := x, p_tq := t\<rparr>"
  "p_priority p = x \<Longrightarrow> p\<lparr>p_priority := x, p_tq := t\<rparr> = p\<lparr>p_tq := t\<rparr>"
  by (cases p, simp)+

text \<open>
  \<^verbatim>\<open>expireTimeQuantum\<close>: below L2 the process goes to the back of the next queue; in L2 its priority
  value drops by one, not below 0.  Its time is reset in both cases.
\<close>

lemma expire_ok:
  assumes ok: "sched_ok s qs" and k: "k < NQUEUE" "i \<in> set (qs k)"
  shows "\<exists>s'. expireTimeQuantum i s = Inr s' \<and> keeps s s' \<and> t_lockpid s' = t_lockpid s \<and> k_ticks s' = k_ticks s
    \<and> sched_ok s' (if k < 2 then q_move k (Suc k) i qs else qs)
    \<and> (\<forall>j. p_tq (t_proc s' j) = (if j = i then 0 else p_tq (t_proc s j)))
    \<and> (\<forall>j. p_priority (t_proc s' j) = (if j = i \<and> k = 2 then max 0 (p_priority (t_proc s j) - 1) else p_priority (t_proc s j)))"
proof -
  have q: "queue_ok s qs" and pr: "proc_ok s" using ok by (auto simp: sched_ok_def)
  have i: "i < NPROC" "p_queue (t_proc s i) = Some k" "p_level (t_proc s i) = int k"
    using queue_okD(4) [OF q k] by auto
  have live: "live s i" using ok k i by (auto simp: sched_ok_def queued_def)
  have b: "0 \<le> p_priority (t_proc s i)" "p_priority (t_proc s i) \<le> 3" using proc_okD [OF pr i(1) live] by auto
  let ?s = "upd_proc i (\<lambda>p. p\<lparr>p_tq := 0\<rparr>) s"
  have e: "?s = upd_proc i (\<lambda>p. p\<lparr>p_priority := p_priority (t_proc s i), p_tq := 0\<rparr>) s" by simp
  have ok': "sched_ok ?s qs" unfolding e by (rule sched_ok_prio [OF ok]) (use b in auto)
  show ?thesis
  proof (cases "k < 2")
    case True
    then have "Suc k < NQUEUE" by (simp add: NQUEUE_def)
    from sched_ok_move [OF ok' k(1) this k(2)] obtain s' where
      s': "rbind (erasequeue (Some k) (Some i) ?s) (pushqueue (Some (Suc k)) (Some i)) = Inr s'"
        "sched_ok s' (q_move k (Suc k) i qs)" "same_core ?s s'" by blast
    have "keeps s s'" using s'(3) by (simp add: keeps_def same_core_simps)
    moreover have "expireTimeQuantum i s = Inr s'"
      using s'(1) i True by (simp add: expireTimeQuantum_def Let_def NQUEUE_def)
    ultimately show ?thesis using s' True by (auto simp: same_core_simps)
  next
    case False
    with k have k2: "k = 2" by (simp add: NQUEUE_def)
    let ?p = "max 0 (p_priority (t_proc s i) - 1)"
    have "sched_ok (upd_proc i (\<lambda>p. p\<lparr>p_priority := ?p, p_tq := 0\<rparr>) s) qs"
      by (rule sched_ok_prio [OF ok]) (use b in auto)
    moreover have "expireTimeQuantum i s = Inr (upd_proc i (\<lambda>p. p\<lparr>p_priority := ?p, p_tq := 0\<rparr>) s)"
      using i k2 b by (auto simp: expireTimeQuantum_def Let_def NQUEUE_def max_def)
    ultimately show ?thesis using k2 by (auto simp: keeps_def)
  qed
qed

lemma level_of: "queue_ok s qs \<Longrightarrow> k < NQUEUE \<Longrightarrow> j \<in> set (qs k) \<Longrightarrow> p_level (t_proc s j) = int k"
  using queue_okD(4) by blast

lemma expire_count:
  assumes ok: "sched_ok s qs" and k: "k < NQUEUE" "i \<in> set (qs k)" and x: "expired s i"
    and s': "keeps s s'" "sched_ok s' (if k < 2 then q_move k (Suc k) i qs else qs)"
      "\<forall>j. p_tq (t_proc s' j) = (if j = i then 0 else p_tq (t_proc s j))"
  shows "expired_count s' < expired_count s"
proof -
  let ?X = "\<lambda>s. {i. i < NPROC \<and> live s i \<and> expired s i}"
  let ?qs = "if k < 2 then q_move k (Suc k) i qs else qs"
  have q: "queue_ok s qs" "queue_ok s' ?qs" using ok s'(2) by (auto simp: sched_ok_def)
  have i: "i < NPROC" "live s i" using queue_okD(4) [OF q(1) k] ok k by (auto simp: sched_ok_def queued_def)
  have lv: "p_level (t_proc s' j) = p_level (t_proc s j)" if j: "j < NPROC" "live s j" "j \<noteq> i" for j
  proof -
    obtain m where m: "m < NQUEUE" "j \<in> set (qs m)" using ok j by (auto simp: sched_ok_def queued_def)
    then have "j \<in> set (?qs m)" using \<open>j \<noteq> i\<close> by (auto simp: q_move_def Let_def)
    with m level_of [OF q(1)] level_of [OF q(2)] show ?thesis by metis
  qed
  have "0 \<le> p_level (t_proc s' i)"
  proof -
    have "live s' i" using i s'(1) by (simp add: keeps_def)
    with i s'(2) obtain m where "m < NQUEUE" "i \<in> set (?qs m)" unfolding sched_ok_def queued_def by blast
    with level_of [OF q(2)] show ?thesis by (metis of_nat_0_le_iff)
  qed
  then have "i \<notin> ?X s'" using s'(3) by (simp add: expired_def getTimeQuantum_def)
  moreover have "?X s' \<subseteq> ?X s"
  proof
    fix j assume j: "j \<in> ?X s'"
    with \<open>i \<notin> ?X s'\<close> have "j \<noteq> i" by blast
    with j lv [of j] s' show "j \<in> ?X s" by (auto simp: keeps_def expired_def)
  qed
  moreover have "i \<in> ?X s" using i x by simp
  ultimately have "?X s' \<subset> ?X s" by blast
  then show ?thesis unfolding expired_count_def by (rule psubset_card_mono [rotated]) simp
qed

section \<open>The inner loop of the scheduler\<close>

lemma idle_all:
  assumes ok: "sched_ok s qs" and c: "mlfq_choice s qs None" and j: "j < NPROC"
  shows "\<not> runnable s j"
proof
  assume r: "runnable s j"
  with ok j obtain k where "k < NQUEUE" "j \<in> set (qs k)" by (auto simp: sched_ok_def queued_def)
  moreover from this have "k = 0 \<or> k = 1 \<or> k = 2" by (auto simp: NQUEUE_def)
  ultimately show False using c r by (auto simp: mlfq_choice_def idle_def)
qed

text \<open>What the loop hands to the rest of \<^verbatim>\<open>scheduler\<close>.\<close>

definition loop_result :: "procptr \<Rightarrow> 'k kernel \<Rightarrow> (nat \<Rightarrow> nat list) \<Rightarrow> bool" where
  "loop_result p s qs \<longleftrightarrow>
     (case p of
        None \<Rightarrow> \<forall>j<NPROC. \<not> runnable s j
      | Some i \<Rightarrow> i < NPROC \<and> runnable s i \<and> \<not> expired s i \<and>
          (t_lockpid s \<noteq> 0 \<and> p_pid (t_proc s i) = t_lockpid s \<or> t_lockpid s = 0 \<and> mlfq_choice s qs (Some i)))"

text \<open>The processes that \<^verbatim>\<open>getProcessToRun\<close> can return, in one form for both of its branches.\<close>

lemma getProcessToRun_cases:
  assumes ok: "sched_ok s qs" and c: "k_cpuproc s = None"
  obtains p t where "getProcessToRun s = Inr (p, t)" "t = s \<or> t = s\<lparr>t_lockpid := 0\<rparr>" "sched_ok t qs"
    "case p of None \<Rightarrow> \<forall>j<NPROC. \<not> runnable t j
     | Some i \<Rightarrow> i < NPROC \<and> runnable t i \<and>
         (t_lockpid t \<noteq> 0 \<and> p_pid (t_proc t i) = t_lockpid t \<or> t_lockpid t = 0 \<and> mlfq_choice t qs (Some i))"
proof -
  from getProcessToRun_ok [OF assms] show ?thesis
  proof (elim disjE exE conjE)
    fix i assume "getProcessToRun s = Inr (Some i, s)" "i < NPROC" "runnable s i"
      "t_lockpid s \<noteq> 0" "p_pid (t_proc s i) = t_lockpid s"
    with that [of "Some i" s] ok show ?thesis by simp
  next
    fix p assume p: "getProcessToRun s = Inr (p, s\<lparr>t_lockpid := 0\<rparr>)" "mlfq_choice s qs p"
    let ?t = "s\<lparr>t_lockpid := 0\<rparr>"
    have t: "sched_ok ?t qs" using sched_ok_frame [OF ok, of ?t] by simp
    have m: "mlfq_choice ?t qs p"
      using p(2) by (cases p) (simp_all add: mlfq_choice_def first_runnable_def min_runnable_def idle_def)
    have "case p of None \<Rightarrow> \<forall>j<NPROC. \<not> runnable ?t j
     | Some i \<Rightarrow> i < NPROC \<and> runnable ?t i \<and>
         (t_lockpid ?t \<noteq> 0 \<and> p_pid (t_proc ?t i) = t_lockpid ?t \<or> t_lockpid ?t = 0 \<and> mlfq_choice ?t qs (Some i))"
    proof (cases p)
      case None
      with idle_all [OF t] m show ?thesis by simp
    next
      case (Some i)
      with mlfq_choice_runnable [of ?t qs i] t m show ?thesis by (simp add: sched_ok_def)
    qed
    with that [of p ?t] p t show ?thesis by blast
  qed
qed

lemma sched_loop_ok:
  assumes "sched_ok s qs" "k_cpuproc s = None" "expired_count s < n"
  shows "\<exists>p s' qs'. sched_loop n s = Inr (p, s') \<and> sched_ok s' qs' \<and> keeps s s' \<and> k_ticks s' = k_ticks s
    \<and> loop_result p s' qs'"
  using assms
proof (induction n arbitrary: s qs)
  case 0
  then show ?case by simp
next
  case (Suc n)
  from getProcessToRun_cases [OF Suc.prems(1,2)] obtain p t where
    t: "getProcessToRun s = Inr (p, t)" "t = s \<or> t = s\<lparr>t_lockpid := 0\<rparr>" "sched_ok t qs"
    and r: "case p of None \<Rightarrow> \<forall>j<NPROC. \<not> runnable t j
     | Some i \<Rightarrow> i < NPROC \<and> runnable t i \<and>
         (t_lockpid t \<noteq> 0 \<and> p_pid (t_proc t i) = t_lockpid t \<or> t_lockpid t = 0 \<and> mlfq_choice t qs (Some i))" .
  have k: "keeps s t" "k_ticks t = k_ticks s" "expired_count t = expired_count s"
    using t(2) by (auto simp: keeps_def expired_count_def expired_def)
  show ?case
  proof (cases p)
    case None
    with t r k show ?thesis by (auto simp: loop_result_def)
  next
    case (Some i)
    show ?thesis
    proof (cases "expired t i")
      case False
      then have "sched_loop (Suc n) s = Inr (Some i, t)" using t(1) Some by (simp add: expired_def)
      with t(3) k r Some False show ?thesis by (auto simp: loop_result_def)
    next
      case True
      from r Some have i: "i < NPROC" "live t i" by auto
      from sched_ok_queue [OF t(3) i] obtain m where m: "m < NQUEUE" "i \<in> set (qs m)" .
      from expire_ok [OF t(3) m] obtain u where u: "expireTimeQuantum i t = Inr u" "keeps t u"
          "k_ticks u = k_ticks t" "sched_ok u (if m < 2 then q_move m (Suc m) i qs else qs)"
          "\<forall>j. p_tq (t_proc u j) = (if j = i then 0 else p_tq (t_proc t j))" by blast
      have "expired_count u < n"
        using expire_count [OF t(3) m True u(2,4,5)] k(3) Suc.prems(3) by simp
      moreover have "k_cpuproc u = None" using u(2) k(1) Suc.prems(2) by (simp add: keeps_def)
      ultimately obtain p' s' qs' where "sched_loop n u = Inr (p', s')" "sched_ok s' qs'" "keeps u s'"
          "k_ticks s' = k_ticks u" "loop_result p' s' qs'" using Suc.IH [OF u(4)] by blast
      moreover have "sched_loop (Suc n) s = sched_loop n u"
        using t(1) Some True u(1) by (simp add: expired_def)
      ultimately show ?thesis using keeps_trans k u by metis
    qed
  qed
qed

section \<open>Operations keep the invariant\<close>

text \<open>
  \<open>soft s s'\<close>: processes change state, and fields outside the invariant, but nobody is created or
  reaped and the links stay.
\<close>

definition soft :: "'k kernel \<Rightarrow> 'k kernel \<Rightarrow> bool" where
  "soft s s' \<longleftrightarrow> t_queue s' = t_queue s \<and> k_nextpid s' = k_nextpid s
     \<and> (t_lockpid s' = 0 \<or> t_lockpid s' = t_lockpid s)
     \<and> (\<forall>j. p_prev (t_proc s' j) = p_prev (t_proc s j) \<and> p_next (t_proc s' j) = p_next (t_proc s j)
       \<and> p_queue (t_proc s' j) = p_queue (t_proc s j) \<and> p_level (t_proc s' j) = p_level (t_proc s j)
       \<and> p_pid (t_proc s' j) = p_pid (t_proc s j) \<and> p_kstack (t_proc s' j) = p_kstack (t_proc s j)
       \<and> p_pgdir (t_proc s' j) = p_pgdir (t_proc s j) \<and> p_priority (t_proc s' j) = p_priority (t_proc s j)
       \<and> p_tq (t_proc s' j) = p_tq (t_proc s j)
       \<and> (p_state (t_proc s' j) = UNUSED \<longleftrightarrow> p_state (t_proc s j) = UNUSED)
       \<and> (p_state (t_proc s j) = EMBRYO \<longrightarrow> p_state (t_proc s' j) = EMBRYO)
       \<and> (p_state (t_proc s' j) = ZOMBIE \<longrightarrow> p_state (t_proc s j) = ZOMBIE \<or> p_pid (t_proc s j) \<noteq> t_lockpid s'))"

lemma sched_ok_soft:
  assumes ok: "sched_ok s qs" and s: "soft s s'"
  shows "sched_ok s' qs"
proof -
  have "queue_ok s' qs"
    by (rule queue_ok_frame [of s qs]) (use ok s in \<open>simp_all add: sched_ok_def soft_def\<close>)
  moreover have "proc_ok s'"
    by (rule proc_ok_mono [OF sched_ok_proc [OF ok]])
      (use s proc_okD [OF sched_ok_proc [OF ok]] in \<open>simp_all add: soft_def\<close>)
  ultimately show ?thesis using ok s by (simp add: sched_ok_def soft_def)
qed

lemma sched_invD: "sched_inv s \<Longrightarrow> sched_ok s (qlist s)" "sched_inv s \<Longrightarrow> cpu_ok s"
  by (simp_all add: sched_inv_def)

lemma sched_inv_soft: "sched_inv s \<Longrightarrow> soft s s' \<Longrightarrow> cpu_ok s' \<Longrightarrow> sched_inv s'"
  using sched_ok_soft sched_ok_inv sched_invD(1) by blast

text \<open>The running process of a state that satisfies the invariant.\<close>

lemma cpu_running:
  assumes "sched_inv s" "k_cpuproc s = Some c"
  shows "c < NPROC" "p_state (t_proc s c) = RUNNING"
    "\<And>j. j < NPROC \<Longrightarrow> p_state (t_proc s j) = RUNNING \<Longrightarrow> j = c"
  using assms by (auto simp: sched_inv_def cpu_ok_def)

subsection \<open>The scheduler itself\<close>

lemma boost_if_due_inv:
  assumes ok: "sched_ok s qs" and c: "cpu_ok s" "k_cpuproc s = None"
  shows "\<exists>s'. boost_if_due s = Inr s' \<and> sched_inv s' \<and> keeps s s'"
proof (cases "k_ticks s \<ge> 100")
  case True
  from boostPriority_ok [OF ok c(2)] obtain s' where s': "boostPriority s = Inr s'"
      "sched_ok s' (\<lambda>k. if k = 0 then live_list s else [])" "boost_rel (boost_start s) s' {..<NPROC}" by blast
  have k: "keeps s s'" using keeps_boost [OF s'(3)] by (simp add: keeps_def boost_start_def)
  with sched_ok_inv [OF s'(2)] keeps_cpu [OF k c(1)] s'(1) True show ?thesis by (simp add: boost_if_due_def)
next
  case False
  with sched_ok_inv [OF ok c(1)] show ?thesis by (simp add: boost_if_due_def)
qed

text \<open>The hand-over to the chosen process: count the tick, rotate in L0 and L1, switch to it.\<close>

lemma dispatch_ok:
  assumes ok: "sched_ok s qs" and c: "cpu_ok s" "k_cpuproc s = None" and i: "i < NPROC" "runnable s i"
    and e: "sched_loop (NPROC + 1) s0 = Inr (Some i, s)"
  shows "\<exists>s'. scheduler_dispatch s0 = Inr s' \<and> sched_inv s' \<and> k_cpuproc s' = Some i \<and>
     (\<forall>j. p_tq (t_proc s' j) = (if j = i then p_tq (t_proc s i) + 1 else p_tq (t_proc s j)))"
proof -
  have live: "live s i" using i by simp
  from sched_ok_queue [OF ok i(1) live] obtain k where k: "k < NQUEUE" "i \<in> set (qs k)"
    "p_queue (t_proc s i) = Some k" "p_level (t_proc s i) = int k" .
  note pr = sched_ok_proc [OF ok]
  let ?s = "upd_proc i (\<lambda>p. p\<lparr>p_tq := p_tq p + 1\<rparr>) s"
  have "?s = upd_proc i (\<lambda>p. p\<lparr>p_priority := p_priority (t_proc s i), p_tq := p_tq (t_proc s i) + 1\<rparr>) s" by simp
  then have ok1: "sched_ok ?s qs"
    using sched_ok_prio [OF ok, of i "p_priority (t_proc s i)" "p_tq (t_proc s i) + 1"] proc_okD [OF pr i(1) live] by simp
  obtain t qs' where t: "(if p_level (t_proc ?s i) < int NQUEUE - 1
        then rbind (erasequeue (p_queue (t_proc ?s i)) (Some i) ?s) (pushqueue (p_queue (t_proc ?s i)) (Some i))
        else Inr ?s) = Inr t" "sched_ok t qs'" "same_core ?s t"
    using sched_ok_move [OF ok1 k(1) k(1) k(2)] ok1 k(3) by (cases "p_level (t_proc ?s i) < int NQUEUE - 1") auto
  let ?t = "upd_proc i (\<lambda>p. p\<lparr>p_state := RUNNING\<rparr>) (t\<lparr>k_cpuproc := Some i\<rparr>)"
  have run: "runnable t i" using t(3) i(2) by (simp add: same_core_simps)
  have "p_kstack (t_proc t i) \<noteq> 0" "p_pgdir (t_proc t i) \<noteq> 0"
    using sched_ok_proc [OF t(2)] run i(1) by (auto simp: proc_ok_def mem_ok_def)
  then have "scheduler_dispatch s0 = Inr ?t"
    using e t(1) by (simp add: scheduler_dispatch_def Let_def switchuvm_def)
  moreover have "sched_ok ?t qs'"
    by (rule sched_ok_soft [OF t(2)]) (use run in \<open>auto simp: soft_def\<close>)
  moreover have "cpu_ok ?t"
    using c t(3) i(1) by (auto simp: cpu_ok_def same_core_simps)
  moreover have "\<forall>j. p_tq (t_proc ?t j) = (if j = i then p_tq (t_proc s i) + 1 else p_tq (t_proc s j))"
    using t(3) by (auto simp: same_core_simps)
  ultimately show ?thesis using sched_ok_inv by auto
qed

lemma scheduler_dispatch_inv:
  assumes inv: "sched_inv s" and c: "k_cpuproc s = None"
  shows "\<exists>s'. scheduler_dispatch s = Inr s' \<and> sched_inv s' \<and>
    (k_cpuproc s' = None \<longleftrightarrow> (\<forall>j<NPROC. \<not> runnable s j))"
proof -
  have "expired_count s < NPROC + 1" using expired_count_bound [of s] by simp
  from sched_loop_ok [OF sched_invD(1) [OF inv] c this] obtain p t qs' where
    t: "sched_loop (NPROC + 1) s = Inr (p, t)" "sched_ok t qs'" "keeps s t" "loop_result p t qs'" by blast
  have ct: "cpu_ok t" "k_cpuproc t = None"
    using keeps_cpu [OF t(3) sched_invD(2) [OF inv]] t(3) c by (auto simp: keeps_def)
  have rn: "runnable t j \<longleftrightarrow> runnable s j" for j using t(3) by (simp add: keeps_def)
  show ?thesis
  proof (cases p)
    case None
    with t(1) have "scheduler_dispatch s = boost_if_due t" by (simp add: scheduler_dispatch_def)
    with boost_if_due_inv [OF t(2) ct] t(4) None rn ct(2) show ?thesis by (auto simp: loop_result_def keeps_def)
  next
    case (Some i)
    with t(4) have i: "i < NPROC" "runnable t i" by (auto simp: loop_result_def)
    from dispatch_ok [OF t(2) ct i t(1) [unfolded Some]] obtain s' where
      "scheduler_dispatch s = Inr s'" "sched_inv s'" "k_cpuproc s' = Some i" by blast
    moreover have "\<not> (\<forall>j<NPROC. \<not> runnable s j)" using i rn by blast
    ultimately show ?thesis by auto
  qed
qed

lemma scheduler_return_inv:
  assumes ok: "sched_ok s qs" and c: "\<And>j. j < NPROC \<Longrightarrow> p_state (t_proc s j) \<noteq> RUNNING"
  shows "\<exists>s'. scheduler_return s = Inr s' \<and> sched_inv s' \<and> keeps (s\<lparr>k_cpuproc := None\<rparr>) s'"
  unfolding scheduler_return_def
proof (rule boost_if_due_inv)
  show "sched_ok (s\<lparr>k_cpuproc := None\<rparr>) qs"
    by (rule sched_ok_soft [OF ok]) (simp add: soft_def)
  show "cpu_ok (s\<lparr>k_cpuproc := None\<rparr>)" using c by (simp add: cpu_ok_def)
qed simp

subsection \<open>Giving up the CPU\<close>

text \<open>
  \<^verbatim>\<open>yield\<close> and \<^verbatim>\<open>sleep\<close> change the state of the running process and switch to the scheduler; the
  common part is stated for any new state other than \<^verbatim>\<open>RUNNING\<close>.
\<close>

lemma give_up_inv:
  assumes inv: "sched_inv s" and c: "k_cpuproc s = Some c"
    and s1: "soft s s1" "k_cpuproc s1 = Some c" "p_state (t_proc s1 c) \<noteq> RUNNING"
      "\<And>j. j \<noteq> c \<Longrightarrow> p_state (t_proc s1 j) = RUNNING \<Longrightarrow> p_state (t_proc s j) = RUNNING"
  shows "\<exists>s'. rbind (sched s1) scheduler_return = Inr s' \<and> sched_inv s' \<and> keeps (s1\<lparr>k_cpuproc := None\<rparr>) s'"
proof -
  have ok: "sched_ok s1 (qlist s)" by (rule sched_ok_soft [OF sched_invD(1) [OF inv] s1(1)])
  have "p_state (t_proc s1 j) \<noteq> RUNNING" if j: "j < NPROC" for j
  proof (cases "j = c")
    case True
    with s1(3) show ?thesis by simp
  next
    case False
    then have "p_state (t_proc s j) \<noteq> RUNNING" using cpu_running(3) [OF inv c j] by blast
    with s1(4) [OF False] show ?thesis by blast
  qed
  from scheduler_return_inv [OF ok this] s1(2,3) show ?thesis by (simp add: sched_def)
qed

definition yield_step :: "'k kernel \<Rightarrow> 'k kernel result" where
  "yield_step s = rbind (yield s) scheduler_return"

definition sleep_step :: "chan \<Rightarrow> 'k kernel \<Rightarrow> 'k kernel result" where
  "sleep_step ch s = rbind (sleep ch s) scheduler_return"

lemma yield_inv:
  assumes inv: "sched_inv s" and c: "k_cpuproc s = Some c"
  shows "\<exists>s'. yield_step s = Inr s' \<and> sched_inv s' \<and> k_cpuproc s' = None \<and> runnable s' c"
proof -
  let ?s = "upd_proc c (\<lambda>p. p\<lparr>p_state := RUNNABLE\<rparr>) s"
  have "soft s ?s" using cpu_running(2) [OF inv c] by (simp add: soft_def)
  then have "\<exists>s'. rbind (sched ?s) scheduler_return = Inr s' \<and> sched_inv s' \<and> keeps (?s\<lparr>k_cpuproc := None\<rparr>) s'"
    by (rule give_up_inv [OF inv c]) (simp_all add: c)
  then obtain s' where s': "rbind (sched ?s) scheduler_return = Inr s'" "sched_inv s'"
    "keeps (?s\<lparr>k_cpuproc := None\<rparr>) s'" by blast
  from s'(3) have "k_cpuproc s' = None" "runnable s' c" by (simp_all add: keeps_def)
  moreover have "yield_step s = Inr s'" using s'(1) by (simp only: yield_step_def yield_def c option.case)
  ultimately show ?thesis using s'(2) by blast
qed

lemma sleep_inv:
  assumes inv: "sched_inv s" and c: "k_cpuproc s = Some c"
  shows "\<exists>s'. sleep_step ch s = Inr s' \<and> sched_inv s' \<and> k_cpuproc s' = None
    \<and> p_state (t_proc s' c) = SLEEPING \<and> p_chan (t_proc s' c) = ch"
proof -
  let ?s = "upd_proc c (\<lambda>p. p\<lparr>p_chan := ch, p_state := SLEEPING\<rparr>) s"
  have "soft s ?s" using cpu_running(2) [OF inv c] by (simp add: soft_def)
  then have "\<exists>s'. rbind (sched ?s) scheduler_return = Inr s' \<and> sched_inv s' \<and> keeps (?s\<lparr>k_cpuproc := None\<rparr>) s'"
    by (rule give_up_inv [OF inv c]) (simp_all add: c)
  then obtain s' where s': "rbind (sched ?s) scheduler_return = Inr s'" "sched_inv s'"
    "keeps (?s\<lparr>k_cpuproc := None\<rparr>) s'" by blast
  from s'(3) have "k_cpuproc s' = None" "p_state (t_proc s' c) = SLEEPING" "p_chan (t_proc s' c) = ch"
    by (simp_all add: keeps_def)
  moreover have "sleep_step ch s = Inr s'" using s'(1) by (simp only: sleep_step_def sleep_def c option.case)
  ultimately show ?thesis using s'(2) by blast
qed

subsection \<open>Wakeup, kill, priorities\<close>

lemma fold_upd_proc:
  "distinct xs \<Longrightarrow> fold (\<lambda>i s. if P (t_proc s i) then upd_proc i f s else s) xs s
     = s\<lparr>t_proc := (\<lambda>j. if j \<in> set xs \<and> P (t_proc s j) then f (t_proc s j) else t_proc s j)\<rparr>"
proof (induction xs arbitrary: s)
  case Nil
  then show ?case by simp
next
  case (Cons x xs)
  then show ?case by (cases "P (t_proc s x)") (auto intro!: arg_cong [where f = "\<lambda>g. s\<lparr>t_proc := g\<rparr>"])
qed

lemma wakeup1_eq: "wakeup1 c s = s\<lparr>t_proc := (\<lambda>j.
    if j < NPROC \<and> p_state (t_proc s j) = SLEEPING \<and> p_chan (t_proc s j) = c
    then (t_proc s j)\<lparr>p_state := RUNNABLE\<rparr> else t_proc s j)\<rparr>"
  unfolding wakeup1_def
  using fold_upd_proc [of "[0..<NPROC]" "\<lambda>p. p_state p = SLEEPING \<and> p_chan p = c" "\<lambda>p. p\<lparr>p_state := RUNNABLE\<rparr>" s]
  by simp

lemma wakeup_soft: "soft s (wakeup1 c s)"
  by (auto simp: soft_def wakeup1_eq)

lemma wakeup_cpu: "cpu_ok s \<Longrightarrow> cpu_ok (wakeup1 c s)"
  by (auto simp: cpu_ok_def wakeup1_eq)

lemma wakeup_inv: "sched_inv s \<Longrightarrow> sched_inv (wakeup c s)"
  unfolding wakeup_def using sched_inv_soft wakeup_soft wakeup_cpu sched_invD(2) by blast

lemma timer_tick_inv:
  assumes "sched_inv s"
  shows "sched_inv (timer_tick s)"
proof -
  let ?s = "s\<lparr>k_ticks := k_ticks s + 1\<rparr>"
  have "sched_inv ?s" using sched_inv_soft [OF assms, of ?s] sched_invD(2) [OF assms] by (simp add: soft_def cpu_ok_def)
  then show ?thesis unfolding timer_tick_def by (rule wakeup_inv)
qed

lemma kill_inv:
  assumes "sched_inv s"
  shows "sched_inv (snd (kill pid s))"
proof (cases "first_index (\<lambda>i. p_pid (t_proc s i) = pid) [0..<NPROC]")
  case None
  with assms show ?thesis by (simp only: kill_def option.case snd_conv)
next
  case (Some i)
  let ?s = "snd (kill pid s)"
  have "soft s ?s" using Some by (auto simp: kill_def soft_def)
  moreover have "cpu_ok ?s" using Some sched_invD(2) [OF assms] by (auto simp: kill_def cpu_ok_def)
  ultimately show ?thesis using sched_inv_soft [OF assms] by blast
qed

lemma getProc_live: "getProc pid s = Some i \<Longrightarrow> i < NPROC \<and> live s i \<and> p_pid (t_proc s i) = pid"
  using first_index_Some [of _ "[0..<NPROC]" i] by (fastforce simp: getProc_def)

lemma setPriority_inv:
  assumes inv: "sched_inv s"
  shows "sched_inv (setPriority pid pr s)"
proof (cases "getProc pid s")
  case None
  with inv show ?thesis by (simp add: setPriority_def)
next
  case (Some i)
  let ?t = "upd_proc i (\<lambda>p. p\<lparr>p_priority := pr\<rparr>) s"
  have eq: "?t = upd_proc i (\<lambda>p. p\<lparr>p_priority := pr, p_tq := p_tq (t_proc s i)\<rparr>) s" by simp
  have "sched_inv ?t" if "0 \<le> pr" "pr \<le> 3"
  proof (rule sched_ok_inv)
    show "sched_ok ?t (qlist s)" unfolding eq
      by (rule sched_ok_prio [OF sched_invD(1) [OF inv]])
        (use that getProc_live [OF Some] proc_okD(4) [OF sched_ok_proc [OF sched_invD(1) [OF inv]]] in auto)
    show "cpu_ok ?t" using sched_invD(2) [OF inv] by (simp add: cpu_ok_def)
  qed
  with Some inv show ?thesis by (auto simp: setPriority_def)
qed

subsection \<open>The scheduler lock and setLevel\<close>

lemma mark_killed_inv:
  assumes inv: "sched_inv s"
  shows "sched_inv (upd_proc i (\<lambda>p. p\<lparr>p_killed := True\<rparr>) s)"
  by (rule sched_inv_soft [OF inv]) (use sched_invD(2) [OF inv] in \<open>auto simp: soft_def cpu_ok_def\<close>)

lemma schedulerLock_inv:
  assumes inv: "sched_inv s" and c: "k_cpuproc s = Some c"
  shows "\<exists>s'. schedulerLock pw s = Inr s' \<and> sched_inv s'"
proof -
  let ?t = "s\<lparr>t_lockpid := p_pid (t_proc s c), k_ticks := 0\<rparr>"
  note ok = sched_invD(1) [OF inv]
  have "queue_ok ?t (qlist s)"
    by (rule queue_ok_frame [of s]) (use ok in \<open>simp_all add: sched_ok_def\<close>)
  moreover have "lock_ok ?t"
    using cpu_running(1,2) [OF inv c] by (auto simp: lock_ok_def intro!: exI [of _ c])
  then have "proc_ok ?t" using sched_ok_proc [OF ok]
    by (simp add: proc_ok_def pids_ok_def mem_ok_def prio_ok_def)
  ultimately have "sched_ok ?t (qlist s)" using ok by (simp add: sched_ok_def)
  moreover have "cpu_ok ?t" using sched_invD(2) [OF inv] by (simp add: cpu_ok_def)
  ultimately have "sched_inv ?t" by (rule sched_ok_inv)
  with c mark_killed_inv [OF inv] show ?thesis by (simp add: schedulerLock_def)
qed

lemma schedulerUnlock_inv:
  assumes inv: "sched_inv s" and c: "k_cpuproc s = Some c"
  shows "\<exists>s'. schedulerUnlock pw s = Inr s' \<and> sched_inv s' \<and> k_cpuproc s' = Some c
    \<and> k_initproc s' = k_initproc s \<and> k_env s' = k_env s
    \<and> (\<forall>j. p_parent (t_proc s' j) = p_parent (t_proc s j) \<and> p_pid (t_proc s' j) = p_pid (t_proc s j))
    \<and> (pw = PASSWORD \<and> t_lockpid s = p_pid (t_proc s c) \<longrightarrow> t_lockpid s' = 0)
    \<and> (pw = PASSWORD \<and> t_lockpid s = p_pid (t_proc s c) \<and> t_lockpid s \<noteq> 0 \<longrightarrow>
         qlist s' 0 = c # (if c \<in> set (qlist s 0) then remove1 c (qlist s 0) else qlist s 0))"
proof (cases "pw = PASSWORD \<and> t_lockpid s \<noteq> 0 \<and> p_pid (t_proc s c) = t_lockpid s")
  case False
  let ?k = "upd_proc c (\<lambda>p. p\<lparr>p_killed := True\<rparr>) s"
  have pos: "p_pid (t_proc s c) \<noteq> 0"
    using proc_okD(1) [OF sched_ok_proc [OF sched_invD(1) [OF inv]]] cpu_running(1,2) [OF inv c] by force
  have "schedulerUnlock pw s = Inr (if pw \<noteq> PASSWORD then ?k else s)"
    using False c by (auto simp: schedulerUnlock_def Let_def)
  moreover have "sched_inv (if pw \<noteq> PASSWORD then ?k else s)" using inv mark_killed_inv [OF inv] by simp
  ultimately show ?thesis using False c pos by (intro exI [of _ "if pw \<noteq> PASSWORD then ?k else s"]) auto
next
  case True
  note ok = sched_invD(1) [OF inv] and cr = cpu_running(1,2) [OF inv c]
  have live: "live s c" using cr by simp
  from sched_ok_queue [OF ok cr(1) live] obtain k where k: "k < NQUEUE" "c \<in> set (qlist s k)"
    "p_queue (t_proc s c) = Some k" .
  have n: "0 < NQUEUE" by (simp add: NQUEUE_def)
  from sched_ok_move_front [OF ok k(1) n k(2)] obtain t where
    t: "rbind (erasequeue (Some k) (Some c) s) (pushfrontqueue (Some 0) (Some c)) = Inr t"
      "sched_ok t (q_move_front k 0 c (qlist s))" "same_core s t" by blast
  let ?t = "(upd_proc c (\<lambda>p. p\<lparr>p_priority := 3, p_tq := 0\<rparr>) t)\<lparr>t_lockpid := 0\<rparr>"
  have "schedulerUnlock pw s = rbind (rbind (erasequeue (Some k) (Some c) s) (pushfrontqueue (Some 0) (Some c)))
      (\<lambda>s. Inr ((upd_proc c (\<lambda>p. p\<lparr>p_priority := 3, p_tq := 0\<rparr>) s)\<lparr>t_lockpid := 0\<rparr>))"
    using True c k(3) by (simp add: schedulerUnlock_def Let_def rbind_assoc)
  then have e: "schedulerUnlock pw s = Inr ?t" by (simp only: t(1) rbind_simps)
  have "sched_ok (upd_proc c (\<lambda>p. p\<lparr>p_priority := 3, p_tq := 0\<rparr>) t) (q_move_front k 0 c (qlist s))"
    by (rule sched_ok_prio [OF t(2)]) simp
  then have ok': "sched_ok ?t (q_move_front k 0 c (qlist s))" by (rule sched_ok_frame) simp_all
  moreover have "cpu_ok ?t" using sched_invD(2) [OF inv] t(3) by (simp add: cpu_ok_def same_core_simps)
  ultimately have "sched_inv ?t" by (rule sched_ok_inv)
  moreover have "qlist ?t 0 = c # (if c \<in> set (qlist s 0) then remove1 c (qlist s 0) else qlist s 0)"
  proof -
    have "qlist ?t 0 = q_move_front k 0 c (qlist s) 0" using ok' n by (intro queue_ok_qlist) (simp_all add: sched_ok_def)
    moreover have "k = 0" if "c \<in> set (qlist s 0)"
      using queue_ok_disjoint [of s "qlist s" k 0 c] ok k n that by (simp add: sched_ok_def)
    ultimately show ?thesis using k(2) by (cases "k = 0") (auto simp: q_move_front_def Let_def)
  qed
  ultimately show ?thesis using e True c t(3) by (auto simp: same_core_simps)
qed

lemma setLevel_inv:
  assumes inv: "sched_inv s" and l: "level < int NQUEUE"
  shows "\<exists>s'. setLevel pid level s = Inr s' \<and> sched_inv s'"
proof (cases "level < 0 \<or> getProc pid s = None")
  case True
  with inv show ?thesis by (auto simp: setLevel_def)
next
  case False
  then obtain i where i: "getProc pid s = Some i" "0 \<le> level" by auto
  note ok = sched_invD(1) [OF inv]
  from getProc_live [OF i(1)] sched_ok_queue [OF ok] obtain k where
    k: "k < NQUEUE" "i \<in> set (qlist s k)" "p_queue (t_proc s i) = Some k" by metis
  have "nat level < NQUEUE" using l i by simp
  from sched_ok_move [OF ok k(1) this k(2)] obtain t where
    t: "rbind (erasequeue (Some k) (Some i) s) (pushqueue (Some (nat level)) (Some i)) = Inr t"
      "sched_ok t (q_move k (nat level) i (qlist s))" "same_core s t" by blast
  have "cpu_ok t" using cpu_ok_core [OF t(3) sched_invD(2) [OF inv]] .
  with sched_ok_inv [OF t(2)] t(1) i k(3) l show ?thesis by (auto simp: setLevel_def NQUEUE_def)
qed

end
