(* ===== verification/Mlfq_Life.thy ===== *)
theory Mlfq_Life
  imports Mlfq_Steps
begin

text \<open>
  The life cycle of a process: creation (\<^verbatim>\<open>allocproc\<close>, \<^verbatim>\<open>fork\<close>, \<^verbatim>\<open>userinit\<close>), termination (\<^verbatim>\<open>exit\<close>) and
  reaping (\<^verbatim>\<open>wait\<close>).  Each keeps \<open>sched_inv\<close> as long as the calls on the allocator, the page tables,
  the files and the inodes return (\<open>env_total\<close>) and memory is available (\<open>mem_avail\<close>); \<open>kstep\<close> puts
  all the operations together and \<open>kreach_inv\<close> lifts the invariant to every reachable state.
\<close>

section \<open>What the operations need of the rest of the kernel\<close>

definition env_total :: "'k kops \<Rightarrow> bool" where
  "env_total ops \<longleftrightarrow> (\<forall>a e. returns (o_kfree ops a e) \<and> returns (o_freevm ops a e) \<and> returns (o_filedup ops a e)
     \<and> returns (o_fileclose ops a e) \<and> returns (o_idup ops a e) \<and> returns (o_iput ops a e) \<and> returns (o_inituvm ops a e))
   \<and> (\<forall>a n e. returns (o_copyuvm ops a n e)) \<and> (\<forall>p e. returns (o_namei ops p e))"

definition mem_avail :: "'k kops \<Rightarrow> bool" where
  "mem_avail ops \<longleftrightarrow> (\<forall>e. fst (o_kalloc ops e) \<noteq> 0) \<and> (\<forall>e. fst (o_setupkvm ops e) \<noteq> 0)
     \<and> (\<forall>a n e r. o_copyuvm ops a n e = Inr r \<longrightarrow> fst r \<noteq> 0)"

lemma env_total_calls:
  assumes "env_total ops"
  shows "\<exists>e'. env_call (o_kfree ops a) s = Inr (s\<lparr>k_env := e'\<rparr>)" "\<exists>e'. env_call (o_freevm ops a) s = Inr (s\<lparr>k_env := e'\<rparr>)"
    "\<exists>e'. env_call (o_filedup ops a) s = Inr (s\<lparr>k_env := e'\<rparr>)" "\<exists>e'. env_call (o_fileclose ops a) s = Inr (s\<lparr>k_env := e'\<rparr>)"
    "\<exists>e'. env_call (o_idup ops a) s = Inr (s\<lparr>k_env := e'\<rparr>)" "\<exists>e'. env_call (o_iput ops a) s = Inr (s\<lparr>k_env := e'\<rparr>)"
    "\<exists>e'. env_call (o_inituvm ops a) s = Inr (s\<lparr>k_env := e'\<rparr>)"
proof -
  have call: "\<exists>e'. env_call f s = Inr (s\<lparr>k_env := e'\<rparr>)" if "returns (f (k_env s))" for f
    using returns_obtain [OF that] by (auto simp: env_call_def)
  show "\<exists>e'. env_call (o_kfree ops a) s = Inr (s\<lparr>k_env := e'\<rparr>)" "\<exists>e'. env_call (o_freevm ops a) s = Inr (s\<lparr>k_env := e'\<rparr>)"
    "\<exists>e'. env_call (o_filedup ops a) s = Inr (s\<lparr>k_env := e'\<rparr>)" "\<exists>e'. env_call (o_fileclose ops a) s = Inr (s\<lparr>k_env := e'\<rparr>)"
    "\<exists>e'. env_call (o_idup ops a) s = Inr (s\<lparr>k_env := e'\<rparr>)" "\<exists>e'. env_call (o_iput ops a) s = Inr (s\<lparr>k_env := e'\<rparr>)"
    "\<exists>e'. env_call (o_inituvm ops a) s = Inr (s\<lparr>k_env := e'\<rparr>)"
    by (rule call, use assms in \<open>simp add: env_total_def\<close>)+
qed

lemma env_total_pairs:
  assumes "env_total ops"
  shows "\<exists>pg e'. o_copyuvm ops a n e = Inr (pg, e')" "\<exists>ip e'. o_namei ops p e = Inr (ip, e')"
  using returns_obtain [of "o_copyuvm ops a n e"] returns_obtain [of "o_namei ops p e"] assms
  by (simp_all add: env_total_def)

section \<open>Exit\<close>

text \<open>
  \<open>calm s s'\<close>: a change outside the scheduling data; nobody becomes a zombie, starts or stops running.
\<close>

definition calm :: "'k kernel \<Rightarrow> 'k kernel \<Rightarrow> bool" where
  "calm s s' \<longleftrightarrow> soft s s' \<and> t_lockpid s' = t_lockpid s \<and> k_cpuproc s' = k_cpuproc s \<and> k_initproc s' = k_initproc s
     \<and> (\<forall>j. (p_state (t_proc s' j) = ZOMBIE \<longleftrightarrow> p_state (t_proc s j) = ZOMBIE)
          \<and> (p_state (t_proc s' j) = RUNNING \<longleftrightarrow> p_state (t_proc s j) = RUNNING))"

lemma calm_refl [simp]: "calm s s"
  by (simp add: calm_def soft_def)

lemma calm_trans: "calm s s' \<Longrightarrow> calm s' s'' \<Longrightarrow> calm s s''"
  by (simp add: calm_def soft_def)

lemma calm_inv: "calm s s' \<Longrightarrow> sched_inv s \<Longrightarrow> sched_inv s'"
  using sched_inv_soft [of s s'] sched_invD(2) [of s] by (simp add: calm_def cpu_ok_def)

lemma calm_env [simp]: "calm s (s\<lparr>k_env := e\<rparr>)"
  by (simp add: calm_def soft_def)

lemma calm_wakeup: "calm s (wakeup1 ch s)"
  using wakeup_soft [of s ch] by (auto simp: calm_def wakeup1_eq)

lemma calm_upd:
  assumes "p_prev p = p_prev (t_proc s i)" "p_next p = p_next (t_proc s i)" "p_queue p = p_queue (t_proc s i)"
    "p_level p = p_level (t_proc s i)" "p_pid p = p_pid (t_proc s i)" "p_kstack p = p_kstack (t_proc s i)"
    "p_pgdir p = p_pgdir (t_proc s i)" "p_priority p = p_priority (t_proc s i)" "p_tq p = p_tq (t_proc s i)"
    "p_state p = p_state (t_proc s i)"
  shows "calm s (s\<lparr>t_proc := (t_proc s)(i := p)\<rparr>)"
  using assms by (simp add: calm_def soft_def)

lemma calm_reparent: "calm s (reparent c i s)"
  using calm_upd [of "(t_proc s i)\<lparr>p_parent := k_initproc s\<rparr>" s i] calm_wakeup calm_trans
  by (fastforce simp: reparent_def Let_def)

lemma calm_fold:
  assumes "\<And>x s. calm s (f x s)"
  shows "calm s (fold f xs s)"
proof (induction xs arbitrary: s)
  case (Cons x xs)
  show ?case using Cons [of "f x s"] assms [of s x] calm_trans by auto
qed simp

lemma calm_rfold:
  assumes "\<And>x s. \<exists>s'. f x s = Inr s' \<and> calm s s'"
  shows "\<exists>s'. rfold f xs s = Inr s' \<and> calm s s'"
  by (rule rfold_rule [where I = "\<lambda>_ t. calm s t"]) (use assms calm_trans in \<open>simp, blast\<close>)

text \<open>The loop that closes the open files.\<close>

lemma close_files_calm:
  assumes "env_total ops"
  shows "\<exists>s'. rfold (\<lambda>fd s. let f = p_ofile (t_proc s c) ! fd in
      if f \<noteq> 0 then rbind (env_call (o_fileclose ops f) s) (\<lambda>s.
             Inr (upd_proc c (\<lambda>p. p\<lparr>p_ofile := (p_ofile p)[fd := 0]\<rparr>) s))
      else Inr s) xs s = Inr s' \<and> calm s s'"
proof (rule calm_rfold)
  fix fd and s :: "'a kernel"
  let ?f = "p_ofile (t_proc s c) ! fd"
  obtain e where e: "env_call (o_fileclose ops ?f) s = Inr (s\<lparr>k_env := e\<rparr>)"
    using env_total_calls(4) [OF assms] by blast
  let ?t = "upd_proc c (\<lambda>p. p\<lparr>p_ofile := (p_ofile p)[fd := 0]\<rparr>) (s\<lparr>k_env := e\<rparr>)"
  have "calm s ?t"
    by (rule calm_trans [OF calm_env [of s e]]) (rule calm_upd, simp_all)
  with e show "\<exists>s'. (let f = ?f in
      if f \<noteq> 0 then rbind (env_call (o_fileclose ops f) s) (\<lambda>s.
             Inr (upd_proc c (\<lambda>p. p\<lparr>p_ofile := (p_ofile p)[fd := 0]\<rparr>) s))
      else Inr s) = Inr s' \<and> calm s s'"
    by (simp add: Let_def)
qed

definition exit_step :: "'k kops \<Rightarrow> 'k kernel \<Rightarrow> 'k kernel result" where
  "exit_step ops s = rbind (exit ops s) scheduler_return"

text \<open>The tail of \<^verbatim>\<open>exit\<close>, under the table lock.\<close>

lemma exit_tail_inv:
  assumes inv: "sched_inv s" and c: "k_cpuproc s = Some c" and l: "t_lockpid s \<noteq> p_pid (t_proc s c)"
  shows "\<exists>s'. rbind (let s = wakeup1 (chan_of (p_parent (t_proc s c))) s; s = fold (reparent c) [0..<NPROC] s
        in sched (upd_proc c (\<lambda>p. p\<lparr>p_state := ZOMBIE\<rparr>) s)) scheduler_return = Inr s'
    \<and> sched_inv s' \<and> k_cpuproc s' = None \<and> p_state (t_proc s' c) = ZOMBIE"
proof -
  let ?u = "fold (reparent c) [0..<NPROC] (wakeup1 (chan_of (p_parent (t_proc s c))) s)"
  have u: "calm s ?u" by (rule calm_trans [OF calm_wakeup calm_fold [OF calm_reparent]])
  note iu = calm_inv [OF u inv]
  have cu: "k_cpuproc ?u = Some c" "t_lockpid ?u \<noteq> p_pid (t_proc ?u c)"
    using u c l by (simp_all add: calm_def soft_def)
  let ?z = "upd_proc c (\<lambda>p. p\<lparr>p_state := ZOMBIE\<rparr>) ?u"
  have "soft ?u ?z" using cpu_running(2) [OF iu cu(1)] cu(2) by (simp add: soft_def)
  then have "\<exists>s'. rbind (sched ?z) scheduler_return = Inr s' \<and> sched_inv s' \<and> keeps (?z\<lparr>k_cpuproc := None\<rparr>) s'"
    by (rule give_up_inv [OF iu cu(1)]) (simp_all add: cu(1))
  then obtain s' where s': "rbind (sched ?z) scheduler_return = Inr s'" "sched_inv s'"
    "keeps (?z\<lparr>k_cpuproc := None\<rparr>) s'" by blast
  from s'(3) have "k_cpuproc s' = None" "p_state (t_proc s' c) = ZOMBIE" by (simp_all add: keeps_def)
  with s'(1,2) show ?thesis unfolding Let_def by blast
qed

lemma exit_inv:
  assumes ops: "env_total ops" and inv: "sched_inv s" and c: "k_cpuproc s = Some c" "k_initproc s \<noteq> Some c"
  shows "\<exists>s'. exit_step ops s = Inr s' \<and> sched_inv s' \<and> k_cpuproc s' = None \<and> p_state (t_proc s' c) = ZOMBIE"
proof -
  obtain s1 where s1: "rfold (\<lambda>fd s. let f = p_ofile (t_proc s c) ! fd in
      if f \<noteq> 0 then rbind (env_call (o_fileclose ops f) s) (\<lambda>s.
             Inr (upd_proc c (\<lambda>p. p\<lparr>p_ofile := (p_ofile p)[fd := 0]\<rparr>) s))
      else Inr s) [0..<NOFILE] s = Inr s1" "calm s s1" using close_files_calm [OF ops] by blast
  obtain e where e: "env_call (o_iput ops (p_cwd (t_proc s1 c))) s1 = Inr (s1\<lparr>k_env := e\<rparr>)"
    using env_total_calls(6) [OF ops] by blast
  let ?s2 = "upd_proc c (\<lambda>p. p\<lparr>p_cwd := 0\<rparr>) (s1\<lparr>k_env := e\<rparr>)"
  have c2: "calm s ?s2"
    by (rule calm_trans [OF s1(2)], rule calm_trans [OF calm_env [of s1 e]], rule calm_upd) simp_all
  note i2 = calm_inv [OF c2 inv]
  have k2: "k_cpuproc ?s2 = Some c" using c2 c by (simp add: calm_def)
  have "\<exists>s3. (if t_lockpid ?s2 = p_pid (t_proc ?s2 c) then schedulerUnlock PASSWORD ?s2 else Inr ?s2) = Inr s3
    \<and> sched_inv s3 \<and> k_cpuproc s3 = Some c \<and> t_lockpid s3 \<noteq> p_pid (t_proc s3 c)"
  proof (cases "t_lockpid ?s2 = p_pid (t_proc ?s2 c)")
    case True
    from schedulerUnlock_inv [OF i2 k2, of PASSWORD] True obtain s3 where
      s3: "schedulerUnlock PASSWORD ?s2 = Inr s3" "sched_inv s3" "k_cpuproc s3 = Some c" "t_lockpid s3 = 0" by metis
    have "p_pid (t_proc s3 c) \<noteq> 0"
      using proc_okD(1) [OF sched_ok_proc [OF sched_invD(1) [OF s3(2)]]] cpu_running(1,2) [OF s3(2,3)] by force
    with s3 show ?thesis unfolding if_P [OF True] by (intro exI [of _ s3]) simp
  next
    case False
    with i2 k2 show ?thesis unfolding if_not_P [OF False] by blast
  qed
  then obtain s3 where s3: "(if t_lockpid ?s2 = p_pid (t_proc ?s2 c) then schedulerUnlock PASSWORD ?s2 else Inr ?s2) = Inr s3"
    "sched_inv s3" "k_cpuproc s3 = Some c" "t_lockpid s3 \<noteq> p_pid (t_proc s3 c)" by blast
  have n: "(Some c = k_initproc s) = False" using c(2) by auto
  have "exit_step ops s = rbind (let s = wakeup1 (chan_of (p_parent (t_proc s3 c))) s3; s = fold (reparent c) [0..<NPROC] s
        in sched (upd_proc c (\<lambda>p. p\<lparr>p_state := ZOMBIE\<rparr>) s)) scheduler_return"
    unfolding exit_step_def exit_def c(1) n if_False option.case s1(1) rbind_simps e
    unfolding Let_def s3(1) [unfolded Let_def] rbind_simps ..
  with exit_tail_inv [OF s3(2-4)] show ?thesis by metis
qed

section \<open>Wait\<close>

lemma wait_scan_Some:
  "wait_scan c s xs h = (h', Some i) \<Longrightarrow> i \<in> set xs \<and> p_parent (t_proc s i) = Some c \<and> p_state (t_proc s i) = ZOMBIE"
  by (induction xs arbitrary: h) (auto split: if_splits)

lemma wait_scan_None:
  "wait_scan c s xs h = (h', None) \<Longrightarrow> (h' \<longleftrightarrow> h \<or> (\<exists>i\<in>set xs. p_parent (t_proc s i) = Some c))
     \<and> (\<forall>i\<in>set xs. p_parent (t_proc s i) = Some c \<longrightarrow> p_state (t_proc s i) \<noteq> ZOMBIE)"
  by (induction xs arbitrary: h) (auto split: if_splits)

text \<open>A zombie that has left its queue can become a free slot.\<close>

lemma sched_ok_remove:
  assumes ok: "sched_ok s qs" and k: "k < NQUEUE" "i \<in> set (qs k)" and z: "p_state (t_proc s i) = ZOMBIE"
    and t: "queue_ok t (qs(k := remove1 i (qs k)))" "same_core s t"
    and s': "t_queue s' = t_queue t" "\<And>j. j \<noteq> i \<Longrightarrow> t_proc s' j = t_proc t j" "p_state (t_proc s' i) = UNUSED"
      "p_prev (t_proc s' i) = p_prev (t_proc t i)" "p_next (t_proc s' i) = p_next (t_proc t i)"
      "p_queue (t_proc s' i) = p_queue (t_proc t i)" "p_level (t_proc s' i) = p_level (t_proc t i)"
      "k_nextpid s' = k_nextpid t" "t_lockpid s' = t_lockpid t"
  shows "sched_ok s' (qs(k := remove1 i (qs k)))"
proof -
  note q = sched_ok_def [THEN iffD1, OF ok, THEN conjunct1]
  have "p_prev (t_proc s' j) = p_prev (t_proc t j) \<and> p_next (t_proc s' j) = p_next (t_proc t j)
      \<and> p_queue (t_proc s' j) = p_queue (t_proc t j) \<and> p_level (t_proc s' j) = p_level (t_proc t j)" for j
    by (cases "j = i") (simp_all add: s')
  then have "queue_ok s' (qs(k := remove1 i (qs k)))" by (intro queue_ok_frame [OF t(1) s'(1)])
  moreover have st: "p_state (t_proc s' j) = p_state (t_proc s j) \<and> p_pid (t_proc s' j) = p_pid (t_proc s j)
      \<and> p_kstack (t_proc s' j) = p_kstack (t_proc s j) \<and> p_pgdir (t_proc s' j) = p_pgdir (t_proc s j)
      \<and> p_priority (t_proc s' j) = p_priority (t_proc s j) \<and> p_tq (t_proc s' j) = p_tq (t_proc s j)" if "j \<noteq> i" for j
    using that t(2) by (simp add: s' same_core_simps)
  have dist: "distinct (qs k)" "\<And>m. m < NQUEUE \<Longrightarrow> i \<in> set (qs m) \<Longrightarrow> m = k"
    using queue_okD(2) [OF q k(1)] queue_ok_disjoint [OF q _ k(1) _ k(2)] by auto
  have "live s' j \<longleftrightarrow> queued (qs(k := remove1 i (qs k))) j" if j: "j < NPROC" for j
  proof (cases "j = i")
    case True
    then show ?thesis using dist by (auto simp: s' queued_def split: if_splits)
  next
    case False
    then have "queued (qs(k := remove1 i (qs k))) j \<longleftrightarrow> queued qs j" by (auto simp: queued_def)
    then show ?thesis using False st j ok by (simp add: sched_ok_def)
  qed
  moreover have "proc_ok s'"
  proof -
    note pr = sched_ok_proc [OF ok, unfolded proc_ok_def]
    have g: "k_nextpid s' = k_nextpid s" "t_lockpid s' = t_lockpid s" using t(2) by (simp_all add: s' same_core_simps)
    have n: "live s' j \<Longrightarrow> j \<noteq> i" for j using s'(3) by auto
    have "pids_ok s'" using pr st n g by (simp add: pids_ok_def) metis
    moreover have "mem_ok s'" using pr st n by (simp add: mem_ok_def) metis
    moreover have "prio_ok s'" using pr st n by (simp add: prio_ok_def) metis
    moreover have "lock_ok s'"
      unfolding lock_ok_def g
    proof
      assume "t_lockpid s \<noteq> 0"
      then obtain j where j: "j < NPROC" "p_pid (t_proc s j) = t_lockpid s" "p_state (t_proc s j) \<notin> {UNUSED, ZOMBIE}"
        using pr by (auto simp: lock_ok_def)
      with z have "j \<noteq> i" by auto
      with j st show "\<exists>i<NPROC. p_pid (t_proc s' i) = t_lockpid s \<and> p_state (t_proc s' i) \<notin> {UNUSED, ZOMBIE}"
        by (intro exI [of _ j]) simp
    qed
    ultimately show ?thesis by (simp add: proc_ok_def)
  qed
  ultimately show ?thesis by (simp add: sched_ok_def)
qed

lemma reap_ok:
  assumes ops: "env_total ops" and ok: "sched_ok s qs" and i: "i < NPROC" "p_state (t_proc s i) = ZOMBIE"
  shows "\<exists>s' k. reap ops i s = Inr s' \<and> k < NQUEUE \<and> i \<in> set (qs k) \<and> sched_ok s' (qs(k := remove1 i (qs k)))
    \<and> k_cpuproc s' = k_cpuproc s \<and> p_state (t_proc s' i) = UNUSED \<and> p_pid (t_proc s' i) = 0
    \<and> p_killed (t_proc s' i) = False
    \<and> (\<forall>j. j \<noteq> i \<longrightarrow> strip (t_proc s' j) = strip (t_proc s j))"
proof -
  have live: "live s i" using i by simp
  from sched_ok_queue [OF ok i(1) live] obtain k where k: "k < NQUEUE" "i \<in> set (qs k)" "p_queue (t_proc s i) = Some k" .
  obtain t where t: "erasequeue (Some k) (Some i) s = Inr t" "queue_ok t (qs(k := remove1 i (qs k)))" "same_core s t"
    using erasequeue_ok [of s qs k i] ok k by (auto simp: sched_ok_def)
  obtain e1 where e1: "env_call (o_kfree ops (p_kstack (t_proc t i))) t = Inr (t\<lparr>k_env := e1\<rparr>)"
    using env_total_calls(1) [OF ops] by blast
  let ?t1 = "upd_proc i (\<lambda>p. p\<lparr>p_kstack := 0\<rparr>) (t\<lparr>k_env := e1\<rparr>)"
  obtain e2 where e2: "env_call (o_freevm ops (p_pgdir (t_proc ?t1 i))) ?t1 = Inr (?t1\<lparr>k_env := e2\<rparr>)"
    using env_total_calls(2) [OF ops] by blast
  let ?s' = "upd_proc i (\<lambda>p. p\<lparr>p_pid := 0, p_parent := None, p_name := [], p_killed := False,
         p_state := UNUSED, p_priority := - 1, p_tq := - 1\<rparr>) (?t1\<lparr>k_env := e2\<rparr>)"
  have "reap ops i s = Inr ?s'"
    by (simp only: reap_def k(3) t(1) rbind_simps e1 Let_def e2)
  moreover have "sched_ok ?s' (qs(k := remove1 i (qs k)))"
    by (rule sched_ok_remove [OF ok k(1,2) i(2) t(2,3)]) simp_all
  moreover have "k_cpuproc ?s' = k_cpuproc s" using same_core_kernel(3) [OF t(3)] by simp
  moreover have "\<forall>j. j \<noteq> i \<longrightarrow> strip (t_proc ?s' j) = strip (t_proc s j)" using t(3) by (simp add: same_core_def)
  moreover have "p_state (t_proc ?s' i) = UNUSED" "p_pid (t_proc ?s' i) = 0" "p_killed (t_proc ?s' i) = False" by simp_all
  ultimately show ?thesis using k(1,2) by blast
qed

definition wait_step :: "'k kops \<Rightarrow> 'k kernel \<Rightarrow> (wait_result \<times> 'k kernel) result" where
  "wait_step ops s = rbind (wait ops s) (\<lambda>(r, s).
     case r of WaitReturn pid \<Rightarrow> Inr (r, s) | WaitSleep \<Rightarrow> rbind (scheduler_return s) (\<lambda>s. Inr (r, s)))"

text \<open>
  What \<^verbatim>\<open>wait\<close> promises: it reaps a zombie child and returns its pid; without children, or when
  killed, it returns \<open>- 1\<close> and changes nothing; otherwise it sleeps on its own process.
\<close>

definition wait_post :: "'k kernel \<Rightarrow> nat \<Rightarrow> wait_result \<Rightarrow> 'k kernel \<Rightarrow> bool" where
  "wait_post s c r s' \<longleftrightarrow> (case r of
     WaitSleep \<Rightarrow> k_cpuproc s' = None \<and> p_state (t_proc s' c) = SLEEPING \<and> p_chan (t_proc s' c) = ChProc c
       \<and> (\<exists>i<NPROC. p_parent (t_proc s i) = Some c)
       \<and> (\<forall>i<NPROC. p_parent (t_proc s i) = Some c \<longrightarrow> p_state (t_proc s i) \<noteq> ZOMBIE)
   | WaitReturn pid \<Rightarrow>
       (\<exists>i<NPROC. p_parent (t_proc s i) = Some c \<and> p_state (t_proc s i) = ZOMBIE \<and> pid = p_pid (t_proc s i)
          \<and> p_state (t_proc s' i) = UNUSED \<and> p_pid (t_proc s' i) = 0
          \<and> (\<forall>j. j \<noteq> i \<longrightarrow> strip (t_proc s' j) = strip (t_proc s j)))
       \<or> pid = - 1 \<and> s' = s
          \<and> (p_killed (t_proc s c) \<or> (\<forall>i<NPROC. p_parent (t_proc s i) \<noteq> Some c)))"

lemma strip_state: "strip p = strip p' \<Longrightarrow> p_state p = p_state p'"
  by (cases p; cases p') (simp add: strip_def)

lemma wait_inv:
  assumes ops: "env_total ops" and inv: "sched_inv s" and c: "k_cpuproc s = Some c"
  shows "\<exists>r s'. wait_step ops s = Inr (r, s') \<and> sched_inv s' \<and> wait_post s c r s'"
proof -
  obtain h z where w: "wait_scan c s [0..<NPROC] False = (h, z)" by (cases "wait_scan c s [0..<NPROC] False")
  show ?thesis
  proof (cases z)
    case (Some i)
    from wait_scan_Some [OF w [unfolded Some]] have i: "i < NPROC" "p_parent (t_proc s i) = Some c"
      "p_state (t_proc s i) = ZOMBIE" by auto
    from reap_ok [OF ops sched_invD(1) [OF inv] i(1,3)] obtain s' k where
      s': "reap ops i s = Inr s'" "sched_ok s' ((qlist s)(k := remove1 i (qlist s k)))" "k_cpuproc s' = k_cpuproc s"
        "p_state (t_proc s' i) = UNUSED" "p_pid (t_proc s' i) = 0"
        "\<forall>j. j \<noteq> i \<longrightarrow> strip (t_proc s' j) = strip (t_proc s j)" by blast
    have st: "p_state (t_proc s' j) = p_state (t_proc s j)" if "j \<noteq> i" for j using strip_state s'(6) that by blast
    have "p_state (t_proc s' j) = RUNNING \<longleftrightarrow> k_cpuproc s' = Some j" if "j < NPROC" for j
      using sched_invD(2) [OF inv] st [of j] s'(3,4) i that by (cases "j = i") (auto simp: cpu_ok_def)
    then have "cpu_ok s'" using sched_invD(2) [OF inv] s'(3) by (simp add: cpu_ok_def)
    with sched_ok_inv [OF s'(2)] have "sched_inv s'" .
    moreover have "wait_step ops s = Inr (WaitReturn (p_pid (t_proc s i)), s')"
      using c w Some s'(1) by (simp add: wait_step_def wait_def)
    moreover have "wait_post s c (WaitReturn (p_pid (t_proc s i))) s'"
      using i s'(4-6) by (auto simp: wait_post_def)
    ultimately show ?thesis by blast
  next
    case None
    note n = wait_scan_None [OF w [unfolded None]]
    show ?thesis
    proof (cases "\<not> h \<or> p_killed (t_proc s c)")
      case True
      then have "wait_step ops s = Inr (WaitReturn (- 1), s)"
        using c w None by (auto simp: wait_step_def wait_def)
      moreover have "wait_post s c (WaitReturn (- 1)) s" using True n by (auto simp: wait_post_def)
      ultimately show ?thesis using inv by blast
    next
      case False
      from sleep_inv [OF inv c, of "ChProc c"] obtain s' where s': "sleep_step (ChProc c) s = Inr s'" "sched_inv s'"
        "k_cpuproc s' = None" "p_state (t_proc s' c) = SLEEPING" "p_chan (t_proc s' c) = ChProc c" by blast
      have "wait_step ops s = Inr (WaitSleep, s')"
        using c w None False s'(1) by (auto simp: wait_step_def wait_def sleep_step_def rbind_eq_Inr)
      moreover have "wait_post s c WaitSleep s'" using False n s' by (auto simp: wait_post_def)
      ultimately show ?thesis using s'(2) by blast
    qed
  qed
qed

section \<open>Process creation\<close>

lemma queue_ok_frame_absent:
  assumes ok: "queue_ok s qs" and i: "\<And>k. k < NQUEUE \<Longrightarrow> i \<notin> set (qs k)" and q: "t_queue s' = t_queue s"
    and p: "t_proc s' = (t_proc s)(i := p)" "p_queue p = p_queue (t_proc s i)"
  shows "queue_ok s' qs"
proof -
  have "qseg s' k (qs k) = qseg s k (qs k)" if "k < NQUEUE" for k
    by (rule qseg_cong) (use i [OF that] in \<open>auto simp: p q\<close>)
  with ok i show ?thesis by (auto simp: queue_ok_def p q)
qed

text \<open>The slot that \<^verbatim>\<open>allocproc\<close> takes, before and after it is pushed on L0.\<close>

definition fresh_proc :: "int \<Rightarrow> proc \<Rightarrow> proc" where
  "fresh_proc pid p = p\<lparr>p_state := EMBRYO, p_pid := pid, p_priority := 3, p_next := None, p_prev := None, p_tq := 0\<rparr>"

lemma proc_ok_fresh:
  assumes pr: "proc_ok s" and i: "p_state (t_proc s i) = UNUSED"
    and s': "\<And>j. j \<noteq> i \<Longrightarrow> strip (t_proc s' j) = strip (t_proc s j)"
      "p_state (t_proc s' i) = EMBRYO" "p_pid (t_proc s' i) = k_nextpid s" "p_priority (t_proc s' i) = 3"
      "p_tq (t_proc s' i) = 0" "k_nextpid s' = k_nextpid s + 1" "t_lockpid s' = t_lockpid s"
  shows "proc_ok s'"
proof -
  note prs = pr [unfolded proc_ok_def]
  have st: "p_state (t_proc s' j) = p_state (t_proc s j) \<and> p_pid (t_proc s' j) = p_pid (t_proc s j)
      \<and> p_kstack (t_proc s' j) = p_kstack (t_proc s j) \<and> p_pgdir (t_proc s' j) = p_pgdir (t_proc s j)
      \<and> p_priority (t_proc s' j) = p_priority (t_proc s j) \<and> p_tq (t_proc s' j) = p_tq (t_proc s j)" if "j \<noteq> i" for j
    using s'(1) [OF that] by (cases "t_proc s' j"; cases "t_proc s j") (simp add: strip_def)
  have np: "0 < k_nextpid s" using prs by (simp add: pids_ok_def)
  have low: "p_pid (t_proc s j) < k_nextpid s \<and> 0 < p_pid (t_proc s j)" if "j < NPROC" "live s j" for j
    using prs that by (simp add: pids_ok_def)
  have rng: "0 < p_pid (t_proc s' j) \<and> p_pid (t_proc s' j) < k_nextpid s'" if "j < NPROC" "live s' j" for j
    using that low [of j] st [of j] s' np by (cases "j = i") auto
  have uni: "a = b" if "a < NPROC" "b < NPROC" "live s' a" "live s' b" "p_pid (t_proc s' a) = p_pid (t_proc s' b)" for a b
  proof -
    consider "a = i" "b = i" | "a \<noteq> i" "b \<noteq> i" | "a = i" "b \<noteq> i" | "a \<noteq> i" "b = i" by blast
    then show ?thesis
    proof cases
      case 2
      with that st [of a] st [of b] prs show ?thesis unfolding pids_ok_def by metis
    next
      case 3
      with that low [of b] st [of b] s'(3) show ?thesis by auto
    next
      case 4
      with that low [of a] st [of a] s'(3) show ?thesis by auto
    qed simp
  qed
  have "pids_ok s'" unfolding pids_ok_def using rng uni s'(6) np by auto
  moreover have "mem_ok s'"
    unfolding mem_ok_def
  proof (intro allI impI)
    fix j assume j: "j < NPROC" "p_state (t_proc s' j) \<notin> {UNUSED, EMBRYO}"
    then have "j \<noteq> i" using s'(2) by auto
    with j st prs show "p_kstack (t_proc s' j) \<noteq> 0 \<and> p_pgdir (t_proc s' j) \<noteq> 0" by (simp add: mem_ok_def)
  qed
  moreover have "prio_ok s'"
    unfolding prio_ok_def
  proof (intro allI impI)
    fix j assume j: "j < NPROC" "live s' j"
    then show "0 \<le> p_priority (t_proc s' j) \<and> p_priority (t_proc s' j) \<le> 3 \<and> 0 \<le> p_tq (t_proc s' j)"
      using st [of j] s' prs by (cases "j = i") (simp_all add: prio_ok_def)
  qed
  moreover have "lock_ok s'"
    unfolding lock_ok_def s'(7)
  proof
    assume "t_lockpid s \<noteq> 0"
    then obtain j where j: "j < NPROC" "p_pid (t_proc s j) = t_lockpid s" "p_state (t_proc s j) \<notin> {UNUSED, ZOMBIE}"
      using prs by (auto simp: lock_ok_def)
    with i have "j \<noteq> i" by auto
    with j st show "\<exists>i<NPROC. p_pid (t_proc s' i) = t_lockpid s \<and> p_state (t_proc s' i) \<notin> {UNUSED, ZOMBIE}"
      by (intro exI [of _ j]) simp
  qed
  ultimately show ?thesis by (simp add: proc_ok_def)
qed

lemma queued_append:
  assumes "j \<noteq> i"
  shows "queued (qs(k := qs k @ [i])) j \<longleftrightarrow> queued qs j"
proof -
  have "j \<in> set ((qs(k := qs k @ [i])) m) \<longleftrightarrow> j \<in> set (qs m)" for m using assms by simp
  then show ?thesis by (simp only: queued_def)
qed

lemma allocproc_ok:
  assumes inv: "sched_inv s" and mem: "fst (o_kalloc ops (k_env s)) \<noteq> 0"
    and i: "first_index (\<lambda>i. p_state (t_proc s i) = UNUSED) [0..<NPROC] = Some i"
  shows "\<exists>s'. allocproc ops s = Inr (Some i, s') \<and> sched_inv s' \<and> p_state (t_proc s' i) = EMBRYO
    \<and> p_pid (t_proc s' i) = k_nextpid s \<and> p_kstack (t_proc s' i) \<noteq> 0
    \<and> qlist s' 0 = qlist s 0 @ [i] \<and> (\<forall>j. j \<noteq> i \<longrightarrow> strip (t_proc s' j) = strip (t_proc s j))
    \<and> p_ofile (t_proc s' i) = p_ofile (t_proc s i)
    \<and> k_cpuproc s' = k_cpuproc s \<and> k_initproc s' = k_initproc s \<and> k_nextpid s' = k_nextpid s + 1"
proof -
  let ?qs = "(qlist s)(0 := qlist s 0 @ [i])"
  note ok = sched_invD(1) [OF inv]
  have q: "queue_ok s (qlist s)" using ok by (simp add: sched_ok_def)
  have i': "i < NPROC" "p_state (t_proc s i) = UNUSED" using first_index_Some [OF i] by auto
  have n: "0 < NQUEUE" by (simp add: NQUEUE_def)
  have nq: "\<not> queued (qlist s) i" using ok i' by (auto simp: sched_ok_def)
  then have ab: "i \<notin> set (qlist s k)" if "k < NQUEUE" for k using that by (auto simp: queued_def)
  have none: "p_queue (t_proc s i) = None" by (rule queue_ok_absent [OF q i'(1) ab])
  let ?s1 = "(upd_proc i (fresh_proc (k_nextpid s)) s)\<lparr>k_nextpid := k_nextpid s + 1\<rparr>"
  have "queue_ok ?s1 (qlist s)"
    by (rule queue_ok_frame_absent [where i = i and p = "fresh_proc (k_nextpid s) (t_proc s i)", OF q ab]) (simp_all add: fresh_proc_def)
  from pushqueue_ok [OF this n i'(1)] none obtain t where
    t: "pushqueue (Some 0) (Some i) ?s1 = Inr t" "queue_ok t ?qs" "same_core ?s1 t" by (auto simp: fresh_proc_def)
  obtain ks e where ks: "o_kalloc ops (k_env t) = (ks, e)" "ks \<noteq> 0"
    using mem t(3) by (cases "o_kalloc ops (k_env t)") (simp add: same_core_simps)
  let ?s' = "upd_proc i (setup_kstack ops ks) (t\<lparr>k_env := e\<rparr>)"
  have t1: "pushqueue (Some 0) (Some i) ((upd_proc i (\<lambda>p. p\<lparr>p_state := EMBRYO, p_pid := k_nextpid s, p_priority := 3,
                       p_next := None, p_prev := None, p_tq := 0\<rparr>) s)\<lparr>k_nextpid := k_nextpid s + 1\<rparr>) = Inr t"
    using t(1) unfolding fresh_proc_def .
  have "allocproc ops s = Inr (Some i, ?s')"
    unfolding allocproc_def i option.case t1 rbind_simps ks(1) prod.case Let_def if_not_P [OF ks(2)] ..
  moreover have core: "strip (t_proc ?s' j) = strip (t_proc s j)" if "j \<noteq> i" for j
    using t(3) that by (simp add: same_core_def)
  have fi: "p_state (t_proc ?s' i) = EMBRYO" "p_pid (t_proc ?s' i) = k_nextpid s" "p_priority (t_proc ?s' i) = 3"
      "p_tq (t_proc ?s' i) = 0" "p_kstack (t_proc ?s' i) \<noteq> 0" "p_ofile (t_proc ?s' i) = p_ofile (t_proc s i)"
    using t(3) ks(2) by (simp_all add: setup_kstack_def same_core_simps fresh_proc_def)
  have gl: "k_nextpid ?s' = k_nextpid s + 1" "t_lockpid ?s' = t_lockpid s" "k_cpuproc ?s' = k_cpuproc s"
      "k_initproc ?s' = k_initproc s"
    using t(3) by (simp_all add: same_core_simps)
  have "proc_ok ?s'"
    by (rule proc_ok_fresh [OF sched_ok_proc [OF ok] i'(2) core]) (use fi gl in simp_all)
  moreover have q': "queue_ok ?s' ?qs"
    by (rule queue_ok_frame [OF t(2)]) (simp_all add: setup_kstack_def)
  moreover have "live ?s' j \<longleftrightarrow> queued ?qs j" if "j < NPROC" for j
  proof (cases "j = i")
    case True
    with fi(1) n show ?thesis by (auto simp: queued_def)
  next
    case False
    have "live s j \<longleftrightarrow> queued (qlist s) j" using ok that by (simp add: sched_ok_def)
    with queued_append [OF False] strip_state [OF core [OF False]] show ?thesis by metis
  qed
  ultimately have "sched_ok ?s' ?qs" by (simp add: sched_ok_def)
  moreover have "p_state (t_proc ?s' j) = RUNNING \<longleftrightarrow> p_state (t_proc s j) = RUNNING" for j
    using strip_state [OF core, of j] fi(1) i'(2) by (cases "j = i") auto
  then have "cpu_ok ?s'" using sched_invD(2) [OF inv] gl by (simp add: cpu_ok_def)
  ultimately have "sched_inv ?s'" by (rule sched_ok_inv)
  moreover have "qlist ?s' 0 = qlist s 0 @ [i]" using queue_ok_qlist [OF q' n] by simp
  ultimately show ?thesis using \<open>allocproc ops s = Inr (Some i, ?s')\<close> core fi gl by blast
qed

text \<open>An embryo may get its memory, and then become runnable.\<close>

lemma embryo_inv:
  assumes inv: "sched_inv s" and e: "p_state (t_proc s i) = EMBRYO" "p_kstack (t_proc s i) \<noteq> 0"
    and s': "t_queue s' = t_queue s" "t_proc s' = (t_proc s)(i := p)" "k_nextpid s' = k_nextpid s"
      "t_lockpid s' = t_lockpid s" "k_cpuproc s' = k_cpuproc s"
    and p: "p_prev p = p_prev (t_proc s i)" "p_next p = p_next (t_proc s i)" "p_queue p = p_queue (t_proc s i)"
      "p_level p = p_level (t_proc s i)" "p_pid p = p_pid (t_proc s i)" "p_kstack p = p_kstack (t_proc s i)"
      "p_priority p = p_priority (t_proc s i)" "p_tq p = p_tq (t_proc s i)"
    and st: "p_state p = EMBRYO \<or> p_state p = RUNNABLE \<and> p_pgdir p \<noteq> 0"
  shows "sched_inv s'"
proof (rule sched_ok_inv)
  note ok = sched_invD(1) [OF inv] and pr = sched_ok_proc [OF sched_invD(1) [OF inv], unfolded proc_ok_def]
  show "sched_ok s' (qlist s)"
  proof (rule sched_ok_upd [OF ok s'(1,2)])
    have lv: "live s' j \<longleftrightarrow> live s j" "p_pid (t_proc s' j) = p_pid (t_proc s j)" "p_priority (t_proc s' j) = p_priority (t_proc s j)"
      "p_tq (t_proc s' j) = p_tq (t_proc s j)" for j using st e p by (auto simp: s')
    have "pids_ok s'" using pr by (simp add: pids_ok_def lv s'(3))
    moreover have "prio_ok s'" using pr by (simp add: prio_ok_def lv)
    moreover have "mem_ok s'" using pr st e p by (auto simp: mem_ok_def s')
    moreover have "lock_ok s'" unfolding lock_ok_def s'(4)
    proof
      assume "t_lockpid s \<noteq> 0"
      then obtain j where j: "j < NPROC" "p_pid (t_proc s j) = t_lockpid s" "p_state (t_proc s j) \<notin> {UNUSED, ZOMBIE}"
        using pr by (auto simp: lock_ok_def)
      have "p_state (t_proc s' j) \<notin> {UNUSED, ZOMBIE}" using j(3) st by (cases "j = i") (auto simp: s'(2))
      with j(1,2) lv(2) show "\<exists>j<NPROC. p_pid (t_proc s' j) = t_lockpid s \<and> p_state (t_proc s' j) \<notin> {UNUSED, ZOMBIE}"
        by (intro exI [of _ j]) simp
    qed
    ultimately show "proc_ok s'" by (simp add: proc_ok_def)
  qed (use p st e in auto)
  have "p_state (t_proc s' j) = RUNNING \<longleftrightarrow> p_state (t_proc s j) = RUNNING" for j
    using st e by (cases "j = i") (auto simp: s'(2))
  then show "cpu_ok s'" using sched_invD(2) [OF inv] by (simp add: cpu_ok_def s'(5))
qed

text \<open>The open files of the child: the parent's, entry by entry.\<close>

definition dup_files :: "addr list \<Rightarrow> nat list \<Rightarrow> addr list \<Rightarrow> addr list" where
  "dup_files from fds to = fold (\<lambda>fd l. if from ! fd \<noteq> 0 then l[fd := from ! fd] else l) fds to"

lemma dup_loop:
  assumes ops: "env_total ops" and cn: "c \<noteq> n"
  shows "\<exists>s'. rfold (\<lambda>fd s. let f = p_ofile (t_proc s c) ! fd in
       if f \<noteq> 0 then rbind (env_call (o_filedup ops f) s) (\<lambda>s.
              Inr (upd_proc n (\<lambda>p. p\<lparr>p_ofile := (p_ofile p)[fd := f]\<rparr>) s))
       else Inr s) fds s = Inr s'
     \<and> calm s s' \<and> (\<forall>j. j \<noteq> n \<longrightarrow> t_proc s' j = t_proc s j)
     \<and> t_proc s' n = (t_proc s n)\<lparr>p_ofile := dup_files (p_ofile (t_proc s c)) fds (p_ofile (t_proc s n))\<rparr>"
proof (rule rfold_rule [where I = "\<lambda>fds s'. calm s s' \<and> (\<forall>j. j \<noteq> n \<longrightarrow> t_proc s' j = t_proc s j)
     \<and> t_proc s' n = (t_proc s n)\<lparr>p_ofile := dup_files (p_ofile (t_proc s c)) fds (p_ofile (t_proc s n))\<rparr>"])
  fix ys x zs and t :: "'a kernel"
  assume t: "calm s t \<and> (\<forall>j. j \<noteq> n \<longrightarrow> t_proc t j = t_proc s j)
     \<and> t_proc t n = (t_proc s n)\<lparr>p_ofile := dup_files (p_ofile (t_proc s c)) ys (p_ofile (t_proc s n))\<rparr>"
  let ?f = "p_ofile (t_proc t c) ! x"
  have f: "?f = p_ofile (t_proc s c) ! x" using t cn by simp
  obtain e where e: "env_call (o_filedup ops ?f) t = Inr (t\<lparr>k_env := e\<rparr>)" using env_total_calls(3) [OF ops] by blast
  let ?t = "upd_proc n (\<lambda>p. p\<lparr>p_ofile := (p_ofile p)[x := ?f]\<rparr>) (t\<lparr>k_env := e\<rparr>)"
  have "calm t ?t" by (rule calm_trans [OF calm_env [of t e]]) (rule calm_upd, simp_all)
  then have "calm s ?t" using t calm_trans by blast
  with t e f show "\<exists>s'. (let f = p_ofile (t_proc t c) ! x in
       if f \<noteq> 0 then rbind (env_call (o_filedup ops f) t) (\<lambda>s.
              Inr (upd_proc n (\<lambda>p. p\<lparr>p_ofile := (p_ofile p)[x := f]\<rparr>) s))
       else Inr t) = Inr s' \<and> calm s s' \<and> (\<forall>j. j \<noteq> n \<longrightarrow> t_proc s' j = t_proc s j)
     \<and> t_proc s' n = (t_proc s n)\<lparr>p_ofile := dup_files (p_ofile (t_proc s c)) (ys @ [x]) (p_ofile (t_proc s n))\<rparr>"
    by (cases "?f = 0") (simp_all add: Let_def dup_files_def)
qed (simp add: dup_files_def)

text \<open>What a successful \<^verbatim>\<open>fork\<close> gives: slot \<open>n\<close> of the table for the child of \<open>c\<close>.\<close>

definition fork_post :: "'k kernel \<Rightarrow> nat \<Rightarrow> nat \<Rightarrow> 'k kernel \<Rightarrow> bool" where
  "fork_post s c n s' \<longleftrightarrow> (let p = t_proc s' n; cp = t_proc s c in
     p_state p = RUNNABLE \<and> p_pid p = k_nextpid s \<and> p_parent p = Some c \<and> p_sz p = p_sz cp
     \<and> p_tfval p = (p_tfval cp)\<lparr>tf_eax := 0\<rparr>
     \<and> p_ofile p = dup_files (p_ofile cp) [0..<NOFILE] (p_ofile (t_proc s n)) \<and> p_cwd p = p_cwd cp
     \<and> qlist s' 0 = qlist s 0 @ [n] \<and> k_nextpid s' = k_nextpid s + 1
     \<and> (\<forall>j. j \<noteq> n \<longrightarrow> strip (t_proc s' j) = strip (t_proc s j)))"

lemma soft_qlist:
  assumes "sched_inv s" "soft s s'" "k < NQUEUE"
  shows "qlist s' k = qlist s k"
  using sched_ok_soft [OF sched_invD(1) [OF assms(1)] assms(2)] queue_ok_qlist [of s' "qlist s" k] assms(3)
  by (simp add: sched_ok_def)

lemma strip_fields:
  assumes "strip p = strip p'"
  shows "p_sz p = p_sz p'" "p_tfval p = p_tfval p'" "p_ofile p = p_ofile p'" "p_cwd p = p_cwd p'" "p_name p = p_name p'"
    "p_parent p = p_parent p'" "p_pgdir p = p_pgdir p'"
  using assms by (cases p; cases p'; simp add: strip_def)+

text \<open>The part of \<^verbatim>\<open>fork\<close> after the page table of the child is there.\<close>

definition fork_fill :: "'k kops \<Rightarrow> nat \<Rightarrow> nat \<Rightarrow> 'k kernel \<Rightarrow> (int \<times> 'k kernel) result" where
  "fork_fill ops c n s =
     (let cp = t_proc s c;
          s = upd_proc n (\<lambda>p. p\<lparr>p_sz := p_sz cp, p_parent := Some c,
                p_tfval := (p_tfval cp)\<lparr>tf_eax := 0\<rparr>\<rparr>) s
      in
      rbind (rfold (\<lambda>fd s.
          let f = p_ofile (t_proc s c) ! fd in
          if f \<noteq> 0
          then rbind (env_call (o_filedup ops f) s) (\<lambda>s.
                 Inr (upd_proc n (\<lambda>p. p\<lparr>p_ofile := (p_ofile p)[fd := f]\<rparr>) s))
          else Inr s) [0..<NOFILE] s) (\<lambda>s.
      rbind (env_call (o_idup ops (p_cwd (t_proc s c))) s) (\<lambda>s.
        Inr (p_pid (t_proc s n),
             upd_proc n (\<lambda>p. p\<lparr>p_cwd := p_cwd (t_proc s c),
               p_name := safestrcpy_name (p_name (t_proc s c)), p_state := RUNNABLE\<rparr>) s))))"

lemma fork_fill_ok:
  assumes ops: "env_total ops" and inv: "sched_inv s" and cn: "c \<noteq> n"
    and e: "p_state (t_proc s n) = EMBRYO" "p_kstack (t_proc s n) \<noteq> 0" "p_pgdir (t_proc s n) \<noteq> 0"
  shows "\<exists>s'. fork_fill ops c n s = Inr (p_pid (t_proc s n), s') \<and> sched_inv s' \<and> k_cpuproc s' = k_cpuproc s
    \<and> k_nextpid s' = k_nextpid s \<and> k_initproc s' = k_initproc s \<and> (\<forall>j. j \<noteq> n \<longrightarrow> t_proc s' j = t_proc s j)
    \<and> qlist s' 0 = qlist s 0
    \<and> t_proc s' n = (t_proc s n)\<lparr>p_sz := p_sz (t_proc s c), p_parent := Some c,
        p_tfval := (p_tfval (t_proc s c))\<lparr>tf_eax := 0\<rparr>,
        p_ofile := dup_files (p_ofile (t_proc s c)) [0..<NOFILE] (p_ofile (t_proc s n)), p_cwd := p_cwd (t_proc s c),
        p_name := safestrcpy_name (p_name (t_proc s c)), p_state := RUNNABLE\<rparr>"
proof -
  let ?s1 = "upd_proc n (\<lambda>p. p\<lparr>p_sz := p_sz (t_proc s c), p_parent := Some c,
                p_tfval := (p_tfval (t_proc s c))\<lparr>tf_eax := 0\<rparr>\<rparr>) s"
  have c1: "calm s ?s1" by (rule calm_upd) simp_all
  from dup_loop [OF ops cn, of "[0..<NOFILE]" ?s1] obtain s2 where
    s2: "rfold (\<lambda>fd s. let f = p_ofile (t_proc s c) ! fd in
          if f \<noteq> 0 then rbind (env_call (o_filedup ops f) s) (\<lambda>s.
                 Inr (upd_proc n (\<lambda>p. p\<lparr>p_ofile := (p_ofile p)[fd := f]\<rparr>) s))
          else Inr s) [0..<NOFILE] ?s1 = Inr s2" "calm ?s1 s2" "\<forall>j. j \<noteq> n \<longrightarrow> t_proc s2 j = t_proc ?s1 j"
      "t_proc s2 n = (t_proc ?s1 n)\<lparr>p_ofile := dup_files (p_ofile (t_proc ?s1 c)) [0..<NOFILE] (p_ofile (t_proc ?s1 n))\<rparr>"
    by blast
  obtain e' where e': "env_call (o_idup ops (p_cwd (t_proc s2 c))) s2 = Inr (s2\<lparr>k_env := e'\<rparr>)"
    using env_total_calls(5) [OF ops] by blast
  let ?s3 = "s2\<lparr>k_env := e'\<rparr>"
  have c3: "calm s ?s3" using calm_trans [OF c1 calm_trans [OF s2(2) calm_env]] .
  let ?s' = "upd_proc n (\<lambda>p. p\<lparr>p_cwd := p_cwd (t_proc ?s3 c),
               p_name := safestrcpy_name (p_name (t_proc ?s3 c)), p_state := RUNNABLE\<rparr>) ?s3"
  have run: "fork_fill ops c n s = Inr (p_pid (t_proc s2 n), ?s')"
    unfolding fork_fill_def Let_def [of "t_proc s c"] Let_def [of ?s1] s2(1) rbind_simps e' by simp
  have n2: "p_state (t_proc s2 n) = EMBRYO" "p_kstack (t_proc s2 n) \<noteq> 0" "p_pgdir (t_proc s2 n) \<noteq> 0"
      "p_pid (t_proc s2 n) = p_pid (t_proc s n)"
    using e s2(4) by simp_all
  have "sched_inv ?s'"
    by (rule embryo_inv [OF calm_inv [OF c3 inv], where i = n and p = "t_proc ?s' n"]) (use n2 in simp_all)
  moreover have "qlist ?s' 0 = qlist s 0"
  proof -
    have "qlist ?s' 0 = qlist ?s3 0"
    proof (rule queue_ok_qlist)
      show "queue_ok ?s' (qlist ?s3)"
        by (rule queue_ok_frame [of ?s3]) (use sched_invD(1) [OF calm_inv [OF c3 inv]] in \<open>simp_all add: sched_ok_def\<close>)
    qed (simp add: NQUEUE_def)
    also have "\<dots> = qlist s 0" using soft_qlist [OF inv, of ?s3 0] c3 by (simp add: calm_def NQUEUE_def)
    finally show ?thesis .
  qed
  moreover have "k_cpuproc ?s' = k_cpuproc s \<and> k_nextpid ?s' = k_nextpid s \<and> k_initproc ?s' = k_initproc s"
    using c3 by (simp add: calm_def soft_def)
  moreover have "\<forall>j. j \<noteq> n \<longrightarrow> t_proc ?s' j = t_proc s j" using s2(3) by simp
  moreover have "t_proc ?s' n = (t_proc s n)\<lparr>p_sz := p_sz (t_proc s c), p_parent := Some c,
        p_tfval := (p_tfval (t_proc s c))\<lparr>tf_eax := 0\<rparr>,
        p_ofile := dup_files (p_ofile (t_proc s c)) [0..<NOFILE] (p_ofile (t_proc s n)), p_cwd := p_cwd (t_proc s c),
        p_name := safestrcpy_name (p_name (t_proc s c)), p_state := RUNNABLE\<rparr>"
    using s2(3,4) cn by simp
  ultimately show ?thesis using run n2(4) by auto
qed

lemma fork_ok:
  assumes ops: "env_total ops" "mem_avail ops" and inv: "sched_inv s" and c: "k_cpuproc s = Some c"
    and n: "first_index (\<lambda>i. p_state (t_proc s i) = UNUSED) [0..<NPROC] = Some n"
  shows "\<exists>s'. fork ops s = Inr (k_nextpid s, s') \<and> sched_inv s' \<and> k_cpuproc s' = Some c \<and> k_initproc s' = k_initproc s
    \<and> fork_post s c n s'"
proof -
  have "fst (o_kalloc ops (k_env s)) \<noteq> 0" using ops(2) by (simp add: mem_avail_def)
  from allocproc_ok [OF inv this n] obtain s1 where
    s1: "allocproc ops s = Inr (Some n, s1)" "sched_inv s1" "p_state (t_proc s1 n) = EMBRYO"
      "p_pid (t_proc s1 n) = k_nextpid s" "p_kstack (t_proc s1 n) \<noteq> 0" "qlist s1 0 = qlist s 0 @ [n]"
      "\<forall>j. j \<noteq> n \<longrightarrow> strip (t_proc s1 j) = strip (t_proc s j)" "p_ofile (t_proc s1 n) = p_ofile (t_proc s n)"
      "k_cpuproc s1 = k_cpuproc s" "k_initproc s1 = k_initproc s" "k_nextpid s1 = k_nextpid s + 1" by blast
  have cn: "c \<noteq> n" using first_index_Some [OF n] cpu_running(2) [OF inv c] by auto
  obtain pg e where pg: "o_copyuvm ops (p_pgdir (t_proc s1 c)) (p_sz (t_proc s1 c)) (k_env s1) = Inr (pg, e)"
    using env_total_pairs(1) [OF ops(1)] by blast
  then have nz: "pg \<noteq> 0" using ops(2) unfolding mem_avail_def by fastforce
  let ?s2 = "upd_proc n (\<lambda>p. p\<lparr>p_pgdir := pg\<rparr>) (s1\<lparr>k_env := e\<rparr>)"
  have i2: "sched_inv ?s2"
    by (rule embryo_inv [OF s1(2,3,5), where p = "t_proc ?s2 n"]) (use s1(3) in simp_all)
  have q2: "qlist ?s2 0 = qlist s1 0"
  proof (rule queue_ok_qlist)
    show "queue_ok ?s2 (qlist s1)"
      by (rule queue_ok_frame [of s1]) (use sched_invD(1) [OF s1(2)] in \<open>simp_all add: sched_ok_def\<close>)
  qed (simp add: NQUEUE_def)
  have e2: "p_state (t_proc ?s2 n) = EMBRYO" "p_kstack (t_proc ?s2 n) \<noteq> 0" "p_pgdir (t_proc ?s2 n) \<noteq> 0"
    using s1(3,5) nz by simp_all
  from fork_fill_ok [OF ops(1) i2 cn e2] obtain s' where
    s': "fork_fill ops c n ?s2 = Inr (p_pid (t_proc ?s2 n), s')" "sched_inv s'" "k_cpuproc s' = k_cpuproc ?s2"
      "k_nextpid s' = k_nextpid ?s2" "k_initproc s' = k_initproc ?s2" "\<forall>j. j \<noteq> n \<longrightarrow> t_proc s' j = t_proc ?s2 j"
      "qlist s' 0 = qlist ?s2 0" "t_proc s' n = (t_proc ?s2 n)\<lparr>p_sz := p_sz (t_proc ?s2 c), p_parent := Some c,
        p_tfval := (p_tfval (t_proc ?s2 c))\<lparr>tf_eax := 0\<rparr>,
        p_ofile := dup_files (p_ofile (t_proc ?s2 c)) [0..<NOFILE] (p_ofile (t_proc ?s2 n)), p_cwd := p_cwd (t_proc ?s2 c),
        p_name := safestrcpy_name (p_name (t_proc ?s2 c)), p_state := RUNNABLE\<rparr>" by blast
  have "fork ops s = fork_fill ops c n ?s2"
    unfolding fork_def c option.case s1(1) rbind_simps prod.case pg
    unfolding Let_def [of ?s2] if_not_P [OF nz] fork_fill_def ..
  then have "fork ops s = Inr (k_nextpid s, s')" using s'(1) s1(4) by simp
  moreover have "fork_post s c n s'"
    using s' s1 q2 cn strip_fields [OF s1(7) [rule_format, OF cn]] by (simp add: fork_post_def Let_def)
  ultimately show ?thesis using s' s1 c by auto
qed

section \<open>The first process\<close>

text \<open>A process table after \<^verbatim>\<open>pinit\<close>: zeroed, every slot free, the queues empty.\<close>

definition zero_tf :: trapframe where
  "zero_tf = \<lparr>tf_edi = 0, tf_esi = 0, tf_ebp = 0, tf_oesp = 0, tf_ebx = 0, tf_edx = 0, tf_ecx = 0, tf_eax = 0,
     tf_gs = 0, tf_fs = 0, tf_es = 0, tf_ds = 0, tf_trapno = 0, tf_err = 0, tf_eip = 0, tf_cs = 0,
     tf_eflags = 0, tf_esp = 0, tf_ss = 0\<rparr>"

definition zero_proc :: proc where
  "zero_proc = \<lparr>p_sz = 0, p_pgdir = 0, p_kstack = 0, p_state = UNUSED, p_pid = 0, p_parent = None, p_tf = 0,
     p_tfval = zero_tf, p_retaddr = 0, p_context = 0,
     p_ctxval = \<lparr>c_edi = 0, c_esi = 0, c_ebx = 0, c_ebp = 0, c_eip = 0\<rparr>, p_chan = NoChan, p_killed = False,
     p_ofile = replicate NOFILE 0, p_cwd = 0, p_name = [], p_level = 0, p_priority = 0, p_prev = None,
     p_next = None, p_tq = 0, p_queue = None\<rparr>"

definition boot :: "'k \<Rightarrow> 'k kernel" where
  "boot e = \<lparr>t_proc = (\<lambda>_. zero_proc), t_queue = (\<lambda>_. \<lparr>q_front = None, q_back = None, q_level = 0, q_size = 0\<rparr>),
     t_lockpid = 0, k_nextpid = 1, k_initproc = None, k_cpuproc = None, k_ticks = 0, k_env = e\<rparr>"

lemma pinit_boot_inv: "sched_inv (pinit (boot e))"
proof (rule sched_ok_inv)
  let ?s = "pinit (boot e)"
  have p: "t_proc ?s = (\<lambda>_. zero_proc)" "t_lockpid ?s = 0" "k_nextpid ?s = 1" "k_cpuproc ?s = None"
    by (simp_all add: pinit_def boot_def NQUEUE_def upt_rec)
  have q: "t_queue ?s k = \<lparr>q_front = None, q_back = None, q_level = int k, q_size = 0\<rparr>" if "k < NQUEUE" for k
    using that by (auto simp: pinit_def boot_def NQUEUE_def upt_rec less_Suc_eq numeral_3_eq_3)
  have "queue_ok ?s (\<lambda>_. [])" by (simp add: queue_ok_def qseg_def q p zero_proc_def)
  moreover have "proc_ok ?s" by (simp add: ok_defs p zero_proc_def)
  ultimately show "sched_ok ?s (\<lambda>_. [])" by (simp add: sched_ok_def queued_def p zero_proc_def)
  show "cpu_ok ?s" by (simp add: cpu_ok_def p zero_proc_def)
qed

lemma userinit_ok:
  assumes ops: "env_total ops" "mem_avail ops" and inv: "sched_inv s"
    and n: "first_index (\<lambda>i. p_state (t_proc s i) = UNUSED) [0..<NPROC] = Some n"
  shows "\<exists>s'. userinit ops s = Inr s' \<and> sched_inv s' \<and> k_initproc s' = Some n \<and> p_state (t_proc s' n) = RUNNABLE
    \<and> p_pid (t_proc s' n) = k_nextpid s \<and> p_tfval (t_proc s' n) = init_tf \<and> k_cpuproc s' = k_cpuproc s"
proof -
  have "fst (o_kalloc ops (k_env s)) \<noteq> 0" using ops(2) by (simp add: mem_avail_def)
  from allocproc_ok [OF inv this n] obtain s1 where
    s1: "allocproc ops s = Inr (Some n, s1)" "sched_inv s1" "p_state (t_proc s1 n) = EMBRYO"
      "p_pid (t_proc s1 n) = k_nextpid s" "p_kstack (t_proc s1 n) \<noteq> 0" "k_cpuproc s1 = k_cpuproc s" by blast
  obtain pg e where pg: "o_setupkvm ops (k_env s1) = (pg, e)" by (cases "o_setupkvm ops (k_env s1)")
  then have nz: "pg \<noteq> 0" using ops(2) unfolding mem_avail_def by (metis fst_conv)
  let ?s2 = "upd_proc n (\<lambda>p. p\<lparr>p_pgdir := pg\<rparr>) (s1\<lparr>k_initproc := Some n, k_env := e\<rparr>)"
  obtain e3 where e3: "env_call (o_inituvm ops pg) ?s2 = Inr (?s2\<lparr>k_env := e3\<rparr>)"
    using env_total_calls(7) [OF ops(1)] by blast
  let ?s3 = "upd_proc n (\<lambda>p. p\<lparr>p_sz := PGSIZE, p_tfval := init_tf, p_name := safestrcpy_name ''initcode''\<rparr>)
      (?s2\<lparr>k_env := e3\<rparr>)"
  obtain ip e4 where e4: "o_namei ops ''/'' (k_env ?s3) = Inr (ip, e4)" using env_total_pairs(2) [OF ops(1)] by blast
  let ?s' = "upd_proc n (\<lambda>p. p\<lparr>p_cwd := ip, p_state := RUNNABLE\<rparr>) (?s3\<lparr>k_env := e4\<rparr>)"
  have "userinit ops s = Inr ?s'"
    using s1(1) pg nz e3 e4 by (simp add: userinit_def Let_def)
  moreover have "sched_inv ?s'"
    by (rule embryo_inv [OF s1(2,3,5), where p = "t_proc ?s' n"]) (use nz in simp_all)
  ultimately show ?thesis using s1(4,6) by (intro exI [of _ ?s']) simp
qed

end
