(* ===== verification/Mlfq_Kernel.thy ===== *)
theory Mlfq_Kernel
  imports Mlfq_Life
begin

text \<open>
  The kernel of project 1 as a transition system: \<open>kexec\<close> runs one entry into the kernel to its next
  return or context switch, \<open>kreach\<close> are the states reachable from the boot of the first
  process.  The properties of the scheduler are stated on these states, followed by the
  behaviour of the code outside its intended domain.
\<close>

section \<open>Steps\<close>

datatype kaction = KDispatch | KYield | KSleep chan | KResume | KWakeup chan | KTick | KKill int
  | KSetPriority int int | KSetLevel int int | KLock int | KUnlock int | KFork | KExit | KWait

text \<open>
  When an entry can happen: the scheduler runs only while no process is on the CPU, system calls only
  from a process.  The first process does not exit, and a level is one of the three that exist.
\<close>

fun enabled :: "kaction \<Rightarrow> 'k kernel \<Rightarrow> bool" where
  "enabled KDispatch s \<longleftrightarrow> k_cpuproc s = None"
| "enabled (KWakeup ch) s \<longleftrightarrow> True"
| "enabled KTick s \<longleftrightarrow> True"
| "enabled (KSetLevel pid level) s \<longleftrightarrow> k_cpuproc s \<noteq> None \<and> level < int NQUEUE"
| "enabled KExit s \<longleftrightarrow> k_cpuproc s \<noteq> None \<and> k_cpuproc s \<noteq> k_initproc s"
| "enabled a s \<longleftrightarrow> k_cpuproc s \<noteq> None"

fun kexec :: "'k kops \<Rightarrow> kaction \<Rightarrow> 'k kernel \<Rightarrow> 'k kernel result" where
  "kexec ops KDispatch s = scheduler_dispatch s"
| "kexec ops KYield s = yield_step s"
| "kexec ops (KSleep ch) s = sleep_step ch s"
| "kexec ops KResume s = (case k_cpuproc s of None \<Rightarrow> Inl NullDeref | Some i \<Rightarrow> Inr (sleep_resume i s))"
| "kexec ops (KWakeup ch) s = Inr (wakeup ch s)"
| "kexec ops KTick s = Inr (timer_tick s)"
| "kexec ops (KKill pid) s = Inr (snd (kill pid s))"
| "kexec ops (KSetPriority pid pr) s = Inr (setPriority pid pr s)"
| "kexec ops (KSetLevel pid level) s = setLevel pid level s"
| "kexec ops (KLock pw) s = schedulerLock pw s"
| "kexec ops (KUnlock pw) s = schedulerUnlock pw s"
| "kexec ops KFork s = rbind (fork ops s) (\<lambda>(pid, s). Inr s)"
| "kexec ops KExit s = exit_step ops s"
| "kexec ops KWait s = rbind (wait_step ops s) (\<lambda>(r, s). Inr s)"

inductive kreach :: "'k kops \<Rightarrow> 'k kernel \<Rightarrow> bool" for ops where
  kreach_boot: "userinit ops (pinit (boot e)) = Inr s \<Longrightarrow> kreach ops s"
| kreach_step: "kreach ops s \<Longrightarrow> enabled a s \<Longrightarrow> kexec ops a s = Inr s' \<Longrightarrow> kreach ops s'"

section \<open>Invariant and progress\<close>

lemma fork_step_inv:
  assumes ops: "env_total ops" "mem_avail ops" and inv: "sched_inv s" and c: "k_cpuproc s = Some c"
  shows "\<exists>r s'. fork ops s = Inr (r, s') \<and> sched_inv s'"
proof (cases "first_index (\<lambda>i. p_state (t_proc s i) = UNUSED) [0..<NPROC]")
  case None
  have "fork ops s = Inr (- 1, s)"
    unfolding fork_def c option.case allocproc_def None rbind_simps prod.case ..
  with inv show ?thesis by blast
next
  case (Some n)
  from fork_ok [OF ops inv c Some] show ?thesis by blast
qed

lemma resume_inv: "sched_inv s \<Longrightarrow> sched_inv (sleep_resume i s)"
  unfolding sleep_resume_def by (rule calm_inv [OF calm_upd]) simp_all

lemma kexec_inv:
  assumes ops: "env_total ops" "mem_avail ops" and inv: "sched_inv s" and e: "enabled a s"
  shows "\<exists>s'. kexec ops a s = Inr s' \<and> sched_inv s'"
proof (cases "k_cpuproc s")
  case None
  with e inv show ?thesis
    using scheduler_dispatch_inv [OF inv None] wakeup_inv [OF inv] timer_tick_inv [OF inv] by (cases a) auto
next
  case (Some c)
  show ?thesis
  proof (cases a)
    case KFork
    with fork_step_inv [OF ops inv Some] show ?thesis by fastforce
  next
    case KExit
    with e Some have "k_initproc s \<noteq> Some c" by auto
    from exit_inv [OF ops(1) inv Some this] KExit show ?thesis by auto
  next
    case KWait
    with wait_inv [OF ops(1) inv Some] show ?thesis by fastforce
  next
    case (KSetLevel pid level)
    with setLevel_inv [OF inv, of level pid] e show ?thesis by simp
  next
    case (KSleep ch)
    with sleep_inv [OF inv Some, of ch] show ?thesis by auto
  next
    case (KUnlock pw)
    with schedulerUnlock_inv [OF inv Some, of pw] show ?thesis by auto
  qed (use e inv Some yield_inv [OF inv Some] wakeup_inv [OF inv] timer_tick_inv [OF inv]
        kill_inv [OF inv] setPriority_inv [OF inv] schedulerLock_inv [OF inv Some] resume_inv [OF inv] in
        \<open>auto\<close>)
qed

lemma kreach_sched_inv:
  assumes "kreach ops s" "env_total ops" "mem_avail ops"
  shows "sched_inv s"
  using assms
proof (induction rule: kreach.induct)
  case (kreach_boot e s)
  have "first_index (\<lambda>i. p_state (t_proc (pinit (boot e)) i) = UNUSED) [0..<NPROC] = Some 0"
    by (simp add: pinit_def boot_def NQUEUE_def NPROC_def zero_proc_def upt_rec)
  from userinit_ok [OF kreach_boot.prems pinit_boot_inv this] kreach_boot.hyps show ?case by auto
next
  case (kreach_step s a s')
  with kexec_inv [OF kreach_step.prems kreach_step.IH kreach_step.hyps(2)] show ?case by auto
qed

section \<open>A concrete kernel\<close>

text \<open>
  A kernel whose allocator always has a page and whose file calls succeed; \<open>demo0\<close> is its state
  after boot, and in \<open>demo1\<close> the first process is on the CPU.
\<close>

definition ops0 :: "unit kops" where
  "ops0 = \<lparr>o_kalloc = (\<lambda>e. (4096, e)), o_kfree = (\<lambda>a e. Inr e), o_copyuvm = (\<lambda>a n e. Inr (8192, e)),
     o_freevm = (\<lambda>a e. Inr e), o_filedup = (\<lambda>a e. Inr e), o_fileclose = (\<lambda>a e. Inr e), o_idup = (\<lambda>a e. Inr e),
     o_iput = (\<lambda>a e. Inr e), o_setupkvm = (\<lambda>e. (8192, e)), o_inituvm = (\<lambda>a e. Inr e),
     o_allocuvm = (\<lambda>a m n e. Inr (n, e)), o_deallocuvm = (\<lambda>a m n e. Inr (n, e)), o_namei = (\<lambda>p e. Inr (1, e)),
     o_trapret = 16, o_forkret = 32\<rparr>"

definition run :: "'k kernel result \<Rightarrow> 'k kernel" where
  "run r = (case r of Inr s \<Rightarrow> s | Inl _ \<Rightarrow> undefined)"

definition demo0 :: "unit kernel" where "demo0 = run (userinit ops0 (pinit (boot ())))"
definition demo1 :: "unit kernel" where
  "demo1 = upd_proc 0 (\<lambda>p. p\<lparr>p_state := RUNNING\<rparr>) (demo0\<lparr>k_cpuproc := Some 0\<rparr>)"

lemma ops0_ok: "env_total ops0" "mem_avail ops0"
  by (simp_all add: env_total_def mem_avail_def ops0_def)

lemma run_eq: "returns r \<Longrightarrow> r = Inr (run r)"
  by (cases r) (simp_all add: run_def)

lemma demo0_reach: "kreach ops0 demo0"
proof -
  have "returns (userinit ops0 (pinit (boot ())))" by code_simp
  then show ?thesis unfolding demo0_def by (intro kreach_boot [of ops0 "()"] run_eq)
qed

lemma demo0_cpu: "k_cpuproc demo0 = None"
  by code_simp

lemma demo0_inv: "sched_inv demo0"
  by (rule kreach_sched_inv [OF demo0_reach ops0_ok])

lemma demo0_proc: "p_state (t_proc demo0 0) = RUNNABLE" "p_pid (t_proc demo0 0) = 1"
  by code_simp+


lemma demo1_inv: "sched_inv demo1"
proof (rule sched_inv_soft [OF demo0_inv])
  show "soft demo0 demo1" using demo0_proc by (simp add: soft_def demo1_def)
  show "cpu_ok demo1"
    using sched_invD(2) [OF demo0_inv] demo0_cpu by (simp add: cpu_ok_def demo1_def NPROC_def)
qed

lemma demo1_free: "first_index (\<lambda>i. p_state (t_proc demo1 i) = UNUSED) [0..<NPROC] = Some 1"
  by code_simp

section \<open>Properties\<close>





text \<open>
  C3.  The scheduling policy.  With no process on the CPU, \<^verbatim>\<open>getProcessToRun\<close> returns the runnable
  holder of the scheduler lock; otherwise it drops the lock and returns the first runnable process of L0,
  or of L1 when L0 has none, or the first of the runnable processes of L2 with the smallest
  priority value, and a null pointer only when no process of the three queues is runnable.
\<close>

theorem scheduling_policy:
  assumes "sched_inv s" "k_cpuproc s = None"
  shows "(\<exists>i. getProcessToRun s = Inr (Some i, s) \<and> i < NPROC \<and> runnable s i
        \<and> t_lockpid s \<noteq> 0 \<and> p_pid (t_proc s i) = t_lockpid s)
    \<or> (\<exists>p. getProcessToRun s = Inr (p, s\<lparr>t_lockpid := 0\<rparr>) \<and> mlfq_choice s (qlist s) p)"
  using getProcessToRun_ok [OF sched_invD(1) [OF assms(1)] assms(2)] .

theorem scheduling_policy_witness:
  "sched_inv demo0 \<and> k_cpuproc demo0 = None \<and>
   ((\<exists>i. getProcessToRun demo0 = Inr (Some i, demo0) \<and> i < NPROC \<and> runnable demo0 i
        \<and> t_lockpid demo0 \<noteq> 0 \<and> p_pid (t_proc demo0 i) = t_lockpid demo0)
    \<or> (\<exists>p. getProcessToRun demo0 = Inr (p, demo0\<lparr>t_lockpid := 0\<rparr>) \<and> mlfq_choice demo0 (qlist demo0) p))"
  using scheduling_policy [OF demo0_inv demo0_cpu] demo0_inv demo0_cpu by blast

text \<open>
  C4.  The inner loop of \<^verbatim>\<open>scheduler\<close> ends: after at most 64 expirations it has found a runnable process
  with quantum left (the lock holder or the choice of the policy), or no process is runnable; states,
  pids and parents are unchanged.
\<close>

theorem scheduler_loop_ends:
  assumes "sched_inv s" "k_cpuproc s = None"
  shows "\<exists>p s' qs. sched_loop (NPROC + 1) s = Inr (p, s') \<and> sched_ok s' qs \<and> keeps s s' \<and> loop_result p s' qs"
proof -
  have "expired_count s < NPROC + 1" using expired_count_bound [of s] by simp
  from sched_loop_ok [OF sched_invD(1) [OF assms(1)] assms(2) this] show ?thesis by blast
qed

theorem scheduler_loop_ends_witness:
  "sched_inv demo0 \<and> k_cpuproc demo0 = None \<and>
   (\<exists>p s' qs. sched_loop (NPROC + 1) demo0 = Inr (p, s') \<and> sched_ok s' qs \<and> keeps demo0 s' \<and> loop_result p s' qs)"
  using scheduler_loop_ends [OF demo0_inv demo0_cpu] demo0_inv demo0_cpu by blast

text \<open>
  C5.  \<^verbatim>\<open>boostPriority\<close> (run every 100 ticks, with no process on the CPU) puts every live process into L0,
  in the order of the process table, with priority 3 and a fresh quantum, leaves L1 and L2
  empty, releases the scheduler lock and resets the global ticks.
\<close>

theorem priority_boost:
  assumes "sched_inv s" "k_cpuproc s = None"
  shows "\<exists>s'. boostPriority s = Inr s' \<and> sched_inv s' \<and> qlist s' 0 = live_list s \<and> qlist s' 1 = [] \<and> qlist s' 2 = []
    \<and> t_lockpid s' = 0 \<and> k_ticks s' = 0 \<and> boost_rel (boost_start s) s' {..<NPROC}"
proof -
  from boostPriority_ok [OF sched_invD(1) [OF assms(1)] assms(2)] obtain s' where
    s': "boostPriority s = Inr s'" "sched_ok s' (\<lambda>k. if k = 0 then live_list s else [])"
      "boost_rel (boost_start s) s' {..<NPROC}" by blast
  have k: "keeps s s'" using keeps_boost [OF s'(3)] by (simp add: keeps_def boost_start_def)
  have "queue_ok s' (\<lambda>k. if k = 0 then live_list s else [])" using s'(2) by (simp add: sched_ok_def)
  then have "qlist s' k = (if k = 0 then live_list s else [])" if "k < NQUEUE" for k
    using queue_ok_qlist that by fastforce
  then have "qlist s' 0 = live_list s" "qlist s' 1 = []" "qlist s' 2 = []" by (simp_all add: NQUEUE_def)
  moreover have "t_lockpid s' = 0" "k_ticks s' = 0" using s'(3) by (simp_all add: boost_rel_def boost_start_def)
  ultimately show ?thesis using s' sched_ok_inv [OF s'(2) keeps_cpu [OF k sched_invD(2) [OF assms(1)]]] by blast
qed

theorem priority_boost_witness:
  "sched_inv demo0 \<and> k_cpuproc demo0 = None \<and>
   (\<exists>s'. boostPriority demo0 = Inr s' \<and> sched_inv s' \<and> qlist s' 0 = live_list demo0 \<and> qlist s' 1 = [] \<and> qlist s' 2 = []
    \<and> t_lockpid s' = 0 \<and> k_ticks s' = 0 \<and> boost_rel (boost_start demo0) s' {..<NPROC})"
  using priority_boost [OF demo0_inv demo0_cpu] demo0_inv demo0_cpu by blast

text \<open>
  C6.  \<^verbatim>\<open>expireTimeQuantum\<close> on a process of level \<open>k\<close>: from L0 and L1 it moves to the back of the next
  level; in L2 it stays where it is and its priority value drops by one, not below 0; in both cases its
  time is reset and no other process is touched.
\<close>

theorem quantum_expiry:
  assumes "sched_inv s" "k < NQUEUE" "i \<in> set (qlist s k)"
  shows "\<exists>s'. expireTimeQuantum i s = Inr s' \<and> sched_inv s'
    \<and> (\<forall>m<NQUEUE. qlist s' m = (if k < 2 then q_move k (Suc k) i (qlist s) else qlist s) m)
    \<and> (\<forall>j. p_tq (t_proc s' j) = (if j = i then 0 else p_tq (t_proc s j)))
    \<and> (\<forall>j. p_priority (t_proc s' j) = (if j = i \<and> k = 2 then max 0 (p_priority (t_proc s j) - 1) else p_priority (t_proc s j)))"
proof -
  from expire_ok [OF sched_invD(1) [OF assms(1)] assms(2,3)] obtain s' where
    s': "expireTimeQuantum i s = Inr s'" "keeps s s'"
      "sched_ok s' (if k < 2 then q_move k (Suc k) i (qlist s) else qlist s)"
      "\<forall>j. p_tq (t_proc s' j) = (if j = i then 0 else p_tq (t_proc s j))"
      "\<forall>j. p_priority (t_proc s' j) = (if j = i \<and> k = 2 then max 0 (p_priority (t_proc s j) - 1) else p_priority (t_proc s j))"
    by blast
  have "sched_inv s'" by (rule sched_ok_inv [OF s'(3) keeps_cpu [OF s'(2) sched_invD(2) [OF assms(1)]]])
  moreover have "\<forall>m<NQUEUE. qlist s' m = (if k < 2 then q_move k (Suc k) i (qlist s) else qlist s) m"
    using queue_ok_qlist s'(3) unfolding sched_ok_def by blast
  ultimately show ?thesis using s'(1,4,5) by blast
qed

lemma demo0_queue: "qlist demo0 0 = [0]"
  by code_simp

theorem quantum_expiry_witness:
  "\<exists>s'. expireTimeQuantum 0 demo0 = Inr s' \<and> qlist s' 0 = [] \<and> qlist s' 1 = qlist demo0 1 @ [0]"
proof -
  have "0 \<in> set (qlist demo0 0)" "0 < NQUEUE" by (simp_all add: demo0_queue NQUEUE_def)
  from quantum_expiry [OF demo0_inv this(2,1)] obtain s' where
    "expireTimeQuantum 0 demo0 = Inr s'" "\<forall>m<NQUEUE. qlist s' m = q_move 0 1 0 (qlist demo0) m" by auto
  then show ?thesis by (auto simp: q_move_def Let_def demo0_queue NQUEUE_def)
qed








text \<open>
  C10.  The queue operations implement lists: on well formed queues \<^verbatim>\<open>erasequeue\<close> removes its process,
  \<^verbatim>\<open>pushqueue\<close> appends a process that is in no queue and \<^verbatim>\<open>pushfrontqueue\<close> puts it in front; the other
  queues and every field of the processes outside the links are unchanged.
\<close>

theorem queue_refinement:
  assumes "queue_inv s" "k < NQUEUE" "i < NPROC"
  shows "(i \<in> set (qlist s k) \<longrightarrow> (\<exists>s'. erasequeue (Some k) (Some i) s = Inr s' \<and> queue_inv s' \<and> same_core s s'
      \<and> (\<forall>m<NQUEUE. qlist s' m = ((qlist s)(k := remove1 i (qlist s k))) m)))
    \<and> (p_queue (t_proc s i) = None \<longrightarrow> (\<exists>s'. pushqueue (Some k) (Some i) s = Inr s' \<and> queue_inv s' \<and> same_core s s'
      \<and> (\<forall>m<NQUEUE. qlist s' m = ((qlist s)(k := qlist s k @ [i])) m)))
    \<and> (p_queue (t_proc s i) = None \<longrightarrow> (\<exists>s'. pushfrontqueue (Some k) (Some i) s = Inr s' \<and> queue_inv s' \<and> same_core s s'
      \<and> (\<forall>m<NQUEUE. qlist s' m = ((qlist s)(k := i # qlist s k)) m)))"
proof (intro conjI impI)
  note q = assms(1) [unfolded queue_inv_def]
  show "\<exists>s'. erasequeue (Some k) (Some i) s = Inr s' \<and> queue_inv s' \<and> same_core s s'
      \<and> (\<forall>m<NQUEUE. qlist s' m = ((qlist s)(k := remove1 i (qlist s k))) m)" if "i \<in> set (qlist s k)"
    using erasequeue_ok [OF q assms(2) that] queue_ok_inv queue_ok_qlist by metis
  show "\<exists>s'. pushqueue (Some k) (Some i) s = Inr s' \<and> queue_inv s' \<and> same_core s s'
      \<and> (\<forall>m<NQUEUE. qlist s' m = ((qlist s)(k := qlist s k @ [i])) m)" if "p_queue (t_proc s i) = None"
    using pushqueue_ok [OF q assms(2,3) that] queue_ok_inv queue_ok_qlist by metis
  show "\<exists>s'. pushfrontqueue (Some k) (Some i) s = Inr s' \<and> queue_inv s' \<and> same_core s s'
      \<and> (\<forall>m<NQUEUE. qlist s' m = ((qlist s)(k := i # qlist s k)) m)" if "p_queue (t_proc s i) = None"
    using pushfrontqueue_ok [OF q assms(2,3) that] queue_ok_inv queue_ok_qlist by metis
qed

theorem queue_refinement_witness:
  "\<exists>s'. erasequeue (Some 0) (Some 0) demo0 = Inr s' \<and> queue_inv s' \<and> same_core demo0 s'
      \<and> (\<forall>m<NQUEUE. qlist s' m = ((qlist demo0)(0 := remove1 0 (qlist demo0 0))) m)"
proof -
  have "queue_inv demo0" "0 < NQUEUE" "0 < NPROC" "0 \<in> set (qlist demo0 0)"
    using sched_invD(1) [OF demo0_inv] by (simp_all add: queue_inv_def sched_ok_def demo0_queue NQUEUE_def NPROC_def)
  with queue_refinement [of demo0 0 0] show ?thesis by blast
qed

section \<open>Outside the intended domain\<close>

text \<open>
  C11.  \<^verbatim>\<open>setLevel\<close> accepts level 3, although the levels are 0, 1 and 2: the write then goes past the end
  of \<^verbatim>\<open>ptable.queue\<close>.
\<close>

theorem setLevel_out_of_bounds:
  assumes "sched_inv s" "getProc pid s = Some i"
  shows "setLevel pid 3 s = Inl OutOfBounds"
proof -
  note ok = sched_invD(1) [OF assms(1)]
  from getProc_live [OF assms(2)] sched_ok_queue [OF ok] obtain k where
    k: "k < NQUEUE" "i \<in> set (qlist s k)" "p_queue (t_proc s i) = Some k" by metis
  have q: "queue_ok s (qlist s)" using ok by (simp add: sched_ok_def)
  obtain t where t: "erasequeue (Some k) (Some i) s = Inr t" "queue_ok t ((qlist s)(k := remove1 i (qlist s k)))"
    using erasequeue_ok [OF q k(1,2)] by blast
  have "i < NPROC" using getProc_live [OF assms(2)] by blast
  then have "p_queue (t_proc t i) = None" by (rule queue_ok_absent [OF t(2) _ pq.erased_absent [OF q k(1,2)]])
  then have "pushqueue (Some 3) (Some i) t = Inl OutOfBounds" by (simp add: pushqueue_def deref_queue_def NQUEUE_def)
  with t(1) k(3) assms(2) show ?thesis by (simp add: setLevel_def)
qed

theorem setLevel_out_of_bounds_witness: "getProc 1 demo0 = Some 0 \<and> setLevel 1 3 demo0 = Inl OutOfBounds"
proof -
  have g: "getProc 1 demo0 = Some 0" by code_simp
  with setLevel_out_of_bounds [OF demo0_inv g] show ?thesis by simp
qed

text \<open>
  C12.  When \<^verbatim>\<open>kalloc\<close> fails in \<^verbatim>\<open>allocproc\<close>, the slot is marked free but stays in L0, so the next call of
  \<^verbatim>\<open>allocproc\<close>, which takes the same slot, panics.
\<close>

theorem alloc_failure_panics:
  assumes inv: "sched_inv s" and i: "first_index (\<lambda>i. p_state (t_proc s i) = UNUSED) [0..<NPROC] = Some i"
    and mem: "fst (o_kalloc ops (k_env s)) = 0"
  shows "\<exists>s'. allocproc ops s = Inr (None, s') \<and> p_state (t_proc s' i) = UNUSED \<and> p_queue (t_proc s' i) = Some 0
    \<and> allocproc ops' s' = Inl (Panic ''pushqueue'')"
proof -
  note ok = sched_invD(1) [OF inv]
  have q: "queue_ok s (qlist s)" using ok by (simp add: sched_ok_def)
  have i': "i < NPROC" "p_state (t_proc s i) = UNUSED" using first_index_Some [OF i] by auto
  have n: "0 < NQUEUE" by (simp add: NQUEUE_def)
  have "\<not> queued (qlist s) i" using ok i' by (auto simp: sched_ok_def)
  then have ab: "i \<notin> set (qlist s k)" if "k < NQUEUE" for k using that by (auto simp: queued_def)
  have none: "p_queue (t_proc s i) = None" by (rule queue_ok_absent [OF q i'(1) ab])
  let ?s1 = "(upd_proc i (fresh_proc (k_nextpid s)) s)\<lparr>k_nextpid := k_nextpid s + 1\<rparr>"
  have "queue_ok ?s1 (qlist s)"
    by (rule queue_ok_frame_absent [where i = i and p = "fresh_proc (k_nextpid s) (t_proc s i)", OF q ab]) (simp_all add: fresh_proc_def)
  from pushqueue_ok [OF this n i'(1)] none obtain t where
    t: "pushqueue (Some 0) (Some i) ?s1 = Inr t" "queue_ok t ((qlist s)(0 := qlist s 0 @ [i]))" "same_core ?s1 t"
    by (auto simp: fresh_proc_def)
  obtain e where ks: "o_kalloc ops (k_env t) = (0, e)"
    using mem t(3) by (cases "o_kalloc ops (k_env t)") (simp add: same_core_simps)
  let ?s' = "upd_proc i (\<lambda>p. p\<lparr>p_kstack := 0, p_state := UNUSED\<rparr>) (t\<lparr>k_env := e\<rparr>)"
  have "allocproc ops s = Inr (None, ?s')"
    using i t(1) ks by (simp add: allocproc_def fresh_proc_def del: first_index.simps)
  moreover have pq: "p_queue (t_proc ?s' i) = Some 0"
    using queue_okD(4) [OF t(2) n, of i] by simp
  moreover have "first_index (\<lambda>i. p_state (t_proc ?s' i) = UNUSED) [0..<NPROC] = Some i"
  proof -
    have "first_index (\<lambda>i. p_state (t_proc ?s' i) = UNUSED) [0..<NPROC]
        = first_index (\<lambda>i. p_state (t_proc s i) = UNUSED) [0..<NPROC]"
      by (rule first_index_cong) (use t(3) i'(2) in \<open>auto simp: same_core_simps fresh_proc_def\<close>)
    with i show ?thesis by simp
  qed
  then have "allocproc ops' ?s' = Inl (Panic ''pushqueue'')"
    using pq by (simp add: allocproc_def pushqueue_def del: first_index.simps)
  ultimately show ?thesis by auto
qed

theorem alloc_failure_panics_witness:
  "\<exists>s'. allocproc (ops0\<lparr>o_kalloc := \<lambda>e. (0, e)\<rparr>) demo1 = Inr (None, s') \<and> p_state (t_proc s' 1) = UNUSED
    \<and> p_queue (t_proc s' 1) = Some 0 \<and> allocproc ops0 s' = Inl (Panic ''pushqueue'')"
  by (rule alloc_failure_panics [OF demo1_inv demo1_free]) simp

end
