(* ===== verification/Fs_Bytes.thy ===== *)
theory Fs_Bytes
  imports Xv6_Prelude "HOL-Library.Word"
begin

text \<open>
  Disk blocks as lists of bytes, with the little endian access that the kernel gets by casting
  \<^verbatim>\<open>b->data\<close> to pointers to \<^verbatim>\<open>uint\<close> and \<^verbatim>\<open>ushort\<close>, and \<^verbatim>\<open>memmove\<close> between byte arrays.  A value of type
  \<^verbatim>\<open>uint\<close> is a natural number; \<open>put32\<close> keeps it modulo \<open>2 ^ 32\<close>.
\<close>

type_synonym byte = "8 word"
type_synonym block = "byte list"

definition BSIZE :: nat where "BSIZE = 512"

definition byte_of :: "nat \<Rightarrow> byte" where "byte_of n = word_of_nat n"

definition get16 :: "block \<Rightarrow> nat \<Rightarrow> nat" where
  "get16 d i = unat (d ! i) + 256 * unat (d ! (i + 1))"

definition put16 :: "nat \<Rightarrow> nat \<Rightarrow> block \<Rightarrow> block" where
  "put16 i n d = d[i := byte_of n, i + 1 := byte_of (n div 256)]"

definition get32 :: "block \<Rightarrow> nat \<Rightarrow> nat" where
  "get32 d i = get16 d i + 65536 * get16 d (i + 2)"

definition put32 :: "nat \<Rightarrow> nat \<Rightarrow> block \<Rightarrow> block" where
  "put32 i n d = put16 (i + 2) (n div 65536) (put16 i n d)"

text \<open>\<^verbatim>\<open>memmove(d + i, src, length src)\<close>\<close>

definition blit :: "nat \<Rightarrow> byte list \<Rightarrow> byte list \<Rightarrow> byte list" where
  "blit i src d = take i d @ src @ drop (i + length src) d"

lemma length_put16 [simp]: "length (put16 i n d) = length d"
  by (simp add: put16_def)

lemma length_put32 [simp]: "length (put32 i n d) = length d"
  by (simp add: put32_def)

lemma length_blit [simp]: "i + length src \<le> length d \<Longrightarrow> length (blit i src d) = length d"
  by (simp add: blit_def)

lemma nth_blit:
  assumes "i + length src \<le> length d" "j < length d"
  shows "blit i src d ! j = (if i \<le> j \<and> j < i + length src then src ! (j - i) else d ! j)"
  using assms by (auto simp: blit_def nth_append min_def)

lemma take_drop_blit: "i + length src \<le> length d \<Longrightarrow> take (length src) (drop i (blit i src d)) = src"
  by (simp add: blit_def)

lemma unat_byte_of [simp]: "unat (byte_of n) = n mod 256"
  by (simp add: byte_of_def unat_of_nat)

lemma get16_put16 [simp]: "i + 1 < length d \<Longrightarrow> get16 (put16 i n d) i = n mod 65536"
proof -
  assume "i + 1 < length d"
  then have "get16 (put16 i n d) i = n mod 256 + 256 * (n div 256 mod 256)"
    by (simp add: get16_def put16_def nth_list_update)
  also have "\<dots> = n mod 65536" using mod_mult2_eq [of n 256 256] by simp
  finally show ?thesis .
qed

lemma get16_put16_other [simp]:
  "j + 1 < i \<or> i + 1 < j \<Longrightarrow> get16 (put16 i n d) j = get16 d j"
  by (auto simp: get16_def put16_def nth_list_update)

lemma get32_put32 [simp]: "i + 3 < length d \<Longrightarrow> get32 (put32 i n d) i = n mod 2 ^ 32"
proof -
  assume i: "i + 3 < length d"
  then have "get32 (put32 i n d) i = n mod 65536 + 65536 * (n div 65536 mod 65536)"
    by (simp add: get32_def put32_def)
  also have "\<dots> = n mod 2 ^ 32" using mod_mult2_eq [of n 65536 65536] by simp
  finally show ?thesis .
qed

lemma get32_put32_other [simp]:
  "j + 3 < i \<or> i + 3 < j \<Longrightarrow> get32 (put32 i n d) j = get32 d j"
  by (auto simp: get32_def put32_def)

lemma get32_put16_other [simp]:
  "j + 3 < i \<or> i + 1 < j \<Longrightarrow> get32 (put16 i n d) j = get32 d j"
  by (auto simp: get32_def)

lemma get16_put32_other [simp]:
  "j + 1 < i \<or> i + 3 < j \<Longrightarrow> get16 (put32 i n d) j = get16 d j"
  by (auto simp: put32_def)

lemma get16_bound: "get16 d i < 65536"
proof -
  have b: "unat x < 256" for x :: byte using unsigned_less [of x] by simp
  show ?thesis using b [of "d ! i"] b [of "d ! (i + 1)"] by (simp add: get16_def)
qed

lemma get32_bound: "get32 d i < 2 ^ 32"
  using get16_bound [of d i] get16_bound [of d "i + 2"] by (simp add: get32_def)

end
