(* ===== verification/Lwp_Proc.thy ===== *)
theory Lwp_Proc
  imports Xv6_Machine Fs_Bytes
begin

text \<open>
  Processes with light weight threads (\<^verbatim>\<open>project2_LWP/proc.c\<close>): the life cycle of processes and of
  their threads, the round robin over threads inside the round robin over processes, and memory limits.

  A process holds the threads as an array; \<open>lp_thidx\<close> is the thread that ran last, and the fields
  \<open>lp_kstack\<close>, \<open>lp_tf\<close>, \<open>lp_context\<close> and \<open>lp_chan\<close> of the process are the working copy of that thread's, moved by
  \<open>copythproc\<close> and \<open>copyprocth\<close>.  Trap frames and contexts are kept in a store by address, so that
  the copies alias as they do in the code.

  The kernel runs on one CPU.  \<^verbatim>\<open>ptable.lock\<close> is explicit (\<open>l_held\<close>): taking it twice or releasing it
  when it is not held is the panic of \<^verbatim>\<open>spinlock.c\<close>.  A function that gives up the CPU ends at its call of \<^verbatim>\<open>swtch\<close>,
  whose argument \<open>ctx\<close> is the address at which the registers are saved; what the function does when it is switched to
  again is the operation with suffix \<open>_resume\<close>.  Operations of other files are reached through \<open>lops\<close>;
  messages printed on the console are left out.
\<close>

section \<open>Data (proc.h, param.h)\<close>

definition NTHREAD :: nat where "NTHREAD = 64"

text \<open>Sleep channels are addresses of kernel objects: processes, threads or others.\<close>

datatype chan = NoChan | ChProc nat | ChThread nat nat | ChAddr addr

record lthread =
  th_tid :: int
  th_kstack :: addr
  th_state :: procstate
  th_tf :: addr
  th_context :: addr
  th_chan :: chan
  th_retval :: "32 word"
  th_ustack :: "32 word"

record lproc =
  lp_sz :: "32 word"
  lp_pgdir :: addr
  lp_pid :: int
  lp_parent :: "nat option"
  lp_killed :: bool
  lp_ofile :: "addr list"
  lp_cwd :: addr
  lp_name :: string
  lp_stacksize :: "32 word"
  lp_limit :: "32 word"
  lp_freedustack :: "nat \<Rightarrow> 32 word"
  lp_thread :: "nat \<Rightarrow> lthread"
  lp_thidx :: nat
  lp_kstack :: addr
  lp_state :: procstate
  lp_tf :: addr
  lp_context :: addr
  lp_chan :: chan
  lp_retval :: "32 word"
  lp_ustack :: "32 word"

text \<open>
  \<open>l_frame\<close> holds the variables \<^verbatim>\<open>p\<close> and \<^verbatim>\<open>thidx\<close> of \<^verbatim>\<open>scheduler()\<close> while a process runs; \<open>l_tfs\<close>, \<open>l_ctxs\<close> and
  \<open>l_rets\<close> are the trap frames, the contexts and the return addresses on the kernel stacks.
\<close>

record 'k lwp =
  l_proc :: "nat \<Rightarrow> lproc"
  l_nextpid :: int
  l_nexttid :: int
  l_initproc :: "nat option"
  l_cpuproc :: "nat option"
  l_held :: bool
  l_frame :: "(nat \<times> nat) option"
  l_first :: bool
  l_tfs :: "addr \<Rightarrow> trapframe"
  l_ctxs :: "addr \<Rightarrow> kcontext"
  l_rets :: "addr \<Rightarrow> 32 word"
  l_ticks :: "32 word"
  l_env :: 'k

record 'k lops = "'k kops" +
  o_clearpteu :: "addr \<Rightarrow> 32 word \<Rightarrow> 'k \<Rightarrow> 'k result"
  o_copyout :: "addr \<Rightarrow> 32 word \<Rightarrow> byte list \<Rightarrow> 'k \<Rightarrow> bool \<times> 'k"          \<comment> \<open>whether it succeeded\<close>
  o_fetch :: "addr \<Rightarrow> 32 word \<Rightarrow> 'k \<Rightarrow> int"                             \<comment> \<open>the \<^verbatim>\<open>int\<close> at a user address\<close>
  o_begin_op :: "'k \<Rightarrow> 'k"
  o_end_op :: "'k \<Rightarrow> 'k"
  o_ilock :: "addr \<Rightarrow> 'k \<Rightarrow> 'k result"
  o_iunlockput :: "addr \<Rightarrow> 'k \<Rightarrow> 'k result"
  o_readi :: "addr \<Rightarrow> nat \<Rightarrow> nat \<Rightarrow> 'k \<Rightarrow> (byte list option \<times> 'k) result"    \<comment> \<open>the bytes read, none for -1\<close>
  o_loaduvm :: "addr \<Rightarrow> 32 word \<Rightarrow> addr \<Rightarrow> 32 word \<Rightarrow> 32 word \<Rightarrow> 'k \<Rightarrow> (bool \<times> 'k) result"
  o_fsinit :: "'k \<Rightarrow> 'k result"                                       \<comment> \<open>\<^verbatim>\<open>iinit\<close> and \<^verbatim>\<open>initlog\<close>\<close>

abbreviation upd_lp :: "nat \<Rightarrow> (lproc \<Rightarrow> lproc) \<Rightarrow> 'k lwp \<Rightarrow> 'k lwp" where
  "upd_lp i f s \<equiv> s\<lparr>l_proc := (l_proc s)(i := f (l_proc s i))\<rparr>"

definition upd_th :: "nat \<Rightarrow> (lthread \<Rightarrow> lthread) \<Rightarrow> lproc \<Rightarrow> lproc" where
  "upd_th t f p = p\<lparr>lp_thread := (lp_thread p)(t := f (lp_thread p t))\<rparr>"

definition lenv_call :: "('k \<Rightarrow> 'k result) \<Rightarrow> 'k lwp \<Rightarrow> 'k lwp result" where
  "lenv_call f s = rbind (f (l_env s)) (\<lambda>e. Inr (s\<lparr>l_env := e\<rparr>))"

definition le32 :: "32 word \<Rightarrow> byte list" where
  "le32 w = map (\<lambda>i. byte_of (unat w div 256 ^ i)) [0..<4]"

section \<open>The lock of the process table (spinlock.c)\<close>

definition acquire :: "'k lwp \<Rightarrow> 'k lwp result" where
  "acquire s = (if l_held s then Inl (Panic ''acquire'') else Inr (s\<lparr>l_held := True\<rparr>))"

definition release :: "'k lwp \<Rightarrow> 'k lwp result" where
  "release s = (if \<not> l_held s then Inl (Panic ''release'') else Inr (s\<lparr>l_held := False\<rparr>))"

section \<open>Threads of a process\<close>

definition NEXTTH :: "nat \<Rightarrow> nat" where
  "NEXTTH i = (i + 1) mod NTHREAD"

text \<open>
  The loop of \<^verbatim>\<open>thidxtorun\<close>.  From an index of the array it ends after at most \<open>NTHREAD\<close> tests, which is the
  fuel; \<open>thidxtorun_ok\<close> shows that it is enough.
\<close>

fun rr_scan :: "nat \<Rightarrow> lproc \<Rightarrow> nat \<Rightarrow> nat \<Rightarrow> nat result" where
  "rr_scan 0 p previdx i = Inl Diverge"
| "rr_scan (Suc n) p previdx i =
     (if i = previdx then Inr previdx
      else if th_state (lp_thread p i) = RUNNABLE then Inr i
      else rr_scan n p previdx (NEXTTH i))"

definition thidxtorun :: "lproc \<Rightarrow> nat result" where
  "thidxtorun p = rr_scan NTHREAD p (lp_thidx p) (NEXTTH (lp_thidx p))"

definition copythproc :: "nat \<Rightarrow> lproc \<Rightarrow> lproc" where
  "copythproc t p =
     (let th = lp_thread p t in
      p\<lparr>lp_kstack := th_kstack th, lp_tf := th_tf th, lp_context := th_context th, lp_chan := th_chan th,
        lp_thidx := t\<rparr>)"

definition copyprocth :: "nat \<Rightarrow> lproc \<Rightarrow> lproc" where
  "copyprocth t p =
     upd_th t (\<lambda>th. th\<lparr>th_kstack := lp_kstack p, th_tf := lp_tf p, th_context := lp_context p, th_chan := lp_chan p\<rparr>) p"

definition existrunnable :: "lproc \<Rightarrow> bool" where
  "existrunnable p \<longleftrightarrow> (\<exists>i\<in>set [0..<NTHREAD]. th_state (lp_thread p i) = RUNNABLE)"

definition countth :: "lproc \<Rightarrow> nat" where
  "countth p = length (filter (\<lambda>i. th_state (lp_thread p i) \<noteq> UNUSED \<and> th_state (lp_thread p i) \<noteq> ZOMBIE) [0..<NTHREAD])"

text \<open>\<^verbatim>\<open>allocth\<close>; \<open>None\<close> is its result -1.\<close>

definition allocth :: "nat \<Rightarrow> 'k lwp \<Rightarrow> nat option \<times> 'k lwp" where
  "allocth i s =
     (case first_index (\<lambda>t. th_state (lp_thread (l_proc s i) t) = UNUSED) [0..<NTHREAD] of
        None \<Rightarrow> (None, s)
      | Some t \<Rightarrow>
          (Some t, (upd_lp i (upd_th t (\<lambda>th. th\<lparr>th_tid := l_nexttid s, th_state := EMBRYO\<rparr>)) s)
             \<lparr>l_nexttid := l_nexttid s + 1\<rparr>))"

definition freeustack :: "nat \<Rightarrow> lproc \<Rightarrow> lproc" where
  "freeustack t p =
     upd_th t (\<lambda>th. th\<lparr>th_ustack := 0\<rparr>)
       (p\<lparr>lp_freedustack := (lp_freedustack p)(t := th_ustack (lp_thread p t))\<rparr>)"

definition switchuvm :: "nat \<Rightarrow> 'k lwp \<Rightarrow> 'k lwp result" where
  "switchuvm i s =
     (if lp_kstack (l_proc s i) = 0 then Inl (Panic ''switchuvm: no kstack'')
      else if lp_pgdir (l_proc s i) = 0 then Inl (Panic ''switchuvm: no pgdir'')
      else Inr s)"

section \<open>Allocation, fork\<close>

text \<open>
  The layout of a new kernel stack, the same in \<^verbatim>\<open>allocproc\<close> and in \<^verbatim>\<open>thread_create\<close>: the trap frame at the top,
  below it the return address \<^verbatim>\<open>trapret\<close>, below that a context that starts in \<^verbatim>\<open>forkret\<close>.
\<close>

definition kstack_tf :: "addr \<Rightarrow> addr" where
  "kstack_tf ks = ks + KSTACKSIZE - sizeof_trapframe"

definition kstack_context :: "addr \<Rightarrow> addr" where
  "kstack_context ks = ks + KSTACKSIZE - sizeof_trapframe - 4 - sizeof_context"

definition setup_kstack :: "('k, 'z) lops_scheme \<Rightarrow> addr \<Rightarrow> 'k lwp \<Rightarrow> 'k lwp" where
  "setup_kstack ops ks s =
     s\<lparr>l_rets := (l_rets s)(kstack_tf ks - 4 := o_trapret ops),
       l_ctxs := (l_ctxs s)(kstack_context ks := \<lparr>c_edi = 0, c_esi = 0, c_ebx = 0, c_ebp = 0, c_eip = o_forkret ops\<rparr>)\<rparr>"

definition allocproc :: "('k, 'z) lops_scheme \<Rightarrow> 'k lwp \<Rightarrow> (nat option \<times> 'k lwp) result" where
  "allocproc ops s =
     rbind (acquire s) (\<lambda>s.
     case first_index (\<lambda>i. lp_state (l_proc s i) = UNUSED) [0..<NPROC] of
       None \<Rightarrow> rbind (release s) (\<lambda>s. Inr (None, s))
     | Some i \<Rightarrow>
         (case allocth i s of (thidx, s) \<Rightarrow>
          let s = (upd_lp i (\<lambda>p. p\<lparr>lp_state := EMBRYO, lp_pid := l_nextpid s, lp_limit := 0\<rparr>) s)
                    \<lparr>l_nextpid := l_nextpid s + 1\<rparr> in
          rbind (release s) (\<lambda>s.
          case o_kalloc ops (l_env s) of (ks, e) \<Rightarrow>
            let s = upd_lp i (\<lambda>p. p\<lparr>lp_kstack := ks\<rparr>) (s\<lparr>l_env := e\<rparr>) in
            if ks = 0 then
              (case thidx of
                 None \<Rightarrow> Inl OutOfBounds
               | Some t \<Rightarrow> Inr (None, upd_lp i (\<lambda>p. upd_th t (\<lambda>th. th\<lparr>th_state := UNUSED\<rparr>) (p\<lparr>lp_state := UNUSED\<rparr>)) s))
            else
              Inr (Some i, setup_kstack ops ks
                     (upd_lp i (\<lambda>p. p\<lparr>lp_tf := kstack_tf ks, lp_context := kstack_context ks\<rparr>) s)))))"

text \<open>What \<^verbatim>\<open>userinit\<close> and \<^verbatim>\<open>fork\<close> end with, between \<^verbatim>\<open>acquire\<close> and \<^verbatim>\<open>release\<close>: the new process and its thread may run.\<close>

definition start_thread :: "lproc \<Rightarrow> lproc" where
  "start_thread p =
     copyprocth (lp_thidx p) (upd_th (lp_thidx p) (\<lambda>th. th\<lparr>th_state := RUNNABLE\<rparr>) (p\<lparr>lp_state := RUNNABLE\<rparr>))"

definition start_proc :: "nat \<Rightarrow> 'k lwp \<Rightarrow> 'k lwp result" where
  "start_proc i s = rbind (acquire s) (\<lambda>s. release (upd_lp i start_thread s))"

definition userinit :: "('k, 'z) lops_scheme \<Rightarrow> 'k lwp \<Rightarrow> 'k lwp result" where
  "userinit ops s =
     rbind (allocproc ops s) (\<lambda>(p, s).
       let s = s\<lparr>l_initproc := p\<rparr> in
       case p of
         None \<Rightarrow> Inl NullDeref
       | Some i \<Rightarrow>
           (case o_setupkvm ops (l_env s) of (pg, e) \<Rightarrow>
             let s = upd_lp i (\<lambda>p. p\<lparr>lp_pgdir := pg\<rparr>) (s\<lparr>l_env := e\<rparr>) in
             if pg = 0 then Inl (Panic ''userinit: out of memory?'')
             else
               rbind (lenv_call (o_inituvm ops pg) s) (\<lambda>s.
                 let s = upd_lp i (\<lambda>p. p\<lparr>lp_sz := PGSIZE, lp_name := safestrcpy_name ''initcode''\<rparr>) s;
                     s = s\<lparr>l_tfs := (l_tfs s)(lp_tf (l_proc s i) := init_tf)\<rparr> in
               rbind (o_namei ops ''/'' (l_env s)) (\<lambda>(ip, e).
                 start_proc i (upd_lp i (\<lambda>p. p\<lparr>lp_cwd := ip\<rparr>) (s\<lparr>l_env := e\<rparr>))))))"

text \<open>
  \<^verbatim>\<open>growproc\<close>: sizes are unsigned and \<^verbatim>\<open>sz + n\<close> wraps; with a memory limit the process grows up to the limit.
\<close>

definition growproc :: "('k, 'z) lops_scheme \<Rightarrow> int \<Rightarrow> 'k lwp \<Rightarrow> (int \<times> 'k lwp) result" where
  "growproc ops n s =
     (case l_cpuproc s of
        None \<Rightarrow> Inl NullDeref
      | Some c \<Rightarrow>
          let p = l_proc s c; sz = lp_sz p; limit = lp_limit p;
              newsz = (if limit \<noteq> 0 \<and> sz + word_of_int n > limit then limit else sz + word_of_int n) in
          rbind (if n > 0 then o_allocuvm ops (lp_pgdir p) sz newsz (l_env s)
                 else if n < 0 then o_deallocuvm ops (lp_pgdir p) sz (sz + word_of_int n) (l_env s)
                 else Inr (sz, l_env s)) (\<lambda>(sz, e).
            if n \<noteq> 0 \<and> sz = 0 then Inr (- 1, s\<lparr>l_env := e\<rparr>)
            else rbind (switchuvm c (upd_lp c (\<lambda>p. p\<lparr>lp_sz := sz\<rparr>) (s\<lparr>l_env := e\<rparr>))) (\<lambda>s. Inr (0, s))))"

text \<open>The user stacks of the child: those that are free in the parent, and those of the parent's other threads.\<close>

definition fork_stacks :: "lproc \<Rightarrow> lproc \<Rightarrow> lproc" where
  "fork_stacks cp np =
     upd_th (lp_thidx np) (\<lambda>th. th\<lparr>th_ustack := th_ustack (lp_thread cp (lp_thidx cp))\<rparr>)
       (np\<lparr>lp_freedustack := (\<lambda>i.
          if i = lp_thidx np then 0
          else if i < NTHREAD then
            (if lp_freedustack cp i = 0 then th_ustack (lp_thread cp i) else lp_freedustack cp i)
          else lp_freedustack np i)\<rparr>)"

definition fork :: "('k, 'z) lops_scheme \<Rightarrow> 'k lwp \<Rightarrow> (int \<times> 'k lwp) result" where
  "fork ops s =
     (case l_cpuproc s of
        None \<Rightarrow> Inl NullDeref
      | Some c \<Rightarrow>
          rbind (allocproc ops s) (\<lambda>(np, s).
            case np of
              None \<Rightarrow> Inr (- 1, s)
            | Some n \<Rightarrow>
                rbind (o_copyuvm ops (lp_pgdir (l_proc s c)) (lp_sz (l_proc s c)) (l_env s)) (\<lambda>(pg, e).
                  let s = upd_lp n (\<lambda>p. p\<lparr>lp_pgdir := pg\<rparr>) (s\<lparr>l_env := e\<rparr>) in
                  if pg = 0 then
                    rbind (lenv_call (o_kfree ops (lp_kstack (l_proc s n))) s) (\<lambda>s.
                      Inr (- 1, upd_lp n (\<lambda>p. upd_th (lp_thidx p) (\<lambda>th. th\<lparr>th_state := UNUSED\<rparr>)
                        (p\<lparr>lp_kstack := 0, lp_state := UNUSED\<rparr>)) s))
                  else
                    let cp = l_proc s c;
                        s = upd_lp n (\<lambda>p. p\<lparr>lp_sz := lp_sz cp, lp_parent := Some c\<rparr>) s;
                        s = s\<lparr>l_tfs := (l_tfs s)(lp_tf (l_proc s n) := (l_tfs s (lp_tf cp))\<lparr>tf_eax := 0\<rparr>)\<rparr>
                    in
                    rbind (rfold (\<lambda>fd s.
                        let f = lp_ofile (l_proc s c) ! fd in
                        if f \<noteq> 0
                        then rbind (lenv_call (o_filedup ops f) s) (\<lambda>s.
                               Inr (upd_lp n (\<lambda>p. p\<lparr>lp_ofile := (lp_ofile p)[fd := f]\<rparr>) s))
                        else Inr s) [0..<NOFILE] s) (\<lambda>s.
                    rbind (lenv_call (o_idup ops (lp_cwd (l_proc s c))) s) (\<lambda>s.
                      let cp = l_proc s c;
                          s = upd_lp n (\<lambda>p. fork_stacks cp (p\<lparr>lp_cwd := lp_cwd cp,
                                lp_name := safestrcpy_name (lp_name cp), lp_limit := lp_limit cp,
                                lp_stacksize := lp_stacksize cp\<rparr>)) s;
                          pid = lp_pid (l_proc s n) in
                      rbind (start_proc n s) (\<lambda>s. Inr (pid, s)))))))"

section \<open>Waking and switching\<close>

definition wake_threads :: "chan \<Rightarrow> lproc \<Rightarrow> lproc" where
  "wake_threads c p = fold (\<lambda>t p.
     if th_state (lp_thread p t) = SLEEPING \<and> th_chan (lp_thread p t) = c
     then upd_th t (\<lambda>th. th\<lparr>th_state := RUNNABLE\<rparr>) p else p) [0..<NTHREAD] p"

definition wakeup1 :: "chan \<Rightarrow> 'k lwp \<Rightarrow> 'k lwp" where
  "wakeup1 c s = fold (\<lambda>i s.
     if lp_state (l_proc s i) \<noteq> RUNNABLE \<and> lp_state (l_proc s i) \<noteq> RUNNING then s
     else upd_lp i (wake_threads c) s) [0..<NPROC] s"

definition wakeup :: "chan \<Rightarrow> 'k lwp \<Rightarrow> 'k lwp result" where
  "wakeup c s = rbind (acquire s) (\<lambda>s. release (wakeup1 c s))"

definition sched :: "addr \<Rightarrow> 'k lwp \<Rightarrow> 'k lwp result" where
  "sched ctx s =
     (case l_cpuproc s of
        None \<Rightarrow> Inl NullDeref
      | Some i \<Rightarrow>
          if \<not> l_held s then Inl (Panic ''sched ptable.lock'')
          else if lp_state (l_proc s i) = RUNNING then Inl (Panic ''sched running'')
          else Inr (upd_lp i (\<lambda>p. (copythproc (lp_thidx p) p)\<lparr>lp_context := ctx\<rparr>) s))"

definition sched_resume :: "nat \<Rightarrow> 'k lwp \<Rightarrow> 'k lwp" where
  "sched_resume i s = upd_lp i (\<lambda>p. copyprocth (lp_thidx p) p) s"

definition yield :: "addr \<Rightarrow> 'k lwp \<Rightarrow> 'k lwp result" where
  "yield ctx s =
     rbind (acquire s) (\<lambda>s.
     case l_cpuproc s of
       None \<Rightarrow> Inl NullDeref
     | Some i \<Rightarrow> sched ctx (upd_lp i (\<lambda>p. upd_th (lp_thidx p) (\<lambda>th. th\<lparr>th_state := RUNNABLE\<rparr>)
                    (p\<lparr>lp_state := RUNNABLE\<rparr>)) s))"

definition yield_resume :: "nat \<Rightarrow> 'k lwp \<Rightarrow> 'k lwp result" where
  "yield_resume i s = release (sched_resume i s)"

definition forkret :: "('k, 'z) lops_scheme \<Rightarrow> 'k lwp \<Rightarrow> 'k lwp result" where
  "forkret ops s =
     rbind (release s) (\<lambda>s.
       if l_first s then lenv_call (o_fsinit ops) (s\<lparr>l_first := False\<rparr>) else Inr s)"

text \<open>\<open>ptlock\<close>: whether the caller's lock \<^verbatim>\<open>lk\<close> is \<^verbatim>\<open>ptable.lock\<close>.\<close>

definition sleep :: "chan \<Rightarrow> bool \<Rightarrow> addr \<Rightarrow> 'k lwp \<Rightarrow> 'k lwp result" where
  "sleep c ptlock ctx s =
     (case l_cpuproc s of
        None \<Rightarrow> Inl (Panic ''sleep'')
      | Some i \<Rightarrow>
          rbind (if ptlock then Inr s else acquire s) (\<lambda>s.
            sched ctx (upd_lp i (\<lambda>p. upd_th (lp_thidx p) (\<lambda>th. th\<lparr>th_chan := c, th_state := SLEEPING\<rparr>)
              (p\<lparr>lp_state := RUNNABLE\<rparr>)) s)))"

definition sleep_resume :: "nat \<Rightarrow> bool \<Rightarrow> 'k lwp \<Rightarrow> 'k lwp result" where
  "sleep_resume i ptlock s =
     (let s = upd_lp i (\<lambda>p. upd_th (lp_thidx p) (\<lambda>th. th\<lparr>th_chan := NoChan\<rparr>) p) (sched_resume i s) in
      if ptlock then Inr s else release s)"

text \<open>
  One pass of \<^verbatim>\<open>scheduler\<close> from process \<open>i\<close>: up to the switch to the next process, or to the end of the table.
  \<open>scheduler_return\<close> is what follows the switch back, \<open>scheduler_pass\<close> the start of a pass.
\<close>

definition dispatch :: "nat \<Rightarrow> 'k lwp \<Rightarrow> 'k lwp result" where
  "dispatch i s =
     rbind (thidxtorun (l_proc s i)) (\<lambda>t.
       let s = (upd_lp i (copythproc t) s)\<lparr>l_cpuproc := Some i\<rparr> in
       rbind (switchuvm i s) (\<lambda>s.
         Inr ((upd_lp i (\<lambda>p. upd_th t (\<lambda>th. th\<lparr>th_state := RUNNING\<rparr>) (p\<lparr>lp_state := RUNNING\<rparr>)) s)
                \<lparr>l_frame := Some (i, t)\<rparr>)))"

definition scheduler_from :: "nat \<Rightarrow> 'k lwp \<Rightarrow> 'k lwp result" where
  "scheduler_from i s =
     (case first_index (\<lambda>i. lp_state (l_proc s i) = RUNNABLE \<and> existrunnable (l_proc s i)) [i..<NPROC] of
        None \<Rightarrow> release s
      | Some j \<Rightarrow> dispatch j s)"

definition scheduler_pass :: "'k lwp \<Rightarrow> 'k lwp result" where
  "scheduler_pass s = rbind (acquire s) (scheduler_from 0)"

definition scheduler_return :: "'k lwp \<Rightarrow> 'k lwp result" where
  "scheduler_return s =
     (case l_frame s of
        None \<Rightarrow> Inl NullDeref
      | Some (i, t) \<Rightarrow> scheduler_from (Suc i) ((upd_lp i (copyprocth t) s)\<lparr>l_cpuproc := None, l_frame := None\<rparr>))"

section \<open>Exit, wait, kill\<close>

definition chan_of :: "nat option \<Rightarrow> chan" where
  "chan_of p = (case p of None \<Rightarrow> NoChan | Some i \<Rightarrow> ChProc i)"

definition reparent :: "nat \<Rightarrow> nat \<Rightarrow> 'k lwp \<Rightarrow> 'k lwp" where
  "reparent c i s =
     (if lp_parent (l_proc s i) = Some c then
        let s = upd_lp i (\<lambda>p. p\<lparr>lp_parent := l_initproc s\<rparr>) s in
        if lp_state (l_proc s i) = ZOMBIE then wakeup1 (chan_of (l_initproc s)) s else s
      else s)"

definition exit :: "('k, 'z) lops_scheme \<Rightarrow> addr \<Rightarrow> 'k lwp \<Rightarrow> 'k lwp result" where
  "exit ops ctx s =
     (if l_cpuproc s = l_initproc s then Inl (Panic ''init exiting'')
      else case l_cpuproc s of
        None \<Rightarrow> Inl NullDeref
      | Some c \<Rightarrow>
          rbind (rfold (\<lambda>fd s.
              let f = lp_ofile (l_proc s c) ! fd in
              if f \<noteq> 0
              then rbind (lenv_call (o_fileclose ops f) s) (\<lambda>s.
                     Inr (upd_lp c (\<lambda>p. p\<lparr>lp_ofile := (lp_ofile p)[fd := 0]\<rparr>) s))
              else Inr s) [0..<NOFILE] s) (\<lambda>s.
          rbind (lenv_call (o_iput ops (lp_cwd (l_proc s c))) s) (\<lambda>s.
          rbind (acquire (upd_lp c (\<lambda>p. p\<lparr>lp_cwd := 0\<rparr>) s)) (\<lambda>s.
            let s = wakeup1 (chan_of (lp_parent (l_proc s c))) s;
                s = fold (reparent c) [0..<NPROC] s
            in sched ctx (upd_lp c (\<lambda>p. p\<lparr>lp_state := ZOMBIE\<rparr>) s)))))"

text \<open>\<^verbatim>\<open>wait\<close> frees every thread of the zombie it found.\<close>

definition clear_thread :: "lthread \<Rightarrow> lthread" where
  "clear_thread th = th\<lparr>th_tid := 0, th_kstack := 0, th_state := UNUSED, th_tf := 0, th_context := 0, th_chan := NoChan\<rparr>"

definition free_kstack :: "('k, 'z) lops_scheme \<Rightarrow> nat \<Rightarrow> nat \<Rightarrow> 'k lwp \<Rightarrow> 'k lwp result" where
  "free_kstack ops i t s =
     (let ks = th_kstack (lp_thread (l_proc s i) t) in
      if ks \<noteq> 0 then lenv_call (o_kfree ops ks) s else Inr s)"

definition reap_thread :: "('k, 'z) lops_scheme \<Rightarrow> nat \<Rightarrow> nat \<Rightarrow> 'k lwp \<Rightarrow> 'k lwp result" where
  "reap_thread ops i t s =
     (let s = upd_lp i (\<lambda>p. p\<lparr>lp_freedustack := (lp_freedustack p)(t := 0)\<rparr>) s in
      if th_state (lp_thread (l_proc s i) t) = UNUSED then Inr s
      else rbind (free_kstack ops i t s) (\<lambda>s. Inr (upd_lp i (upd_th t clear_thread) s)))"

definition reap :: "('k, 'z) lops_scheme \<Rightarrow> nat \<Rightarrow> 'k lwp \<Rightarrow> 'k lwp result" where
  "reap ops i s =
     (let s = upd_lp i (\<lambda>p. p\<lparr>lp_kstack := 0\<rparr>) s in
      rbind (lenv_call (o_freevm ops (lp_pgdir (l_proc s i))) s) (\<lambda>s.
        rfold (reap_thread ops i) [0..<NTHREAD]
          (upd_lp i (\<lambda>p. p\<lparr>lp_pid := 0, lp_parent := None, lp_name := [], lp_killed := False,
             lp_state := UNUSED, lp_limit := 0, lp_ustack := 0\<rparr>) s)))"

fun wait_scan :: "nat \<Rightarrow> 'k lwp \<Rightarrow> nat list \<Rightarrow> bool \<Rightarrow> bool \<times> nat option" where
  "wait_scan c s [] havekids = (havekids, None)"
| "wait_scan c s (i # is) havekids =
     (if lp_parent (l_proc s i) \<noteq> Some c then wait_scan c s is havekids
      else if lp_state (l_proc s i) = ZOMBIE then (True, Some i)
      else wait_scan c s is True)"

datatype 'a blocking = Return 'a | Sleeping

text \<open>One iteration of the loop of \<^verbatim>\<open>wait\<close>, with the lock held: it returns, or sleeps and comes back by \<open>wait_resume\<close>.\<close>

definition wait_loop :: "('k, 'z) lops_scheme \<Rightarrow> addr \<Rightarrow> nat \<Rightarrow> 'k lwp \<Rightarrow> (int blocking \<times> 'k lwp) result" where
  "wait_loop ops ctx c s =
     (case wait_scan c s [0..<NPROC] False of
        (_, Some i) \<Rightarrow>
          rbind (reap ops i s) (\<lambda>s'. rbind (release s') (\<lambda>s'. Inr (Return (lp_pid (l_proc s i)), s')))
      | (havekids, None) \<Rightarrow>
          if \<not> havekids \<or> lp_killed (l_proc s c) then rbind (release s) (\<lambda>s. Inr (Return (- 1), s))
          else rbind (sleep (ChProc c) True ctx s) (\<lambda>s. Inr (Sleeping, s)))"

definition wait :: "('k, 'z) lops_scheme \<Rightarrow> addr \<Rightarrow> 'k lwp \<Rightarrow> (int blocking \<times> 'k lwp) result" where
  "wait ops ctx s =
     (case l_cpuproc s of
        None \<Rightarrow> Inl NullDeref
      | Some c \<Rightarrow> rbind (acquire s) (wait_loop ops ctx c))"

definition wait_resume :: "('k, 'z) lops_scheme \<Rightarrow> addr \<Rightarrow> nat \<Rightarrow> 'k lwp \<Rightarrow> (int blocking \<times> 'k lwp) result" where
  "wait_resume ops ctx c s = rbind (sleep_resume c True s) (wait_loop ops ctx c)"

definition kill :: "int \<Rightarrow> 'k lwp \<Rightarrow> (int \<times> 'k lwp) result" where
  "kill pid s =
     rbind (acquire s) (\<lambda>s.
       case first_index (\<lambda>i. lp_pid (l_proc s i) = pid) [0..<NPROC] of
         None \<Rightarrow> rbind (release s) (\<lambda>s. Inr (- 1, s))
       | Some i \<Rightarrow>
           rbind (release (upd_lp i (\<lambda>p. upd_th (lp_thidx p) (\<lambda>th.
               if th_state th = SLEEPING then th\<lparr>th_state := RUNNABLE\<rparr> else th) (p\<lparr>lp_killed := True\<rparr>)) s))
             (\<lambda>s. Inr (0, s)))"

definition getProc :: "int \<Rightarrow> 'k lwp \<Rightarrow> (nat option \<times> 'k lwp) result" where
  "getProc pid s =
     rbind (acquire s) (\<lambda>s.
     rbind (release s) (\<lambda>s.
       Inr (first_index (\<lambda>i. lp_pid (l_proc s i) = pid \<and> lp_state (l_proc s i) \<noteq> UNUSED) [0..<NPROC], s)))"

definition setmemorylimit :: "int \<Rightarrow> int \<Rightarrow> 'k lwp \<Rightarrow> (int \<times> 'k lwp) result" where
  "setmemorylimit pid limit s =
     rbind (getProc pid s) (\<lambda>(p, s).
       case p of
         None \<Rightarrow> Inr (- 1, s)
       | Some i \<Rightarrow>
           if limit < 0 then Inr (- 1, s)
           else if lp_sz (l_proc s i) > word_of_int limit then Inr (- 1, s)
           else Inr (0, upd_lp i (\<lambda>p. p\<lparr>lp_limit := word_of_int limit\<rparr>) s))"

section \<open>Threads\<close>

definition PGROUNDUP :: "32 word \<Rightarrow> 32 word" where
  "PGROUNDUP sz = and (sz + PGSIZE - 1) (not (PGSIZE - 1))"

text \<open>
  The user stack of a new thread: the one kept for its index, or new pages with an inaccessible page below them.
  The results are the new size of the process and the top of the stack, none when \<^verbatim>\<open>allocuvm\<close> fails.
\<close>

definition thread_ustack :: "('k, 'z) lops_scheme \<Rightarrow> nat \<Rightarrow> nat \<Rightarrow> 'k lwp \<Rightarrow> ((32 word \<times> 32 word) option \<times> 'k lwp) result" where
  "thread_ustack ops c t s =
     (let p = l_proc s c; sz = PGROUNDUP (lp_sz p); sp = lp_freedustack p t in
      if sp \<noteq> 0 then Inr (Some (sz, sp), upd_lp c (\<lambda>p. p\<lparr>lp_freedustack := (lp_freedustack p)(t := 0)\<rparr>) s)
      else
        let n = (1 + lp_stacksize p) * PGSIZE in
        rbind (o_allocuvm ops (lp_pgdir p) sz (sz + n) (l_env s)) (\<lambda>(sz, e).
          let s = s\<lparr>l_env := e\<rparr> in
          if sz = 0 then Inr (None, s)
          else rbind (lenv_call (o_clearpteu ops (lp_pgdir p) (sz - n)) s) (\<lambda>s. Inr (Some (sz, sz), s))))"

text \<open>The label \<^verbatim>\<open>bad\<close>, which frees the page directory of the running process.\<close>

definition thread_bad :: "('k, 'z) lops_scheme \<Rightarrow> nat \<Rightarrow> 'k lwp \<Rightarrow> (int \<times> int option \<times> 'k lwp) result" where
  "thread_bad ops c s =
     (let pg = lp_pgdir (l_proc s c) in
      rbind (if pg \<noteq> 0 then lenv_call (o_freevm ops pg) s else Inr s) (\<lambda>s. Inr (- 1, None, s)))"

text \<open>The results are the return value and, on success, what is stored in \<^verbatim>\<open>*thread\<close>.\<close>

definition thread_create :: "('k, 'z) lops_scheme \<Rightarrow> 32 word \<Rightarrow> 32 word \<Rightarrow> 'k lwp \<Rightarrow> (int \<times> int option \<times> 'k lwp) result" where
  "thread_create ops start_routine arg s =
     (case l_cpuproc s of
        None \<Rightarrow> Inl NullDeref
      | Some c \<Rightarrow>
          rbind (acquire s) (\<lambda>s.
          case allocth c s of
            (None, s) \<Rightarrow> Inr (- 1, None, s)
          | (Some t, s) \<Rightarrow>
              (case o_kalloc ops (l_env s) of (ks, e) \<Rightarrow>
               let s = upd_lp c (upd_th t (\<lambda>th. th\<lparr>th_kstack := ks\<rparr>)) (s\<lparr>l_env := e\<rparr>) in
               if ks = 0 then Inr (- 1, None, upd_lp c (upd_th t (\<lambda>th. th\<lparr>th_state := UNUSED\<rparr>)) s)
               else
                 let tf = (l_tfs s (lp_tf (l_proc s c)))\<lparr>tf_eax := 0\<rparr>;
                     s = s\<lparr>l_tfs := (l_tfs s)(kstack_tf ks := tf)\<rparr>;
                     s = setup_kstack ops ks (upd_lp c (upd_th t (\<lambda>th. th\<lparr>th_tf := kstack_tf ks,
                           th_context := kstack_context ks\<rparr>)) s) in
                 rbind (thread_ustack ops c t s) (\<lambda>(r, s).
                   case r of
                     None \<Rightarrow> thread_bad ops c s
                   | Some (sz, pustack) \<Rightarrow>
                       let sp = pustack - 8 in
                       (case o_copyout ops (lp_pgdir (l_proc s c)) sp (le32 0xffffffff @ le32 arg) (l_env s) of (ok, e) \<Rightarrow>
                        let s = s\<lparr>l_env := e\<rparr> in
                        if \<not> ok then thread_bad ops c s
                        else
                          rbind (switchuvm c (upd_lp c (\<lambda>p. upd_th t (\<lambda>th. th\<lparr>th_ustack := pustack\<rparr>) (p\<lparr>lp_sz := sz\<rparr>)) s)) (\<lambda>s.
                            let tf = th_tf (lp_thread (l_proc s c) t);
                                s = s\<lparr>l_tfs := (l_tfs s)(tf := (l_tfs s tf)\<lparr>tf_eip := start_routine, tf_esp := sp\<rparr>)\<rparr> in
                            rbind (release (upd_lp c (upd_th t (\<lambda>th. th\<lparr>th_state := RUNNABLE\<rparr>)) s)) (\<lambda>s.
                              Inr (0, Some (th_tid (lp_thread (l_proc s c) t)), s))))))))"

definition thread_exit :: "32 word \<Rightarrow> addr \<Rightarrow> 'k lwp \<Rightarrow> 'k lwp result" where
  "thread_exit retval ctx s =
     (case l_cpuproc s of
        None \<Rightarrow> Inl NullDeref
      | Some c \<Rightarrow>
          let t = lp_thidx (l_proc s c) in
          rbind (acquire s) (\<lambda>s.
            let s = upd_lp c (upd_th t (\<lambda>th. th\<lparr>th_state := ZOMBIE\<rparr>)) s;
                s = (if countth (l_proc s c) = 0
                     then upd_lp c (\<lambda>p. upd_th t (\<lambda>th. th\<lparr>th_state := RUNNABLE\<rparr>) (p\<lparr>lp_killed := True, lp_state := RUNNABLE\<rparr>)) s
                     else s);
                s = upd_lp c (\<lambda>p. upd_th t (\<lambda>th. th\<lparr>th_retval := retval\<rparr>) (p\<lparr>lp_retval := retval\<rparr>)) s;
                s = wakeup1 (ChThread c t) s
            in sched ctx (upd_lp c (\<lambda>p. p\<lparr>lp_state := RUNNABLE\<rparr>) s)))"

text \<open>When \<^verbatim>\<open>thread_exit\<close> is switched to again, which happens when the thread was the only one.\<close>

definition thread_exit_resume :: "nat \<Rightarrow> nat \<Rightarrow> 'k lwp \<Rightarrow> 'k lwp result" where
  "thread_exit_resume c t s =
     (let s = sched_resume c s in
      if th_state (lp_thread (l_proc s c) t) = ZOMBIE then Inl (Panic ''zombie exit'') else Inr s)"

text \<open>
  One iteration of the loop of \<^verbatim>\<open>thread_join\<close>; the result is the return value and what is stored in \<^verbatim>\<open>*retval\<close>.
\<close>

definition thread_join_loop :: "('k, 'z) lops_scheme \<Rightarrow> addr \<Rightarrow> nat \<Rightarrow> nat \<Rightarrow> 'k lwp \<Rightarrow> ((int \<times> 32 word option) blocking \<times> 'k lwp) result" where
  "thread_join_loop ops ctx c t s =
     (if th_state (lp_thread (l_proc s c) t) = ZOMBIE then
        rbind (free_kstack ops c t s) (\<lambda>s.
          let s = upd_lp c (\<lambda>p. freeustack t (upd_th t clear_thread p)) s;
              v = th_retval (lp_thread (l_proc s c) t) in
          rbind (release (upd_lp c (upd_th t (\<lambda>th. th\<lparr>th_retval := 0\<rparr>)) s)) (\<lambda>s. Inr (Return (0, Some v), s)))
      else if lp_killed (l_proc s c) then rbind (release s) (\<lambda>s. Inr (Return (- 1, None), s))
      else rbind (sleep (ChThread c t) True ctx s) (\<lambda>s. Inr (Sleeping, s)))"

definition thread_join :: "('k, 'z) lops_scheme \<Rightarrow> addr \<Rightarrow> int \<Rightarrow> 'k lwp \<Rightarrow> ((int \<times> 32 word option) blocking \<times> 'k lwp) result" where
  "thread_join ops ctx thread s =
     (case l_cpuproc s of
        None \<Rightarrow> Inl NullDeref
      | Some c \<Rightarrow>
          rbind (acquire s) (\<lambda>s.
          case first_index (\<lambda>t. th_tid (lp_thread (l_proc s c) t) = thread
                 \<and> th_state (lp_thread (l_proc s c) t) \<noteq> UNUSED) [0..<NTHREAD] of
            None \<Rightarrow> rbind (release s) (\<lambda>s. Inr (Return (- 1, None), s))
          | Some t \<Rightarrow> thread_join_loop ops ctx c t s))"

definition thread_join_resume :: "('k, 'z) lops_scheme \<Rightarrow> addr \<Rightarrow> nat \<Rightarrow> nat \<Rightarrow> 'k lwp \<Rightarrow> ((int \<times> 32 word option) blocking \<times> 'k lwp) result" where
  "thread_join_resume ops ctx c t s = rbind (sleep_resume c True s) (thread_join_loop ops ctx c t)"

end
