(* ===== verification/Lwp_Exec.thy ===== *)
theory Lwp_Exec
  imports Lwp_Proc
begin

text \<open>
  Program loading (\<^verbatim>\<open>project2_LWP/exec.c\<close>, with the headers of \<^verbatim>\<open>elf.h\<close>) and the system calls of \<^verbatim>\<open>project2_LWP/sysproc.c\<close>
  with the argument access of \<^verbatim>\<open>syscall.c\<close>.

  \<open>exec_image\<close> is the part of \<^verbatim>\<open>exec\<close> and \<^verbatim>\<open>exec2\<close> that builds the new address space, with every \<^verbatim>\<open>goto bad\<close>;
  the two functions differ in the number of stack pages only.
\<close>

section \<open>ELF headers (elf.h)\<close>

definition ELF_MAGIC :: nat where "ELF_MAGIC = 0x464C457F"
definition ELF_PROG_LOAD :: nat where "ELF_PROG_LOAD = 1"
definition MAXARG :: nat where "MAXARG = 32"

record elfhdr =
  e_magic :: nat
  e_entry :: "32 word"
  e_phoff :: "32 word"
  e_phnum :: nat

definition get_elfhdr :: "byte list \<Rightarrow> elfhdr" where
  "get_elfhdr d = \<lparr>e_magic = get32 d 0, e_entry = word_of_nat (get32 d 24), e_phoff = word_of_nat (get32 d 28),
     e_phnum = get16 d 44\<rparr>"

definition sizeof_elfhdr :: nat where "sizeof_elfhdr = 52"

record proghdr =
  ph_type :: nat
  ph_off :: "32 word"
  ph_vaddr :: "32 word"
  ph_filesz :: "32 word"
  ph_memsz :: "32 word"

definition get_proghdr :: "byte list \<Rightarrow> proghdr" where
  "get_proghdr d = \<lparr>ph_type = get32 d 0, ph_off = word_of_nat (get32 d 4), ph_vaddr = word_of_nat (get32 d 8),
     ph_filesz = word_of_nat (get32 d 16), ph_memsz = word_of_nat (get32 d 20)\<rparr>"

definition sizeof_proghdr :: nat where "sizeof_proghdr = 32"

section \<open>Building the address space\<close>

text \<open>\<^verbatim>\<open>readi(ip, &x, off, n) != n\<close> is the result \<open>None\<close>.\<close>

definition read_exact :: "('k, 'z) lops_scheme \<Rightarrow> addr \<Rightarrow> 32 word \<Rightarrow> nat \<Rightarrow> 'k \<Rightarrow> (byte list option \<times> 'k) result" where
  "read_exact ops ip off n e =
     rbind (o_readi ops ip (unat off) n e) (\<lambda>(b, e).
       Inr (case b of None \<Rightarrow> None | Some d \<Rightarrow> if length d = n then Some d else None, e))"

text \<open>The loop over the program headers, with \<open>n\<close> left; the result is the size of the process, none for \<^verbatim>\<open>goto bad\<close>.\<close>

fun exec_load :: "('k, 'z) lops_scheme \<Rightarrow> addr \<Rightarrow> addr \<Rightarrow> nat \<Rightarrow> 32 word \<Rightarrow> 32 word \<Rightarrow> 'k \<Rightarrow> (32 word option \<times> 'k) result" where
  "exec_load ops pg ip 0 off sz e = Inr (Some sz, e)"
| "exec_load ops pg ip (Suc n) off sz e =
     rbind (read_exact ops ip off sizeof_proghdr e) (\<lambda>(b, e).
       case b of
         None \<Rightarrow> Inr (None, e)
       | Some d \<Rightarrow>
           let ph = get_proghdr d; off' = off + word_of_nat sizeof_proghdr in
           if ph_type ph \<noteq> ELF_PROG_LOAD then exec_load ops pg ip n off' sz e
           else if ph_memsz ph < ph_filesz ph then Inr (None, e)
           else if ph_vaddr ph + ph_memsz ph < ph_vaddr ph then Inr (None, e)
           else
             rbind (o_allocuvm ops pg sz (ph_vaddr ph + ph_memsz ph) e) (\<lambda>(sz, e).
               if sz = 0 then Inr (None, e)
               else if ph_vaddr ph mod PGSIZE \<noteq> 0 then Inr (None, e)
               else
                 rbind (o_loaduvm ops pg (ph_vaddr ph) ip (ph_off ph) (ph_filesz ph) e) (\<lambda>(ok, e).
                   if \<not> ok then Inr (None, e) else exec_load ops pg ip n off' sz e)))"

text \<open>
  The loop over \<^verbatim>\<open>argv\<close>: each string is copied below the previous one, at an address that is a multiple of four.
  \<open>us\<close> are the addresses so far, \<^verbatim>\<open>ustack[3..]\<close>.
\<close>

fun push_args :: "('k, 'z) lops_scheme \<Rightarrow> addr \<Rightarrow> byte list list \<Rightarrow> 32 word \<Rightarrow> 32 word list \<Rightarrow> 'k \<Rightarrow> (32 word \<times> 32 word list) option \<times> 'k" where
  "push_args ops pg [] sp us e = (Some (sp, us), e)"
| "push_args ops pg (a # as) sp us e =
     (if length us \<ge> MAXARG then (None, e)
      else
        let sp = and (sp - word_of_nat (length a + 1)) (not 3) in
        case o_copyout ops pg sp (a @ [0]) e of (ok, e) \<Rightarrow>
          if \<not> ok then (None, e) else push_args ops pg as sp (us @ [sp]) e)"

definition exec_ustack :: "32 word \<Rightarrow> 32 word list \<Rightarrow> 32 word list" where
  "exec_ustack sp us =
     [0xffffffff, word_of_nat (length us), sp - word_of_nat ((length us + 1) * 4)] @ us @ [0]"

definition words_le :: "32 word list \<Rightarrow> byte list" where
  "words_le ws = concat (map le32 ws)"

definition exec_stack :: "('k, 'z) lops_scheme \<Rightarrow> addr \<Rightarrow> byte list list \<Rightarrow> 32 word \<Rightarrow> 'k \<Rightarrow> 32 word option \<times> 'k" where
  "exec_stack ops pg argv sz e =
     (case push_args ops pg argv sz [] e of
        (None, e) \<Rightarrow> (None, e)
      | (Some (sp, us), e) \<Rightarrow>
          let sp' = sp - word_of_nat ((3 + length us + 1) * 4) in
          (case o_copyout ops pg sp' (words_le (exec_ustack sp us)) e of (ok, e) \<Rightarrow>
             (if ok then Some sp' else None, e)))"

text \<open>The label \<^verbatim>\<open>bad\<close>; \<open>ip\<close> is 0 once the inode has been released.\<close>

definition exec_bad :: "('k, 'z) lops_scheme \<Rightarrow> addr \<Rightarrow> addr \<Rightarrow> 'k \<Rightarrow> ('a option \<times> 'k) result" where
  "exec_bad ops pg ip e =
     rbind (if pg \<noteq> 0 then o_freevm ops pg e else Inr e) (\<lambda>e.
     if ip \<noteq> 0 then rbind (o_iunlockput ops ip e) (\<lambda>e. Inr (None, o_end_op ops e)) else Inr (None, e))"

text \<open>From the program headers to the stack, in the new page directory: the size of the process and the stack pointer.\<close>

definition exec_fill :: "('k, 'z) lops_scheme \<Rightarrow> 32 word \<Rightarrow> byte list list \<Rightarrow> addr \<Rightarrow> addr \<Rightarrow> elfhdr \<Rightarrow> 'k
    \<Rightarrow> ((32 word \<times> 32 word) option \<times> 'k) result" where
  "exec_fill ops stacksize argv pg ip elf e =
     rbind (exec_load ops pg ip (e_phnum elf) (e_phoff elf) 0 e) (\<lambda>(r, e).
     case r of
       None \<Rightarrow> exec_bad ops pg ip e
     | Some sz \<Rightarrow>
         rbind (o_iunlockput ops ip e) (\<lambda>e.
           let e = o_end_op ops e; sz = PGROUNDUP sz; n = (1 + stacksize) * PGSIZE in
           rbind (o_allocuvm ops pg sz (sz + n) e) (\<lambda>(sz, e).
             if sz = 0 then exec_bad ops pg 0 e
             else
               rbind (o_clearpteu ops pg (sz - n) e) (\<lambda>e.
                 case exec_stack ops pg argv sz e of
                   (None, e) \<Rightarrow> exec_bad ops pg 0 e
                 | (Some sp, e) \<Rightarrow> Inr (Some (sz, sp), e)))))"

text \<open>The new image: its page directory, its size, the stack pointer and the entry point.\<close>

definition exec_image :: "('k, 'z) lops_scheme \<Rightarrow> 32 word \<Rightarrow> string \<Rightarrow> byte list list \<Rightarrow> 'k
    \<Rightarrow> ((addr \<times> 32 word \<times> 32 word \<times> 32 word) option \<times> 'k) result" where
  "exec_image ops stacksize path argv e =
     rbind (o_namei ops path (o_begin_op ops e)) (\<lambda>(ip, e).
     if ip = 0 then Inr (None, o_end_op ops e)
     else
       rbind (o_ilock ops ip e) (\<lambda>e.
       rbind (read_exact ops ip 0 sizeof_elfhdr e) (\<lambda>(b, e).
       case b of
         None \<Rightarrow> exec_bad ops 0 ip e
       | Some d \<Rightarrow>
           let elf = get_elfhdr d in
           if e_magic elf \<noteq> ELF_MAGIC then exec_bad ops 0 ip e
           else case o_setupkvm ops e of (pg, e) \<Rightarrow>
             if pg = 0 then exec_bad ops 0 ip e
             else rbind (exec_fill ops stacksize argv pg ip elf e) (\<lambda>(r, e).
               Inr (map_option (\<lambda>(sz, sp). (pg, sz, sp, e_entry elf)) r, e)))))"

section \<open>exec and exec2\<close>

text \<open>Before anything else, \<^verbatim>\<open>exec\<close> destroys the other threads of the process.\<close>

definition drop_thread :: "('k, 'z) lops_scheme \<Rightarrow> nat \<Rightarrow> nat \<Rightarrow> 'k lwp \<Rightarrow> 'k lwp result" where
  "drop_thread ops c t s =
     (if t = lp_thidx (l_proc s c) then Inr s
      else
        rbind (free_kstack ops c t s) (\<lambda>s.
          Inr (upd_lp c (\<lambda>p. upd_th t (\<lambda>th. (clear_thread th)\<lparr>th_retval := 0, th_ustack := 0\<rparr>)
            (p\<lparr>lp_freedustack := (lp_freedustack p)(t := 0)\<rparr>)) s)))"

definition drop_threads :: "('k, 'z) lops_scheme \<Rightarrow> nat \<Rightarrow> 'k lwp \<Rightarrow> 'k lwp result" where
  "drop_threads ops c s = rfold (drop_thread ops c) [0..<NTHREAD] s"

fun exec_name :: "string \<Rightarrow> string \<Rightarrow> string" where
  "exec_name l [] = l"
| "exec_name l (c # cs) = exec_name (if c = CHR ''/'' then cs else l) cs"

definition exec_commit :: "('k, 'z) lops_scheme \<Rightarrow> nat \<Rightarrow> string \<Rightarrow> 32 word \<Rightarrow> (addr \<times> 32 word \<times> 32 word \<times> 32 word) \<Rightarrow> 'k lwp \<Rightarrow> (int \<times> 'k lwp) result" where
  "exec_commit ops c path stacksize img s =
     (case img of (pg, sz, sp, entry) \<Rightarrow>
      let oldpgdir = lp_pgdir (l_proc s c);
          tf = lp_tf (l_proc s c);
          s = upd_lp c (\<lambda>p. upd_th (lp_thidx p) (\<lambda>th. th\<lparr>th_state := RUNNING\<rparr>)
                (p\<lparr>lp_name := safestrcpy_name (exec_name path path), lp_pgdir := pg, lp_sz := sz,
                   lp_stacksize := stacksize, lp_ustack := sz\<rparr>)) s;
          s = s\<lparr>l_tfs := (l_tfs s)(tf := (l_tfs s tf)\<lparr>tf_eip := entry, tf_esp := sp\<rparr>)\<rparr> in
      rbind (switchuvm c s) (\<lambda>s.
      rbind (lenv_call (o_freevm ops oldpgdir) s) (\<lambda>s. Inr (0, s))))"

definition exec_with :: "('k, 'z) lops_scheme \<Rightarrow> 32 word \<Rightarrow> string \<Rightarrow> byte list list \<Rightarrow> 'k lwp \<Rightarrow> (int \<times> 'k lwp) result" where
  "exec_with ops stacksize path argv s =
     (case l_cpuproc s of
        None \<Rightarrow> Inl NullDeref
      | Some c \<Rightarrow>
          rbind (drop_threads ops c s) (\<lambda>s.
          rbind (exec_image ops stacksize path argv (l_env s)) (\<lambda>(r, e).
            let s = s\<lparr>l_env := e\<rparr> in
            case r of
              None \<Rightarrow> Inr (- 1, s)
            | Some img \<Rightarrow> exec_commit ops c path stacksize img s)))"

definition exec :: "('k, 'z) lops_scheme \<Rightarrow> string \<Rightarrow> byte list list \<Rightarrow> 'k lwp \<Rightarrow> (int \<times> 'k lwp) result" where
  "exec ops path argv s = exec_with ops 1 path argv s"

definition exec2 :: "('k, 'z) lops_scheme \<Rightarrow> string \<Rightarrow> byte list list \<Rightarrow> int \<Rightarrow> 'k lwp \<Rightarrow> (int \<times> 'k lwp) result" where
  "exec2 ops path argv stacksize s =
     (let stacksize = (if stacksize < 1 then 1 else if stacksize > 100 then 100 else stacksize) in
      exec_with ops (word_of_int stacksize) path argv s)"

section \<open>System calls (syscall.c, sysproc.c)\<close>

definition fetchint :: "('k, 'z) lops_scheme \<Rightarrow> nat \<Rightarrow> 32 word \<Rightarrow> 'k lwp \<Rightarrow> int option" where
  "fetchint ops c addr s =
     (let sz = lp_sz (l_proc s c) in
      if addr \<ge> sz \<or> addr + 4 > sz then None
      else Some (o_fetch ops (lp_pgdir (l_proc s c)) addr (l_env s)))"

definition argint :: "('k, 'z) lops_scheme \<Rightarrow> nat \<Rightarrow> nat \<Rightarrow> 'k lwp \<Rightarrow> int option" where
  "argint ops c n s = fetchint ops c (tf_esp (l_tfs s (lp_tf (l_proc s c))) + 4 + word_of_nat (4 * n)) s"

definition sys_kill :: "('k, 'z) lops_scheme \<Rightarrow> nat \<Rightarrow> 'k lwp \<Rightarrow> (int \<times> 'k lwp) result" where
  "sys_kill ops c s = (case argint ops c 0 s of None \<Rightarrow> Inr (- 1, s) | Some pid \<Rightarrow> kill pid s)"

definition sys_getpid :: "nat \<Rightarrow> 'k lwp \<Rightarrow> int" where
  "sys_getpid c s = lp_pid (l_proc s c)"

definition sys_sbrk :: "('k, 'z) lops_scheme \<Rightarrow> nat \<Rightarrow> 'k lwp \<Rightarrow> (int \<times> 'k lwp) result" where
  "sys_sbrk ops c s =
     (case argint ops c 0 s of
        None \<Rightarrow> Inr (- 1, s)
      | Some n \<Rightarrow>
          let addr = sint (lp_sz (l_proc s c)) in
          rbind (growproc ops n s) (\<lambda>(r, s). Inr (if r < 0 then - 1 else addr, s)))"

text \<open>The test of the loop of \<^verbatim>\<open>sys_sleep\<close>; \<^verbatim>\<open>ticks - ticks0 < n\<close> is unsigned.\<close>

definition sys_sleep_loop :: "nat \<Rightarrow> addr \<Rightarrow> addr \<Rightarrow> 32 word \<Rightarrow> int \<Rightarrow> 'k lwp \<Rightarrow> (int blocking \<times> 'k lwp) result" where
  "sys_sleep_loop c ticks ctx ticks0 n s =
     (if l_ticks s - ticks0 < word_of_int n then
        (if lp_killed (l_proc s c) then Inr (Return (- 1), s)
         else rbind (sleep (ChAddr ticks) False ctx s) (\<lambda>s. Inr (Sleeping, s)))
      else Inr (Return 0, s))"

definition sys_sleep :: "('k, 'z) lops_scheme \<Rightarrow> nat \<Rightarrow> addr \<Rightarrow> addr \<Rightarrow> 'k lwp \<Rightarrow> (int blocking \<times> 'k lwp) result" where
  "sys_sleep ops c ticks ctx s =
     (case argint ops c 0 s of
        None \<Rightarrow> Inr (Return (- 1), s)
      | Some n \<Rightarrow> sys_sleep_loop c ticks ctx (l_ticks s) n s)"

definition sys_sleep_resume :: "nat \<Rightarrow> addr \<Rightarrow> addr \<Rightarrow> 32 word \<Rightarrow> int \<Rightarrow> 'k lwp \<Rightarrow> (int blocking \<times> 'k lwp) result" where
  "sys_sleep_resume c ticks ctx ticks0 n s = rbind (sleep_resume c False s) (sys_sleep_loop c ticks ctx ticks0 n)"

definition sys_uptime :: "'k lwp \<Rightarrow> int" where
  "sys_uptime s = sint (l_ticks s)"

text \<open>The clock interrupt (\<^verbatim>\<open>trap.c\<close>).\<close>

definition timer_tick :: "addr \<Rightarrow> 'k lwp \<Rightarrow> 'k lwp result" where
  "timer_tick ticks s = wakeup (ChAddr ticks) (s\<lparr>l_ticks := l_ticks s + 1\<rparr>)"

definition sys_setmemorylimit :: "('k, 'z) lops_scheme \<Rightarrow> nat \<Rightarrow> 'k lwp \<Rightarrow> (int \<times> 'k lwp) result" where
  "sys_setmemorylimit ops c s =
     (case (argint ops c 0 s, argint ops c 1 s) of
        (Some pid, Some limit) \<Rightarrow> setmemorylimit pid limit s
      | _ \<Rightarrow> Inr (- 1, s))"

definition sys_thread_create :: "('k, 'z) lops_scheme \<Rightarrow> nat \<Rightarrow> 'k lwp \<Rightarrow> (int \<times> (int \<times> int) option \<times> 'k lwp) result" where
  "sys_thread_create ops c s =
     (case (argint ops c 0 s, argint ops c 1 s, argint ops c 2 s) of
        (Some thread, Some start_routine, Some arg) \<Rightarrow>
          rbind (thread_create ops (word_of_int start_routine) (word_of_int arg) s) (\<lambda>(r, tid, s).
            Inr (r, map_option (Pair thread) tid, s))
      | _ \<Rightarrow> Inr (- 1, None, s))"

definition sys_thread_exit :: "('k, 'z) lops_scheme \<Rightarrow> nat \<Rightarrow> addr \<Rightarrow> 'k lwp \<Rightarrow> (int blocking \<times> 'k lwp) result" where
  "sys_thread_exit ops c ctx s =
     (case argint ops c 0 s of
        None \<Rightarrow> Inr (Return (- 1), s)
      | Some retval \<Rightarrow> rbind (thread_exit (word_of_int retval) ctx s) (\<lambda>s. Inr (Sleeping, s)))"

definition sys_thread_join :: "('k, 'z) lops_scheme \<Rightarrow> nat \<Rightarrow> addr \<Rightarrow> 'k lwp \<Rightarrow> ((int \<times> (int \<times> 32 word) option) blocking \<times> 'k lwp) result" where
  "sys_thread_join ops c ctx s =
     (case (argint ops c 0 s, argint ops c 1 s) of
        (Some thread, Some retval) \<Rightarrow>
          rbind (thread_join ops ctx thread s) (\<lambda>(r, s).
            Inr (case r of Return (v, x) \<Rightarrow> Return (v, map_option (Pair retval) x) | Sleeping \<Rightarrow> Sleeping, s))
      | _ \<Rightarrow> Inr (Return (- 1, None), s))"

end
