(* ===== verification/Lwp_Threads.thy ===== *)
theory Lwp_Threads
  imports Lwp_Exec
begin

text \<open>
  The threads of one process: the choice of \<^verbatim>\<open>thidxtorun\<close> is the next runnable thread in cyclic order, and
  the invariant \<open>proc_inv\<close> of a process with the effect that the operations on a single process have on it.
\<close>

section \<open>Round robin over threads\<close>

text \<open>How many places after \<open>a\<close> the index \<open>b\<close> comes in the order in which \<^verbatim>\<open>thidxtorun\<close> looks; \<open>a\<close> itself comes last.\<close>

definition rr_dist :: "nat \<Rightarrow> nat \<Rightarrow> nat" where
  "rr_dist a b = (b + NTHREAD - (a + 1)) mod NTHREAD"

lemma NTHREAD_pos [simp]: "0 < NTHREAD" by (simp add: NTHREAD_def)

lemma rr_dist_less: "rr_dist a b < NTHREAD" by (simp add: rr_dist_def)

lemma rr_dist_cases:
  assumes "a < NTHREAD" "b < NTHREAD"
  shows "rr_dist a b = (if a < b then b - a - 1 else b + NTHREAD - a - 1)"
proof (cases "a < b")
  case True
  then have "b + NTHREAD - (a + 1) = (b - a - 1) + NTHREAD" using assms by simp
  then have "rr_dist a b = (b - a - 1) mod NTHREAD" by (simp only: rr_dist_def mod_add_self2)
  then show ?thesis using True assms by simp
qed (use assms in \<open>simp add: rr_dist_def\<close>)

lemma rr_dist_next:
  assumes "a < NTHREAD" "b < NTHREAD" "a \<noteq> b"
  shows "rr_dist a (NEXTTH b) = Suc (rr_dist a b)"
  using assms by (auto simp: rr_dist_cases NEXTTH_def mod_Suc)

lemma rr_dist_first: "a < NTHREAD \<Longrightarrow> rr_dist a (NEXTTH a) = 0"
  by (auto simp: rr_dist_cases NEXTTH_def mod_Suc)

lemma rr_dist_inj: "a < NTHREAD \<Longrightarrow> b < NTHREAD \<Longrightarrow> c < NTHREAD \<Longrightarrow> rr_dist a b = rr_dist a c \<Longrightarrow> b = c"
  by (auto simp: rr_dist_cases split: if_splits)

lemma rr_dist_self: "a < NTHREAD \<Longrightarrow> rr_dist a a = NTHREAD - 1"
  by (simp add: rr_dist_cases)

text \<open>Passing on from \<open>a\<close> to a thread before \<open>j\<close> brings \<open>j\<close> nearer.\<close>

lemma rr_dist_trans:
  assumes "a < NTHREAD" "t < NTHREAD" "j < NTHREAD" "rr_dist a t < rr_dist a j"
  shows "rr_dist t j < rr_dist a j"
  using assms by (auto simp: rr_dist_cases split: if_splits)

abbreviation th_runs :: "lproc \<Rightarrow> nat \<Rightarrow> bool" where
  "th_runs p t \<equiv> th_state (lp_thread p t) = RUNNABLE"

lemma rr_scan_ok:
  assumes "a < NTHREAD" "i < NTHREAD" "NTHREAD \<le> rr_dist a i + n"
    "\<And>u. u < NTHREAD \<Longrightarrow> rr_dist a u < rr_dist a i \<Longrightarrow> \<not> th_runs p u"
  shows "\<exists>t<NTHREAD. rr_scan n p a i = Inr t \<and> (th_runs p t \<or> t = a)
    \<and> (\<forall>u<NTHREAD. th_runs p u \<longrightarrow> u \<noteq> a \<longrightarrow> rr_dist a t \<le> rr_dist a u)"
  using assms
proof (induction n arbitrary: i)
  case 0
  then show ?case using rr_dist_less [of a i] by simp
next
  case (Suc n)
  consider "i = a" | "i \<noteq> a" "th_runs p i" | "i \<noteq> a" "\<not> th_runs p i" by blast
  then show ?case
  proof cases
    case 1
    have "\<not> th_runs p u" if "u < NTHREAD" "u \<noteq> a" for u
    proof (rule Suc.prems(4))
      show "rr_dist a u < rr_dist a i"
        using that 1 rr_dist_less [of a u] rr_dist_self [of a] rr_dist_inj [of a u a] Suc.prems(1) by fastforce
    qed (use that in simp)
    then show ?thesis using 1 Suc.prems(1) by auto
  next
    case 2
    then show ?thesis using Suc.prems by (intro exI [of _ i]) (auto simp: not_less [symmetric])
  next
    case 3
    have d: "rr_dist a (NEXTTH i) = Suc (rr_dist a i)" using rr_dist_next [of a i] 3 Suc.prems(1,2) by simp
    have "\<exists>t<NTHREAD. rr_scan n p a (NEXTTH i) = Inr t \<and> (th_runs p t \<or> t = a)
      \<and> (\<forall>u<NTHREAD. th_runs p u \<longrightarrow> u \<noteq> a \<longrightarrow> rr_dist a t \<le> rr_dist a u)"
    proof (rule Suc.IH [OF Suc.prems(1)])
      show "NEXTTH i < NTHREAD" by (simp add: NEXTTH_def)
      show "NTHREAD \<le> rr_dist a (NEXTTH i) + n" using Suc.prems(3) d by simp
      show "\<not> th_runs p u" if "u < NTHREAD" "rr_dist a u < rr_dist a (NEXTTH i)" for u
        using that d Suc.prems(4) [of u] 3(2) rr_dist_inj [of a u i] Suc.prems(1,2) by (auto simp: less_Suc_eq)
    qed
    then show ?thesis using 3 by simp
  qed
qed

lemma thidxtorun_ok:
  assumes "lp_thidx p < NTHREAD"
  obtains t where "t < NTHREAD" "thidxtorun p = Inr t" "existrunnable p \<longrightarrow> th_runs p t"
    "\<forall>u<NTHREAD. th_runs p u \<longrightarrow> rr_dist (lp_thidx p) t \<le> rr_dist (lp_thidx p) u"
proof -
  let ?a = "lp_thidx p"
  obtain t where t: "t < NTHREAD" "rr_scan NTHREAD p ?a (NEXTTH ?a) = Inr t" "th_runs p t \<or> t = ?a"
    "\<forall>u<NTHREAD. th_runs p u \<longrightarrow> u \<noteq> ?a \<longrightarrow> rr_dist ?a t \<le> rr_dist ?a u"
    using rr_scan_ok [of ?a "NEXTTH ?a" NTHREAD p] rr_dist_first [OF assms] assms
    by (auto simp: NEXTTH_def)
  have le: "rr_dist ?a t \<le> rr_dist ?a ?a" using rr_dist_self [OF assms] rr_dist_less [of ?a t] by simp
  have all: "\<forall>u<NTHREAD. th_runs p u \<longrightarrow> rr_dist ?a t \<le> rr_dist ?a u" using t(4) le by blast
  have "th_runs p t" if "existrunnable p" 
  proof (rule ccontr)
    assume n: "\<not> th_runs p t"
    then have e: "t = ?a" using t(3) by blast
    from that obtain u where u: "u < NTHREAD" "th_runs p u" by (auto simp: existrunnable_def)
    then have "rr_dist ?a ?a \<le> rr_dist ?a u" using all e by blast
    then have "rr_dist ?a u = rr_dist ?a ?a" using rr_dist_self [OF assms] rr_dist_less [of ?a u] by simp
    then show False using rr_dist_inj [OF assms u(1) assms] u(2) n e by simp
  qed
  then show thesis using that [of t] t(1,2) all by (simp add: thidxtorun_def)
qed

text \<open>Fairness: while a thread is runnable, each choice that is not this thread comes nearer to it.\<close>

lemma thidxtorun_nearer:
  assumes "lp_thidx p < NTHREAD" "j < NTHREAD" "th_runs p j" "thidxtorun p = Inr t" "t \<noteq> j"
  shows "rr_dist t j < rr_dist (lp_thidx p) j"
proof -
  from thidxtorun_ok [OF assms(1)] obtain t' where t': "t' < NTHREAD" "thidxtorun p = Inr t'"
    "\<forall>u<NTHREAD. th_runs p u \<longrightarrow> rr_dist (lp_thidx p) t' \<le> rr_dist (lp_thidx p) u" by metis
  then have t: "t < NTHREAD" "rr_dist (lp_thidx p) t \<le> rr_dist (lp_thidx p) j" using assms(2-4) by auto
  moreover have "rr_dist (lp_thidx p) t \<noteq> rr_dist (lp_thidx p) j"
    using rr_dist_inj [OF assms(1) t(1) assms(2)] assms(5) by blast
  ultimately show ?thesis using rr_dist_trans [OF assms(1) _ assms(2)] by simp
qed

lemma rr_fair:
  assumes idx: "\<And>k. lp_thidx (ps k) < NTHREAD" and nxt: "\<And>k. thidxtorun (ps k) = Inr (lp_thidx (ps (Suc k)))"
    and runs: "\<And>k. th_runs (ps k) j" and j: "j < NTHREAD"
  shows "\<exists>k<NTHREAD. thidxtorun (ps k) = Inr j"
proof (rule ccontr)
  assume n: "\<not> (\<exists>k<NTHREAD. thidxtorun (ps k) = Inr j)"
  have "rr_dist (lp_thidx (ps k)) j + k < NTHREAD" if "k \<le> NTHREAD" for k
    using that
  proof (induction k)
    case 0
    then show ?case by (simp add: rr_dist_less)
  next
    case (Suc k)
    then have "lp_thidx (ps (Suc k)) \<noteq> j" using n nxt by auto
    then have "rr_dist (lp_thidx (ps (Suc k))) j < rr_dist (lp_thidx (ps k)) j"
      using thidxtorun_nearer [OF idx j runs nxt] by blast
    then show ?case using Suc by simp
  qed
  from this [of NTHREAD] show False by simp
qed

end
