(* ===== verification/Lwp_Inv.thy ===== *)
theory Lwp_Inv
  imports Lwp_Threads
begin

text \<open>
  The invariant of the process table of project 2.  \<open>proc_inv\<close> is about one process: where its threads may run, that
  what can be scheduled has a kernel stack and a page table, and that thread identifiers are unique.
  \<open>table_inv\<close> adds the CPU, \<open>lock_inv\<close> who holds \<^verbatim>\<open>ptable.lock\<close> between two steps.
\<close>

section \<open>One process\<close>

definition dormant :: "procstate \<Rightarrow> bool" where
  "dormant st \<longleftrightarrow> st = UNUSED \<or> st = EMBRYO"

definition active :: "procstate \<Rightarrow> bool" where
  "active st \<longleftrightarrow> st = RUNNABLE \<or> st = RUNNING"

definition live :: "procstate \<Rightarrow> bool" where
  "live st \<longleftrightarrow> st = RUNNABLE \<or> st = RUNNING \<or> st = SLEEPING"

definition tids_ok :: "int \<Rightarrow> lproc \<Rightarrow> bool" where
  "tids_ok N p \<longleftrightarrow> (\<forall>t<NTHREAD. 0 \<le> th_tid (lp_thread p t) \<and> th_tid (lp_thread p t) < N)
     \<and> (\<forall>t<NTHREAD. \<forall>u<NTHREAD. t \<noteq> u \<longrightarrow> th_tid (lp_thread p t) = th_tid (lp_thread p u)
          \<longrightarrow> th_tid (lp_thread p t) = 0 \<and> (th_state (lp_thread p t) = UNUSED \<or> th_state (lp_thread p u) = UNUSED))"

definition threads_ok :: "lproc \<Rightarrow> bool" where
  "threads_ok p \<longleftrightarrow> lp_thidx p < NTHREAD
     \<and> (dormant (lp_state p) \<longrightarrow> (\<forall>t<NTHREAD. dormant (th_state (lp_thread p t))
          \<and> (th_state (lp_thread p t) = EMBRYO \<longrightarrow> th_tid (lp_thread p t) \<noteq> 0)))
     \<and> (active (lp_state p) \<longrightarrow> lp_pgdir p \<noteq> 0
          \<and> (\<forall>t<NTHREAD. live (th_state (lp_thread p t)) \<longrightarrow> th_kstack (lp_thread p t) \<noteq> 0))
     \<and> (\<forall>t<NTHREAD. th_state (lp_thread p t) = RUNNING \<longrightarrow> t = lp_thidx p \<and> (lp_state p = RUNNING \<or> lp_state p = ZOMBIE))
     \<and> (lp_state p = RUNNING \<longrightarrow> th_state (lp_thread p (lp_thidx p)) = RUNNING)
     \<and> lp_state p \<noteq> SLEEPING"

definition proc_inv :: "int \<Rightarrow> lproc \<Rightarrow> bool" where
  "proc_inv N p \<longleftrightarrow> tids_ok N p \<and> threads_ok p"

lemma states [simp]:
  "dormant UNUSED" "dormant EMBRYO" "\<not> dormant RUNNABLE" "\<not> dormant RUNNING" "\<not> dormant SLEEPING" "\<not> dormant ZOMBIE"
  "active RUNNABLE" "active RUNNING" "\<not> active UNUSED" "\<not> active EMBRYO" "\<not> active ZOMBIE" "\<not> active SLEEPING"
  "live RUNNABLE" "live RUNNING" "live SLEEPING" "\<not> live UNUSED" "\<not> live EMBRYO" "\<not> live ZOMBIE"
  by (simp_all add: dormant_def active_def live_def)

lemma upd_th_sel [simp]:
  "lp_thread (upd_th t f p) u = (if u = t then f (lp_thread p t) else lp_thread p u)"
  "lp_thidx (upd_th t f p) = lp_thidx p" "lp_state (upd_th t f p) = lp_state p" "lp_pgdir (upd_th t f p) = lp_pgdir p"
  "lp_kstack (upd_th t f p) = lp_kstack p" "lp_sz (upd_th t f p) = lp_sz p" "lp_killed (upd_th t f p) = lp_killed p"
  "lp_parent (upd_th t f p) = lp_parent p" "lp_pid (upd_th t f p) = lp_pid p" "lp_tf (upd_th t f p) = lp_tf p"
  "lp_context (upd_th t f p) = lp_context p" "lp_chan (upd_th t f p) = lp_chan p" "lp_limit (upd_th t f p) = lp_limit p"
  "lp_freedustack (upd_th t f p) = lp_freedustack p" "lp_stacksize (upd_th t f p) = lp_stacksize p" "lp_ofile (upd_th t f p) = lp_ofile p"
  "lp_cwd (upd_th t f p) = lp_cwd p" "lp_name (upd_th t f p) = lp_name p"
  by (simp_all add: upd_th_def)

text \<open>What the invariant looks at; everything else of a process may change freely.\<close>

definition same_inv :: "lproc \<Rightarrow> lproc \<Rightarrow> bool" where
  "same_inv p q \<longleftrightarrow> lp_thidx p = lp_thidx q \<and> lp_state p = lp_state q \<and> lp_pgdir p = lp_pgdir q
     \<and> (\<forall>t. th_state (lp_thread p t) = th_state (lp_thread q t) \<and> th_kstack (lp_thread p t) = th_kstack (lp_thread q t)
          \<and> th_tid (lp_thread p t) = th_tid (lp_thread q t))"

lemma same_inv_proc: "same_inv p q \<Longrightarrow> proc_inv N p \<longleftrightarrow> proc_inv N q"
  unfolding same_inv_def proc_inv_def tids_ok_def threads_ok_def by simp

lemma proc_inv_mono: "proc_inv N p \<Longrightarrow> N \<le> N' \<Longrightarrow> proc_inv N' p"
  unfolding proc_inv_def tids_ok_def by force

lemma proc_inv_fields [simp]:
  "proc_inv N (p\<lparr>lp_sz := a\<rparr>) = proc_inv N p" "proc_inv N (p\<lparr>lp_pid := b\<rparr>) = proc_inv N p"
  "proc_inv N (p\<lparr>lp_parent := c\<rparr>) = proc_inv N p" "proc_inv N (p\<lparr>lp_killed := d\<rparr>) = proc_inv N p"
  "proc_inv N (p\<lparr>lp_ofile := e\<rparr>) = proc_inv N p" "proc_inv N (p\<lparr>lp_cwd := f\<rparr>) = proc_inv N p"
  "proc_inv N (p\<lparr>lp_name := g\<rparr>) = proc_inv N p" "proc_inv N (p\<lparr>lp_stacksize := h\<rparr>) = proc_inv N p"
  "proc_inv N (p\<lparr>lp_limit := i\<rparr>) = proc_inv N p" "proc_inv N (p\<lparr>lp_freedustack := j\<rparr>) = proc_inv N p"
  "proc_inv N (p\<lparr>lp_kstack := k\<rparr>) = proc_inv N p" "proc_inv N (p\<lparr>lp_tf := l\<rparr>) = proc_inv N p"
  "proc_inv N (p\<lparr>lp_context := m\<rparr>) = proc_inv N p" "proc_inv N (p\<lparr>lp_chan := n\<rparr>) = proc_inv N p"
  "proc_inv N (p\<lparr>lp_retval := q\<rparr>) = proc_inv N p" "proc_inv N (p\<lparr>lp_ustack := r\<rparr>) = proc_inv N p"
  by (simp_all add: proc_inv_def tids_ok_def threads_ok_def)

lemma proc_inv_soft:
  assumes "\<And>th. th_state (f th) = th_state th \<and> th_kstack (f th) = th_kstack th \<and> th_tid (f th) = th_tid th"
  shows "proc_inv N (upd_th t f p) = proc_inv N p"
  by (rule same_inv_proc) (simp add: same_inv_def assms)

lemma threads_okD:
  assumes "threads_ok p"
  shows "lp_thidx p < NTHREAD"
    "dormant (lp_state p) \<Longrightarrow> t < NTHREAD \<Longrightarrow> dormant (th_state (lp_thread p t))"
    "dormant (lp_state p) \<Longrightarrow> t < NTHREAD \<Longrightarrow> th_state (lp_thread p t) = EMBRYO \<Longrightarrow> th_tid (lp_thread p t) \<noteq> 0"
    "active (lp_state p) \<Longrightarrow> lp_pgdir p \<noteq> 0"
    "active (lp_state p) \<Longrightarrow> t < NTHREAD \<Longrightarrow> live (th_state (lp_thread p t)) \<Longrightarrow> th_kstack (lp_thread p t) \<noteq> 0"
    "t < NTHREAD \<Longrightarrow> th_state (lp_thread p t) = RUNNING \<Longrightarrow> t = lp_thidx p"
    "t < NTHREAD \<Longrightarrow> th_state (lp_thread p t) = RUNNING \<Longrightarrow> lp_state p = RUNNING \<or> lp_state p = ZOMBIE"
    "lp_state p = RUNNING \<Longrightarrow> th_state (lp_thread p (lp_thidx p)) = RUNNING"
    "lp_state p \<noteq> SLEEPING"
  using assms unfolding threads_ok_def by blast+

lemma threads_okI:
  assumes "lp_thidx p < NTHREAD" "lp_state p \<noteq> SLEEPING"
    "\<And>t. dormant (lp_state p) \<Longrightarrow> t < NTHREAD \<Longrightarrow> dormant (th_state (lp_thread p t))"
    "\<And>t. dormant (lp_state p) \<Longrightarrow> t < NTHREAD \<Longrightarrow> th_state (lp_thread p t) = EMBRYO \<Longrightarrow> th_tid (lp_thread p t) \<noteq> 0"
    "active (lp_state p) \<Longrightarrow> lp_pgdir p \<noteq> 0"
    "\<And>t. active (lp_state p) \<Longrightarrow> t < NTHREAD \<Longrightarrow> live (th_state (lp_thread p t)) \<Longrightarrow> th_kstack (lp_thread p t) \<noteq> 0"
    "\<And>t. t < NTHREAD \<Longrightarrow> th_state (lp_thread p t) = RUNNING \<Longrightarrow> t = lp_thidx p \<and> (lp_state p = RUNNING \<or> lp_state p = ZOMBIE)"
    "lp_state p = RUNNING \<Longrightarrow> th_state (lp_thread p (lp_thidx p)) = RUNNING"
  shows "threads_ok p"
  using assms unfolding threads_ok_def by blast

lemma tids_okD:
  assumes "tids_ok N p" "t < NTHREAD"
  shows "0 \<le> th_tid (lp_thread p t)" "th_tid (lp_thread p t) < N"
    "u < NTHREAD \<Longrightarrow> t \<noteq> u \<Longrightarrow> th_tid (lp_thread p t) = th_tid (lp_thread p u) \<Longrightarrow> th_tid (lp_thread p t) = 0"
    "u < NTHREAD \<Longrightarrow> t \<noteq> u \<Longrightarrow> th_tid (lp_thread p t) = th_tid (lp_thread p u)
       \<Longrightarrow> th_state (lp_thread p t) = UNUSED \<or> th_state (lp_thread p u) = UNUSED"
  using assms unfolding tids_ok_def by blast+

text \<open>Changing the state of a thread does not matter for the identifiers, unless an unused slot comes to life.\<close>

lemma tids_ok_state:
  assumes "tids_ok N p" "\<And>u. u < NTHREAD \<Longrightarrow> th_tid (lp_thread q u) = th_tid (lp_thread p u)"
    "\<And>u. u < NTHREAD \<Longrightarrow> th_state (lp_thread p u) = UNUSED \<Longrightarrow> th_state (lp_thread q u) = UNUSED"
  shows "tids_ok N q"
  using assms(1) unfolding tids_ok_def by (metis assms(2,3))

lemma copythproc_sel [simp]:
  "lp_thread (copythproc t p) = lp_thread p" "lp_thidx (copythproc t p) = t" "lp_state (copythproc t p) = lp_state p"
  "lp_pgdir (copythproc t p) = lp_pgdir p" "lp_kstack (copythproc t p) = th_kstack (lp_thread p t)"
  "lp_killed (copythproc t p) = lp_killed p" "lp_parent (copythproc t p) = lp_parent p" "lp_pid (copythproc t p) = lp_pid p"
  "lp_freedustack (copythproc t p) = lp_freedustack p" "lp_sz (copythproc t p) = lp_sz p" "lp_limit (copythproc t p) = lp_limit p"
  by (simp_all add: copythproc_def Let_def)

lemma copyprocth_sel [simp]:
  "lp_thidx (copyprocth t p) = lp_thidx p" "lp_state (copyprocth t p) = lp_state p" "lp_pgdir (copyprocth t p) = lp_pgdir p"
  "lp_kstack (copyprocth t p) = lp_kstack p" "lp_killed (copyprocth t p) = lp_killed p" "lp_parent (copyprocth t p) = lp_parent p"
  "lp_pid (copyprocth t p) = lp_pid p" "lp_freedustack (copyprocth t p) = lp_freedustack p" "lp_sz (copyprocth t p) = lp_sz p"
  "lp_limit (copyprocth t p) = lp_limit p"
  "th_state (lp_thread (copyprocth t p) u) = th_state (lp_thread p u)" "th_tid (lp_thread (copyprocth t p) u) = th_tid (lp_thread p u)"
  "th_retval (lp_thread (copyprocth t p) u) = th_retval (lp_thread p u)" "th_ustack (lp_thread (copyprocth t p) u) = th_ustack (lp_thread p u)"
  "th_kstack (lp_thread (copyprocth t p) u) = (if u = t then lp_kstack p else th_kstack (lp_thread p u))"
  by (simp_all add: copyprocth_def)

lemma copythproc_same: "same_inv (copythproc (lp_thidx p) p) p"
  by (simp add: same_inv_def)

lemma copyprocth_same: "lp_kstack p = th_kstack (lp_thread p t) \<Longrightarrow> same_inv (copyprocth t p) p"
  by (simp add: same_inv_def)

text \<open>Waking threads.\<close>

lemma fold_wake:
  "fold (\<lambda>t p. if th_state (lp_thread p t) = SLEEPING \<and> th_chan (lp_thread p t) = c
      then upd_th t (\<lambda>th. th\<lparr>th_state := RUNNABLE\<rparr>) p else p) xs p
   = p\<lparr>lp_thread := (\<lambda>t. if t \<in> set xs \<and> th_state (lp_thread p t) = SLEEPING \<and> th_chan (lp_thread p t) = c
        then (lp_thread p t)\<lparr>th_state := RUNNABLE\<rparr> else lp_thread p t)\<rparr>"
proof (induction xs arbitrary: p)
  case Nil
  then show ?case by simp
next
  case (Cons x xs)
  show ?case by (auto simp: Cons.IH upd_th_def fun_eq_iff intro!: arg_cong [where f = "\<lambda>f. lp_thread_update f p"])
qed

lemma wake_threads_eq:
  "wake_threads c p = p\<lparr>lp_thread := (\<lambda>t. if t < NTHREAD \<and> th_state (lp_thread p t) = SLEEPING \<and> th_chan (lp_thread p t) = c
     then (lp_thread p t)\<lparr>th_state := RUNNABLE\<rparr> else lp_thread p t)\<rparr>"
  unfolding wake_threads_def fold_wake by simp

lemma wake_threads_inv:
  assumes "proc_inv N p"
  shows "proc_inv N (wake_threads c p)"
proof -
  let ?q = "wake_threads c p"
  have st: "th_state (lp_thread ?q u) = (if u < NTHREAD \<and> th_state (lp_thread p u) = SLEEPING \<and> th_chan (lp_thread p u) = c
      then RUNNABLE else th_state (lp_thread p u))" for u by (simp add: wake_threads_eq)
  have oth: "th_tid (lp_thread ?q u) = th_tid (lp_thread p u)" "th_kstack (lp_thread ?q u) = th_kstack (lp_thread p u)"
    "lp_thidx ?q = lp_thidx p" "lp_state ?q = lp_state p" "lp_pgdir ?q = lp_pgdir p" for u by (simp_all add: wake_threads_eq)
  have t: "tids_ok N p" "threads_ok p" using assms by (simp_all add: proc_inv_def)
  have "tids_ok N ?q" by (rule tids_ok_state [OF t(1)]) (simp_all add: oth st)
  moreover have "threads_ok ?q"
  proof (rule threads_okI)
    show "live (th_state (lp_thread ?q u)) \<Longrightarrow> th_kstack (lp_thread ?q u) \<noteq> 0" if "active (lp_state ?q)" "u < NTHREAD" for u
      using that threads_okD(5) [OF t(2), of u] by (simp add: oth st split: if_splits)
    show "dormant (th_state (lp_thread ?q u))" if "dormant (lp_state ?q)" "u < NTHREAD" for u
      using that threads_okD(2) [OF t(2), of u] by (auto simp: oth st)
    show "th_tid (lp_thread ?q u) \<noteq> 0" if "dormant (lp_state ?q)" "u < NTHREAD" "th_state (lp_thread ?q u) = EMBRYO" for u
      using that threads_okD(3) [OF t(2), of u] by (simp add: oth st split: if_splits)
    show "u = lp_thidx ?q \<and> (lp_state ?q = RUNNING \<or> lp_state ?q = ZOMBIE)"
      if "u < NTHREAD" "th_state (lp_thread ?q u) = RUNNING" for u
      using that threads_okD(6,7) [OF t(2), of u] by (simp add: oth st split: if_splits)
  qed (use threads_okD(1,4,8,9) [OF t(2)] in \<open>simp_all add: oth st\<close>)
  ultimately show ?thesis by (simp add: proc_inv_def)
qed

text \<open>A change of one thread that neither puts it on the CPU nor takes it off.\<close>

lemma upd_thread_inv:
  assumes inv: "proc_inv N p" and t: "t < NTHREAD"
    and run: "th_state (f (lp_thread p t)) = RUNNING \<longleftrightarrow> th_state (lp_thread p t) = RUNNING"
    and dorm: "dormant (lp_state p) \<Longrightarrow> dormant (th_state (f (lp_thread p t)))
      \<and> (th_state (f (lp_thread p t)) = EMBRYO \<longrightarrow> th_tid (f (lp_thread p t)) \<noteq> 0)"
    and act: "active (lp_state p) \<Longrightarrow> live (th_state (f (lp_thread p t))) \<Longrightarrow> th_kstack (f (lp_thread p t)) \<noteq> 0"
    and tid: "th_tid (f (lp_thread p t)) = th_tid (lp_thread p t)
        \<and> (th_state (lp_thread p t) = UNUSED \<longrightarrow> th_state (f (lp_thread p t)) = UNUSED)
      \<or> th_tid (f (lp_thread p t)) = 0 \<and> th_state (f (lp_thread p t)) = UNUSED"
  shows "proc_inv N (upd_th t f p)"
proof -
  have ok: "tids_ok N p" "threads_ok p" using inv by (simp_all add: proc_inv_def)
  have "threads_ok (upd_th t f p)"
  proof (rule threads_okI)
    show "u = lp_thidx (upd_th t f p) \<and> (lp_state (upd_th t f p) = RUNNING \<or> lp_state (upd_th t f p) = ZOMBIE)"
      if "u < NTHREAD" "th_state (lp_thread (upd_th t f p) u) = RUNNING" for u
      using that threads_okD(6,7) [OF ok(2), of u] run by (auto split: if_splits)
  qed (use threads_okD(1,4,8,9) [OF ok(2)] threads_okD(2,3,5) [OF ok(2)] run dorm act in \<open>auto split: if_splits\<close>)
  moreover have "tids_ok N (upd_th t f p)"
  proof -
    have b: "0 \<le> th_tid (lp_thread (upd_th t f p) u) \<and> th_tid (lp_thread (upd_th t f p) u) < N" if "u < NTHREAD" for u
      using tids_okD(1,2) [OF ok(1) that] tid by (auto split: if_splits)
    have "th_tid (lp_thread (upd_th t f p) u) = 0
        \<and> (th_state (lp_thread (upd_th t f p) u) = UNUSED \<or> th_state (lp_thread (upd_th t f p) v) = UNUSED)"
      if u: "u < NTHREAD" "v < NTHREAD" "u \<noteq> v" "th_tid (lp_thread (upd_th t f p) u) = th_tid (lp_thread (upd_th t f p) v)" for u v
      using tids_okD(3,4) [OF ok(1) u(1,2,3)] u(3,4) tid by (auto split: if_splits)
    then show ?thesis using b unfolding tids_ok_def by blast
  qed
  ultimately show ?thesis by (simp add: proc_inv_def)
qed

lemma alloc_thread_inv:
  assumes inv: "proc_inv N p" and t: "t < NTHREAD" "th_state (lp_thread p t) = UNUSED" and N: "1 \<le> N"
  shows "proc_inv (N + 1) (upd_th t (\<lambda>th. th\<lparr>th_tid := N, th_state := EMBRYO\<rparr>) p)" (is "proc_inv _ ?q")
proof -
  have ok: "tids_ok N p" "threads_ok p" using inv by (simp_all add: proc_inv_def)
  have "threads_ok ?q"
  proof (rule threads_okI)
    show "u = lp_thidx ?q \<and> (lp_state ?q = RUNNING \<or> lp_state ?q = ZOMBIE)"
      if "u < NTHREAD" "th_state (lp_thread ?q u) = RUNNING" for u
      using that threads_okD(6,7) [OF ok(2), of u] by (auto split: if_splits)
  qed (use threads_okD(1,4,8,9) [OF ok(2)] threads_okD(2,3,5) [OF ok(2)] t N in \<open>auto split: if_splits\<close>)
  moreover have "tids_ok (N + 1) ?q"
  proof -
    have b: "0 \<le> th_tid (lp_thread ?q u) \<and> th_tid (lp_thread ?q u) < N + 1" if "u < NTHREAD" for u
      using tids_okD(1,2) [OF ok(1) that] N by auto
    have "th_tid (lp_thread ?q u) = 0 \<and> (th_state (lp_thread ?q u) = UNUSED \<or> th_state (lp_thread ?q v) = UNUSED)"
      if u: "u < NTHREAD" "v < NTHREAD" "u \<noteq> v" "th_tid (lp_thread ?q u) = th_tid (lp_thread ?q v)" for u v
      using tids_okD(3,4) [OF ok(1) u(1-3)] tids_okD(2) [OF ok(1) u(1)] tids_okD(2) [OF ok(1) u(2)] u(3,4)
      by (auto split: if_splits)
    then show ?thesis using b unfolding tids_ok_def by blast
  qed
  ultimately show ?thesis by (simp add: proc_inv_def)
qed

lemma state_inv:
  assumes "proc_inv N p" "dormant (lp_state p) \<and> dormant st \<or> lp_state p = RUNNING \<and> st = ZOMBIE"
  shows "proc_inv N (p\<lparr>lp_state := st\<rparr>)"
proof -
  have ok: "tids_ok N p" "threads_ok p" using assms by (simp_all add: proc_inv_def)
  have st: "st = UNUSED \<or> st = EMBRYO \<or> st = ZOMBIE" using assms(2) by (auto simp: dormant_def)
  have "threads_ok (p\<lparr>lp_state := st\<rparr>)"
  proof (rule threads_okI)
    show "u = lp_thidx (p\<lparr>lp_state := st\<rparr>) \<and> (lp_state (p\<lparr>lp_state := st\<rparr>) = RUNNING \<or> lp_state (p\<lparr>lp_state := st\<rparr>) = ZOMBIE)"
      if "u < NTHREAD" "th_state (lp_thread (p\<lparr>lp_state := st\<rparr>) u) = RUNNING" for u
      using that threads_okD(6,7) [OF ok(2), of u] assms(2) threads_okD(2) [OF ok(2), of u] by auto
  qed (use threads_okD(1) [OF ok(2)] threads_okD(2,3) [OF ok(2)] assms(2) st in auto)
  moreover have "tids_ok N (p\<lparr>lp_state := st\<rparr>)" using ok(1) by (simp add: tids_ok_def)
  ultimately show ?thesis by (simp add: proc_inv_def)
qed

lemma pgdir_inv: "proc_inv N p \<Longrightarrow> pg \<noteq> 0 \<or> \<not> active (lp_state p) \<Longrightarrow> proc_inv N (p\<lparr>lp_pgdir := pg\<rparr>)"
  by (auto simp: proc_inv_def tids_ok_def threads_ok_def)

text \<open>The running thread gives up the CPU.\<close>

lemma leave_inv:
  assumes inv: "proc_inv N p" and r: "lp_state p = RUNNING"
    and f: "\<And>th. th_state (f th) = st \<and> th_kstack (f th) = th_kstack th \<and> th_tid (f th) = th_tid th"
    and st: "st = RUNNABLE \<or> st = SLEEPING \<or> st = ZOMBIE"
  shows "proc_inv N (upd_th (lp_thidx p) f (p\<lparr>lp_state := RUNNABLE\<rparr>))" (is "proc_inv N ?q")
proof -
  have ok: "tids_ok N p" "threads_ok p" using inv by (simp_all add: proc_inv_def)
  have run: "th_state (lp_thread p (lp_thidx p)) = RUNNING" using threads_okD(8) [OF ok(2)] r by simp
  have "threads_ok ?q"
  proof (rule threads_okI)
    show "th_kstack (lp_thread ?q u) \<noteq> 0" if "u < NTHREAD" "live (th_state (lp_thread ?q u))" for u
      using that threads_okD(5) [OF ok(2), of u] r run f by (auto split: if_splits)
    show "u = lp_thidx ?q \<and> (lp_state ?q = RUNNING \<or> lp_state ?q = ZOMBIE)"
      if "u < NTHREAD" "th_state (lp_thread ?q u) = RUNNING" for u
      using that threads_okD(6) [OF ok(2), of u] f st by (auto split: if_splits)
  qed (use threads_okD(1,4) [OF ok(2)] r in auto)
  moreover have "tids_ok N ?q"
    by (rule tids_ok_state [OF ok(1)]) (use f run st in auto)
  ultimately show ?thesis by (simp add: proc_inv_def)
qed

text \<open>The scheduler switches to a thread.\<close>

lemma enter_inv:
  assumes inv: "proc_inv N p" and r: "lp_state p = RUNNABLE" and t: "t < NTHREAD" "th_runs p t"
  shows "proc_inv N (upd_th t (\<lambda>th. th\<lparr>th_state := RUNNING\<rparr>) ((copythproc t p)\<lparr>lp_state := RUNNING\<rparr>))" (is "proc_inv N ?q")
proof -
  have ok: "tids_ok N p" "threads_ok p" using inv by (simp_all add: proc_inv_def)
  have "threads_ok ?q"
  proof (rule threads_okI)
    show "th_kstack (lp_thread ?q u) \<noteq> 0" if "u < NTHREAD" "live (th_state (lp_thread ?q u))" for u
      using that threads_okD(5) [OF ok(2), of u] r t by (auto split: if_splits)
    show "u = lp_thidx ?q \<and> (lp_state ?q = RUNNING \<or> lp_state ?q = ZOMBIE)"
      if "u < NTHREAD" "th_state (lp_thread ?q u) = RUNNING" for u
      using that threads_okD(7) [OF ok(2), of u] r by (auto split: if_splits)
  qed (use threads_okD(4) [OF ok(2)] r t in auto)
  moreover have "tids_ok N ?q"
    by (rule tids_ok_state [OF ok(1)]) (use t in auto)
  ultimately show ?thesis by (simp add: proc_inv_def)
qed

text \<open>\<^verbatim>\<open>fork\<close> and \<^verbatim>\<open>userinit\<close> let a new process run.\<close>

lemma start_inv:
  assumes inv: "proc_inv N p" and d: "dormant (lp_state p)" and pg: "lp_pgdir p \<noteq> 0" "lp_kstack p \<noteq> 0"
  shows "proc_inv N (start_thread p)"
proof -
  let ?q = "start_thread p"
  have ok: "tids_ok N p" "threads_ok p" using inv by (simp_all add: proc_inv_def)
  have sel: "th_state (lp_thread ?q u) = (if u = lp_thidx p then RUNNABLE else th_state (lp_thread p u))"
    "th_tid (lp_thread ?q u) = th_tid (lp_thread p u)" "lp_thidx ?q = lp_thidx p" "lp_state ?q = RUNNABLE" "lp_pgdir ?q = lp_pgdir p"
    "th_kstack (lp_thread ?q u) = (if u = lp_thidx p then lp_kstack p else th_kstack (lp_thread p u))" for u
    by (simp_all add: start_thread_def)
  have dt: "dormant (th_state (lp_thread p u))" if "u < NTHREAD" for u using threads_okD(2) [OF ok(2) d that] .
  have "threads_ok ?q"
  proof (rule threads_okI)
    show "th_kstack (lp_thread ?q u) \<noteq> 0" if "u < NTHREAD" "live (th_state (lp_thread ?q u))" for u
      using that dt [of u] pg by (auto simp: sel live_def dormant_def split: if_splits)
    show "u = lp_thidx ?q \<and> (lp_state ?q = RUNNING \<or> lp_state ?q = ZOMBIE)"
      if "u < NTHREAD" "th_state (lp_thread ?q u) = RUNNING" for u
      using that dt [of u] by (auto simp: sel dormant_def split: if_splits)
  qed (use threads_okD(1) [OF ok(2)] pg in \<open>auto simp: sel\<close>)
  moreover have "tids_ok N ?q"
  proof -
    have tid0: "th_state (lp_thread p u) = UNUSED" if "u < NTHREAD" "th_tid (lp_thread p u) = 0" for u
      using dt [OF that(1)] threads_okD(3) [OF ok(2) d that(1)] that(2) by (auto simp: dormant_def)
    have "th_tid (lp_thread ?q u) = 0 \<and> (th_state (lp_thread ?q u) = UNUSED \<or> th_state (lp_thread ?q v) = UNUSED)"
      if u: "u < NTHREAD" "v < NTHREAD" "u \<noteq> v" "th_tid (lp_thread ?q u) = th_tid (lp_thread ?q v)" for u v
      using tids_okD(3) [OF ok(1) u(1-3)] u tid0 [of u] tid0 [of v] by (auto simp: sel)
    then show ?thesis using tids_okD(1,2) [OF ok(1)] unfolding tids_ok_def by (auto simp: sel)
  qed
  ultimately show ?thesis by (simp add: proc_inv_def)
qed

end
