(* ===== verification/Lwp_Steps.thy ===== *)
theory Lwp_Steps
  imports Lwp_Inv
begin

text \<open>
  The invariant of the process table across the operations of \<^verbatim>\<open>proc.c\<close> of project 2: switching, waking, the scheduler,
  and the life cycle of processes and threads.
\<close>

section \<open>The process table\<close>

definition cpu_ok :: "'k lwp \<Rightarrow> bool" where
  "cpu_ok s \<longleftrightarrow> (\<forall>c. l_cpuproc s = Some c \<longrightarrow> c < NPROC \<and> l_frame s = Some (c, lp_thidx (l_proc s c))
     \<and> lp_kstack (l_proc s c) = th_kstack (lp_thread (l_proc s c) (lp_thidx (l_proc s c))))"

definition table_inv :: "'k lwp \<Rightarrow> bool" where
  "table_inv s \<longleftrightarrow> 1 \<le> l_nexttid s \<and> (\<forall>i<NPROC. proc_inv (l_nexttid s) (l_proc s i))
     \<and> (\<forall>i<NPROC. lp_state (l_proc s i) = RUNNING \<longrightarrow> l_cpuproc s = Some i) \<and> cpu_ok s"

definition lock_inv :: "'k lwp \<Rightarrow> bool" where
  "lock_inv s \<longleftrightarrow> (case l_cpuproc s of None \<Rightarrow> \<not> l_held s | Some c \<Rightarrow> lp_state (l_proc s c) \<noteq> RUNNING \<longrightarrow> l_held s)"

text \<open>Process \<open>c\<close> runs; and the state of the table after one of its calls, still running or about to be switched out.\<close>

definition on_cpu :: "nat \<Rightarrow> 'k lwp \<Rightarrow> bool" where
  "on_cpu c s \<longleftrightarrow> table_inv s \<and> l_cpuproc s = Some c \<and> lp_state (l_proc s c) = RUNNING"

definition after_call :: "nat \<Rightarrow> 'k lwp \<Rightarrow> bool" where
  "after_call c s \<longleftrightarrow> table_inv s \<and> l_cpuproc s = Some c \<and> (lp_state (l_proc s c) \<noteq> RUNNING \<longrightarrow> l_held s)"

lemma table_fields [simp]:
  "table_inv (s\<lparr>l_env := a\<rparr>) = table_inv s" "table_inv (s\<lparr>l_tfs := b\<rparr>) = table_inv s" "table_inv (s\<lparr>l_ctxs := c\<rparr>) = table_inv s"
  "table_inv (s\<lparr>l_rets := d\<rparr>) = table_inv s" "table_inv (s\<lparr>l_ticks := e\<rparr>) = table_inv s" "table_inv (s\<lparr>l_first := f\<rparr>) = table_inv s"
  "table_inv (s\<lparr>l_held := g\<rparr>) = table_inv s" "table_inv (s\<lparr>l_nextpid := h\<rparr>) = table_inv s" "table_inv (s\<lparr>l_initproc := i\<rparr>) = table_inv s"
  by (simp_all add: table_inv_def cpu_ok_def)

lemma on_cpu_fields [simp]:
  "on_cpu x (s\<lparr>l_env := a\<rparr>) = on_cpu x s" "on_cpu x (s\<lparr>l_tfs := b\<rparr>) = on_cpu x s" "on_cpu x (s\<lparr>l_ctxs := c\<rparr>) = on_cpu x s"
  "on_cpu x (s\<lparr>l_rets := d\<rparr>) = on_cpu x s" "on_cpu x (s\<lparr>l_ticks := e\<rparr>) = on_cpu x s" "on_cpu x (s\<lparr>l_first := f\<rparr>) = on_cpu x s"
  "on_cpu x (s\<lparr>l_held := g\<rparr>) = on_cpu x s" "on_cpu x (s\<lparr>l_nextpid := h\<rparr>) = on_cpu x s"
  by (simp_all add: on_cpu_def)

lemma on_cpu_after: "on_cpu c s \<Longrightarrow> after_call c s"
  by (simp add: on_cpu_def after_call_def)

lemma table_invI:
  assumes "1 \<le> l_nexttid s" "\<And>i. i < NPROC \<Longrightarrow> proc_inv (l_nexttid s) (l_proc s i)"
    "\<And>i. i < NPROC \<Longrightarrow> lp_state (l_proc s i) = RUNNING \<Longrightarrow> l_cpuproc s = Some i"
    "\<And>c. l_cpuproc s = Some c \<Longrightarrow> c < NPROC \<and> l_frame s = Some (c, lp_thidx (l_proc s c))
      \<and> lp_kstack (l_proc s c) = th_kstack (lp_thread (l_proc s c) (lp_thidx (l_proc s c)))"
  shows "table_inv s"
  using assms unfolding table_inv_def cpu_ok_def by blast

lemma table_invD:
  assumes "table_inv s"
  shows "1 \<le> l_nexttid s" "i < NPROC \<Longrightarrow> proc_inv (l_nexttid s) (l_proc s i)"
    "i < NPROC \<Longrightarrow> lp_state (l_proc s i) = RUNNING \<Longrightarrow> l_cpuproc s = Some i"
    "l_cpuproc s = Some c \<Longrightarrow> c < NPROC" "l_cpuproc s = Some c \<Longrightarrow> l_frame s = Some (c, lp_thidx (l_proc s c))"
    "l_cpuproc s = Some c \<Longrightarrow> lp_kstack (l_proc s c) = th_kstack (lp_thread (l_proc s c) (lp_thidx (l_proc s c)))"
  using assms unfolding table_inv_def cpu_ok_def by blast+

lemma on_cpuD:
  assumes "on_cpu c s"
  shows "table_inv s" "l_cpuproc s = Some c" "lp_state (l_proc s c) = RUNNING" "c < NPROC" "proc_inv (l_nexttid s) (l_proc s c)"
    "threads_ok (l_proc s c)" "lp_thidx (l_proc s c) < NTHREAD"
    "th_state (lp_thread (l_proc s c) (lp_thidx (l_proc s c))) = RUNNING"
proof -
  show a: "table_inv s" "l_cpuproc s = Some c" "lp_state (l_proc s c) = RUNNING" using assms by (simp_all add: on_cpu_def)
  show b: "c < NPROC" using table_invD(4) [OF a(1,2)] .
  show i: "proc_inv (l_nexttid s) (l_proc s c)" using table_invD(2) [OF a(1) b] .
  then show t: "threads_ok (l_proc s c)" by (simp add: proc_inv_def)
  show "lp_thidx (l_proc s c) < NTHREAD" using threads_okD(1) [OF t] .
  show "th_state (lp_thread (l_proc s c) (lp_thidx (l_proc s c))) = RUNNING" using threads_okD(8) [OF t a(3)] .
qed

text \<open>The frame rule: replacing one process.\<close>

lemma table_upd:
  assumes "table_inv s" "i < NPROC" "proc_inv (l_nexttid s) q"
    "lp_state q = RUNNING \<Longrightarrow> lp_state (l_proc s i) = RUNNING"
    "l_cpuproc s = Some i \<Longrightarrow> lp_thidx q = lp_thidx (l_proc s i) \<and> lp_kstack q = th_kstack (lp_thread q (lp_thidx q))"
  shows "table_inv (s\<lparr>l_proc := (l_proc s)(i := q)\<rparr>)" (is "table_inv ?s")
proof (rule table_invI)
  show "l_cpuproc ?s = Some j" if "j < NPROC" "lp_state (l_proc ?s j) = RUNNING" for j
    using that table_invD(3) [OF assms(1) that(1)] assms(4) by (simp split: if_splits)
  show "c < NPROC \<and> l_frame ?s = Some (c, lp_thidx (l_proc ?s c))
      \<and> lp_kstack (l_proc ?s c) = th_kstack (lp_thread (l_proc ?s c) (lp_thidx (l_proc ?s c)))" if "l_cpuproc ?s = Some c" for c
    using that table_invD(4-6) [OF assms(1), of c] assms(5) by (cases "c = i") simp_all
qed (use table_invD(1,2) [OF assms(1)] assms(3) in simp_all)

lemma cpu_upd:
  assumes "on_cpu c s" "proc_inv (l_nexttid s) q" "lp_thidx q = lp_thidx (l_proc s c)" "lp_kstack q = th_kstack (lp_thread q (lp_thidx q))"
  shows "table_inv (s\<lparr>l_proc := (l_proc s)(c := q)\<rparr>)"
  by (rule table_upd [OF on_cpuD(1,4) [OF assms(1)] assms(2)]) (use assms(3,4) on_cpuD(3) [OF assms(1)] in simp_all)

lemma on_cpu_upd:
  assumes "on_cpu c s" "proc_inv (l_nexttid s) q" "lp_thidx q = lp_thidx (l_proc s c)" "lp_kstack q = th_kstack (lp_thread q (lp_thidx q))"
    "lp_state q = RUNNING"
  shows "on_cpu c (s\<lparr>l_proc := (l_proc s)(c := q)\<rparr>)"
  using cpu_upd [OF assms(1-4)] on_cpuD(2) [OF assms(1)] assms(5) by (simp add: on_cpu_def)

text \<open>Another process than the running one.\<close>

lemma on_cpu_other:
  assumes "on_cpu c s" "i < NPROC" "i \<noteq> c" "proc_inv (l_nexttid s) q" "lp_state q \<noteq> RUNNING"
  shows "on_cpu c (s\<lparr>l_proc := (l_proc s)(i := q)\<rparr>)"
proof -
  have "table_inv (s\<lparr>l_proc := (l_proc s)(i := q)\<rparr>)"
    by (rule table_upd [OF on_cpuD(1) [OF assms(1)] assms(2,4)]) (use assms(3,5) on_cpuD(2) [OF assms(1)] in simp_all)
  then show ?thesis using on_cpuD(2,3) [OF assms(1)] assms(3) by (simp add: on_cpu_def)
qed

lemma kstack_eq: "on_cpu c s \<Longrightarrow> lp_kstack (l_proc s c) = th_kstack (lp_thread (l_proc s c) (lp_thidx (l_proc s c)))"
  using table_invD(6) on_cpuD(1,2) by blast

section \<open>Locks, waking, switching\<close>

lemma acquire_eq: "acquire s = Inr s' \<longleftrightarrow> \<not> l_held s \<and> s' = s\<lparr>l_held := True\<rparr>"
  by (auto simp: acquire_def)

lemma release_eq: "release s = Inr s' \<longleftrightarrow> l_held s \<and> s' = s\<lparr>l_held := False\<rparr>"
  by (auto simp: release_def)

lemma lenv_call_eq: "lenv_call f s = Inr s' \<longleftrightarrow> (\<exists>e. f (l_env s) = Inr e \<and> s' = s\<lparr>l_env := e\<rparr>)"
  by (auto simp: lenv_call_def rbind_eq_Inr)

lemma fold_upd_lp:
  assumes "distinct xs"
  shows "fold (\<lambda>i s. if P (l_proc s i) then s else upd_lp i f s) xs s
    = s\<lparr>l_proc := (\<lambda>i. if i \<in> set xs \<and> \<not> P (l_proc s i) then f (l_proc s i) else l_proc s i)\<rparr>"
  using assms
proof (induction xs arbitrary: s)
  case Nil
  then show ?case by simp
next
  case (Cons x xs)
  then show ?case by (auto simp: fun_eq_iff intro!: arg_cong [where f = "\<lambda>f. l_proc_update f s"])
qed

lemma lwakeup1_eq:
  "wakeup1 c s = s\<lparr>l_proc := (\<lambda>i. if i < NPROC \<and> active (lp_state (l_proc s i)) then wake_threads c (l_proc s i) else l_proc s i)\<rparr>"
  unfolding wakeup1_def
  by (subst fold_upd_lp [where P = "\<lambda>p. lp_state p \<noteq> RUNNABLE \<and> lp_state p \<noteq> RUNNING"])
    (auto simp: active_def fun_eq_iff intro!: arg_cong [where f = "\<lambda>f. l_proc_update f s"])

lemma wake_threads_sel [simp]:
  "lp_thidx (wake_threads c p) = lp_thidx p" "lp_state (wake_threads c p) = lp_state p" "lp_kstack (wake_threads c p) = lp_kstack p"
  "lp_pgdir (wake_threads c p) = lp_pgdir p" "lp_parent (wake_threads c p) = lp_parent p" "lp_killed (wake_threads c p) = lp_killed p"
  "th_kstack (lp_thread (wake_threads c p) t) = th_kstack (lp_thread p t)" "th_tid (lp_thread (wake_threads c p) t) = th_tid (lp_thread p t)"
  "th_retval (lp_thread (wake_threads c p) t) = th_retval (lp_thread p t)" "th_ustack (lp_thread (wake_threads c p) t) = th_ustack (lp_thread p t)"
  "lp_freedustack (wake_threads c p) = lp_freedustack p" "lp_sz (wake_threads c p) = lp_sz p" "lp_pid (wake_threads c p) = lp_pid p"
  by (simp_all add: wake_threads_eq)

lemma wake_threads_state:
  "th_state (lp_thread (wake_threads c p) t) = (if t < NTHREAD \<and> th_state (lp_thread p t) = SLEEPING \<and> th_chan (lp_thread p t) = c
     then RUNNABLE else th_state (lp_thread p t))"
  by (simp add: wake_threads_eq)

lemma wakeup1_sel [simp]:
  "l_cpuproc (wakeup1 c s) = l_cpuproc s" "l_frame (wakeup1 c s) = l_frame s" "l_held (wakeup1 c s) = l_held s"
  "l_nexttid (wakeup1 c s) = l_nexttid s" "l_initproc (wakeup1 c s) = l_initproc s" "l_env (wakeup1 c s) = l_env s"
  "lp_state (l_proc (wakeup1 c s) i) = lp_state (l_proc s i)" "lp_thidx (l_proc (wakeup1 c s) i) = lp_thidx (l_proc s i)"
  "lp_parent (l_proc (wakeup1 c s) i) = lp_parent (l_proc s i)" "lp_kstack (l_proc (wakeup1 c s) i) = lp_kstack (l_proc s i)"
  "th_kstack (lp_thread (l_proc (wakeup1 c s) i) t) = th_kstack (lp_thread (l_proc s i) t)"
  by (simp_all add: lwakeup1_eq)

lemma wakeup1_table:
  assumes inv: "table_inv s"
  shows "table_inv (wakeup1 c s)"
proof (rule table_invI)
  show "proc_inv (l_nexttid (wakeup1 c s)) (l_proc (wakeup1 c s) i)" if "i < NPROC" for i
    using table_invD(2) [OF inv that] by (simp add: lwakeup1_eq wake_threads_inv)
  show "x < NPROC \<and> l_frame (wakeup1 c s) = Some (x, lp_thidx (l_proc (wakeup1 c s) x))
      \<and> lp_kstack (l_proc (wakeup1 c s) x) = th_kstack (lp_thread (l_proc (wakeup1 c s) x) (lp_thidx (l_proc (wakeup1 c s) x)))"
    if "l_cpuproc (wakeup1 c s) = Some x" for x
    using that table_invD(4-6) [OF inv, of x] by simp
qed (use table_invD(1,3) [OF inv] in simp_all)

lemma wakeup1_on_cpu: "on_cpu x s \<Longrightarrow> on_cpu x (wakeup1 c s)"
  by (simp add: on_cpu_def wakeup1_table)

lemma sched_ok:
  assumes "table_inv s" "sched ctx s = Inr s'" "l_cpuproc s = Some c"
  shows "after_call c s' \<and> lp_state (l_proc s' c) \<noteq> RUNNING"
proof -
  let ?p = "l_proc s c"
  let ?q = "(copythproc (lp_thidx ?p) ?p)\<lparr>lp_context := ctx\<rparr>"
  have e: "s' = s\<lparr>l_proc := (l_proc s)(c := ?q)\<rparr>" "l_held s" "lp_state ?p \<noteq> RUNNING"
    using assms(2,3) by (auto simp: sched_def split: if_splits)
  have c: "c < NPROC" using table_invD(4) [OF assms(1,3)] .
  have "proc_inv (l_nexttid s) ?q"
    using table_invD(2) [OF assms(1) c] by (simp add: same_inv_proc [OF copythproc_same])
  then have "table_inv s'" unfolding e(1) by (intro table_upd [OF assms(1) c]) simp_all
  then show ?thesis using e assms(3) by (simp add: after_call_def)
qed

lemma sched_resume_ok:
  assumes "on_cpu c s"
  shows "on_cpu c (sched_resume c s)"
proof -
  let ?p = "l_proc s c"
  have "proc_inv (l_nexttid s) (copyprocth (lp_thidx ?p) ?p)"
    using on_cpuD(5) [OF assms] by (simp add: same_inv_proc [OF copyprocth_same [OF kstack_eq [OF assms]]])
  then show ?thesis unfolding sched_resume_def
    by (intro on_cpu_upd [OF assms]) (simp_all add: on_cpuD(3) [OF assms])
qed

text \<open>The running thread leaves the CPU, in \<^verbatim>\<open>yield\<close>, \<^verbatim>\<open>sleep\<close> and \<^verbatim>\<open>thread_exit\<close>.\<close>

lemma leave_table:
  assumes "on_cpu c s" "\<And>th. th_state (f th) = st \<and> th_kstack (f th) = th_kstack th \<and> th_tid (f th) = th_tid th"
    "st = RUNNABLE \<or> st = SLEEPING \<or> st = ZOMBIE"
  shows "table_inv (upd_lp c (\<lambda>p. upd_th (lp_thidx p) f (p\<lparr>lp_state := RUNNABLE\<rparr>)) s)"
  by (rule cpu_upd [OF assms(1) leave_inv [OF on_cpuD(5,3) [OF assms(1)] assms(2,3)]])
    (use kstack_eq [OF assms(1)] assms(2) in simp_all)

lemma yield_ok:
  assumes "on_cpu c s" "yield ctx s = Inr s'"
  shows "after_call c s'"
proof -
  let ?s = "s\<lparr>l_held := True\<rparr>"
  have on: "on_cpu c ?s" using assms(1) by simp
  from assms(2) on_cpuD(2) [OF assms(1)]
  have "sched ctx (upd_lp c (\<lambda>p. upd_th (lp_thidx p) (\<lambda>th. th\<lparr>th_state := RUNNABLE\<rparr>) (p\<lparr>lp_state := RUNNABLE\<rparr>)) ?s) = Inr s'"
    by (auto simp: yield_def rbind_eq_Inr acquire_eq)
  from sched_ok [OF leave_table [OF on] this] show ?thesis using on_cpuD(2) [OF assms(1)] by simp
qed

lemma sleep_ok:
  assumes "on_cpu c s" "sleep ch ptlock ctx s = Inr s'"
  shows "after_call c s'"
proof -
  obtain h where on: "on_cpu c (s\<lparr>l_held := h\<rparr>)" and
    sc: "sched ctx (upd_lp c (\<lambda>p. upd_th (lp_thidx p) (\<lambda>th. th\<lparr>th_chan := ch, th_state := SLEEPING\<rparr>) (p\<lparr>lp_state := RUNNABLE\<rparr>)) (s\<lparr>l_held := h\<rparr>)) = Inr s'"
  proof (cases ptlock)
    case True
    have "s\<lparr>l_held := l_held s\<rparr> = s" by simp
    then show thesis using that [of "l_held s"] assms True on_cpuD(2) [OF assms(1)]
      by (simp add: sleep_def)
  next
    case False
    then show thesis using that [of True] assms on_cpuD(2) [OF assms(1)] by (auto simp: sleep_def rbind_eq_Inr acquire_eq)
  qed
  from sched_ok [OF leave_table [OF on] sc] show ?thesis using on_cpuD(2) [OF assms(1)] by simp
qed

lemma sleep_resume_ok:
  assumes "on_cpu c s" "sleep_resume c ptlock s = Inr s'"
  shows "on_cpu c s'"
proof -
  let ?s = "sched_resume c s"
  have on: "on_cpu c ?s" by (rule sched_resume_ok [OF assms(1)])
  have "on_cpu c (upd_lp c (\<lambda>p. upd_th (lp_thidx p) (\<lambda>th. th\<lparr>th_chan := NoChan\<rparr>) p) ?s)"
    by (rule on_cpu_upd [OF on]) (use on_cpuD(3,5) [OF on] kstack_eq [OF on] in \<open>simp_all add: proc_inv_soft\<close>)
  then show ?thesis using assms(2) by (auto simp: sleep_resume_def Let_def release_eq split: if_splits)
qed

lemma yield_resume_ok: "on_cpu c s \<Longrightarrow> yield_resume c s = Inr s' \<Longrightarrow> on_cpu c s'"
  using sched_resume_ok by (auto simp: yield_resume_def release_eq)

lemma forkret_ok: "on_cpu c s \<Longrightarrow> forkret ops s = Inr s' \<Longrightarrow> on_cpu c s'"
  by (auto simp: forkret_def rbind_eq_Inr release_eq lenv_call_eq split: if_splits)

lemma wakeup_table: "table_inv s \<Longrightarrow> wakeup c s = Inr s' \<Longrightarrow> table_inv s' \<and> l_cpuproc s' = l_cpuproc s
    \<and> l_held s' = l_held s \<and> (\<forall>i. lp_state (l_proc s' i) = lp_state (l_proc s i))"
  by (auto simp: wakeup_def rbind_eq_Inr acquire_eq release_eq wakeup1_table)

section \<open>The scheduler\<close>

lemma ldispatch_ok:
  assumes inv: "table_inv s" "l_cpuproc s = None" and j: "j < NPROC" "lp_state (l_proc s j) = RUNNABLE" "existrunnable (l_proc s j)"
  obtains s' where "dispatch j s = Inr s'" "on_cpu j s'" "l_held s' = l_held s"
    "thidxtorun (l_proc s j) = Inr (lp_thidx (l_proc s' j))"
proof -
  let ?p = "l_proc s j"
  have pi: "proc_inv (l_nexttid s) ?p" using table_invD(2) [OF inv(1) j(1)] .
  then have ok: "threads_ok ?p" by (simp add: proc_inv_def)
  obtain t where t: "t < NTHREAD" "thidxtorun ?p = Inr t" "th_runs ?p t"
    using thidxtorun_ok [OF threads_okD(1) [OF ok]] j(3) by metis
  let ?q = "upd_th t (\<lambda>th. th\<lparr>th_state := RUNNING\<rparr>) ((copythproc t ?p)\<lparr>lp_state := RUNNING\<rparr>)"
  let ?s = "s\<lparr>l_proc := (l_proc s)(j := ?q), l_cpuproc := Some j, l_frame := Some (j, t)\<rparr>"
  have "th_kstack (lp_thread ?p t) \<noteq> 0" "lp_pgdir ?p \<noteq> 0"
    using threads_okD(4) [OF ok] threads_okD(5) [OF ok, of t] j(2) t by simp_all
  then have d: "dispatch j s = Inr ?s" using t(2) by (simp add: dispatch_def Let_def switchuvm_def)
  have "proc_inv (l_nexttid s) ?q" by (rule enter_inv [OF pi j(2) t(1,3)])
  moreover have "lp_state (l_proc s i) \<noteq> RUNNING" if "i < NPROC" for i
    using table_invD(3) [OF inv(1) that] inv(2) by auto
  ultimately have "table_inv ?s"
    by (intro table_invI) (use table_invD(1,2) [OF inv(1)] j(1) in \<open>auto split: if_splits\<close>)
  then have "on_cpu j ?s" by (simp add: on_cpu_def)
  then show thesis using that [OF d] t(2) by simp
qed

text \<open>The scheduler never panics; it switches to a process, or ends its pass over the table.\<close>

lemma scheduler_from_ok:
  assumes "table_inv s" "l_cpuproc s = None" "l_held s"
  obtains s' where "scheduler_from i s = Inr s'" "table_inv s'" "lock_inv s'"
proof (cases "first_index (\<lambda>i. lp_state (l_proc s i) = RUNNABLE \<and> existrunnable (l_proc s i)) [i..<NPROC]")
  case None
  have "scheduler_from i s = Inr (s\<lparr>l_held := False\<rparr>)" unfolding scheduler_from_def None using assms(3) by (simp add: release_def)
  then show thesis using that assms(1,2) by (simp add: lock_inv_def)
next
  case (Some j)
  from first_index_Some [OF this] have j: "j < NPROC" "lp_state (l_proc s j) = RUNNABLE" "existrunnable (l_proc s j)" by auto
  obtain s' where s': "dispatch j s = Inr s'" "on_cpu j s'" using ldispatch_ok [OF assms(1,2) j] by metis
  have "scheduler_from i s = Inr s'" using Some s'(1) by (simp add: scheduler_from_def)
  moreover have "lock_inv s'" "table_inv s'" using on_cpuD(1-3) [OF s'(2)] by (simp_all add: lock_inv_def)
  ultimately show thesis using that by blast
qed

lemma scheduler_pass_ok:
  assumes "table_inv s" "lock_inv s" "l_cpuproc s = None"
  obtains s' where "scheduler_pass s = Inr s'" "table_inv s'" "lock_inv s'"
proof -
  have "\<not> l_held s" using assms(2,3) by (simp add: lock_inv_def)
  then have "scheduler_pass s = scheduler_from 0 (s\<lparr>l_held := True\<rparr>)" by (simp add: scheduler_pass_def acquire_def)
  then show thesis using that scheduler_from_ok [of "s\<lparr>l_held := True\<rparr>" 0] assms(1,3) by auto
qed

lemma scheduler_return_ok:
  assumes "table_inv s" "lock_inv s" "l_cpuproc s = Some c" "lp_state (l_proc s c) \<noteq> RUNNING"
  obtains s' where "scheduler_return s = Inr s'" "table_inv s'" "lock_inv s'"
proof -
  let ?p = "l_proc s c"
  let ?q = "copyprocth (lp_thidx ?p) ?p"
  let ?s = "(upd_lp c (copyprocth (lp_thidx ?p)) s)\<lparr>l_cpuproc := None, l_frame := None\<rparr>"
  have c: "c < NPROC" "l_frame s = Some (c, lp_thidx ?p)" using table_invD(4,5) [OF assms(1,3)] by simp_all
  have "proc_inv (l_nexttid s) ?q"
    using table_invD(2) [OF assms(1) c(1)] by (simp add: same_inv_proc [OF copyprocth_same [OF table_invD(6) [OF assms(1,3)]]])
  moreover have "lp_state (l_proc s i) \<noteq> RUNNING" if "i < NPROC" for i
    using table_invD(3) [OF assms(1) that] assms(3,4) by auto
  ultimately have "table_inv ?s"
    by (intro table_invI) (use table_invD(1,2) [OF assms(1)] c(1) in \<open>auto split: if_splits\<close>)
  moreover have "l_held ?s" using assms(2-4) by (simp add: lock_inv_def)
  ultimately obtain s' where "scheduler_from (Suc c) ?s = Inr s'" "table_inv s'" "lock_inv s'"
    using scheduler_from_ok [of ?s "Suc c"] by auto
  then show thesis using that c(2) by (simp add: scheduler_return_def)
qed

end
