(* ===== verification/Lwp_Life.thy ===== *)
theory Lwp_Life
  imports Lwp_Steps
begin

text \<open>
  The invariant across the operations that create and destroy processes and threads: \<^verbatim>\<open>allocproc\<close>, \<^verbatim>\<open>fork\<close>, \<^verbatim>\<open>exit\<close>, \<^verbatim>\<open>wait\<close>, \<^verbatim>\<open>kill\<close>,
  the thread calls and \<^verbatim>\<open>exec\<close>.
\<close>

lemma rfold_stable:
  assumes "rfold f xs s = Inr s'" "I s" "\<And>x s s'. x \<in> set xs \<Longrightarrow> I s \<Longrightarrow> f x s = Inr s' \<Longrightarrow> I s'"
  shows "I s'"
  using assms by (induction xs arbitrary: s) (auto simp: rbind_eq_Inr)

lemma table_same:
  assumes "table_inv s" "l_proc s' = l_proc s" "l_nexttid s' = l_nexttid s" "l_cpuproc s' = l_cpuproc s" "l_frame s' = l_frame s"
  shows "table_inv s'"
  using assms(1) unfolding table_inv_def cpu_ok_def assms(2-5) .

section \<open>Allocation and fork\<close>

lemma allocth_cases:
  obtains (none) "allocth i s = (None, s)"
  | (some) t where "t < NTHREAD" "th_state (lp_thread (l_proc s i) t) = UNUSED"
      "allocth i s = (Some t, (upd_lp i (upd_th t (\<lambda>th. th\<lparr>th_tid := l_nexttid s, th_state := EMBRYO\<rparr>)) s)\<lparr>l_nexttid := l_nexttid s + 1\<rparr>)"
proof (cases "first_index (\<lambda>t. th_state (lp_thread (l_proc s i) t) = UNUSED) [0..<NTHREAD]")
  case None
  have "allocth i s = (None, s)" unfolding allocth_def None by simp
  then show thesis by (rule none)
next
  case (Some t)
  show thesis by (rule some) (use first_index_Some [OF Some] in \<open>auto simp: allocth_def Some\<close>)
qed

lemma table_allocth:
  assumes inv: "table_inv s" and i: "i < NPROC" and t: "t < NTHREAD" "th_state (lp_thread (l_proc s i) t) = UNUSED"
  shows "table_inv ((upd_lp i (upd_th t (\<lambda>th. th\<lparr>th_tid := l_nexttid s, th_state := EMBRYO\<rparr>)) s)\<lparr>l_nexttid := l_nexttid s + 1\<rparr>)" (is "table_inv ?s")
proof (rule table_invI)
  have 1: "1 \<le> l_nexttid s" using table_invD(1) [OF inv] .
  then show "1 \<le> l_nexttid ?s" by simp
  show "proc_inv (l_nexttid ?s) (l_proc ?s j)" if "j < NPROC" for j
    using table_invD(2) [OF inv that] alloc_thread_inv [OF table_invD(2) [OF inv i] t 1]
    by (cases "j = i") (simp_all add: proc_inv_mono)
  show "l_cpuproc ?s = Some j" if "j < NPROC" "lp_state (l_proc ?s j) = RUNNING" for j
    using that table_invD(3) [OF inv that(1)] by (cases "j = i") simp_all
  show "c < NPROC \<and> l_frame ?s = Some (c, lp_thidx (l_proc ?s c))
      \<and> lp_kstack (l_proc ?s c) = th_kstack (lp_thread (l_proc ?s c) (lp_thidx (l_proc ?s c)))" if "l_cpuproc ?s = Some c" for c
    using that table_invD(4-6) [OF inv, of c] by (cases "c = i") simp_all
qed

lemma lallocproc_ok:
  assumes inv: "table_inv s" and r: "allocproc ops s = Inr (r, s')" and cpu: "\<And>c. l_cpuproc s = Some c \<Longrightarrow> \<not> dormant (lp_state (l_proc s c))"
  shows "table_inv s' \<and> l_cpuproc s' = l_cpuproc s \<and> \<not> l_held s' \<and>
    (\<forall>j. l_proc s' j \<noteq> l_proc s j \<longrightarrow> j < NPROC \<and> lp_state (l_proc s j) = UNUSED) \<and>
    (\<forall>i. r = Some i \<longrightarrow> i < NPROC \<and> lp_state (l_proc s i) = UNUSED \<and> lp_state (l_proc s' i) = EMBRYO \<and> lp_kstack (l_proc s' i) \<noteq> 0)"
proof (cases "first_index (\<lambda>i. lp_state (l_proc s i) = UNUSED) [0..<NPROC]")
  case None
  have "r = None" "s' = s\<lparr>l_held := False\<rparr>" "\<not> l_held s" using r
    unfolding allocproc_def by (auto simp: rbind_eq_Inr acquire_eq release_eq None simp del: first_index_None)
  then show ?thesis using inv by simp
next
  case (Some i)
  then have i: "i < NPROC" "lp_state (l_proc s i) = UNUSED" using first_index_Some [OF Some] by auto
  have nc: "l_cpuproc s \<noteq> Some i" using cpu [of i] i(2) by auto
  obtain thidx s1 where a: "allocth i (s\<lparr>l_held := True\<rparr>) = (thidx, s1)" by fastforce
  define s2 where "s2 = (upd_lp i (\<lambda>p. p\<lparr>lp_state := EMBRYO, lp_pid := l_nextpid s1, lp_limit := 0\<rparr>) s1)
    \<lparr>l_nextpid := l_nextpid s1 + 1, l_held := False\<rparr>"
  obtain ks e where k: "o_kalloc ops (l_env s1) = (ks, e)" by fastforce
  have s1: "table_inv s1" "l_cpuproc s1 = l_cpuproc s" "lp_state (l_proc s1 i) = UNUSED" "l_held s1" "\<forall>j. j \<noteq> i \<longrightarrow> l_proc s1 j = l_proc s j"
    "\<forall>t. thidx = Some t \<longrightarrow> t < NTHREAD"
    by (cases rule: allocth_cases [of i "s\<lparr>l_held := True\<rparr>"];
        use a i inv table_allocth [of "s\<lparr>l_held := True\<rparr>" i] in auto)+
  have "\<not> l_held s" using r by (auto simp: allocproc_def rbind_eq_Inr acquire_eq)
  let ?s3 = "upd_lp i (\<lambda>p. p\<lparr>lp_kstack := ks\<rparr>) (s2\<lparr>l_env := e\<rparr>)"
  have pi: "proc_inv (l_nexttid s1) (l_proc s1 i)" using table_invD(2) [OF s1(1) i(1)] .
  have e: "proc_inv (l_nexttid s1) ((l_proc s1 i)\<lparr>lp_state := EMBRYO, lp_pid := b, lp_limit := x, lp_kstack := ks\<rparr>)" for b x
    using state_inv [OF pi, of EMBRYO] s1(3) by simp
  show ?thesis
  proof (cases "ks = 0")
    case False
    then have eq: "r = Some i" "s' = setup_kstack ops ks (upd_lp i (\<lambda>p. p\<lparr>lp_tf := kstack_tf ks, lp_context := kstack_context ks\<rparr>) ?s3)"
      using r \<open>\<not> l_held s\<close> a k s1(4) by (auto simp: allocproc_def acquire_def Some release_def Let_def s2_def)
    have "table_inv (s1\<lparr>l_proc := (l_proc s1)(i := (l_proc s1 i)\<lparr>lp_state := EMBRYO, lp_pid := l_nextpid s1, lp_limit := 0, lp_kstack := ks,
        lp_tf := kstack_tf ks, lp_context := kstack_context ks\<rparr>)\<rparr>)"
      by (rule table_upd [OF s1(1) i(1)]) (use e nc s1(2) in simp_all)
    then have "table_inv s'" by (rule table_same) (simp_all add: eq(2) s2_def setup_kstack_def)
    then show ?thesis using eq False s1 i by (auto simp: s2_def setup_kstack_def)
  next
    case True
    then obtain t where t: "thidx = Some t" "r = None"
      "s' = upd_lp i (\<lambda>p. upd_th t (\<lambda>th. th\<lparr>th_state := UNUSED\<rparr>) (p\<lparr>lp_state := UNUSED\<rparr>)) ?s3"
      using r \<open>\<not> l_held s\<close> a k s1(4) by (auto simp: allocproc_def acquire_def Some release_def Let_def s2_def split: option.splits)
    let ?q = "upd_th t (\<lambda>th. th\<lparr>th_state := UNUSED\<rparr>) ((l_proc s1 i)\<lparr>lp_pid := l_nextpid s1, lp_limit := 0, lp_kstack := ks, lp_state := UNUSED\<rparr>)"
    have t': "t < NTHREAD" using s1(6) t(1) by simp
    have p0: "proc_inv (l_nexttid s1) ((l_proc s1 i)\<lparr>lp_pid := l_nextpid s1, lp_limit := 0, lp_kstack := ks, lp_state := UNUSED\<rparr>)"
      by (rule state_inv) (use pi s1(3) in simp_all)
    have "dormant (th_state (lp_thread (l_proc s1 i) t))" using pi threads_okD(2) [OF _ _ t'] s1(3) by (simp add: proc_inv_def)
    then have "proc_inv (l_nexttid s1) ?q" by (intro upd_thread_inv [OF p0 t']) (auto simp: dormant_def)
    then have "table_inv (s1\<lparr>l_proc := (l_proc s1)(i := ?q)\<rparr>)"
      by (rule table_upd [OF s1(1) i(1)]) (use nc s1(2) in simp_all)
    then have "table_inv s'" by (rule table_same) (simp_all add: t(3) s2_def upd_th_def)
    then show ?thesis using t s1 i by (auto simp: s2_def)
  qed
qed

lemma on_cpu_soft:
  assumes "on_cpu c s" "i < NPROC" "same_inv q (l_proc s i)" "lp_kstack q = lp_kstack (l_proc s i)"
  shows "on_cpu c (s\<lparr>l_proc := (l_proc s)(i := q)\<rparr>)"
proof -
  have sel: "lp_state q = lp_state (l_proc s i)" "lp_thidx q = lp_thidx (l_proc s i)"
    "th_kstack (lp_thread q (lp_thidx q)) = th_kstack (lp_thread (l_proc s i) (lp_thidx (l_proc s i)))"
    using assms(3) by (simp_all add: same_inv_def)
  have "proc_inv (l_nexttid s) q"
    using table_invD(2) [OF on_cpuD(1) [OF assms(1)] assms(2)] same_inv_proc [OF assms(3)] by simp
  then have "table_inv (s\<lparr>l_proc := (l_proc s)(i := q)\<rparr>)"
    by (rule table_upd [OF on_cpuD(1) [OF assms(1)] assms(2)])
      (use sel assms(4) table_invD(6) [OF on_cpuD(1) [OF assms(1)], of i] in simp_all)
  then show ?thesis using on_cpuD(2,3) [OF assms(1)] sel(1) by (auto simp: on_cpu_def)
qed

lemma on_cpu_thread:
  assumes "on_cpu c s" "i < NPROC" "proc_inv (l_nexttid s) (upd_th t f (l_proc s i))"
    "i = c \<Longrightarrow> t = lp_thidx (l_proc s c) \<Longrightarrow> th_kstack (f (lp_thread (l_proc s c) t)) = th_kstack (lp_thread (l_proc s c) t)"
  shows "on_cpu c (upd_lp i (upd_th t f) s)"
proof (cases "i = c")
  case True
  show ?thesis unfolding True
    by (rule on_cpu_upd [OF assms(1)]) (use assms(3,4) True kstack_eq [OF assms(1)] on_cpuD(3) [OF assms(1)] in auto)
next
  case False
  have "lp_state (l_proc s i) \<noteq> RUNNING"
    using False table_invD(3) [OF on_cpuD(1) [OF assms(1)] assms(2)] on_cpuD(2) [OF assms(1)] by auto
  then show ?thesis using on_cpu_other [OF assms(1,2) False assms(3)] by simp
qed

lemma other_not_running:
  assumes "on_cpu c s" "t < NTHREAD" "t \<noteq> lp_thidx (l_proc s c)"
  shows "th_state (lp_thread (l_proc s c) t) \<noteq> RUNNING"
  using threads_okD(6) [OF on_cpuD(6) [OF assms(1)] assms(2)] assms(3) by blast

lemma growproc_ok:
  assumes "on_cpu c s" "growproc ops n s = Inr (r, s')"
  shows "on_cpu c s'"
proof -
  from assms(2) on_cpuD(2) [OF assms(1)] obtain sz e where
    "s' = s \<or> s' = s\<lparr>l_env := e\<rparr> \<or> s' = upd_lp c (\<lambda>p. p\<lparr>lp_sz := sz\<rparr>) (s\<lparr>l_env := e\<rparr>)"
    by (auto simp: growproc_def Let_def rbind_eq_Inr switchuvm_def split: if_splits)
  moreover have "on_cpu c (upd_lp c (\<lambda>p. p\<lparr>lp_sz := sz\<rparr>) (s\<lparr>l_env := e\<rparr>))"
    by (rule on_cpu_soft) (use assms(1) on_cpuD(4) [OF assms(1)] in \<open>simp_all add: same_inv_def\<close>)
  ultimately show ?thesis using assms(1) by auto
qed

text \<open>The state of \<^verbatim>\<open>fork\<close> while it fills in the new process \<open>n\<close>.\<close>

definition fork_mid :: "nat \<Rightarrow> nat \<Rightarrow> 'k lwp \<Rightarrow> bool" where
  "fork_mid c n s \<longleftrightarrow> on_cpu c s \<and> n < NPROC \<and> n \<noteq> c \<and> lp_state (l_proc s n) = EMBRYO \<and> lp_pgdir (l_proc s n) \<noteq> 0 \<and> lp_kstack (l_proc s n) \<noteq> 0"

lemma fork_mid_upd:
  assumes "fork_mid c n s" "same_inv q (l_proc s n)" "lp_kstack q = lp_kstack (l_proc s n)"
  shows "fork_mid c n (s\<lparr>l_proc := (l_proc s)(n := q)\<rparr>)"
  using assms on_cpu_soft [of c s n q] by (auto simp: fork_mid_def same_inv_def)

lemma fork_mid_env [simp]: "fork_mid c n (s\<lparr>l_env := e\<rparr>) = fork_mid c n s" "fork_mid c n (s\<lparr>l_tfs := f\<rparr>) = fork_mid c n s"
  by (simp_all add: fork_mid_def)

lemma start_proc_ok:
  assumes "fork_mid c n s" "start_proc n s = Inr s'"
  shows "on_cpu c s'"
proof -
  have m: "on_cpu c s" "n < NPROC" "n \<noteq> c" "lp_state (l_proc s n) = EMBRYO" "lp_pgdir (l_proc s n) \<noteq> 0" "lp_kstack (l_proc s n) \<noteq> 0"
    using assms(1) by (simp_all add: fork_mid_def)
  have "proc_inv (l_nexttid s) (start_thread (l_proc s n))"
    using start_inv [OF table_invD(2) [OF on_cpuD(1) [OF m(1)] m(2)]] m(4-6) by simp
  then have "on_cpu c (upd_lp n start_thread (s\<lparr>l_held := True\<rparr>))"
    using m(1) by (intro on_cpu_other) (simp_all add: start_thread_def m)
  moreover have "s' = (upd_lp n start_thread (s\<lparr>l_held := True\<rparr>))\<lparr>l_held := False\<rparr>"
    using assms(2) by (auto simp: start_proc_def rbind_eq_Inr acquire_eq release_eq)
  ultimately show ?thesis by (simp only: on_cpu_fields)
qed

lemma fork_files:
  assumes "rfold (\<lambda>fd s. let f = lp_ofile (l_proc s c) ! fd in
      if f \<noteq> 0 then rbind (lenv_call (o_filedup ops f) s) (\<lambda>s. Inr (upd_lp n (\<lambda>p. p\<lparr>lp_ofile := (lp_ofile p)[fd := f]\<rparr>) s))
      else Inr s) xs s = Inr s'" "fork_mid c n s"
  shows "fork_mid c n s'"
proof (rule rfold_stable [where I = "fork_mid c n", OF assms])
  fix fd s s'
  assume m: "fork_mid c n s" and r: "(let f = lp_ofile (l_proc s c) ! fd in
      if f \<noteq> 0 then rbind (lenv_call (o_filedup ops f) s) (\<lambda>s. Inr (upd_lp n (\<lambda>p. p\<lparr>lp_ofile := (lp_ofile p)[fd := f]\<rparr>) s))
      else Inr s) = Inr s'"
  from r consider "s' = s" | e f where "s' = upd_lp n (\<lambda>p. p\<lparr>lp_ofile := (lp_ofile p)[fd := f]\<rparr>) (s\<lparr>l_env := e\<rparr>)"
    by (auto simp: Let_def rbind_eq_Inr lenv_call_eq split: if_splits)
  then show "fork_mid c n s'"
  proof cases
    case 2
    show ?thesis unfolding 2 by (rule fork_mid_upd) (use m in \<open>simp_all add: same_inv_def\<close>)
  qed (use m in simp)
qed

lemma fork_stacks_sel:
  "same_inv (fork_stacks cp np) np" "lp_kstack (fork_stacks cp np) = lp_kstack np"
  by (auto simp: fork_stacks_def same_inv_def)

lemma fork_fill:
  assumes m: "fork_mid c n s" and r: "rbind (lenv_call (o_idup ops ip) s) (\<lambda>s.
      let cp = l_proc s c; s = upd_lp n (\<lambda>p. fork_stacks cp (p\<lparr>lp_cwd := lp_cwd cp,
            lp_name := safestrcpy_name (lp_name cp), lp_limit := lp_limit cp, lp_stacksize := lp_stacksize cp\<rparr>)) s;
          pid = lp_pid (l_proc s n) in
      rbind (start_proc n s) (\<lambda>s. Inr (pid, s))) = Inr (v, s')"
  shows "on_cpu c s'"
proof -
  from r obtain e where "start_proc n (upd_lp n (\<lambda>p. fork_stacks (l_proc s c) (p\<lparr>lp_cwd := lp_cwd (l_proc s c),
            lp_name := safestrcpy_name (lp_name (l_proc s c)), lp_limit := lp_limit (l_proc s c), lp_stacksize := lp_stacksize (l_proc s c)\<rparr>))
      (s\<lparr>l_env := e\<rparr>)) = Inr s'"
    by (auto simp: Let_def rbind_eq_Inr lenv_call_eq)
  moreover have "fork_mid c n (upd_lp n (\<lambda>p. fork_stacks (l_proc s c) (p\<lparr>lp_cwd := lp_cwd (l_proc s c),
            lp_name := safestrcpy_name (lp_name (l_proc s c)), lp_limit := lp_limit (l_proc s c), lp_stacksize := lp_stacksize (l_proc s c)\<rparr>))
      (s\<lparr>l_env := e\<rparr>))"
    by (rule fork_mid_upd) (use m fork_stacks_sel in \<open>simp_all add: same_inv_def\<close>)
  ultimately show ?thesis using start_proc_ok by blast
qed

lemma lfork_ok:
  assumes on: "on_cpu c s" and r: "fork ops s = Inr (v, s')"
  shows "on_cpu c s'"
proof -
  from r on_cpuD(2) [OF on] obtain np s1 where a: "allocproc ops s = Inr (np, s1)"
    by (auto simp: fork_def rbind_eq_Inr)
  from lallocproc_ok [OF on_cpuD(1) [OF on] a] on_cpuD(2,3) [OF on]
  have s1: "table_inv s1" "l_cpuproc s1 = Some c" "\<forall>j. l_proc s1 j \<noteq> l_proc s j \<longrightarrow> j < NPROC \<and> lp_state (l_proc s j) = UNUSED"
    "\<forall>i. np = Some i \<longrightarrow> i < NPROC \<and> lp_state (l_proc s i) = UNUSED \<and> lp_state (l_proc s1 i) = EMBRYO \<and> lp_kstack (l_proc s1 i) \<noteq> 0"
    by auto
  have "l_proc s1 c = l_proc s c" using s1(3) on_cpuD(3) [OF on] by force
  then have on1: "on_cpu c s1" using s1(1,2) on_cpuD(3) [OF on] by (simp add: on_cpu_def)
  show ?thesis
  proof (cases np)
    case None
    then have "s' = s1" using r a on_cpuD(2) [OF on] by (simp add: fork_def)
    then show ?thesis using on1 by simp
  next
    case (Some n)
    have n: "n < NPROC" "n \<noteq> c" "lp_state (l_proc s1 n) = EMBRYO" "lp_kstack (l_proc s1 n) \<noteq> 0"
      using s1(4) Some on_cpuD(3) [OF on] by auto
    have pi: "proc_inv (l_nexttid s1) (l_proc s1 n)" using table_invD(2) [OF s1(1) n(1)] .
    from r a Some on_cpuD(2) [OF on] obtain pg e where cv: "o_copyuvm ops (lp_pgdir (l_proc s1 c)) (lp_sz (l_proc s1 c)) (l_env s1) = Inr (pg, e)"
      by (auto simp: fork_def rbind_eq_Inr)
    let ?s2 = "upd_lp n (\<lambda>p. p\<lparr>lp_pgdir := pg\<rparr>) (s1\<lparr>l_env := e\<rparr>)"
    have on2: "on_cpu c ?s2"
      by (rule on_cpu_other) (use on1 n pi pgdir_inv [OF pi] in simp_all)
    show ?thesis
    proof (cases "pg = 0")
      case True
      then obtain e' where s': "s' = upd_lp n (\<lambda>p. upd_th (lp_thidx p) (\<lambda>th. th\<lparr>th_state := UNUSED\<rparr>) (p\<lparr>lp_kstack := 0, lp_state := UNUSED\<rparr>)) (?s2\<lparr>l_env := e'\<rparr>)"
        using r a Some cv on_cpuD(2) [OF on] by (auto simp: fork_def Let_def rbind_eq_Inr lenv_call_eq)
      let ?p = "l_proc ?s2 n"
      have p2: "proc_inv (l_nexttid ?s2) ?p" using table_invD(2) [OF on_cpuD(1) [OF on2] n(1)] .
      have p3: "proc_inv (l_nexttid ?s2) (?p\<lparr>lp_kstack := 0, lp_state := UNUSED\<rparr>)"
        by (rule state_inv) (use p2 n(3) in simp_all)
      have idx: "lp_thidx ?p < NTHREAD" using p2 threads_okD(1) [of ?p] by (simp add: proc_inv_def)
      have "dormant (th_state (lp_thread ?p (lp_thidx ?p)))" using p2 threads_okD(2) [of ?p, OF _ _ idx] n(3) by (simp add: proc_inv_def)
      then have "proc_inv (l_nexttid ?s2) (upd_th (lp_thidx ?p) (\<lambda>th. th\<lparr>th_state := UNUSED\<rparr>) (?p\<lparr>lp_kstack := 0, lp_state := UNUSED\<rparr>))"
        by (intro upd_thread_inv [OF p3 idx]) (auto simp: dormant_def)
      moreover have "on_cpu c (?s2\<lparr>l_env := e'\<rparr>)" using on2 by (simp only: on_cpu_fields)
      ultimately show ?thesis unfolding s' by (intro on_cpu_other) (use n in simp_all)
    next
      case False
      let ?s3 = "upd_lp n (\<lambda>p. p\<lparr>lp_sz := lp_sz (l_proc ?s2 c), lp_parent := Some c\<rparr>) ?s2"
      let ?s4 = "?s3\<lparr>l_tfs := (l_tfs ?s3)(lp_tf (l_proc ?s3 n) := (l_tfs ?s3 (lp_tf (l_proc ?s2 c)))\<lparr>tf_eax := 0\<rparr>)\<rparr>"
      have "fork_mid c n ?s2" using on2 n False by (simp add: fork_mid_def)
      then have "fork_mid c n ?s3" by (rule fork_mid_upd) (simp_all add: same_inv_def)
      then have m4: "fork_mid c n ?s4" by simp
      from r a Some cv False on_cpuD(2) [OF on] obtain s5 where
        f: "rfold (\<lambda>fd s. let f = lp_ofile (l_proc s c) ! fd in
          if f \<noteq> 0 then rbind (lenv_call (o_filedup ops f) s) (\<lambda>s. Inr (upd_lp n (\<lambda>p. p\<lparr>lp_ofile := (lp_ofile p)[fd := f]\<rparr>) s))
          else Inr s) [0..<NOFILE] ?s4 = Inr s5"
        and g: "rbind (lenv_call (o_idup ops (lp_cwd (l_proc s5 c))) s5) (\<lambda>s.
          let cp = l_proc s c; s = upd_lp n (\<lambda>p. fork_stacks cp (p\<lparr>lp_cwd := lp_cwd cp,
                lp_name := safestrcpy_name (lp_name cp), lp_limit := lp_limit cp, lp_stacksize := lp_stacksize cp\<rparr>)) s;
              pid = lp_pid (l_proc s n) in
          rbind (start_proc n s) (\<lambda>s. Inr (pid, s))) = Inr (v, s')"
        unfolding fork_def by (simp only: Let_def option.case rbind_simps prod.case if_False rbind_eq_Inr) blast
      show ?thesis by (rule fork_fill [OF fork_files [OF f m4] g])
    qed
  qed
qed

end
