(* ===== verification/Lwp_Calls.thy ===== *)
theory Lwp_Calls
  imports Lwp_Life
begin

text \<open>
  The invariant across \<^verbatim>\<open>exit\<close>, \<^verbatim>\<open>wait\<close>, \<^verbatim>\<open>kill\<close>, memory limits, the thread calls and \<^verbatim>\<open>exec\<close>.
\<close>

section \<open>Exit, wait, kill\<close>

lemma exit_files:
  assumes "rfold (\<lambda>fd s. let f = lp_ofile (l_proc s c) ! fd in
      if f \<noteq> 0 then rbind (lenv_call (o_fileclose ops f) s) (\<lambda>s. Inr (upd_lp c (\<lambda>p. p\<lparr>lp_ofile := (lp_ofile p)[fd := 0]\<rparr>) s))
      else Inr s) xs s = Inr s'" "on_cpu c s"
  shows "on_cpu c s'"
proof (rule rfold_stable [where I = "on_cpu c", OF assms])
  fix fd s s'
  assume m: "on_cpu c s" and r: "(let f = lp_ofile (l_proc s c) ! fd in
      if f \<noteq> 0 then rbind (lenv_call (o_fileclose ops f) s) (\<lambda>s. Inr (upd_lp c (\<lambda>p. p\<lparr>lp_ofile := (lp_ofile p)[fd := 0]\<rparr>) s))
      else Inr s) = Inr s'"
  from r consider "s' = s" | e where "s' = upd_lp c (\<lambda>p. p\<lparr>lp_ofile := (lp_ofile p)[fd := 0]\<rparr>) (s\<lparr>l_env := e\<rparr>)"
    by (auto simp: Let_def rbind_eq_Inr lenv_call_eq split: if_splits)
  then show "on_cpu c s'"
  proof cases
    case 2
    show ?thesis unfolding 2 by (rule on_cpu_soft) (use m on_cpuD(4) [OF m] in \<open>simp_all add: same_inv_def\<close>)
  qed (use m in simp)
qed

lemma reparent_ok:
  assumes "on_cpu c s" "i < NPROC"
  shows "on_cpu c (reparent d i s)"
proof -
  have "on_cpu c (upd_lp i (\<lambda>p. p\<lparr>lp_parent := l_initproc s\<rparr>) s)"
    by (rule on_cpu_soft [OF assms]) (simp_all add: same_inv_def)
  then show ?thesis using assms(1) by (simp add: reparent_def Let_def wakeup1_on_cpu)
qed

lemma reparent_fold: "set xs \<subseteq> {..<NPROC} \<Longrightarrow> on_cpu c s \<Longrightarrow> on_cpu c (fold (reparent d) xs s)"
  by (induction xs arbitrary: s) (auto simp: reparent_ok)

lemma exit_ok:
  assumes on: "on_cpu c s" and r: "exit ops ctx s = Inr s'"
  shows "after_call c s'"
proof -
  from r on_cpuD(2) [OF on] obtain s1 e where
    f: "rfold (\<lambda>fd s. let f = lp_ofile (l_proc s c) ! fd in
      if f \<noteq> 0 then rbind (lenv_call (o_fileclose ops f) s) (\<lambda>s. Inr (upd_lp c (\<lambda>p. p\<lparr>lp_ofile := (lp_ofile p)[fd := 0]\<rparr>) s))
      else Inr s) [0..<NOFILE] s = Inr s1"
    and g: "rbind (acquire (upd_lp c (\<lambda>p. p\<lparr>lp_cwd := 0\<rparr>) (s1\<lparr>l_env := e\<rparr>))) (\<lambda>s.
            let s = wakeup1 (chan_of (lp_parent (l_proc s c))) s; s = fold (reparent c) [0..<NPROC] s
            in sched ctx (upd_lp c (\<lambda>p. p\<lparr>lp_state := ZOMBIE\<rparr>) s)) = Inr s'"
    by (auto simp: exit_def rbind_eq_Inr lenv_call_eq split: if_splits) blast
  have on1: "on_cpu c s1" by (rule exit_files [OF f on])
  let ?s2 = "(upd_lp c (\<lambda>p. p\<lparr>lp_cwd := 0\<rparr>) (s1\<lparr>l_env := e\<rparr>))\<lparr>l_held := True\<rparr>"
  have "on_cpu c (upd_lp c (\<lambda>p. p\<lparr>lp_cwd := 0\<rparr>) (s1\<lparr>l_env := e\<rparr>))"
    by (rule on_cpu_soft) (use on1 on_cpuD(4) [OF on] in \<open>simp_all add: same_inv_def\<close>)
  then have on2: "on_cpu c ?s2" by (simp only: on_cpu_fields)
  define s3 where "s3 = fold (reparent c) [0..<NPROC] (wakeup1 (chan_of (lp_parent (l_proc ?s2 c))) ?s2)"
  have on3: "on_cpu c s3" unfolding s3_def by (rule reparent_fold) (use wakeup1_on_cpu [OF on2] in auto)
  have "sched ctx (upd_lp c (\<lambda>p. p\<lparr>lp_state := ZOMBIE\<rparr>) s3) = Inr s'"
    using g unfolding s3_def by (auto simp: rbind_eq_Inr acquire_eq Let_def)
  moreover have "table_inv (upd_lp c (\<lambda>p. p\<lparr>lp_state := ZOMBIE\<rparr>) s3)"
    by (rule cpu_upd [OF on3]) (use state_inv [OF on_cpuD(5) [OF on3], of ZOMBIE] on_cpuD(3) [OF on3] kstack_eq [OF on3] in simp_all)
  ultimately show ?thesis using sched_ok on_cpuD(2) [OF on3] by fastforce
qed

lemma free_kstack_eq: "free_kstack ops i t s = Inr s' \<Longrightarrow> \<exists>e. s' = s\<lparr>l_env := e\<rparr>"
  by (cases s) (auto simp: free_kstack_def Let_def lenv_call_eq split: if_splits)

text \<open>What \<^verbatim>\<open>wait\<close> leaves of a zombie: every thread slot is unused.\<close>

lemma reap_threads:
  assumes "rfold (reap_thread ops i) xs s = Inr s'"
  shows "\<exists>e p. s' = s\<lparr>l_proc := (l_proc s)(i := p), l_env := e\<rparr> \<and> lp_state p = lp_state (l_proc s i) \<and> lp_thidx p = lp_thidx (l_proc s i)
    \<and> lp_pgdir p = lp_pgdir (l_proc s i) \<and> (\<forall>t\<in>set xs. th_state (lp_thread p t) = UNUSED)
    \<and> (\<forall>t. th_state (lp_thread p t) = UNUSED \<and> th_tid (lp_thread p t) \<in> {0, th_tid (lp_thread (l_proc s i) t)}
        \<or> lp_thread p t = lp_thread (l_proc s i) t)"
  using assms
proof (induction xs arbitrary: s)
  case Nil
  then show ?case by (intro exI [of _ "l_env s"] exI [of _ "l_proc s i"]) simp
next
  case (Cons t xs)
  then obtain s1 where s1: "reap_thread ops i t s = Inr s1" "rfold (reap_thread ops i) xs s1 = Inr s'" by (auto simp: rbind_eq_Inr)
  from s1(1) obtain p e where p: "s1 = s\<lparr>l_proc := (l_proc s)(i := p), l_env := e\<rparr>" "lp_state p = lp_state (l_proc s i)"
    "lp_thidx p = lp_thidx (l_proc s i)" "lp_pgdir p = lp_pgdir (l_proc s i)" "th_state (lp_thread p t) = UNUSED"
    "\<And>u. th_state (lp_thread p u) = UNUSED \<and> th_tid (lp_thread p u) \<in> {0, th_tid (lp_thread (l_proc s i) u)} \<or> lp_thread p u = lp_thread (l_proc s i) u"
  proof (cases "th_state (lp_thread (l_proc s i) t) = UNUSED")
    case True
    then show thesis using that [where p = "(l_proc s i)\<lparr>lp_freedustack := (lp_freedustack (l_proc s i))(t := 0)\<rparr>" and e = "l_env s"] s1(1)
      by (simp add: reap_thread_def Let_def)
  next
    case False
    then obtain e where "s1 = upd_lp i (upd_th t clear_thread) ((upd_lp i (\<lambda>p. p\<lparr>lp_freedustack := (lp_freedustack p)(t := 0)\<rparr>) s)\<lparr>l_env := e\<rparr>)"
      using s1(1) by (auto simp: reap_thread_def Let_def rbind_eq_Inr dest!: free_kstack_eq)
    then show thesis
      by (intro that [where p = "upd_th t clear_thread ((l_proc s i)\<lparr>lp_freedustack := (lp_freedustack (l_proc s i))(t := 0)\<rparr>)" and e = e])
        (simp_all add: clear_thread_def)
  qed
  from Cons.IH [OF s1(2)] obtain e' p' where p': "s' = s1\<lparr>l_proc := (l_proc s1)(i := p'), l_env := e'\<rparr>" "lp_state p' = lp_state (l_proc s1 i)"
    "lp_thidx p' = lp_thidx (l_proc s1 i)" "lp_pgdir p' = lp_pgdir (l_proc s1 i)" "\<forall>t\<in>set xs. th_state (lp_thread p' t) = UNUSED"
    "\<forall>t. th_state (lp_thread p' t) = UNUSED \<and> th_tid (lp_thread p' t) \<in> {0, th_tid (lp_thread (l_proc s1 i) t)}
        \<or> lp_thread p' t = lp_thread (l_proc s1 i) t" by blast
  have l: "l_proc s1 i = p" using p(1) by simp
  have "s' = s\<lparr>l_proc := (l_proc s)(i := p'), l_env := e'\<rparr>" using p'(1) p(1) by simp
  moreover have "th_state (lp_thread p' t) = UNUSED" using p'(6) p(5) unfolding l by metis
  moreover have "th_state (lp_thread p' u) = UNUSED \<and> th_tid (lp_thread p' u) \<in> {0, th_tid (lp_thread (l_proc s i) u)}
      \<or> lp_thread p' u = lp_thread (l_proc s i) u" for u
    using p'(6) p(6) [of u] unfolding l by (metis insertE insertI1 insertI2 singletonD)
  ultimately show ?case using p'(2-5) p(2-4) unfolding l by (intro exI [of _ e'] exI [of _ p']) (auto simp: fun_upd_def)
qed

lemma lreap_ok:
  assumes on: "on_cpu c s" and i: "i < NPROC" "lp_state (l_proc s i) = ZOMBIE" and r: "reap ops i s = Inr s'"
  shows "on_cpu c s' \<and> l_held s' = l_held s"
proof -
  have ic: "i \<noteq> c" using on_cpuD(3) [OF on] i(2) by auto
  from r obtain e where f: "rfold (reap_thread ops i) [0..<NTHREAD]
      (upd_lp i (\<lambda>p. p\<lparr>lp_pid := 0, lp_parent := None, lp_name := [], lp_killed := False,
             lp_state := UNUSED, lp_limit := 0, lp_ustack := 0\<rparr>) ((upd_lp i (\<lambda>p. p\<lparr>lp_kstack := 0\<rparr>) s)\<lparr>l_env := e\<rparr>)) = Inr s'"
    unfolding reap_def by (auto simp: Let_def rbind_eq_Inr lenv_call_eq)
  from reap_threads [OF f] obtain e' p where p: "s' = s\<lparr>l_proc := (l_proc s)(i := p), l_env := e'\<rparr>"
    "lp_state p = UNUSED" "lp_thidx p = lp_thidx (l_proc s i)" "\<forall>t<NTHREAD. th_state (lp_thread p t) = UNUSED"
    "\<forall>t. th_state (lp_thread p t) = UNUSED \<and> th_tid (lp_thread p t) \<in> {0, th_tid (lp_thread (l_proc s i) t)}
        \<or> lp_thread p t = lp_thread (l_proc s i) t" by auto
  have pi: "proc_inv (l_nexttid s) (l_proc s i)" using table_invD(2) [OF on_cpuD(1) [OF on] i(1)] .
  then have ok: "tids_ok (l_nexttid s) (l_proc s i)" "threads_ok (l_proc s i)" by (simp_all add: proc_inv_def)
  have tid: "th_tid (lp_thread p t) = 0 \<or> th_tid (lp_thread p t) = th_tid (lp_thread (l_proc s i) t)" for t using p(5) by auto
  have "threads_ok p" by (rule threads_okI) (use p(2,3,4) threads_okD(1) [OF ok(2)] in auto)
  moreover have "tids_ok (l_nexttid s) p"
  proof -
    have "0 \<le> th_tid (lp_thread p t) \<and> th_tid (lp_thread p t) < l_nexttid s" if "t < NTHREAD" for t
      using tid [of t] tids_okD(1,2) [OF ok(1) that] by linarith
    moreover have "th_tid (lp_thread p t) = 0" if "t < NTHREAD" "u < NTHREAD" "t \<noteq> u" "th_tid (lp_thread p t) = th_tid (lp_thread p u)" for t u
      using tid [of t] tid [of u] tids_okD(3) [OF ok(1) that(1-3)] that(4) by argo
    ultimately show ?thesis using p(4) unfolding tids_ok_def by blast
  qed
  ultimately have "on_cpu c (s\<lparr>l_proc := (l_proc s)(i := p)\<rparr>)"
    by (intro on_cpu_other [OF on i(1) ic]) (simp_all add: proc_inv_def p(2))
  then show ?thesis unfolding p(1) by simp
qed

lemma lwait_scan_Some: "wait_scan c s xs k = (h, Some i) \<Longrightarrow> i \<in> set xs \<and> lp_parent (l_proc s i) = Some c \<and> lp_state (l_proc s i) = ZOMBIE"
  by (induction xs arbitrary: k) (auto split: if_splits)

lemma wait_loop_ok:
  assumes on: "on_cpu c s" and r: "wait_loop ops ctx c s = Inr (v, s')"
  shows "after_call c s'"
proof -
  obtain h i where w: "wait_scan c s [0..<NPROC] False = (h, i)" by fastforce
  show ?thesis
  proof (cases i)
    case None
    then show ?thesis using r w on on_cpu_after [OF on] sleep_ok [OF on]
      by (auto simp: wait_loop_def rbind_eq_Inr release_eq on_cpu_after split: if_splits)
  next
    case (Some j)
    from lwait_scan_Some [of c s "[0..<NPROC]" False h j] w Some have j: "j < NPROC" "lp_state (l_proc s j) = ZOMBIE" by auto
    from r w Some obtain s1 where "reap ops j s = Inr s1" "s' = s1\<lparr>l_held := False\<rparr>"
      by (auto simp: wait_loop_def rbind_eq_Inr release_eq)
    moreover from this(1) have "on_cpu c s1" using lreap_ok [OF on j] by blast
    ultimately show ?thesis by (simp add: on_cpu_after)
  qed
qed

lemma wait_ok:
  assumes "on_cpu c s" "wait ops ctx s = Inr (v, s')"
  shows "after_call c s'"
  using assms on_cpuD(2) [OF assms(1)] wait_loop_ok [of c "s\<lparr>l_held := True\<rparr>" ops ctx v s']
  by (auto simp: wait_def rbind_eq_Inr acquire_eq)

lemma wait_resume_ok: "on_cpu c s \<Longrightarrow> wait_resume ops ctx c s = Inr (v, s') \<Longrightarrow> after_call c s'"
  unfolding wait_resume_def rbind_eq_Inr by (blast intro: wait_loop_ok sleep_resume_ok)

lemma kill_ok:
  assumes on: "on_cpu c s" and r: "kill pid s = Inr (v, s')"
  shows "on_cpu c s'"
proof (cases "first_index (\<lambda>i. lp_pid (l_proc s i) = pid) [0..<NPROC]")
  case None
  then have "s' = s\<lparr>l_held := False\<rparr>" using r
    unfolding kill_def by (auto simp: rbind_eq_Inr acquire_eq release_eq None simp del: first_index_None)
  then show ?thesis using on by simp
next
  case (Some i)
  let ?s = "s\<lparr>l_held := True\<rparr>"
  let ?s1 = "upd_lp i (\<lambda>p. p\<lparr>lp_killed := True\<rparr>) ?s"
  let ?f = "\<lambda>th. if th_state th = SLEEPING then th\<lparr>th_state := RUNNABLE\<rparr> else th"
  have i: "i < NPROC" using first_index_Some [OF Some] by simp
  have on1: "on_cpu c ?s1" by (rule on_cpu_soft) (use on i in \<open>simp_all add: same_inv_def\<close>)
  have pi: "proc_inv (l_nexttid ?s1) (l_proc ?s1 i)" using table_invD(2) [OF on_cpuD(1) [OF on1] i] .
  then have ok: "threads_ok (l_proc ?s1 i)" by (simp add: proc_inv_def)
  have "proc_inv (l_nexttid ?s1) (upd_th (lp_thidx (l_proc ?s1 i)) ?f (l_proc ?s1 i))"
    by (rule upd_thread_inv [OF pi threads_okD(1) [OF ok]])
      (use threads_okD(2,5) [OF ok, of "lp_thidx (l_proc ?s1 i)"] threads_okD(1,3) [OF ok] in auto)
  then have "on_cpu c (upd_lp i (upd_th (lp_thidx (l_proc ?s1 i)) ?f) ?s1)"
    by (rule on_cpu_thread [OF on1 i]) simp
  moreover have "s' = (upd_lp i (upd_th (lp_thidx (l_proc ?s1 i)) ?f) ?s1)\<lparr>l_held := False\<rparr>"
    using r by (auto simp: kill_def rbind_eq_Inr acquire_eq release_eq Some)
  ultimately show ?thesis by (simp only: on_cpu_fields)
qed

lemma setmemorylimit_ok:
  assumes on: "on_cpu c s" and r: "setmemorylimit pid limit s = Inr (v, s')"
  shows "on_cpu c s'"
proof -
  let ?i = "first_index (\<lambda>i. lp_pid (l_proc s i) = pid \<and> lp_state (l_proc s i) \<noteq> UNUSED) [0..<NPROC]"
  have g: "getProc pid s = Inr (?i, s\<lparr>l_held := False\<rparr>)"
    using r by (auto simp: setmemorylimit_def getProc_def rbind_eq_Inr acquire_def release_def split: if_splits)
  show ?thesis
  proof (cases ?i)
    case None
    have "s' = s\<lparr>l_held := False\<rparr>" using r by (simp add: setmemorylimit_def g None del: first_index_None)
    then show ?thesis using on by simp
  next
    case (Some i)
    have i: "i < NPROC" using first_index_Some [OF Some] by simp
    have "on_cpu c (upd_lp i (\<lambda>p. p\<lparr>lp_limit := word_of_int limit\<rparr>) (s\<lparr>l_held := False\<rparr>))"
      by (rule on_cpu_soft) (use on i in \<open>simp_all add: same_inv_def\<close>)
    then show ?thesis using r on by (auto simp: setmemorylimit_def g Some split: if_splits)
  qed
qed

end
