(* ===== verification/Lwp_Thread_Ops.thy ===== *)
theory Lwp_Thread_Ops
  imports Lwp_Calls
begin

text \<open>
  The invariant across \<^verbatim>\<open>thread_create\<close>, \<^verbatim>\<open>thread_exit\<close>, \<^verbatim>\<open>thread_join\<close> and \<^verbatim>\<open>exec\<close>, with the forms in which their results are used
  later: \<open>thread_create_cases\<close>, \<open>thread_exit_eq\<close> and \<open>join_step\<close>.
\<close>

lemma on_cpu_same:
  assumes "on_cpu c s" "l_proc s' = l_proc s" "l_nexttid s' = l_nexttid s" "l_cpuproc s' = l_cpuproc s" "l_frame s' = l_frame s"
  shows "on_cpu c s'"
  using table_same [OF on_cpuD(1) [OF assms(1)] assms(2-5)] on_cpuD(2,3) [OF assms(1)] assms(2,4) by (simp add: on_cpu_def)

section \<open>thread_create\<close>

text \<open>While \<^verbatim>\<open>thread_create\<close> sets up thread \<open>t\<close> of the running process.\<close>

definition create_mid :: "nat \<Rightarrow> nat \<Rightarrow> 'k lwp \<Rightarrow> bool" where
  "create_mid c t s \<longleftrightarrow> on_cpu c s \<and> l_held s \<and> t < NTHREAD \<and> t \<noteq> lp_thidx (l_proc s c)
     \<and> th_state (lp_thread (l_proc s c) t) = EMBRYO \<and> th_kstack (lp_thread (l_proc s c) t) \<noteq> 0"

lemma create_mid_env [simp]: "create_mid c t (s\<lparr>l_env := e\<rparr>) = create_mid c t s" "create_mid c t (s\<lparr>l_tfs := f\<rparr>) = create_mid c t s"
  "create_mid c t (setup_kstack ops ks s) = create_mid c t s"
  by (simp_all add: create_mid_def setup_kstack_def)

lemma create_mid_upd:
  assumes "create_mid c t s" "same_inv q (l_proc s c)" "lp_kstack q = lp_kstack (l_proc s c)"
  shows "create_mid c t (s\<lparr>l_proc := (l_proc s)(c := q)\<rparr>)"
proof -
  have on: "on_cpu c s" using assms(1) by (simp add: create_mid_def)
  show ?thesis using assms on_cpu_soft [OF on on_cpuD(4) [OF on] assms(2,3)] by (simp add: create_mid_def same_inv_def)
qed

lemma thread_ustack_ok:
  assumes "create_mid c t s" "thread_ustack ops c t s = Inr (r, s')"
  shows "create_mid c t s'"
proof (cases "lp_freedustack (l_proc s c) t = 0")
  case True
  then have "\<exists>e. s' = s\<lparr>l_env := e\<rparr>" using assms(2)
    by (auto simp: thread_ustack_def Let_def rbind_eq_Inr lenv_call_eq split: if_splits)
  then show ?thesis using assms(1) by auto
next
  case False
  then have s': "s' = upd_lp c (\<lambda>p. p\<lparr>lp_freedustack := (lp_freedustack p)(t := 0)\<rparr>) s" using assms(2)
    by (simp add: thread_ustack_def Let_def)
  show ?thesis unfolding s' by (rule create_mid_upd [OF assms(1)]) (simp_all add: same_inv_def)
qed

lemma thread_bad_eq: "thread_bad ops c s = Inr (v, x, s') \<Longrightarrow> v = - 1 \<and> x = None \<and> (\<exists>e. s' = s\<lparr>l_env := e\<rparr>)"
  by (cases s) (auto simp: thread_bad_def Let_def rbind_eq_Inr lenv_call_eq split: if_splits)

text \<open>The last steps of a successful \<^verbatim>\<open>thread_create\<close>.\<close>

lemma create_finish:
  assumes m: "create_mid c t s"
  shows "on_cpu c (upd_lp c (upd_th t (\<lambda>th. th\<lparr>th_state := RUNNABLE\<rparr>))
    ((upd_lp c (\<lambda>p. upd_th t (\<lambda>th. th\<lparr>th_ustack := us\<rparr>) (p\<lparr>lp_sz := sz\<rparr>)) s)\<lparr>l_tfs := f\<rparr>))"
proof -
  let ?s = "(upd_lp c (\<lambda>p. upd_th t (\<lambda>th. th\<lparr>th_ustack := us\<rparr>) (p\<lparr>lp_sz := sz\<rparr>)) s)\<lparr>l_tfs := f\<rparr>"
  have "create_mid c t (upd_lp c (\<lambda>p. upd_th t (\<lambda>th. th\<lparr>th_ustack := us\<rparr>) (p\<lparr>lp_sz := sz\<rparr>)) s)"
    by (rule create_mid_upd [OF m]) (simp_all add: same_inv_def)
  then have m': "create_mid c t ?s" by (simp only: create_mid_env)
  then have on: "on_cpu c ?s" by (simp add: create_mid_def)
  show ?thesis
  proof (rule on_cpu_thread [OF on on_cpuD(4) [OF on]])
    show "proc_inv (l_nexttid ?s) (upd_th t (\<lambda>th. th\<lparr>th_state := RUNNABLE\<rparr>) (l_proc ?s c))"
      by (rule upd_thread_inv [OF on_cpuD(5) [OF on]]) (use m' on_cpuD(3) [OF on] in \<open>simp_all add: create_mid_def\<close>)
  qed simp
qed

lemma alloc_mid:
  assumes on: "on_cpu c s" and t: "t < NTHREAD" "th_state (lp_thread (l_proc s c) t) = UNUSED"
  defines "s1 \<equiv> (upd_lp c (upd_th t (\<lambda>th. th\<lparr>th_tid := l_nexttid s, th_state := EMBRYO\<rparr>)) s)\<lparr>l_nexttid := l_nexttid s + 1\<rparr>"
  shows "on_cpu c s1" "t \<noteq> lp_thidx (l_proc s c)"
    "on_cpu c (upd_lp c (upd_th t (\<lambda>th. th\<lparr>th_kstack := ks\<rparr>)) s1)"
    "on_cpu c (upd_lp c (upd_th t (\<lambda>th. th\<lparr>th_kstack := ks, th_state := UNUSED\<rparr>)) s1)"
proof -
  show ne: "t \<noteq> lp_thidx (l_proc s c)" using t(2) on_cpuD(8) [OF on] by auto
  have "table_inv s1" unfolding s1_def by (rule table_allocth [OF on_cpuD(1,4) [OF on] t])
  then show on1: "on_cpu c s1" using on_cpuD(2,3) [OF on] by (simp add: on_cpu_def s1_def)
  have st: "th_state (lp_thread (l_proc s1 c) t) = EMBRYO" "lp_thidx (l_proc s1 c) = lp_thidx (l_proc s c)" by (simp_all add: s1_def)
  have pi: "proc_inv (l_nexttid s1) (l_proc s1 c)" using on_cpuD(5) [OF on1] .
  show "on_cpu c (upd_lp c (upd_th t (\<lambda>th. th\<lparr>th_kstack := ks\<rparr>)) s1)"
    by (rule on_cpu_thread [OF on1 on_cpuD(4) [OF on]], rule upd_thread_inv [OF pi t(1)])
      (use st ne on_cpuD(3) [OF on1] in simp_all)
  show "on_cpu c (upd_lp c (upd_th t (\<lambda>th. th\<lparr>th_kstack := ks, th_state := UNUSED\<rparr>)) s1)"
    by (rule on_cpu_thread [OF on1 on_cpuD(4) [OF on]], rule upd_thread_inv [OF pi t(1)])
      (use st ne on_cpuD(3) [OF on1] in simp_all)
qed

lemma thread_ustack_frame:
  assumes "thread_ustack ops c t s = Inr (r, s')"
  shows "lp_thread (l_proc s' c) = lp_thread (l_proc s c)" "lp_thidx (l_proc s' c) = lp_thidx (l_proc s c)" "l_nexttid s' = l_nexttid s"
    "\<forall>i. i \<noteq> c \<longrightarrow> l_proc s' i = l_proc s i" "l_tfs s' = l_tfs s" "l_held s' = l_held s"
    "lp_state (l_proc s' c) = lp_state (l_proc s c)" "lp_killed (l_proc s' c) = lp_killed (l_proc s c)"
  using assms by (auto simp: thread_ustack_def Let_def rbind_eq_Inr lenv_call_eq split: if_splits)

text \<open>
  Every outcome of \<^verbatim>\<open>thread_create\<close>: a new runnable thread in an unused slot, or an error; on an error the lock of the
  process table stays taken.
\<close>

definition created :: "nat \<Rightarrow> 32 word \<Rightarrow> 'k lwp \<Rightarrow> nat \<Rightarrow> 'k lwp \<Rightarrow> bool" where
  "created c start s t s' \<longleftrightarrow> t < NTHREAD \<and> th_state (lp_thread (l_proc s c) t) = UNUSED
     \<and> th_state (lp_thread (l_proc s' c) t) = RUNNABLE \<and> th_tid (lp_thread (l_proc s' c) t) = l_nexttid s
     \<and> th_kstack (lp_thread (l_proc s' c) t) \<noteq> 0
     \<and> tf_eip (l_tfs s' (th_tf (lp_thread (l_proc s' c) t))) = start
     \<and> tf_esp (l_tfs s' (th_tf (lp_thread (l_proc s' c) t))) = th_ustack (lp_thread (l_proc s' c) t) - 8
     \<and> (\<forall>u. u \<noteq> t \<longrightarrow> lp_thread (l_proc s' c) u = lp_thread (l_proc s c) u)
     \<and> (\<forall>i. i \<noteq> c \<longrightarrow> l_proc s' i = l_proc s i) \<and> l_nexttid s' = l_nexttid s + 1 \<and> \<not> l_held s'"

lemma thread_create_cases:
  assumes on: "on_cpu c s" and r: "thread_create ops start arg s = Inr (v, x, s')"
  obtains (ok) t where "v = 0" "x = Some (l_nexttid s)" "created c start s t s'" "on_cpu c s'"
  | (bad) "v = - 1" "x = None" "l_held s'" "on_cpu c s'"
proof -
  have cpu: "l_cpuproc s = Some c" using on_cpuD(2) [OF on] .
  have nh: "\<not> l_held s" using r cpu by (auto simp: thread_create_def acquire_def split: if_splits)
  define s0 where "s0 = s\<lparr>l_held := True\<rparr>"
  have on0: "on_cpu c s0" using on by (simp add: s0_def)
  show thesis
  proof (cases rule: allocth_cases [of c s0])
    case none
    then have "v = - 1" "x = None" "s' = s0" using r cpu nh by (simp_all add: thread_create_def acquire_def s0_def)
    then show thesis using bad on0 by (simp add: s0_def)
  next
    case (some t)
    define s1 where "s1 = (upd_lp c (upd_th t (\<lambda>th. th\<lparr>th_tid := l_nexttid s0, th_state := EMBRYO\<rparr>)) s0)\<lparr>l_nexttid := l_nexttid s0 + 1\<rparr>"
    have al: "allocth c s0 = (Some t, s1)" using some(3) by (simp add: s1_def)
    note mid = alloc_mid [OF on0 some(1,2), folded s1_def]
    obtain ks e where k: "o_kalloc ops (l_env s1) = (ks, e)" by fastforce
    let ?s2 = "upd_lp c (upd_th t (\<lambda>th. th\<lparr>th_kstack := ks\<rparr>)) (s1\<lparr>l_env := e\<rparr>)"
    show thesis
    proof (cases "ks = 0")
      case True
      have "v = - 1" "x = None" "s' = upd_lp c (upd_th t (\<lambda>th. th\<lparr>th_state := UNUSED\<rparr>)) ?s2"
        using r cpu nh al k True by (auto simp: thread_create_def acquire_def s0_def Let_def)
      moreover have "on_cpu c (upd_lp c (upd_th t (\<lambda>th. th\<lparr>th_state := UNUSED\<rparr>)) ?s2)"
        by (rule on_cpu_same [OF mid(4)]) (simp_all add: upd_th_def)
      ultimately show thesis using bad by (simp add: s1_def s0_def)
    next
      case False
      define tf where "tf = (l_tfs ?s2 (lp_tf (l_proc ?s2 c)))\<lparr>tf_eax := 0\<rparr>"
      define s3 where "s3 = setup_kstack ops ks (upd_lp c (upd_th t (\<lambda>th. th\<lparr>th_tf := kstack_tf ks,
                           th_context := kstack_context ks\<rparr>)) (?s2\<lparr>l_tfs := (l_tfs ?s2)(kstack_tf ks := tf)\<rparr>))"
      have "on_cpu c ?s2"
        by (rule on_cpu_same [OF mid(3)]) (simp_all add: upd_th_def)
      then have m2: "create_mid c t ?s2" using mid(2) some(1) False by (simp add: create_mid_def s1_def s0_def)
      have m2': "create_mid c t (?s2\<lparr>l_tfs := (l_tfs ?s2)(kstack_tf ks := tf)\<rparr>)" using m2 by (simp only: create_mid_env)
      have m3: "create_mid c t s3" unfolding s3_def
        by (subst create_mid_env(3), rule create_mid_upd [OF m2']) (simp_all add: same_inv_def)
      from r cpu nh al k False obtain us s4 where u: "thread_ustack ops c t s3 = Inr (us, s4)"
        and r4: "(case us of None \<Rightarrow> thread_bad ops c s4
           | Some (sz, pustack) \<Rightarrow>
             let sp = pustack - 8 in
             (case o_copyout ops (lp_pgdir (l_proc s4 c)) sp (le32 0xffffffff @ le32 arg) (l_env s4) of (ok, e) \<Rightarrow>
              let s = s4\<lparr>l_env := e\<rparr> in
              if \<not> ok then thread_bad ops c s
              else
                rbind (switchuvm c (upd_lp c (\<lambda>p. upd_th t (\<lambda>th. th\<lparr>th_ustack := pustack\<rparr>) (p\<lparr>lp_sz := sz\<rparr>)) s)) (\<lambda>s.
                  let tf = th_tf (lp_thread (l_proc s c) t);
                      s = s\<lparr>l_tfs := (l_tfs s)(tf := (l_tfs s tf)\<lparr>tf_eip := start, tf_esp := sp\<rparr>)\<rparr> in
                  rbind (release (upd_lp c (upd_th t (\<lambda>th. th\<lparr>th_state := RUNNABLE\<rparr>)) s)) (\<lambda>s.
                    Inr (0, Some (th_tid (lp_thread (l_proc s c) t)), s))))) = Inr (v, x, s')"
        unfolding thread_create_def s3_def tf_def
        by (simp only: option.case acquire_def if_False rbind_simps s0_def [symmetric] prod.case Let_def rbind_eq_Inr not_True_eq_False) force
      note m4 = thread_ustack_ok [OF m3 u] and fr = thread_ustack_frame [OF u]
      have on4: "on_cpu c s4" "l_held s4" using m4 by (simp_all add: create_mid_def)
      have badc: thesis if "thread_bad ops c (s4\<lparr>l_env := e4\<rparr>) = Inr (v, x, s')" for e4
        using bad thread_bad_eq [OF that] on4 by auto
      show thesis
      proof (cases us)
        case None
        then show thesis using badc [of "l_env s4"] r4 by simp
      next
        case (Some uu)
        obtain sz pustack where uu: "uu = (sz, pustack)" by fastforce
        obtain okc e5 where co: "o_copyout ops (lp_pgdir (l_proc s4 c)) (pustack - 8) (le32 0xffffffff @ le32 arg) (l_env s4) = (okc, e5)" by fastforce
        show thesis
        proof (cases okc)
          case False
          then show thesis using badc [of e5] r4 Some uu co by (simp add: Let_def)
        next
          case True
          let ?s5 = "s4\<lparr>l_env := e5\<rparr>"
          define s6 where "s6 = upd_lp c (\<lambda>p. upd_th t (\<lambda>th. th\<lparr>th_ustack := pustack\<rparr>) (p\<lparr>lp_sz := sz\<rparr>)) ?s5"
          define a where "a = th_tf (lp_thread (l_proc s6 c) t)"
          define g where "g = (l_tfs s6)(a := (l_tfs s6 a)\<lparr>tf_eip := start, tf_esp := pustack - 8\<rparr>)"
          let ?s7 = "upd_lp c (upd_th t (\<lambda>th. th\<lparr>th_state := RUNNABLE\<rparr>)) (s6\<lparr>l_tfs := g\<rparr>)"
          have r6: "rbind (switchuvm c s6) (\<lambda>s.
              let tf = th_tf (lp_thread (l_proc s c) t);
                  s = s\<lparr>l_tfs := (l_tfs s)(tf := (l_tfs s tf)\<lparr>tf_eip := start, tf_esp := pustack - 8\<rparr>)\<rparr> in
              rbind (release (upd_lp c (upd_th t (\<lambda>th. th\<lparr>th_state := RUNNABLE\<rparr>)) s)) (\<lambda>s.
                Inr (0, Some (th_tid (lp_thread (l_proc s c) t)), s))) = Inr (v, x, s')"
            using r4 Some uu co True by (simp add: Let_def s6_def)
          then have sw: "switchuvm c s6 = Inr s6" by (auto simp: rbind_eq_Inr switchuvm_def split: if_splits)
          have h: "l_held s6" using on4(2) by (simp add: s6_def)
          have out: "v = 0" "x = Some (th_tid (lp_thread (l_proc ?s7 c) t))" "s' = ?s7\<lparr>l_held := False\<rparr>"
            using r6 sw h by (auto simp: Let_def a_def g_def release_def)
          have m5: "create_mid c t ?s5" using m4 by simp
          have "on_cpu c ?s7" unfolding s6_def by (rule create_finish [OF m5])
          then have ons: "on_cpu c s'" unfolding out(3) by (simp only: on_cpu_fields)
          have th4: "lp_thread (l_proc s4 c) = (lp_thread (l_proc s c))(t := (lp_thread (l_proc s c) t)\<lparr>th_tid := l_nexttid s, th_state := EMBRYO,
              th_kstack := ks, th_tf := kstack_tf ks, th_context := kstack_context ks\<rparr>)"
            unfolding fr(1) by (simp add: s3_def s1_def s0_def setup_kstack_def upd_th_def)
          have "created c start s t s'"
            using some(1,2) \<open>ks \<noteq> 0\<close> fr(3,4)
            by (simp add: created_def out(3) g_def a_def s6_def th4 s3_def s1_def s0_def setup_kstack_def)
          moreover have "x = Some (l_nexttid s)" using out(2) by (simp add: s6_def th4)
          ultimately show thesis using ok [of t] out(1) ons by blast
        qed
      qed
    qed
  qed
qed

section \<open>thread_exit\<close>

lemma wakeup1_state:
  assumes "active (lp_state (l_proc s c))"
  shows "upd_lp c (\<lambda>p. p\<lparr>lp_state := RUNNABLE\<rparr>) (wakeup1 ch s) = wakeup1 ch (upd_lp c (\<lambda>p. p\<lparr>lp_state := RUNNABLE\<rparr>) s)"
  using assms by (auto simp: lwakeup1_eq wake_threads_eq fun_eq_iff intro!: arg_cong [where f = "\<lambda>f. l_proc_update f s"])

text \<open>
  What \<^verbatim>\<open>thread_exit\<close> makes of the process: the thread is a zombie with its return value, unless it was the last
  one, which stays runnable in a process that is marked as killed.
\<close>

definition exit_thread :: "32 word \<Rightarrow> lproc \<Rightarrow> lproc" where
  "exit_thread v p =
     (let q = upd_th (lp_thidx p) (\<lambda>th. th\<lparr>th_state := ZOMBIE, th_retval := v\<rparr>) p;
          only = (countth q = 0) in
      upd_th (lp_thidx p) (\<lambda>th. if only then th\<lparr>th_state := RUNNABLE\<rparr> else th)
        (q\<lparr>lp_killed := only \<or> lp_killed p, lp_retval := v, lp_state := RUNNABLE\<rparr>))"

lemma countth_retval: "countth (upd_th t (\<lambda>th. th\<lparr>th_state := ZOMBIE, th_retval := v\<rparr>) p) = countth (upd_th t (\<lambda>th. th\<lparr>th_state := ZOMBIE\<rparr>) p)"
  by (auto simp: countth_def intro!: arg_cong [where f = length] filter_cong)

lemma exit_thread_eq:
  fixes p :: lproc
  defines "t \<equiv> lp_thidx p"
  defines "q \<equiv> upd_th t (\<lambda>th. th\<lparr>th_state := ZOMBIE\<rparr>) p"
  shows "(upd_th t (\<lambda>th. th\<lparr>th_retval := v\<rparr>) ((if countth q = 0
      then upd_th t (\<lambda>th. th\<lparr>th_state := RUNNABLE\<rparr>) (q\<lparr>lp_killed := True, lp_state := RUNNABLE\<rparr>) else q)\<lparr>lp_retval := v\<rparr>))\<lparr>lp_state := RUNNABLE\<rparr>
    = exit_thread v p"
proof -
  have e: "countth (upd_th t (\<lambda>th. th\<lparr>th_state := ZOMBIE, th_retval := v\<rparr>) p) = countth q" by (simp add: q_def countth_retval)
  show ?thesis unfolding exit_thread_def Let_def t_def [symmetric] e
    by (cases "countth q = 0"; intro lproc.equality; simp) (cases "lp_thread p t"; simp add: q_def upd_th_def)+
qed

lemma thread_exit_eq:
  assumes "on_cpu c s" "thread_exit v ctx s = Inr s'"
  shows "\<not> l_held s \<and> sched ctx (wakeup1 (ChThread c (lp_thidx (l_proc s c))) (upd_lp c (exit_thread v) (s\<lparr>l_held := True\<rparr>))) = Inr s'"
proof -
  let ?p = "l_proc s c" and ?t = "lp_thidx (l_proc s c)"
  let ?q = "upd_th ?t (\<lambda>th. th\<lparr>th_state := ZOMBIE\<rparr>) ?p"
  let ?s2 = "if countth ?q = 0 then upd_lp c (\<lambda>p. upd_th ?t (\<lambda>th. th\<lparr>th_state := RUNNABLE\<rparr>) (?q\<lparr>lp_killed := True, lp_state := RUNNABLE\<rparr>)) (s\<lparr>l_held := True\<rparr>)
    else upd_lp c (\<lambda>p. ?q) (s\<lparr>l_held := True\<rparr>)"
  let ?s3 = "upd_lp c (\<lambda>p. upd_th ?t (\<lambda>th. th\<lparr>th_retval := v\<rparr>) (p\<lparr>lp_retval := v\<rparr>)) ?s2"
  have nh: "\<not> l_held s" using assms(2) on_cpuD(2) [OF assms(1)] by (auto simp: thread_exit_def acquire_def split: if_splits)
  then have r: "sched ctx (upd_lp c (\<lambda>p. p\<lparr>lp_state := RUNNABLE\<rparr>) (wakeup1 (ChThread c ?t) ?s3)) = Inr s'"
    using assms(2) on_cpuD(2) [OF assms(1)] by (cases "countth ?q = 0") (simp_all add: thread_exit_def acquire_def Let_def)
  have act: "active (lp_state (l_proc ?s3 c))" using on_cpuD(3) [OF assms(1)] by simp
  have "upd_lp c (\<lambda>p. p\<lparr>lp_state := RUNNABLE\<rparr>) ?s3 = upd_lp c (exit_thread v) (s\<lparr>l_held := True\<rparr>)"
    by (simp add: exit_thread_eq [symmetric])
  then show ?thesis using r nh wakeup1_state [OF act] by simp
qed

lemma exit_thread_inv:
  assumes "proc_inv N p" "lp_state p = RUNNING"
  shows "proc_inv N (exit_thread v p)" "lp_thidx (exit_thread v p) = lp_thidx p" "lp_kstack (exit_thread v p) = lp_kstack p"
    "th_kstack (lp_thread (exit_thread v p) u) = th_kstack (lp_thread p u)"
proof -
  show "lp_thidx (exit_thread v p) = lp_thidx p" "lp_kstack (exit_thread v p) = lp_kstack p"
    "th_kstack (lp_thread (exit_thread v p) u) = th_kstack (lp_thread p u)" by (simp_all add: exit_thread_def Let_def)
  define st where "st = (if countth (upd_th (lp_thidx p) (\<lambda>th. th\<lparr>th_state := ZOMBIE, th_retval := v\<rparr>) p) = 0 then RUNNABLE else ZOMBIE)"
  have "proc_inv N (upd_th (lp_thidx p) (\<lambda>th. th\<lparr>th_state := st\<rparr>) (p\<lparr>lp_state := RUNNABLE\<rparr>))"
    by (rule leave_inv [OF assms, of _ st]) (auto simp: st_def)
  then show "proc_inv N (exit_thread v p)"
    by (rule iffD1 [OF same_inv_proc, rotated]) (simp add: same_inv_def exit_thread_def Let_def st_def)
qed

lemma thread_exit_ok:
  assumes "on_cpu c s" "thread_exit v ctx s = Inr s'"
  shows "after_call c s'"
proof -
  let ?s = "upd_lp c (exit_thread v) (s\<lparr>l_held := True\<rparr>)"
  have on: "on_cpu c (s\<lparr>l_held := True\<rparr>)" using assms(1) by simp
  have "table_inv ?s"
    by (rule cpu_upd [OF on]) (use exit_thread_inv [OF on_cpuD(5,3) [OF on]] kstack_eq [OF on] in simp_all)
  then have "table_inv (wakeup1 (ChThread c (lp_thidx (l_proc s c))) ?s)" by (rule wakeup1_table)
  then show ?thesis using sched_ok thread_exit_eq [OF assms] on_cpuD(2) [OF on] by fastforce
qed

lemma thread_exit_resume_ok: "on_cpu c s \<Longrightarrow> thread_exit_resume c t s = Inr s' \<Longrightarrow> on_cpu c s'"
  using sched_resume_ok by (auto simp: thread_exit_resume_def Let_def split: if_splits)

section \<open>thread_join\<close>

definition join_thread :: "nat \<Rightarrow> lproc \<Rightarrow> lproc" where
  "join_thread t p = upd_th t (\<lambda>th. th\<lparr>th_retval := 0\<rparr>) (freeustack t (upd_th t clear_thread p))"

lemma join_step:
  assumes "thread_join_loop ops ctx c t s = Inr (r, s')" "th_state (lp_thread (l_proc s c) t) = ZOMBIE"
  shows "l_held s" "r = Return (0, Some (th_retval (lp_thread (l_proc s c) t)))"
    "\<exists>e. s' = s\<lparr>l_env := e, l_proc := (l_proc s)(c := join_thread t (l_proc s c)), l_held := False\<rparr>"
proof -
  from assms obtain s1 where f: "free_kstack ops c t s = Inr s1" and
    g: "rbind (release (upd_lp c (upd_th t (\<lambda>th. th\<lparr>th_retval := 0\<rparr>)) (upd_lp c (\<lambda>p. freeustack t (upd_th t clear_thread p)) s1)))
      (\<lambda>s. Inr (Return (0, Some (th_retval (lp_thread (l_proc (upd_lp c (\<lambda>p. freeustack t (upd_th t clear_thread p)) s1) c) t))), s)) = Inr (r, s')"
    by (auto simp: thread_join_loop_def Let_def rbind_eq_Inr)
  from free_kstack_eq [OF f] obtain e where s1: "s1 = s\<lparr>l_env := e\<rparr>" by blast
  from g show "l_held s" "r = Return (0, Some (th_retval (lp_thread (l_proc s c) t)))"
    by (auto simp: s1 rbind_eq_Inr release_eq freeustack_def clear_thread_def)
  from g show "\<exists>e. s' = s\<lparr>l_env := e, l_proc := (l_proc s)(c := join_thread t (l_proc s c)), l_held := False\<rparr>"
    by (intro exI [of _ e]) (auto simp: s1 rbind_eq_Inr release_eq join_thread_def)
qed

lemma join_thread_sel:
  "lp_thidx (join_thread t p) = lp_thidx p" "lp_state (join_thread t p) = lp_state p" "lp_kstack (join_thread t p) = lp_kstack p"
  "lp_pgdir (join_thread t p) = lp_pgdir p"
  "same_inv (join_thread t p) (upd_th t clear_thread p)"
  "u \<noteq> t \<Longrightarrow> lp_thread (join_thread t p) u = lp_thread p u" "th_state (lp_thread (join_thread t p) t) = UNUSED"
  "lp_freedustack (join_thread t p) = (lp_freedustack p)(t := th_ustack (lp_thread p t))"
  by (simp_all add: join_thread_def freeustack_def same_inv_def clear_thread_def)

lemma thread_join_loop_ok:
  assumes on: "on_cpu c s" and t: "t < NTHREAD" and r: "thread_join_loop ops ctx c t s = Inr (v, s')"
  shows "after_call c s'"
proof (cases "th_state (lp_thread (l_proc s c) t) = ZOMBIE")
  case True
  from join_step(3) [OF r True] obtain e where
    s': "s' = s\<lparr>l_env := e, l_proc := (l_proc s)(c := join_thread t (l_proc s c)), l_held := False\<rparr>" by blast
  have ne: "t \<noteq> lp_thidx (l_proc s c)" using True on_cpuD(8) [OF on] by auto
  have "proc_inv (l_nexttid s) (upd_th t clear_thread (l_proc s c))"
    by (rule upd_thread_inv [OF on_cpuD(5) [OF on] t]) (use True in \<open>simp_all add: clear_thread_def\<close>)
  then have "proc_inv (l_nexttid s) (join_thread t (l_proc s c))" by (simp add: same_inv_proc [OF join_thread_sel(5)])
  then have "on_cpu c (s\<lparr>l_proc := (l_proc s)(c := join_thread t (l_proc s c))\<rparr>)"
    by (rule on_cpu_upd [OF on]) (use kstack_eq [OF on] on_cpuD(3) [OF on] ne in \<open>simp_all add: join_thread_sel\<close>)
  then have "on_cpu c s'" by (rule on_cpu_same) (simp_all add: s')
  then show ?thesis by (rule on_cpu_after)
next
  case False
  then show ?thesis using r on sleep_ok [OF on]
    by (auto simp: thread_join_loop_def rbind_eq_Inr release_eq on_cpu_after split: if_splits)
qed

lemma thread_join_ok:
  assumes on: "on_cpu c s" and r: "thread_join ops ctx tid s = Inr (v, s')"
  shows "after_call c s'"
proof (cases "first_index (\<lambda>t. th_tid (lp_thread (l_proc s c) t) = tid \<and> th_state (lp_thread (l_proc s c) t) \<noteq> UNUSED) [0..<NTHREAD]")
  case None
  then have "s' = s\<lparr>l_held := False\<rparr>" using r on_cpuD(2) [OF on]
    unfolding thread_join_def by (auto simp: rbind_eq_Inr acquire_eq release_eq None simp del: first_index_None)
  then show ?thesis using on by (simp add: on_cpu_after)
next
  case (Some t)
  then have "t < NTHREAD" using first_index_Some [OF Some] by simp
  moreover have "thread_join_loop ops ctx c t (s\<lparr>l_held := True\<rparr>) = Inr (v, s')"
    using r on_cpuD(2) [OF on] by (auto simp: thread_join_def rbind_eq_Inr acquire_eq Some)
  ultimately show ?thesis using thread_join_loop_ok [of c "s\<lparr>l_held := True\<rparr>"] on by simp
qed

lemma thread_join_resume_ok:
  "on_cpu c s \<Longrightarrow> t < NTHREAD \<Longrightarrow> thread_join_resume ops ctx c t s = Inr (v, s') \<Longrightarrow> after_call c s'"
  unfolding thread_join_resume_def rbind_eq_Inr by (blast intro: thread_join_loop_ok sleep_resume_ok)

section \<open>exec\<close>

lemma drop_thread_ok:
  assumes on: "on_cpu c s" and t: "t < NTHREAD" and r: "drop_thread ops c t s = Inr s'"
  shows "on_cpu c s'"
proof (cases "t = lp_thidx (l_proc s c)")
  case True
  then show ?thesis using r on by (simp add: drop_thread_def)
next
  case False
  let ?f = "\<lambda>th. (clear_thread th)\<lparr>th_retval := 0, th_ustack := 0\<rparr>"
  from r False obtain s1 where f: "free_kstack ops c t s = Inr s1" and
    s': "s' = upd_lp c (\<lambda>p. upd_th t ?f (p\<lparr>lp_freedustack := (lp_freedustack p)(t := 0)\<rparr>)) s1"
    by (auto simp: drop_thread_def rbind_eq_Inr)
  from free_kstack_eq [OF f] obtain e where s1: "s1 = s\<lparr>l_env := e\<rparr>" by blast
  have "th_state (lp_thread (l_proc s c) t) \<noteq> RUNNING" by (rule other_not_running [OF on t False])
  then have "proc_inv (l_nexttid s) (upd_th t ?f ((l_proc s c)\<lparr>lp_freedustack := (lp_freedustack (l_proc s c))(t := 0)\<rparr>))"
    by (intro upd_thread_inv) (use on_cpuD(5) [OF on] t in \<open>simp_all add: clear_thread_def\<close>)
  then have "on_cpu c (s\<lparr>l_proc := (l_proc s)(c := upd_th t ?f ((l_proc s c)\<lparr>lp_freedustack := (lp_freedustack (l_proc s c))(t := 0)\<rparr>))\<rparr>)"
    by (rule on_cpu_upd [OF on]) (use kstack_eq [OF on] on_cpuD(3) [OF on] False in simp_all)
  then show ?thesis by (rule on_cpu_same) (simp_all add: s' s1)
qed

lemma drop_threads_ok:
  assumes "on_cpu c s" "drop_threads ops c s = Inr s'"
  shows "on_cpu c s'"
  using assms(2,1) unfolding drop_threads_def
  by (rule rfold_stable [where I = "on_cpu c"]) (auto intro: drop_thread_ok)

lemma exec_bad_none: "exec_bad ops pg ip e \<noteq> Inr (Some x, e')"
  by (auto simp: exec_bad_def rbind_eq_Inr)

lemma exec_image_pgdir:
  assumes "exec_image ops n path argv e = Inr (Some (pg, sz, sp, entry), e')"
  shows "pg \<noteq> 0"
  using assms unfolding exec_image_def rbind_eq_Inr
  by (clarsimp split: if_split_asm simp: rbind_eq_Inr) (auto simp: exec_bad_none Let_def rbind_eq_Inr split: option.split_asm if_split_asm prod.split_asm)

lemma exec_with_ok:
  assumes on: "on_cpu c s" and r: "exec_with ops n path argv s = Inr (v, s')"
  shows "on_cpu c s'"
proof -
  from r on_cpuD(2) [OF on] obtain s1 im e where d: "drop_threads ops c s = Inr s1"
    and im: "exec_image ops n path argv (l_env s1) = Inr (im, e)"
    and g: "(case im of None \<Rightarrow> Inr (- 1, s1\<lparr>l_env := e\<rparr>) | Some img \<Rightarrow> exec_commit ops c path n img (s1\<lparr>l_env := e\<rparr>)) = Inr (v, s')"
    by (auto simp: exec_with_def rbind_eq_Inr Let_def)
  have on1: "on_cpu c s1" by (rule drop_threads_ok [OF on d])
  show ?thesis
  proof (cases im)
    case None
    then show ?thesis using g on1 by auto
  next
    case (Some img)
    obtain pg sz sp entry where x: "img = (pg, sz, sp, entry)" by (metis prod_cases4)
    have pg: "pg \<noteq> 0" using exec_image_pgdir [of ops n path argv "l_env s1" pg sz sp entry e] im Some x by simp
    let ?p = "l_proc s1 c"
    let ?q = "upd_th (lp_thidx ?p) (\<lambda>th. th\<lparr>th_state := RUNNING\<rparr>) (?p\<lparr>lp_name := safestrcpy_name (exec_name path path), lp_pgdir := pg,
        lp_sz := sz, lp_stacksize := n, lp_ustack := sz\<rparr>)"
    have "proc_inv (l_nexttid s1) (?p\<lparr>lp_pgdir := pg\<rparr>)" using pgdir_inv [OF on_cpuD(5) [OF on1]] pg by simp
    then have "proc_inv (l_nexttid s1) ?q"
      by (rule iffD1 [OF same_inv_proc, rotated]) (use on_cpuD(8) [OF on1] in \<open>auto simp: same_inv_def\<close>)
    then have o2: "on_cpu c (s1\<lparr>l_proc := (l_proc s1)(c := ?q)\<rparr>)"
      by (rule on_cpu_upd [OF on1]) (use kstack_eq [OF on1] on_cpuD(3) [OF on1] in simp_all)
    show ?thesis
      by (rule on_cpu_same [OF o2]) (use g Some x in \<open>auto simp: exec_commit_def Let_def rbind_eq_Inr switchuvm_def lenv_call_eq split: if_splits\<close>)
  qed
qed

end
