(* ===== verification/Lwp_Kernel.thy ===== *)
theory Lwp_Kernel
  imports Lwp_Thread_Ops
begin

text \<open>
  The kernel of project 2 as a whole: from \<^verbatim>\<open>userinit\<close>, every interleaving of the calls of running threads, of threads that
  are switched to again, of interrupts and of the scheduler.  A thread that is switched to may continue in any of the ways in
  which the code can have been suspended, which includes the way it really was.
\<close>

section \<open>Steps\<close>

datatype lcall =
    CFork | CExit addr | CWait addr | CKill int | CSleep chan addr | CYield addr | CGrow int | CLimit int int
  | CCreate "32 word" "32 word" | CThreadExit "32 word" addr | CJoin int addr
  | CExec string "byte list list" | CExec2 string "byte list list" int

definition state_of :: "('a \<times> 's) result \<Rightarrow> 's result" where
  "state_of r = rbind r (\<lambda>(_, s). Inr s)"

fun call :: "('k, 'z) lops_scheme \<Rightarrow> lcall \<Rightarrow> 'k lwp \<Rightarrow> 'k lwp result" where
  "call ops CFork s = state_of (fork ops s)"
| "call ops (CExit ctx) s = exit ops ctx s"
| "call ops (CWait ctx) s = state_of (wait ops ctx s)"
| "call ops (CKill pid) s = state_of (kill pid s)"
| "call ops (CSleep ch ctx) s = sleep ch False ctx s"
| "call ops (CYield ctx) s = yield ctx s"
| "call ops (CGrow n) s = state_of (growproc ops n s)"
| "call ops (CLimit pid limit) s = state_of (setmemorylimit pid limit s)"
| "call ops (CCreate f a) s = state_of (state_of (rbind (thread_create ops f a s) (\<lambda>(r, x, s). Inr (r, (x, s)))))"
| "call ops (CThreadExit v ctx) s = thread_exit v ctx s"
| "call ops (CJoin tid ctx) s = state_of (thread_join ops ctx tid s)"
| "call ops (CExec path argv) s = state_of (exec ops path argv s)"
| "call ops (CExec2 path argv n) s = state_of (exec2 ops path argv n s)"

datatype lresume = RForkret | RYield | RSleep | RWait addr | RJoin nat addr | RThreadExit nat

fun resume :: "('k, 'z) lops_scheme \<Rightarrow> lresume \<Rightarrow> nat \<Rightarrow> 'k lwp \<Rightarrow> 'k lwp result" where
  "resume ops RForkret c s = forkret ops s"
| "resume ops RYield c s = yield_resume c s"
| "resume ops RSleep c s = sleep_resume c False s"
| "resume ops (RWait ctx) c s = state_of (wait_resume ops ctx c s)"
| "resume ops (RJoin t ctx) c s = (if t < NTHREAD then state_of (thread_join_resume ops ctx c t s) else Inl OutOfBounds)"
| "resume ops (RThreadExit t) c s = thread_exit_resume c t s"

definition zero_thread :: lthread where
  "zero_thread = \<lparr>th_tid = 0, th_kstack = 0, th_state = UNUSED, th_tf = 0, th_context = 0, th_chan = NoChan, th_retval = 0, th_ustack = 0\<rparr>"

definition zero_lproc :: lproc where
  "zero_lproc = \<lparr>lp_sz = 0, lp_pgdir = 0, lp_pid = 0, lp_parent = None, lp_killed = False, lp_ofile = replicate NOFILE 0, lp_cwd = 0,
     lp_name = [], lp_stacksize = 0, lp_limit = 0, lp_freedustack = (\<lambda>_. 0), lp_thread = (\<lambda>_. zero_thread), lp_thidx = 0,
     lp_kstack = 0, lp_state = UNUSED, lp_tf = 0, lp_context = 0, lp_chan = NoChan, lp_retval = 0, lp_ustack = 0\<rparr>"

text \<open>The data of the kernel as the loader leaves it.\<close>

definition boot :: "'k \<Rightarrow> 'k lwp" where
  "boot e = \<lparr>l_proc = (\<lambda>_. zero_lproc), l_nextpid = 1, l_nexttid = 1, l_initproc = None, l_cpuproc = None, l_held = False,
     l_frame = None, l_first = True, l_tfs = (\<lambda>_. init_tf), l_ctxs = (\<lambda>_. \<lparr>c_edi = 0, c_esi = 0, c_ebx = 0, c_ebp = 0, c_eip = 0\<rparr>),
     l_rets = (\<lambda>_. 0), l_ticks = 0, l_env = e\<rparr>"

inductive lreach :: "('k, 'z) lops_scheme \<Rightarrow> 'k lwp \<Rightarrow> bool" for ops where
  lreach_boot: "userinit ops (boot e) = Inr s \<Longrightarrow> lreach ops s"
| lreach_pass: "lreach ops s \<Longrightarrow> l_cpuproc s = None \<Longrightarrow> scheduler_pass s = Inr s' \<Longrightarrow> lreach ops s'"
| lreach_switch: "lreach ops s \<Longrightarrow> l_cpuproc s = Some c \<Longrightarrow> lp_state (l_proc s c) \<noteq> RUNNING \<Longrightarrow> scheduler_return s = Inr s' \<Longrightarrow> lreach ops s'"
| lreach_resume: "lreach ops s \<Longrightarrow> l_cpuproc s = Some c \<Longrightarrow> lp_state (l_proc s c) = RUNNING \<Longrightarrow> resume ops r c s = Inr s' \<Longrightarrow> lreach ops s'"
| lreach_call: "lreach ops s \<Longrightarrow> l_cpuproc s = Some c \<Longrightarrow> lp_state (l_proc s c) = RUNNING \<Longrightarrow> call ops k s = Inr s' \<Longrightarrow> lreach ops s'"
| lreach_wakeup: "lreach ops s \<Longrightarrow> wakeup ch s = Inr s' \<Longrightarrow> lreach ops s'"
| lreach_tick: "lreach ops s \<Longrightarrow> timer_tick ticks s = Inr s' \<Longrightarrow> lreach ops s'"

section \<open>The invariant holds in every reachable state\<close>

lemma boot_table: "table_inv (boot e)"
  by (rule table_invI)
    (simp_all add: boot_def zero_lproc_def zero_thread_def proc_inv_def tids_ok_def threads_ok_def)

lemma luserinit_ok:
  assumes inv: "table_inv s" "l_cpuproc s = None" and r: "userinit ops s = Inr s'"
  shows "table_inv s' \<and> l_cpuproc s' = None \<and> \<not> l_held s'"
proof -
  from r obtain p s1 where a: "allocproc ops s = Inr (p, s1)" by (auto simp: userinit_def rbind_eq_Inr)
  from r a obtain i where p: "p = Some i" by (cases p) (auto simp: userinit_def)
  from lallocproc_ok [OF inv(1) a] inv(2) p have s1: "table_inv s1" "l_cpuproc s1 = None" "\<not> l_held s1" "i < NPROC"
    "lp_state (l_proc s1 i) = EMBRYO" "lp_kstack (l_proc s1 i) \<noteq> 0" by auto
  obtain pg e where k: "o_setupkvm ops (l_env s1) = (pg, e)" by fastforce
  from r a p k obtain ip e2 f where pg: "pg \<noteq> 0" and
    st: "start_proc i (upd_lp i (\<lambda>p. p\<lparr>lp_pgdir := pg, lp_sz := PGSIZE, lp_name := safestrcpy_name ''initcode'', lp_cwd := ip\<rparr>)
      (s1\<lparr>l_initproc := Some i, l_tfs := f, l_env := e2\<rparr>)) = Inr s'"
    by (auto simp: userinit_def Let_def rbind_eq_Inr lenv_call_eq split: if_splits)
  let ?q = "(l_proc s1 i)\<lparr>lp_pgdir := pg, lp_sz := PGSIZE, lp_name := safestrcpy_name ''initcode'', lp_cwd := ip\<rparr>"
  let ?s = "s1\<lparr>l_initproc := Some i, l_tfs := f, l_env := e2, l_held := True\<rparr>"
  have pi: "proc_inv (l_nexttid s1) ?q" using pgdir_inv [OF table_invD(2) [OF s1(1,4)], of pg] pg by simp
  have "proc_inv (l_nexttid s1) (start_thread ?q)"
    by (rule start_inv [OF pi]) (use s1(5,6) pg in simp_all)
  then have "table_inv (?s\<lparr>l_proc := (l_proc ?s)(i := start_thread ?q)\<rparr>)"
    by (intro table_upd) (use s1 in \<open>simp_all add: start_thread_def\<close>)
  moreover have "s' = (?s\<lparr>l_proc := (l_proc ?s)(i := start_thread ?q)\<rparr>)\<lparr>l_held := False\<rparr>"
    using st s1(3) by (simp add: start_proc_def acquire_def release_def)
  ultimately show ?thesis using s1(2) by (simp only: table_fields) simp
qed

lemma after_call_inv: "after_call c s \<Longrightarrow> table_inv s \<and> lock_inv s"
  by (simp add: after_call_def lock_inv_def)

lemma on_cpu_inv: "on_cpu c s \<Longrightarrow> table_inv s \<and> lock_inv s"
  using after_call_inv on_cpu_after by blast

lemma call_inv:
  assumes on: "on_cpu c s" and r: "call ops k s = Inr s'"
  shows "table_inv s' \<and> lock_inv s'"
proof (cases k)
  case (CCreate f a)
  then obtain v x where "thread_create ops f a s = Inr (v, x, s')" using r by (auto simp: state_of_def rbind_eq_Inr)
  then show ?thesis by (cases rule: thread_create_cases [OF on]) (auto dest: on_cpu_inv)
qed (use r in \<open>auto simp: state_of_def rbind_eq_Inr exec_def exec2_def Let_def
    dest!: lfork_ok [OF on] exit_ok [OF on] wait_ok [OF on] kill_ok [OF on] sleep_ok [OF on] yield_ok [OF on] growproc_ok [OF on]
      setmemorylimit_ok [OF on] thread_exit_ok [OF on] thread_join_ok [OF on] exec_with_ok [OF on] after_call_inv on_cpu_inv\<close>)

lemma lresume_inv:
  assumes on: "on_cpu c s" and r: "resume ops k c s = Inr s'"
  shows "table_inv s' \<and> lock_inv s'"
  by (cases k) (use r in \<open>auto simp: state_of_def rbind_eq_Inr split: if_splits
    dest!: forkret_ok [OF on] yield_resume_ok [OF on] sleep_resume_ok [OF on] wait_resume_ok [OF on]
      thread_join_resume_ok [OF on] thread_exit_resume_ok [OF on] after_call_inv on_cpu_inv\<close>)

lemma lreach_inv:
  assumes "lreach ops s"
  shows "table_inv s \<and> lock_inv s"
  using assms
proof induction
  case (lreach_boot e s)
  have "table_inv (boot e)" "l_cpuproc (boot e) = None" by (rule boot_table) (simp add: boot_def)
  from luserinit_ok [OF this lreach_boot] show ?case by (simp add: lock_inv_def)
next
  case (lreach_pass s s')
  then show ?case using scheduler_pass_ok [of s] by (metis sum.inject(2))
next
  case (lreach_switch s c s')
  then show ?case using scheduler_return_ok [of s c] by (metis sum.inject(2))
next
  case (lreach_resume s c r s')
  then show ?case using lresume_inv [of c s] by (simp add: on_cpu_def)
next
  case (lreach_call s c k s')
  then show ?case using call_inv [of c s] by (simp add: on_cpu_def)
next
  case (lreach_wakeup s ch s')
  then show ?case using wakeup_table [of s ch s'] by (auto simp: lock_inv_def split: option.splits)
next
  case (lreach_tick s ticks s')
  then have i: "table_inv (s\<lparr>l_ticks := l_ticks s + 1\<rparr>)" "lock_inv (s\<lparr>l_ticks := l_ticks s + 1\<rparr>)" by (auto simp: lock_inv_def split: option.splits)
  show ?case using wakeup_table [OF i(1), of "ChAddr ticks" s'] i(2) lreach_tick(2)
    by (auto simp: lock_inv_def timer_tick_def split: option.splits)
qed

lemma lreach_on_cpu: "lreach ops s \<Longrightarrow> l_cpuproc s = Some c \<Longrightarrow> lp_state (l_proc s c) = RUNNING \<Longrightarrow> on_cpu c s"
  using lreach_inv by (auto simp: on_cpu_def)

end
