(* ===== verification/Lwp_System.thy ===== *)
theory Lwp_System
  imports Lwp_Kernel
begin

text \<open>
  The properties of project 2.  The thread calls are specified on the map from thread identifiers to what a joining thread
  sees: alive, or exited with a value.
\<close>

section \<open>Threads as a map\<close>

datatype tstat = Alive | Exited "32 word"

text \<open>What slot \<open>t\<close> of the thread array holds.\<close>

definition slot :: "lproc \<Rightarrow> nat \<Rightarrow> (int \<times> tstat) option" where
  "slot p t =
     (let th = lp_thread p t in
      if th_state th = UNUSED then None
      else Some (th_tid th, if th_state th = ZOMBIE then Exited (th_retval th) else Alive))"

definition threads :: "lproc \<Rightarrow> int \<Rightarrow> tstat option" where
  "threads p x =
     (case first_index (\<lambda>t. map_option fst (slot p t) = Some x) [0..<NTHREAD] of
        None \<Rightarrow> None | Some t \<Rightarrow> map_option snd (slot p t))"

definition slots_ok :: "lproc \<Rightarrow> bool" where
  "slots_ok p \<longleftrightarrow> (\<forall>t<NTHREAD. \<forall>u<NTHREAD. t \<noteq> u \<longrightarrow> map_option fst (slot p t) = map_option fst (slot p u) \<longrightarrow> slot p t = None)"

lemma tids_slots:
  assumes "tids_ok N p"
  shows "slots_ok p"
  unfolding slots_ok_def
proof (intro allI impI)
  fix t u
  assume a: "t < NTHREAD" "u < NTHREAD" "t \<noteq> u" "map_option fst (slot p t) = map_option fst (slot p u)"
  show "slot p t = None" using a(4) tids_okD(4) [OF assms a(1-3)] by (auto simp: slot_def Let_def split: if_splits)
qed

lemma threads_Some:
  assumes "slots_ok p"
  shows "threads p x = Some y \<longleftrightarrow> (\<exists>t<NTHREAD. slot p t = Some (x, y))"
proof
  assume "threads p x = Some y"
  then obtain t where t: "first_index (\<lambda>t. map_option fst (slot p t) = Some x) [0..<NTHREAD] = Some t" "map_option snd (slot p t) = Some y"
    by (auto simp: threads_def split: option.splits)
  from first_index_Some [OF t(1)] t(2) show "\<exists>t<NTHREAD. slot p t = Some (x, y)" by auto
next
  assume "\<exists>t<NTHREAD. slot p t = Some (x, y)"
  then obtain t where t: "t < NTHREAD" "slot p t = Some (x, y)" by blast
  show "threads p x = Some y"
  proof (cases "first_index (\<lambda>t. map_option fst (slot p t) = Some x) [0..<NTHREAD]")
    case None
    then show ?thesis using t by auto
  next
    case (Some u)
    from first_index_Some [OF Some] have u: "u < NTHREAD" "map_option fst (slot p u) = Some x" by auto
    have "u = t"
    proof (rule ccontr)
      assume "u \<noteq> t"
      then have "slot p u = None" using assms u t unfolding slots_ok_def by auto
      then show False using u(2) by simp
    qed
    then show ?thesis using Some t(2) by (simp add: threads_def)
  qed
qed

lemma threads_None: "slots_ok p \<Longrightarrow> threads p x = None \<longleftrightarrow> (\<forall>t<NTHREAD. \<forall>y. slot p t \<noteq> Some (x, y))"
  using threads_Some [of p x] by (metis not_Some_eq)

text \<open>One slot changes.\<close>

lemma threads_cong: "(\<And>t. t < NTHREAD \<Longrightarrow> slot q t = slot p t) \<Longrightarrow> threads q = threads p"
proof
  fix x
  assume e: "\<And>t. t < NTHREAD \<Longrightarrow> slot q t = slot p t"
  have "first_index (\<lambda>t. map_option fst (slot q t) = Some x) [0..<NTHREAD] = first_index (\<lambda>t. map_option fst (slot p t) = Some x) [0..<NTHREAD]"
    by (rule first_index_cong) (simp_all add: e)
  then show "threads q x = threads p x"
    by (cases "first_index (\<lambda>t. map_option fst (slot p t) = Some x) [0..<NTHREAD]")
      (auto simp: threads_def e dest: first_index_Some simp del: first_index_None)
qed

lemma threads_upd:
  assumes ok: "slots_ok p" "slots_ok q" and t: "t < NTHREAD" "slot p t = None \<or> (\<exists>z. slot p t = Some (x, z))" "slot q t = Some (x, y)"
    and same: "\<And>u. u < NTHREAD \<Longrightarrow> u \<noteq> t \<Longrightarrow> slot q u = slot p u"
  shows "threads q = (threads p)(x \<mapsto> y)"
proof
  fix z
  show "threads q z = ((threads p)(x \<mapsto> y)) z"
  proof (cases "z = x")
    case True
    then show ?thesis using threads_Some [OF ok(2)] t by auto
  next
    case False
    have "threads q z = Some w \<longleftrightarrow> threads p z = Some w" for w
      unfolding threads_Some [OF ok(2)] threads_Some [OF ok(1)] using t same False by (metis Pair_inject option.distinct(1) option.inject)
    then show ?thesis using False by (metis fun_upd_other not_Some_eq)
  qed
qed

lemma threads_del:
  assumes ok: "slots_ok p" "slots_ok q" and t: "t < NTHREAD" "slot p t = Some (x, y)" "slot q t = None"
    and same: "\<And>u. u < NTHREAD \<Longrightarrow> u \<noteq> t \<Longrightarrow> slot q u = slot p u"
  shows "threads q = (threads p)(x := None)"
proof
  fix z
  have "threads q z = Some w \<longleftrightarrow> threads p z = Some w \<and> z \<noteq> x" for w
  proof -
    have "slot p u \<noteq> Some (x, w)" if "u < NTHREAD" "u \<noteq> t" for u w
      using ok(1) t that unfolding slots_ok_def by fastforce
    then show ?thesis unfolding threads_Some [OF ok(2)] threads_Some [OF ok(1)] using t same
      by (metis Pair_inject option.distinct(1) option.inject)
  qed
  then show "threads q z = ((threads p)(x := None)) z" by (metis fun_upd_apply not_Some_eq)
qed

lemma slots_cong: "(\<And>t. t < NTHREAD \<Longrightarrow> slot q t = slot p t) \<Longrightarrow> slots_ok q = slots_ok p"
  by (simp add: slots_ok_def)

lemma on_cpu_slots: "on_cpu c s \<Longrightarrow> slots_ok (l_proc s c)"
  using on_cpuD(5) tids_slots by (auto simp: proc_inv_def)

section \<open>The thread calls on the map\<close>

lemma create_threads:
  assumes "on_cpu c s" "on_cpu c s'" "created c f s t s'"
  shows "threads (l_proc s' c) = (threads (l_proc s c))(l_nexttid s \<mapsto> Alive)" "threads (l_proc s c) (l_nexttid s) = None"
proof -
  have s: "slot (l_proc s c) t = None" "slot (l_proc s' c) t = Some (l_nexttid s, Alive)" "t < NTHREAD"
    "\<And>u. u \<noteq> t \<Longrightarrow> slot (l_proc s' c) u = slot (l_proc s c) u"
    using assms(3) by (auto simp: created_def slot_def Let_def)
  show "threads (l_proc s' c) = (threads (l_proc s c))(l_nexttid s \<mapsto> Alive)"
    by (rule threads_upd [OF on_cpu_slots [OF assms(1)] on_cpu_slots [OF assms(2)] s(3)]) (use s in auto)
  have "th_tid (lp_thread (l_proc s c) u) < l_nexttid s" if "u < NTHREAD" for u
    using tids_okD(2) [OF _ that] on_cpuD(5) [OF assms(1)] by (simp add: proc_inv_def)
  then have "\<forall>u<NTHREAD. th_tid (lp_thread (l_proc s c) u) \<noteq> l_nexttid s" by fastforce
  then show "threads (l_proc s c) (l_nexttid s) = None"
    unfolding threads_None [OF on_cpu_slots [OF assms(1)]] by (auto simp: slot_def Let_def split: if_splits)
qed

lemma slot_wake: "slot (wake_threads ch p) t = slot p t"
  by (simp add: slot_def Let_def wake_threads_eq)

lemma slot_wakeup1: "slot (l_proc (wakeup1 ch s) i) t = slot (l_proc s i) t"
  by (simp add: lwakeup1_eq slot_wake)

lemma sched_slots:
  assumes "sched ctx s = Inr s'" "l_cpuproc s = Some c"
  shows "slot (l_proc s' c) = slot (l_proc s c)"
  using assms by (auto simp: sched_def slot_def fun_eq_iff split: if_splits)

lemma sleep_slots:
  assumes "on_cpu c s" "sleep ch ptlock ctx s = Inr s'"
  shows "slot (l_proc s' c) = slot (l_proc s c)"
proof -
  obtain s1 where "sched ctx s1 = Inr s'" "l_cpuproc s1 = Some c"
    "l_proc s1 c = upd_th (lp_thidx (l_proc s c)) (\<lambda>th. th\<lparr>th_chan := ch, th_state := SLEEPING\<rparr>) ((l_proc s c)\<lparr>lp_state := RUNNABLE\<rparr>)"
    using assms(2) on_cpuD(2) [OF assms(1)] by (cases ptlock) (auto simp: sleep_def rbind_eq_Inr acquire_eq)
  then show ?thesis using sched_slots [of ctx s1 s' c] on_cpuD(8) [OF assms(1)] by (auto simp: slot_def fun_eq_iff Let_def)
qed

lemma countth_exit:
  assumes "th_state (lp_thread p t) = RUNNING" "t < NTHREAD"
  shows "countth p = Suc (countth (upd_th t (\<lambda>th. th\<lparr>th_state := ZOMBIE, th_retval := v\<rparr>) p))" (is "_ = Suc (countth ?q)")
proof -
  let ?alive = "\<lambda>q i. th_state (lp_thread q i) \<noteq> UNUSED \<and> th_state (lp_thread q i) \<noteq> ZOMBIE"
  have cnt: "countth q = card {i. i < NTHREAD \<and> ?alive q i}" for q
    unfolding countth_def by (subst distinct_card [symmetric]) (auto intro!: arg_cong [where f = card])
  have "{i. i < NTHREAD \<and> ?alive p i} = insert t {i. i < NTHREAD \<and> ?alive ?q i}" using assms by auto
  then show ?thesis unfolding cnt by simp
qed

lemma exit_threads:
  assumes on: "on_cpu c s" and r: "thread_exit v ctx s = Inr s'" and more: "countth (l_proc s c) \<noteq> 1"
  shows "threads (l_proc s' c) = (threads (l_proc s c))(th_tid (lp_thread (l_proc s c) (lp_thidx (l_proc s c))) \<mapsto> Exited v)"
proof -
  let ?p = "l_proc s c" and ?t = "lp_thidx (l_proc s c)"
  let ?q = "upd_th ?t (\<lambda>th. th\<lparr>th_state := ZOMBIE, th_retval := v\<rparr>) ?p"
  have run: "th_state (lp_thread ?p ?t) = RUNNING" "?t < NTHREAD" using on_cpuD(7,8) [OF on] by simp_all
  have "countth ?p = Suc (countth ?q)" by (rule countth_exit) (use run in simp_all)
  then have nz: "countth ?q \<noteq> 0" using more by simp
  obtain sc: "sched ctx (wakeup1 (ChThread c ?t) (upd_lp c (exit_thread v) (s\<lparr>l_held := True\<rparr>))) = Inr s'"
    using thread_exit_eq [OF on r] by blast
  have "slot (l_proc s' c) u = slot (exit_thread v ?p) u" for u
    using sched_slots [OF sc, of c] on_cpuD(2) [OF on] by (simp add: slot_wakeup1)
  then have sl: "slot (l_proc s' c) u = (if u = ?t then Some (th_tid (lp_thread ?p ?t), Exited v) else slot ?p u)" for u
    using nz by (simp add: slot_def exit_thread_def Let_def)
  have "after_call c s'" by (rule thread_exit_ok [OF on r])
  then have ok': "slots_ok (l_proc s' c)"
    using table_invD(2) [of s' c] on_cpuD(4) [OF on] tids_slots by (auto simp: after_call_def proc_inv_def)
  show ?thesis
  proof (rule threads_upd [OF on_cpu_slots [OF on] ok' run(2)])
    show "slot ?p ?t = None \<or> (\<exists>z. slot ?p ?t = Some (th_tid (lp_thread ?p ?t), z))" using run(1) by (simp add: slot_def)
  qed (simp_all add: sl)
qed

lemma join_threads:
  assumes on: "on_cpu c s" and r: "thread_join ops ctx tid s = Inr (v, s')"
  shows "case threads (l_proc s c) tid of
      None \<Rightarrow> v = Return (- 1, None) \<and> threads (l_proc s' c) = threads (l_proc s c)
    | Some Alive \<Rightarrow> v = (if lp_killed (l_proc s c) then Return (- 1, None) else Sleeping) \<and> threads (l_proc s' c) = threads (l_proc s c)
    | Some (Exited x) \<Rightarrow> v = Return (0, Some x) \<and> threads (l_proc s' c) = (threads (l_proc s c))(tid := None)"
proof -
  let ?p = "l_proc s c" and ?P = "\<lambda>t. th_tid (lp_thread (l_proc s c) t) = tid \<and> th_state (lp_thread (l_proc s c) t) \<noteq> UNUSED"
  have nh: "\<not> l_held s" using r on_cpuD(2) [OF on] by (auto simp: thread_join_def acquire_def split: if_splits)
  have sl: "map_option fst (slot ?p t) = Some tid \<longleftrightarrow> ?P t" for t by (auto simp: slot_def Let_def)
  have fi: "first_index (\<lambda>t. map_option fst (slot ?p t) = Some tid) [0..<NTHREAD] = first_index ?P [0..<NTHREAD]" unfolding sl ..
  show ?thesis
  proof (cases "first_index ?P [0..<NTHREAD]")
    case None
    have "v = Return (- 1, None)" "s' = s\<lparr>l_held := False\<rparr>"
      using r on_cpuD(2) [OF on] nh by (auto simp: thread_join_def acquire_def release_def None simp del: first_index_None)
    moreover have "threads ?p tid = None" unfolding threads_def fi None by simp
    ultimately show ?thesis by simp
  next
    case (Some t)
    from first_index_Some [OF Some] have t: "t < NTHREAD" "?P t" by auto
    have th: "threads ?p tid = map_option snd (slot ?p t)" unfolding threads_def fi Some by simp
    have j: "thread_join_loop ops ctx c t (s\<lparr>l_held := True\<rparr>) = Inr (v, s')"
      using r on_cpuD(2) [OF on] by (auto simp: thread_join_def rbind_eq_Inr acquire_eq Some)
    show ?thesis
    proof (cases "th_state (lp_thread ?p t) = ZOMBIE")
      case True
      from join_step [OF j] True obtain e where v: "v = Return (0, Some (th_retval (lp_thread ?p t)))" and
        s': "s' = s\<lparr>l_held := True, l_env := e, l_proc := (l_proc s)(c := join_thread t ?p), l_held := False\<rparr>" by auto
      have ok': "slots_ok (l_proc s' c)"
        using thread_join_ok [OF on r] table_invD(2) [of s' c] on_cpuD(4) [OF on] tids_slots by (auto simp: after_call_def proc_inv_def)
      have "threads (l_proc s' c) = (threads ?p)(tid := None)"
        by (rule threads_del [OF on_cpu_slots [OF on] ok' t(1), of _ "Exited (th_retval (lp_thread ?p t))"])
          (use t(2) True in \<open>simp_all add: s' slot_def Let_def join_thread_sel\<close>)
      then show ?thesis using th v True t(2) by (simp add: slot_def Let_def)
    next
      case False
      have alive: "threads ?p tid = Some Alive" using th False t(2) by (simp add: slot_def Let_def)
      show ?thesis
      proof (cases "lp_killed ?p")
        case True
        then have "v = Return (- 1, None)" "s' = s\<lparr>l_held := False\<rparr>"
          using j False by (auto simp: thread_join_loop_def rbind_eq_Inr release_def)
        then show ?thesis using alive True by simp
      next
        case nk: False
        then have v: "v = Sleeping" and sp: "sleep (ChThread c t) True ctx (s\<lparr>l_held := True\<rparr>) = Inr s'"
          using j False by (auto simp: thread_join_loop_def rbind_eq_Inr)
        have "slot (l_proc s' c) = slot ?p" using sleep_slots [OF _ sp, of c] on by simp
        then have "threads (l_proc s' c) = threads ?p" by (intro threads_cong) simp
        then show ?thesis using alive v nk by simp
      qed
    qed
  qed
qed

section \<open>The lock of the process table\<close>

lemma tick_panics: "l_held s \<Longrightarrow> timer_tick ticks s = Inl (Panic ''acquire'')"
  by (simp add: timer_tick_def wakeup_def acquire_def)

text \<open>Closing the files does not release the lock, so that \<^verbatim>\<open>exit\<close> cannot take it.\<close>

lemma exit_held:
  assumes "l_held s"
  shows "\<not> returns (exit ops ctx s)"
proof
  assume "returns (exit ops ctx s)"
  then obtain s' where "exit ops ctx s = Inr s'" by (auto dest: returns_obtain)
  then obtain c s1 e where f: "rfold (\<lambda>fd s. let f = lp_ofile (l_proc s c) ! fd in
      if f \<noteq> 0 then rbind (lenv_call (o_fileclose ops f) s) (\<lambda>s. Inr (upd_lp c (\<lambda>p. p\<lparr>lp_ofile := (lp_ofile p)[fd := 0]\<rparr>) s))
      else Inr s) [0..<NOFILE] s = Inr s1"
    and g: "\<not> l_held s1"
    by (auto simp: exit_def rbind_eq_Inr lenv_call_eq acquire_eq split: if_splits option.splits)
  from f have "l_held s1" using assms
    by (rule rfold_stable [where I = l_held]) (auto simp: Let_def rbind_eq_Inr lenv_call_eq split: if_splits)
  then show False using g by simp
qed

lemma last_exit:
  assumes on: "on_cpu c s" and r: "thread_exit v ctx s = Inr s'" and one: "countth (l_proc s c) = 1"
  shows "lp_killed (l_proc s' c) \<and> th_state (lp_thread (l_proc s' c) (lp_thidx (l_proc s c))) = RUNNABLE"
proof -
  let ?p = "l_proc s c" and ?t = "lp_thidx (l_proc s c)"
  have "countth (upd_th ?t (\<lambda>th. th\<lparr>th_state := ZOMBIE, th_retval := v\<rparr>) ?p) = 0"
    using countth_exit [OF on_cpuD(8,7) [OF on], of v] one by simp
  then have x: "lp_killed (exit_thread v ?p)" "th_state (lp_thread (exit_thread v ?p) ?t) = RUNNABLE"
    by (simp_all add: exit_thread_def Let_def)
  have "sched ctx (wakeup1 (ChThread c ?t) (upd_lp c (exit_thread v) (s\<lparr>l_held := True\<rparr>))) = Inr s'"
    using thread_exit_eq [OF on r] by blast
  then have "lp_killed (l_proc s' c) = lp_killed (exit_thread v ?p) \<and> lp_thread (l_proc s' c) ?t = lp_thread (wake_threads (ChThread c ?t) (exit_thread v ?p)) ?t
      \<or> lp_killed (l_proc s' c) = lp_killed (exit_thread v ?p) \<and> lp_thread (l_proc s' c) ?t = lp_thread (exit_thread v ?p) ?t"
    using on_cpuD(2) [OF on] by (auto simp: sched_def lwakeup1_eq split: if_splits)
  then show ?thesis using x by (auto simp: wake_threads_state)
qed

section \<open>A running system\<close>

text \<open>The operations outside: \<open>b\<close> is whether copying to user memory succeeds.\<close>

definition demo_ops :: "bool \<Rightarrow> unit lops" where
  "demo_ops b = \<lparr>o_kalloc = (\<lambda>e. (4096, e)), o_kfree = (\<lambda>a e. Inr e), o_copyuvm = (\<lambda>a n e. Inr (8192, e)),
     o_freevm = (\<lambda>a e. Inr e), o_filedup = (\<lambda>a e. Inr e), o_fileclose = (\<lambda>a e. Inr e), o_idup = (\<lambda>a e. Inr e),
     o_iput = (\<lambda>a e. Inr e), o_setupkvm = (\<lambda>e. (8192, e)), o_inituvm = (\<lambda>a e. Inr e),
     o_allocuvm = (\<lambda>a m n e. Inr (if n < m then m else n, e)), o_deallocuvm = (\<lambda>a m n e. Inr (if n < m then n else m, e)),
     o_namei = (\<lambda>p e. Inr (1, e)), o_trapret = 16, o_forkret = 32,
     o_clearpteu = (\<lambda>a w e. Inr e), o_copyout = (\<lambda>a w d e. (b, e)), o_fetch = (\<lambda>a w e. 0), o_begin_op = id, o_end_op = id,
     o_ilock = (\<lambda>a e. Inr e), o_iunlockput = (\<lambda>a e. Inr e), o_readi = (\<lambda>a m n e. Inr (None, e)),
     o_loaduvm = (\<lambda>a v i m n e. Inr (True, e)), o_fsinit = (\<lambda>e. Inr e)\<rparr>"

abbreviation ops1 :: "unit lops" where "ops1 \<equiv> demo_ops True"

definition demo_proc :: "procstate \<Rightarrow> lproc" where
  "demo_proc st = zero_lproc\<lparr>lp_sz := PGSIZE, lp_pgdir := 8192, lp_pid := 1, lp_cwd := 1, lp_name := safestrcpy_name ''initcode'',
     lp_thread := (\<lambda>_. zero_thread)(0 := zero_thread\<lparr>th_tid := 1, th_kstack := 4096, th_state := st, th_tf := kstack_tf 4096,
       th_context := kstack_context 4096\<rparr>),
     lp_kstack := 4096, lp_state := st, lp_tf := kstack_tf 4096, lp_context := kstack_context 4096\<rparr>"

text \<open>After \<^verbatim>\<open>userinit\<close>, and when the first process runs.\<close>

definition demo_boot :: "unit lwp" where
  "demo_boot = (boot ())\<lparr>l_proc := (\<lambda>_. zero_lproc)(0 := demo_proc RUNNABLE), l_nextpid := 2, l_nexttid := 2, l_initproc := Some 0,
     l_tfs := (\<lambda>_. init_tf)(kstack_tf 4096 := init_tf),
     l_ctxs := (l_ctxs (boot ()))(kstack_context 4096 := \<lparr>c_edi = 0, c_esi = 0, c_ebx = 0, c_ebp = 0, c_eip = 32\<rparr>),
     l_rets := (\<lambda>_. 0)(kstack_tf 4096 - 4 := 16)\<rparr>"

definition demo_run :: "unit lwp" where
  "demo_run = demo_boot\<lparr>l_proc := (\<lambda>_. zero_lproc)(0 := demo_proc RUNNING), l_cpuproc := Some 0, l_frame := Some (0, 0), l_first := False\<rparr>"

lemma first_upt: "m < n \<Longrightarrow> first_index P [m..<n] = (if P m then Some m else first_index P [Suc m..<n])"
  by (subst upt_conv_Cons) simp_all

lemma first_NPROC: "first_index P [0..<NPROC] = (if P 0 then Some 0 else first_index P [1..<NPROC])"
  by (subst first_upt) (simp_all add: NPROC_def)

lemma first_NTHREAD: "first_index P [0..<NTHREAD] = (if P 0 then Some 0 else if P 1 then Some 1 else first_index P [2..<NTHREAD])"
  using first_upt [of 0 NTHREAD P] first_upt [of 1 NTHREAD P] by (simp add: NTHREAD_def numeral_2_eq_2)

lemmas demo_evals = rbind_simps acquire_def release_def first_NPROC first_NTHREAD Let_def lenv_call_def upd_th_def
  boot_def zero_lproc_def zero_thread_def demo_ops_def demo_proc_def demo_boot_def demo_run_def

lemma demo_boot_reach: "lreach (demo_ops b) demo_boot"
proof -
  have "userinit (demo_ops b) (boot ()) = Inr demo_boot"
    by (simp add: userinit_def allocproc_def allocth_def start_proc_def start_thread_def copyprocth_def setup_kstack_def demo_evals)
  then show ?thesis by (rule lreach_boot)
qed

lemma demo_choice: "thidxtorun (demo_proc RUNNABLE) = Inr 0"
proof -
  have "lp_thidx (demo_proc RUNNABLE) < NTHREAD" "existrunnable (demo_proc RUNNABLE)" by (simp_all add: demo_evals existrunnable_def)
  then obtain t where "thidxtorun (demo_proc RUNNABLE) = Inr t" "th_runs (demo_proc RUNNABLE) t" using thidxtorun_ok by metis
  then show ?thesis by (auto simp: demo_evals split: if_splits)
qed

lemma demo_count: "countth (demo_proc RUNNING) = 1"
  by code_simp

lemma demo_run_reach: "lreach (demo_ops b) demo_run" "l_cpuproc demo_run = Some 0" "lp_state (l_proc demo_run 0) = RUNNING"
proof -
  let ?s = "demo_run\<lparr>l_held := True, l_first := True\<rparr>"
  have "lp_state (demo_proc RUNNABLE) = RUNNABLE \<and> existrunnable (demo_proc RUNNABLE)" by (simp add: demo_evals existrunnable_def)
  then have "scheduler_pass demo_boot = dispatch 0 (demo_boot\<lparr>l_held := True\<rparr>)"
    by (simp add: scheduler_pass_def scheduler_from_def acquire_def first_NPROC demo_boot_def boot_def)
  also have "\<dots> = Inr ?s"
  proof -
    have p0: "l_proc (demo_boot\<lparr>l_held := True\<rparr>) 0 = demo_proc RUNNABLE" by (simp add: demo_boot_def)
    show ?thesis unfolding dispatch_def p0 demo_choice rbind_simps by (simp add: switchuvm_def copythproc_def demo_evals)
  qed
  finally have r1: "lreach (demo_ops b) ?s" using lreach_pass [OF demo_boot_reach] by (simp add: demo_boot_def boot_def)
  show c: "l_cpuproc demo_run = Some 0" "lp_state (l_proc demo_run 0) = RUNNING" by (simp_all add: demo_evals)
  have f: "resume (demo_ops b) RForkret 0 ?s = Inr demo_run" by (simp add: forkret_def demo_evals)
  show "lreach (demo_ops b) demo_run" by (rule lreach_resume [OF r1 _ _ f]) (use c in simp_all)
qed

section \<open>Properties\<close>

text \<open>
  C13.  In every reachable state of the kernel with threads, a thread that is RUNNING (and whose process has not exited) is the
  current thread of the process on the CPU, so that at most one runs; every runnable thread has a kernel stack and a page table; the
  identifiers of the threads of a process are different; and the scheduler never panics, neither when it
  starts a pass over the table nor when it is switched to.
\<close>

theorem lwp_invariant:
  assumes "lreach ops s"
  shows "(\<forall>i<NPROC. \<forall>t<NTHREAD. th_state (lp_thread (l_proc s i) t) = RUNNING \<longrightarrow> lp_state (l_proc s i) \<noteq> ZOMBIE
        \<longrightarrow> l_cpuproc s = Some i \<and> t = lp_thidx (l_proc s i))
    \<and> (\<forall>i<NPROC. \<forall>t<NTHREAD. lp_state (l_proc s i) = RUNNABLE \<longrightarrow> th_state (lp_thread (l_proc s i) t) = RUNNABLE
        \<longrightarrow> th_kstack (lp_thread (l_proc s i) t) \<noteq> 0 \<and> lp_pgdir (l_proc s i) \<noteq> 0)
    \<and> (\<forall>i<NPROC. \<forall>t<NTHREAD. \<forall>u<NTHREAD. t \<noteq> u \<longrightarrow> th_state (lp_thread (l_proc s i) t) \<noteq> UNUSED
        \<longrightarrow> th_state (lp_thread (l_proc s i) u) \<noteq> UNUSED \<longrightarrow> th_tid (lp_thread (l_proc s i) t) \<noteq> th_tid (lp_thread (l_proc s i) u))
    \<and> (case l_cpuproc s of None \<Rightarrow> returns (scheduler_pass s)
       | Some c \<Rightarrow> lp_state (l_proc s c) \<noteq> RUNNING \<longrightarrow> returns (scheduler_return s))"
proof (intro conjI allI impI)
  have inv: "table_inv s" "lock_inv s" using lreach_inv [OF assms] by simp_all
  have ok: "threads_ok (l_proc s i)" "tids_ok (l_nexttid s) (l_proc s i)" if "i < NPROC" for i
    using table_invD(2) [OF inv(1) that] by (simp_all add: proc_inv_def)
  fix i t
  assume it: "i < NPROC" "t < NTHREAD"
  show "l_cpuproc s = Some i" "t = lp_thidx (l_proc s i)"
    if "th_state (lp_thread (l_proc s i) t) = RUNNING" "lp_state (l_proc s i) \<noteq> ZOMBIE"
    using threads_okD(6,7) [OF ok(1) [OF it(1)] it(2) that(1)] that(2) table_invD(3) [OF inv(1) it(1)] by blast+
  show "th_kstack (lp_thread (l_proc s i) t) \<noteq> 0" "lp_pgdir (l_proc s i) \<noteq> 0"
    if "lp_state (l_proc s i) = RUNNABLE" "th_state (lp_thread (l_proc s i) t) = RUNNABLE"
    using threads_okD(4) [OF ok(1) [OF it(1)]] threads_okD(5) [OF ok(1) [OF it(1)] _ it(2)] that by simp_all
  show "th_tid (lp_thread (l_proc s i) t) \<noteq> th_tid (lp_thread (l_proc s i) u)"
    if "u < NTHREAD" "t \<noteq> u" "th_state (lp_thread (l_proc s i) t) \<noteq> UNUSED" "th_state (lp_thread (l_proc s i) u) \<noteq> UNUSED" for u
    using tids_okD(4) [OF ok(2) [OF it(1)] it(2) that(1,2)] that(3,4) by blast
next
  have inv: "table_inv s" "lock_inv s" using lreach_inv [OF assms] by simp_all
  show "case l_cpuproc s of None \<Rightarrow> returns (scheduler_pass s)
      | Some c \<Rightarrow> lp_state (l_proc s c) \<noteq> RUNNING \<longrightarrow> returns (scheduler_return s)"
  proof (cases "l_cpuproc s")
    case None
    obtain s' where "scheduler_pass s = Inr s'" using scheduler_pass_ok [OF inv None] by metis
    then show ?thesis using None by simp
  next
    case (Some c)
    have "returns (scheduler_return s)" if n: "lp_state (l_proc s c) \<noteq> RUNNING"
    proof -
      obtain s' where "scheduler_return s = Inr s'" using scheduler_return_ok [OF inv Some n] by metis
      then show ?thesis by simp
    qed
    then show ?thesis using Some by simp
  qed
qed

theorem lwp_invariant_witness: "l_cpuproc demo_boot = None \<and> returns (scheduler_pass demo_boot)"
proof -
  have "l_cpuproc demo_boot = None" by (simp add: demo_evals)
  then show ?thesis using lwp_invariant [OF demo_boot_reach] by simp
qed

text \<open>
  C14.  The thread calls implement a map from thread identifiers to \<open>Alive\<close> or \<open>Exited v\<close>: a successful \<^verbatim>\<open>thread_create\<close> adds a fresh
  identifier as alive; \<^verbatim>\<open>thread_exit(v)\<close> records \<open>v\<close> for the caller, unless it is the only thread; \<^verbatim>\<open>thread_join\<close> of an unknown
  identifier fails, of an exited thread returns exactly its value and removes it, and of a thread that is alive sleeps (or fails when the
  process has been killed); no call changes anything else.
\<close>

theorem thread_refinement:
  assumes "lreach ops s" "l_cpuproc s = Some c" "lp_state (l_proc s c) = RUNNING"
  shows "(thread_create ops f a s = Inr (r, Some tid, s1) \<longrightarrow>
        threads (l_proc s c) tid = None \<and> threads (l_proc s1 c) = (threads (l_proc s c))(tid \<mapsto> Alive))
    \<and> (thread_exit v ctx s = Inr s2 \<longrightarrow> countth (l_proc s c) \<noteq> 1 \<longrightarrow>
        threads (l_proc s2 c) = (threads (l_proc s c))(th_tid (lp_thread (l_proc s c) (lp_thidx (l_proc s c))) \<mapsto> Exited v))
    \<and> (thread_join ops ctx tid s = Inr (w, s3) \<longrightarrow>
        (case threads (l_proc s c) tid of
           None \<Rightarrow> w = Return (- 1, None) \<and> threads (l_proc s3 c) = threads (l_proc s c)
         | Some Alive \<Rightarrow> w = (if lp_killed (l_proc s c) then Return (- 1, None) else Sleeping) \<and> threads (l_proc s3 c) = threads (l_proc s c)
         | Some (Exited x) \<Rightarrow> w = Return (0, Some x) \<and> threads (l_proc s3 c) = (threads (l_proc s c))(tid := None)))"
proof -
  have on: "on_cpu c s" by (rule lreach_on_cpu [OF assms])
  have "threads (l_proc s c) tid = None \<and> threads (l_proc s1 c) = (threads (l_proc s c))(tid \<mapsto> Alive)"
    if "thread_create ops f a s = Inr (r, Some tid, s1)"
    by (cases rule: thread_create_cases [OF on that]) (use create_threads [OF on, of s1 f] in auto)
  then show ?thesis using exit_threads [OF on] join_threads [OF on] by blast
qed

theorem thread_refinement_witness:
  "case thread_create ops1 64 7 demo_run of Inr (r, Some tid, s) \<Rightarrow> threads (l_proc s 0) tid = Some Alive | _ \<Rightarrow> False"
proof -
  have pg: "PGROUNDUP 4096 = 4096" by code_simp
  obtain s where t: "thread_create ops1 64 7 demo_run = Inr (0, Some 2, s)"
    by (simp add: thread_create_def allocth_def thread_ustack_def setup_kstack_def switchuvm_def pg PGSIZE_def demo_evals)
  from thread_refinement [OF demo_run_reach] t show ?thesis by auto
qed

text \<open>
  C15.  The round robin over the threads of a process is fair: if thread \<open>j\<close> is runnable whenever the process is dispatched, it is
  chosen within 64 dispatches, whatever the other threads do in between.
\<close>

theorem thread_fairness:
  assumes "\<And>k. lp_thidx (ps k) < NTHREAD" "\<And>k. thidxtorun (ps k) = Inr (lp_thidx (ps (Suc k)))"
    "\<And>k. th_state (lp_thread (ps k) j) = RUNNABLE" "j < NTHREAD"
  shows "\<exists>k<NTHREAD. thidxtorun (ps k) = Inr j"
  by (rule rr_fair [of ps j]) (use assms in blast)+

definition demo_threads :: "nat \<Rightarrow> lproc" where
  "demo_threads k = zero_lproc\<lparr>lp_thidx := k mod 3, lp_thread := (\<lambda>t. if t < 3 then zero_thread\<lparr>th_state := RUNNABLE\<rparr> else zero_thread)\<rparr>"

theorem thread_fairness_witness: "\<exists>k<NTHREAD. thidxtorun (demo_threads k) = Inr 2"
proof (rule thread_fairness)
  show "lp_thidx (demo_threads k) < NTHREAD" for k
    using mod_less_divisor [of 3 k] by (simp add: demo_threads_def NTHREAD_def)
  show "thidxtorun (demo_threads k) = Inr (lp_thidx (demo_threads (Suc k)))" for k
  proof -
    have c: "thidxtorun (demo_threads 0) = Inr 1" "thidxtorun (demo_threads 1) = Inr 2" "thidxtorun (demo_threads 2) = Inr 0" by code_simp+
    have e: "demo_threads k = demo_threads (k mod 3)" by (simp add: demo_threads_def)
    have "k mod 3 = 0 \<or> k mod 3 = 1 \<or> k mod 3 = 2" by presburger
    then show ?thesis using c unfolding e by (auto simp: demo_threads_def mod_Suc)
  qed
qed (simp_all add: demo_threads_def NTHREAD_def zero_thread_def)





text \<open>
  C17.  The lock of the process table leaks.  When \<^verbatim>\<open>thread_create\<close> fails it returns with the lock held; when the only thread of a
  process calls \<^verbatim>\<open>thread_exit\<close>, the process is marked as killed and, once it is switched to again, returns from \<^verbatim>\<open>thread_exit\<close> with the lock held.
  In both cases the next clock interrupt, or the \<^verbatim>\<open>exit\<close> of the killed process, makes the kernel panic.
\<close>

theorem lock_leak:
  assumes "lreach ops s" "l_cpuproc s = Some c" "lp_state (l_proc s c) = RUNNING"
  shows "(thread_create ops f a s = Inr (r, x, s1) \<longrightarrow> r \<noteq> 0 \<longrightarrow> timer_tick ticks s1 = Inl (Panic ''acquire''))
    \<and> (countth (l_proc s c) = 1 \<longrightarrow> thread_exit v ctx s = Inr s2 \<longrightarrow> lp_killed (l_proc s2 c)
        \<and> th_state (lp_thread (l_proc s2 c) (lp_thidx (l_proc s c))) = RUNNABLE)
    \<and> (l_held s \<longrightarrow> thread_exit_resume c t s = Inr s3 \<longrightarrow> timer_tick ticks s3 = Inl (Panic ''acquire'') \<and> \<not> returns (exit ops ctx s3))"
proof -
  have on: "on_cpu c s" by (rule lreach_on_cpu [OF assms])
  have "timer_tick ticks s1 = Inl (Panic ''acquire'')" if "thread_create ops f a s = Inr (r, x, s1)" "r \<noteq> 0"
    by (cases rule: thread_create_cases [OF on that(1)]) (use that(2) tick_panics in auto)
  moreover have "l_held s3" if "l_held s" "thread_exit_resume c t s = Inr s3"
    using that by (auto simp: thread_exit_resume_def sched_resume_def Let_def split: if_splits)
  ultimately show ?thesis using last_exit [OF on] tick_panics [of s3 ticks] exit_held [of s3 ops ctx] by blast
qed

text \<open>A call of \<^verbatim>\<open>thread_create\<close> that cannot write the new stack, by the first process.\<close>

theorem lock_leak_witness:
  "\<exists>s. thread_create (demo_ops False) 64 7 demo_run = Inr (- 1, None, s) \<and> timer_tick 0 s = Inl (Panic ''acquire'')"
proof -
  have pg: "PGROUNDUP 4096 = 4096" by code_simp
  obtain s where t: "thread_create (demo_ops False) 64 7 demo_run = Inr (- 1, None, s)"
    by (simp add: thread_create_def allocth_def thread_ustack_def thread_bad_def setup_kstack_def switchuvm_def pg PGSIZE_def demo_evals)
  from lock_leak [OF demo_run_reach] t show ?thesis by auto
qed

end
