(* ===== verification/Fs_Cache.thy ===== *)
theory Fs_Cache
  imports Fs_Bytes
begin

text \<open>
  The buffer cache of project 3 (\<^verbatim>\<open>bio.c\<close>) over the memory disk (\<^verbatim>\<open>memide.c\<close>).  The doubly linked list of
  buffers is the list \<open>bc_mru\<close> of buffer numbers from \<^verbatim>\<open>head.next\<close> (most recently used) to
  \<^verbatim>\<open>head.prev\<close>.  A sleep lock is a flag; the code runs for one process at a time, so taking a lock that
  is held is the fault \<open>Deadlock\<close>.  \<open>d_trace\<close> is a ghost field: the writes that reached the disk, in
  order.  The state of the log (\<^verbatim>\<open>struct log\<close>) is in the same record because \<^verbatim>\<open>bget\<close> calls it.
\<close>

section \<open>State\<close>

definition NBUF :: nat where "NBUF = 50"
definition NRESBUF :: nat where "NRESBUF = 2"
definition LOGSIZE :: nat where "LOGSIZE = 52"

record buf =
  b_valid :: bool       \<comment> \<open>\<^verbatim>\<open>B_VALID\<close>\<close>
  b_dirty :: bool       \<comment> \<open>\<^verbatim>\<open>B_DIRTY\<close>\<close>
  b_dev :: nat
  b_blockno :: nat
  b_lock :: bool
  b_refcnt :: nat
  b_data :: block

record fsys =
  d_disk :: "nat \<Rightarrow> block"
  d_size :: nat
  d_trace :: "(nat \<times> block) list"
  bc_buf :: "nat \<Rightarrow> buf"
  bc_mru :: "nat list"
  bc_sync :: int             \<comment> \<open>\<^verbatim>\<open>synchronizing\<close>\<close>
  lg_start :: nat
  lg_size :: nat
  lg_outstanding :: int
  lg_committing :: bool
  lg_dev :: nat
  lg_n :: int
  lg_block :: "nat list"

abbreviation upd_buf :: "nat \<Rightarrow> (buf \<Rightarrow> buf) \<Rightarrow> fsys \<Rightarrow> fsys" where
  "upd_buf i f s \<equiv> s\<lparr>bc_buf := (bc_buf s)(i := f (bc_buf s i))\<rparr>"

section \<open>Operations\<close>

definition binit :: "fsys \<Rightarrow> fsys" where
  "binit s = fold (\<lambda>b s. s\<lparr>bc_mru := b # bc_mru s\<rparr>) [0..<NBUF] (s\<lparr>bc_mru := []\<rparr>)"

definition iderw :: "nat \<Rightarrow> fsys \<Rightarrow> fsys result" where
  "iderw i s =
     (let b = bc_buf s i in
      if \<not> b_lock b then Inl (Panic ''iderw: buf not locked'')
      else if b_valid b \<and> \<not> b_dirty b then Inl (Panic ''iderw: nothing to do'')
      else if b_dev b \<noteq> 1 then Inl (Panic ''iderw: request not for disk 1'')
      else if b_blockno b \<ge> d_size s then Inl (Panic ''iderw: block out of range'')
      else if b_dirty b then
        Inr (upd_buf i (\<lambda>b. b\<lparr>b_dirty := False, b_valid := True\<rparr>)
              (s\<lparr>d_disk := (d_disk s)(b_blockno b := b_data b), d_trace := d_trace s @ [(b_blockno b, b_data b)]\<rparr>))
      else
        Inr (upd_buf i (\<lambda>b. b\<lparr>b_data := d_disk s (b_blockno b), b_valid := True\<rparr>) s))"

definition usable :: "fsys \<Rightarrow> nat \<Rightarrow> bool" where
  "usable s i \<longleftrightarrow> b_refcnt (bc_buf s i) = 0 \<and> \<not> b_dirty (bc_buf s i)"

definition acquiresleep :: "nat \<Rightarrow> fsys \<Rightarrow> fsys result" where
  "acquiresleep i s =
     (if b_lock (bc_buf s i) then Inl Deadlock else Inr (upd_buf i (\<lambda>b. b\<lparr>b_lock := True\<rparr>) s))"

text \<open>The lookup of \<^verbatim>\<open>bget\<close>, after the test whether the cache has to be written back.\<close>

definition bget_lookup :: "nat \<Rightarrow> nat \<Rightarrow> fsys \<Rightarrow> (nat \<times> fsys) result" where
  "bget_lookup dev blockno s =
     (case first_index (\<lambda>i. b_dev (bc_buf s i) = dev \<and> b_blockno (bc_buf s i) = blockno) (bc_mru s) of
        Some i \<Rightarrow>
          rbind (acquiresleep i (upd_buf i (\<lambda>b. b\<lparr>b_refcnt := b_refcnt b + 1\<rparr>) s)) (\<lambda>s. Inr (i, s))
      | None \<Rightarrow>
          (case first_index (usable s) (rev (bc_mru s)) of
             Some i \<Rightarrow>
               rbind (acquiresleep i (upd_buf i (\<lambda>b. b\<lparr>b_dev := dev, b_blockno := blockno,
                 b_valid := False, b_dirty := False, b_refcnt := 1\<rparr>) s)) (\<lambda>s. Inr (i, s))
           | None \<Rightarrow> Inl (Panic ''bget: no buffers'')))"

definition bread_from :: "(nat \<Rightarrow> nat \<Rightarrow> fsys \<Rightarrow> (nat \<times> fsys) result) \<Rightarrow> nat \<Rightarrow> nat \<Rightarrow> fsys \<Rightarrow> (nat \<times> fsys) result" where
  "bread_from get dev blockno s =
     rbind (get dev blockno s) (\<lambda>(i, s).
       if \<not> b_valid (bc_buf s i) then rbind (iderw i s) (\<lambda>s. Inr (i, s)) else Inr (i, s))"

text \<open>\<^verbatim>\<open>bread\<close> as it runs while \<^verbatim>\<open>synchronizing\<close> is set, when \<^verbatim>\<open>bget\<close> never calls \<^verbatim>\<open>sync1\<close>.\<close>

definition bread_sync :: "nat \<Rightarrow> nat \<Rightarrow> fsys \<Rightarrow> (nat \<times> fsys) result" where
  "bread_sync = bread_from bget_lookup"

definition bwrite :: "nat \<Rightarrow> fsys \<Rightarrow> fsys result" where
  "bwrite i s =
     (if \<not> b_lock (bc_buf s i) then Inl (Panic ''bwrite'')
      else iderw i (upd_buf i (\<lambda>b. b\<lparr>b_dirty := True\<rparr>) s))"

definition brelse :: "nat \<Rightarrow> fsys \<Rightarrow> fsys result" where
  "brelse i s =
     (if \<not> b_lock (bc_buf s i) then Inl (Panic ''brelse'')
      else
        let s = upd_buf i (\<lambda>b. b\<lparr>b_lock := False, b_refcnt := b_refcnt b - 1\<rparr>) s in
        Inr (if b_refcnt (bc_buf s i) = 0 then s\<lparr>bc_mru := i # remove1 i (bc_mru s)\<rparr> else s))"

section \<open>Well formed caches\<close>

text \<open>
  Every buffer is in the list once, no two buffers hold the same block, locks are held with a
  reference, a dirty buffer is valid and belongs to the disk, and a clean, valid, unlocked buffer holds
  what is on the disk.
\<close>

definition cache_ok :: "fsys \<Rightarrow> bool" where
  "cache_ok s \<longleftrightarrow> distinct (bc_mru s) \<and> set (bc_mru s) = {..<NBUF} \<and>
     (\<forall>i<NBUF. \<forall>j<NBUF. b_dev (bc_buf s i) = 1 \<and> b_dev (bc_buf s j) = 1
        \<and> b_blockno (bc_buf s i) = b_blockno (bc_buf s j) \<longrightarrow> i = j) \<and>
     (\<forall>i<NBUF. (b_lock (bc_buf s i) \<longleftrightarrow> 0 < b_refcnt (bc_buf s i))
        \<and> (b_dirty (bc_buf s i) \<longrightarrow> b_valid (bc_buf s i))
        \<and> (b_valid (bc_buf s i) \<longleftrightarrow> b_dev (bc_buf s i) = 1)
        \<and> (\<not> b_lock (bc_buf s i) \<and> b_valid (bc_buf s i) \<and> \<not> b_dirty (bc_buf s i) \<longrightarrow>
             b_data (bc_buf s i) = d_disk s (b_blockno (bc_buf s i))))"

text \<open>What a reader of block \<open>b\<close> sees, which blocks are locked and which are dirty.\<close>

definition holds :: "fsys \<Rightarrow> nat \<Rightarrow> nat \<Rightarrow> bool" where
  "holds s i b \<longleftrightarrow> i < NBUF \<and> b_dev (bc_buf s i) = 1 \<and> b_blockno (bc_buf s i) = b"

definition content :: "fsys \<Rightarrow> nat \<Rightarrow> block" where
  "content s b = (case first_index (\<lambda>i. holds s i b \<and> b_valid (bc_buf s i)) [0..<NBUF] of
     None \<Rightarrow> d_disk s b | Some i \<Rightarrow> b_data (bc_buf s i))"

definition locked :: "fsys \<Rightarrow> nat set" where
  "locked s = {i. i < NBUF \<and> b_lock (bc_buf s i)}"

definition dirty :: "fsys \<Rightarrow> nat set" where
  "dirty s = {b. \<exists>i. holds s i b \<and> b_dirty (bc_buf s i)}"

definition log_part :: "fsys \<Rightarrow> nat \<times> int \<times> nat \<times> nat \<times> int \<times> bool \<times> nat \<times> int \<times> nat list" where
  "log_part s = (d_size s, bc_sync s, lg_start s, lg_size s, lg_outstanding s, lg_committing s, lg_dev s,
     lg_n s, lg_block s)"

lemma log_partD:
  assumes "log_part s' = log_part s"
  shows "d_size s' = d_size s" "bc_sync s' = bc_sync s" "lg_start s' = lg_start s" "lg_size s' = lg_size s"
    "lg_outstanding s' = lg_outstanding s" "lg_committing s' = lg_committing s" "lg_dev s' = lg_dev s"
    "lg_n s' = lg_n s" "lg_block s' = lg_block s"
  using assms by (simp_all add: log_part_def)

lemma cache_okD:
  assumes "cache_ok s" "i < NBUF"
  shows "b_lock (bc_buf s i) \<longleftrightarrow> 0 < b_refcnt (bc_buf s i)" "b_dirty (bc_buf s i) \<Longrightarrow> b_valid (bc_buf s i)"
    "b_valid (bc_buf s i) \<longleftrightarrow> b_dev (bc_buf s i) = 1"
    "\<not> b_lock (bc_buf s i) \<Longrightarrow> b_valid (bc_buf s i) \<Longrightarrow> \<not> b_dirty (bc_buf s i) \<Longrightarrow>
      b_data (bc_buf s i) = d_disk s (b_blockno (bc_buf s i))"
  using assms by (simp_all add: cache_ok_def)

lemma holds_unique: "cache_ok s \<Longrightarrow> holds s i b \<Longrightarrow> holds s j b \<Longrightarrow> i = j"
  unfolding cache_ok_def holds_def by blast

lemma holds_self: "holds s i b \<Longrightarrow> holds s i c \<Longrightarrow> b = c"
  by (simp add: holds_def)

lemma content_held:
  assumes "cache_ok s" "holds s i b" "b_valid (bc_buf s i)"
  shows "content s b = b_data (bc_buf s i)"
proof (cases "first_index (\<lambda>i. holds s i b \<and> b_valid (bc_buf s i)) [0..<NBUF]")
  case None
  then have "\<forall>i<NBUF. \<not> (holds s i b \<and> b_valid (bc_buf s i))" by simp
  with assms show ?thesis by (auto simp: holds_def)
next
  case (Some j)
  with first_index_Some [OF Some] holds_unique [OF assms(1,2)] show ?thesis by (auto simp: content_def)
qed

lemma content_disk:
  assumes "\<And>i. holds s i b \<Longrightarrow> \<not> b_valid (bc_buf s i)"
  shows "content s b = d_disk s b"
proof -
  have "first_index (\<lambda>i. holds s i b \<and> b_valid (bc_buf s i)) [0..<NBUF] = None"
    using assms by simp
  then show ?thesis by (simp only: content_def option.case)
qed

lemma content_clean:
  assumes ok: "cache_ok s" and c: "b \<notin> dirty s" "\<And>i. holds s i b \<Longrightarrow> \<not> b_lock (bc_buf s i)"
  shows "content s b = d_disk s b"
proof (cases "\<exists>i. holds s i b \<and> b_valid (bc_buf s i)")
  case True
  then obtain i where i: "holds s i b" "b_valid (bc_buf s i)" by blast
  have "\<not> b_dirty (bc_buf s i)" using c(1) i(1) by (auto simp: dirty_def)
  then show ?thesis
    using content_held [OF ok i] cache_okD(4) [OF ok, of i] c(2) [OF i(1)] i by (simp add: holds_def)
next
  case False
  then show ?thesis using content_disk by blast
qed

lemma dirty_cong:
  "(\<And>j c. holds s' j c \<longleftrightarrow> holds s j c) \<Longrightarrow> (\<And>j. b_dirty (bc_buf s' j) = b_dirty (bc_buf s j)) \<Longrightarrow> dirty s' = dirty s"
  by (simp add: dirty_def)

lemma dirty_held: "cache_ok s \<Longrightarrow> holds s i b \<Longrightarrow> b \<in> dirty s \<longleftrightarrow> b_dirty (bc_buf s i)"
  using holds_unique by (auto simp: dirty_def)

text \<open>
  A change of one buffer: enough for every lemma below.  \<open>content\<close> and \<open>dirty\<close> of the blocks that the
  buffer neither had nor gets are unchanged.
\<close>

lemma holds_upd:
  assumes "\<And>j. j \<noteq> i \<Longrightarrow> bc_buf s' j = bc_buf s j" "j \<noteq> i"
  shows "holds s' j b \<longleftrightarrow> holds s j b"
  using assms by (simp add: holds_def)

lemma content_other:
  assumes ok: "cache_ok s" "cache_ok s'" and o: "\<And>j. j \<noteq> i \<Longrightarrow> bc_buf s' j = bc_buf s j"
    and n: "\<not> holds s i b" "\<not> holds s' i b" and d: "d_disk s' b = d_disk s b"
  shows "content s' b = content s b" "b \<in> dirty s' \<longleftrightarrow> b \<in> dirty s"
proof -
  have h: "holds s' j b \<longleftrightarrow> holds s j b" for j using n holds_upd [of i s' s j b, OF o] by (cases "j = i") auto
  have e: "holds s j b \<Longrightarrow> bc_buf s' j = bc_buf s j" for j using n o by (cases "j = i") auto
  show "content s' b = content s b"
  proof (cases "\<exists>j. holds s j b \<and> b_valid (bc_buf s j)")
    case True
    then obtain j where j: "holds s j b" "b_valid (bc_buf s j)" by blast
    then show ?thesis using content_held [OF ok(1) j] content_held [OF ok(2), of j b] h e by simp
  next
    case False
    then show ?thesis using content_disk [of s b] content_disk [of s' b] h e d by metis
  qed
  show "b \<in> dirty s' \<longleftrightarrow> b \<in> dirty s" using h e by (auto simp: dirty_def)
qed

definition buf_ok :: "(nat \<Rightarrow> block) \<Rightarrow> buf \<Rightarrow> bool" where
  "buf_ok d b \<longleftrightarrow> (b_lock b \<longleftrightarrow> 0 < b_refcnt b) \<and> (b_dirty b \<longrightarrow> b_valid b) \<and> (b_valid b \<longleftrightarrow> b_dev b = 1)
     \<and> (\<not> b_lock b \<and> b_valid b \<and> \<not> b_dirty b \<longrightarrow> b_data b = d (b_blockno b))"

lemma cache_ok_alt: "cache_ok s \<longleftrightarrow> distinct (bc_mru s) \<and> set (bc_mru s) = {..<NBUF} \<and>
    (\<forall>i j b. holds s i b \<and> holds s j b \<longrightarrow> i = j) \<and> (\<forall>i<NBUF. buf_ok (d_disk s) (bc_buf s i))"
  unfolding cache_ok_def holds_def buf_ok_def by blast

lemma cache_ok_upd:
  assumes ok: "cache_ok s" and i: "i < NBUF"
    and o: "\<And>j. j \<noteq> i \<Longrightarrow> bc_buf s' j = bc_buf s j"
    and m: "distinct (bc_mru s')" "set (bc_mru s') = {..<NBUF}"
    and u: "\<And>j b. j \<noteq> i \<Longrightarrow> holds s j b \<Longrightarrow> \<not> holds s' i b"
    and b: "buf_ok (d_disk s') (bc_buf s' i)"
    and d: "\<And>c. d_disk s' c \<noteq> d_disk s c \<Longrightarrow> holds s i c"
  shows "cache_ok s'"
proof -
  have h: "holds s' j c \<longleftrightarrow> holds s j c" if "j \<noteq> i" for j c using holds_upd [of i s' s j c, OF o that] .
  have "a = a'" if "holds s' a c" "holds s' a' c" for a a' c
    using that h u holds_unique [OF ok] by (cases "a = i"; cases "a' = i") blast+
  moreover have "buf_ok (d_disk s') (bc_buf s' j)" if j: "j < NBUF" for j
  proof (cases "j = i")
    case False
    have bo: "buf_ok (d_disk s) (bc_buf s j)" using ok j by (simp add: cache_ok_alt)
    have "d_disk s' (b_blockno (bc_buf s j)) = d_disk s (b_blockno (bc_buf s j))" if "b_valid (bc_buf s j)"
    proof (rule ccontr)
      assume "\<not> ?thesis"
      then have "holds s i (b_blockno (bc_buf s j))" by (rule d)
      moreover have "holds s j (b_blockno (bc_buf s j))" using bo that j by (simp add: holds_def buf_ok_def)
      ultimately show False using holds_unique [OF ok] False by blast
    qed
    with bo o [OF False] show ?thesis by (auto simp: buf_ok_def)
  qed (use b in simp)
  ultimately show ?thesis using m by (auto simp: cache_ok_alt)
qed

lemma lookup_hit:
  assumes "cache_ok s"
  shows "first_index (\<lambda>i. b_dev (bc_buf s i) = 1 \<and> b_blockno (bc_buf s i) = b) (bc_mru s) = Some i \<longleftrightarrow> holds s i b"
proof
  assume "first_index (\<lambda>i. b_dev (bc_buf s i) = 1 \<and> b_blockno (bc_buf s i) = b) (bc_mru s) = Some i"
  from first_index_Some [OF this] assms show "holds s i b" by (auto simp: cache_ok_def holds_def)
next
  assume h: "holds s i b"
  show "first_index (\<lambda>i. b_dev (bc_buf s i) = 1 \<and> b_blockno (bc_buf s i) = b) (bc_mru s) = Some i"
  proof (cases "first_index (\<lambda>i. b_dev (bc_buf s i) = 1 \<and> b_blockno (bc_buf s i) = b) (bc_mru s)")
    case None
    then show ?thesis using h assms by (auto simp: cache_ok_def holds_def)
  next
    case (Some j)
    from first_index_Some [OF this] assms have "holds s j b" by (auto simp: cache_ok_def holds_def)
    with Some holds_unique [OF assms h] show ?thesis by simp
  qed
qed

text \<open>The state that reading block \<open>b\<close> into buffer \<open>i\<close> leads to.\<close>

definition read_post :: "fsys \<Rightarrow> nat \<Rightarrow> nat \<Rightarrow> fsys \<Rightarrow> bool" where
  "read_post s b i s' \<longleftrightarrow> cache_ok s' \<and> holds s' i b \<and> b_valid (bc_buf s' i) \<and> b_lock (bc_buf s' i)
     \<and> \<not> b_lock (bc_buf s i) \<and> b_refcnt (bc_buf s' i) = 1
     \<and> content s' = content s \<and> dirty s' = dirty s \<and> d_disk s' = d_disk s \<and> d_trace s' = d_trace s
     \<and> log_part s' = log_part s \<and> (\<forall>j. j \<noteq> i \<longrightarrow> bc_buf s' j = bc_buf s j)"

lemma read_hit:
  assumes ok: "cache_ok s" and h: "holds s i b" "\<not> b_lock (bc_buf s i)"
  shows "\<exists>s'. bread_sync 1 b s = Inr (i, s') \<and> read_post s b i s'"
proof -
  let ?s = "upd_buf i (\<lambda>b. b\<lparr>b_refcnt := b_refcnt b + 1, b_lock := True\<rparr>) s"
  have i: "i < NBUF" using h by (simp add: holds_def)
  have r: "b_refcnt (bc_buf s i) = 0" "b_valid (bc_buf s i)"
    using cache_okD(1,3) [OF ok i] h by (simp_all add: holds_def)
  have "bread_sync 1 b s = Inr (i, ?s)"
    using lookup_hit [OF ok, of b i] h r by (simp add: bread_sync_def bread_from_def bget_lookup_def acquiresleep_def)
  moreover have hs: "holds ?s j c \<longleftrightarrow> holds s j c" for j c by (simp add: holds_def)
  have ok': "cache_ok ?s"
  proof (rule cache_ok_upd [OF ok i])
    show "buf_ok (d_disk ?s) (bc_buf ?s i)" using ok i h by (simp add: cache_ok_alt buf_ok_def)
    fix j c assume "j \<noteq> i" "holds s j c"
    then show "\<not> holds ?s i c" using holds_unique [OF ok] hs by blast
  qed (use ok in \<open>auto simp: cache_ok_def\<close>)
  moreover have "content ?s = content s"
  proof
    fix c show "content ?s c = content s c"
    proof (cases "holds s i c")
      case True
      then show ?thesis using content_held [OF ok True r(2)] content_held [OF ok', of i c] hs r(2) by simp
    next
      case False
      then show ?thesis using content_other(1) [OF ok ok', of i c] hs by simp
    qed
  qed
  moreover have "dirty ?s = dirty s" by (rule dirty_cong) (simp_all add: holds_def)
  moreover have "holds ?s i b" using hs h by blast
  ultimately show ?thesis using h r by (simp add: read_post_def log_part_def)
qed

lemma read_miss:
  assumes ok: "cache_ok s" and n: "\<And>i. \<not> holds s i b" and b: "b < d_size s" and u: "i < NBUF" "usable s i"
  shows "\<exists>i s'. bread_sync 1 b s = Inr (i, s') \<and> read_post s b i s'"
proof -
  have "first_index (usable s) (rev (bc_mru s)) \<noteq> None" using ok u by (auto simp: cache_ok_def)
  then obtain k where k: "first_index (usable s) (rev (bc_mru s)) = Some k" by blast
  have k': "k < NBUF" "usable s k" using first_index_Some [OF k] ok by (auto simp: cache_ok_def)
  have none: "first_index (\<lambda>i. b_dev (bc_buf s i) = 1 \<and> b_blockno (bc_buf s i) = b) (bc_mru s) = None"
    using lookup_hit [OF ok, of b] n by (cases "first_index (\<lambda>i. b_dev (bc_buf s i) = 1 \<and> b_blockno (bc_buf s i) = b) (bc_mru s)") auto
  have kl: "\<not> b_lock (bc_buf s k)" using cache_okD(1) [OF ok k'(1)] k'(2) by (simp add: usable_def)
  let ?s = "upd_buf k (\<lambda>x. x\<lparr>b_dev := 1, b_blockno := b, b_dirty := False, b_refcnt := 1,
     b_lock := True, b_data := d_disk s b, b_valid := True\<rparr>) s"
  have run: "bread_sync 1 b s = Inr (k, ?s)"
    using b kl unfolding bread_sync_def bread_from_def bget_lookup_def none k option.case
    by (simp add: acquiresleep_def iderw_def)
  have ok': "cache_ok ?s"
  proof (rule cache_ok_upd [OF ok k'(1)])
    show "buf_ok (d_disk ?s) (bc_buf ?s k)" by (simp add: buf_ok_def)
    fix j c assume "j \<noteq> k" "holds s j c"
    then show "\<not> holds ?s k c" using n [of j] by (auto simp: holds_def)
  qed (use ok in \<open>auto simp: cache_ok_def\<close>)
  have hk: "holds ?s k b" using k' by (simp add: holds_def)
  have hk': "holds ?s k c \<longleftrightarrow> c = b" for c using k' by (auto simp: holds_def)
  have nd: "c \<notin> dirty s" if "holds s k c" for c
    using dirty_held [OF ok that] k'(2) by (simp add: usable_def)
  have "content ?s c = content s c \<and> (c \<in> dirty ?s \<longleftrightarrow> c \<in> dirty s)" for c
  proof (cases "holds s k c \<or> c = b")
    case False
    then show ?thesis using content_other [OF ok ok', of k c] hk' by simp
  next
    case True
    show ?thesis
    proof (cases "c = b")
      case True
      have "content ?s b = d_disk s b" using content_held [OF ok' hk] by simp
      moreover have "content s b = d_disk s b" using content_disk [of s b] n by blast
      moreover have "b \<notin> dirty ?s" using dirty_held [OF ok' hk] by simp
      moreover have "b \<notin> dirty s" using n by (auto simp: dirty_def)
      ultimately show ?thesis using True by simp
    next
      case False
      with True have h: "holds s k c" by simp
      have nh: "\<not> holds ?s j c" for j
      proof (cases "j = k")
        case True
        with False hk' show ?thesis by blast
      next
        case jk: False
        then have "holds ?s j c \<longleftrightarrow> holds s j c" by (intro holds_upd) simp_all
        with jk holds_unique [OF ok h, of j] show ?thesis by blast
      qed
      have "content ?s c = d_disk s c" using content_disk [of ?s c] nh by simp
      moreover have "\<not> b_lock (bc_buf s j)" if "holds s j c" for j using holds_unique [OF ok h that] kl by simp
      then have "content s c = d_disk s c" by (rule content_clean [OF ok nd [OF h]])
      moreover have "c \<notin> dirty ?s" using nh by (auto simp: dirty_def)
      ultimately show ?thesis using nd [OF h] by simp
    qed
  qed
  then have "content ?s = content s" "dirty ?s = dirty s" by auto
  then have "read_post s b k ?s" using ok' hk kl by (simp add: read_post_def log_part_def)
  with run show ?thesis by blast
qed

text \<open>Reading a block that is cached and unlocked, or for which a buffer is free.\<close>

lemma bread_sync_ok:
  assumes ok: "cache_ok s" and b: "b < d_size s" and l: "\<And>i. holds s i b \<Longrightarrow> \<not> b_lock (bc_buf s i)"
    and u: "(\<exists>i. holds s i b) \<or> (\<exists>i<NBUF. usable s i)"
  shows "\<exists>i s'. bread_sync 1 b s = Inr (i, s') \<and> read_post s b i s'"
proof (cases "\<exists>i. holds s i b")
  case True
  then show ?thesis using read_hit [OF ok] l by blast
next
  case False
  then show ?thesis using read_miss [OF ok _ b] u by blast
qed

text \<open>Overwriting the data of a locked buffer in memory.\<close>

lemma set_data_ok:
  assumes ok: "cache_ok s" and h: "holds s i b" "b_lock (bc_buf s i)"
  shows "cache_ok (upd_buf i (\<lambda>x. x\<lparr>b_data := d\<rparr>) s)"
    "content (upd_buf i (\<lambda>x. x\<lparr>b_data := d\<rparr>) s) = (content s)(b := d)"
    "dirty (upd_buf i (\<lambda>x. x\<lparr>b_data := d\<rparr>) s) = dirty s"
proof -
  let ?s = "upd_buf i (\<lambda>x. x\<lparr>b_data := d\<rparr>) s"
  have i: "i < NBUF" using h by (simp add: holds_def)
  have v: "b_valid (bc_buf s i)" using cache_okD(3) [OF ok i] h by (simp add: holds_def)
  have hs: "holds ?s j c \<longleftrightarrow> holds s j c" for j c by (simp add: holds_def)
  show ok': "cache_ok ?s"
  proof (rule cache_ok_upd [OF ok i])
    show "buf_ok (d_disk ?s) (bc_buf ?s i)" using ok i h(2) by (simp add: cache_ok_alt buf_ok_def)
    fix j c assume "j \<noteq> i" "holds s j c"
    then show "\<not> holds ?s i c" using holds_unique [OF ok] hs by blast
  qed (use ok in \<open>auto simp: cache_ok_def\<close>)
  show "content ?s = (content s)(b := d)"
  proof
    fix c show "content ?s c = ((content s)(b := d)) c"
    proof (cases "c = b")
      case True
      then show ?thesis using content_held [OF ok', of i b] hs h v by simp
    next
      case False
      then have "\<not> holds s i c" using holds_self h(1) by blast
      then show ?thesis using content_other(1) [OF ok ok', of i c] hs False by simp
    qed
  qed
  show "dirty ?s = dirty s" by (rule dirty_cong) (simp_all add: holds_def)
qed

text \<open>Writing a locked buffer to the disk.\<close>

lemma bwrite_ok:
  assumes ok: "cache_ok s" and h: "holds s i b" "b_lock (bc_buf s i)" and b: "b < d_size s"
  shows "\<exists>s'. bwrite i s = Inr s' \<and> cache_ok s' \<and> content s' = content s \<and> dirty s' = dirty s - {b}
    \<and> d_disk s' = (d_disk s)(b := content s b) \<and> d_trace s' = d_trace s @ [(b, content s b)]
    \<and> log_part s' = log_part s \<and> (\<forall>j. j \<noteq> i \<longrightarrow> bc_buf s' j = bc_buf s j)
    \<and> bc_buf s' i = (bc_buf s i)\<lparr>b_dirty := False\<rparr>"
proof -
  have i: "i < NBUF" using h by (simp add: holds_def)
  have hd: "b_dev (bc_buf s i) = 1" "b_blockno (bc_buf s i) = b" using h by (simp_all add: holds_def)
  have v: "b_valid (bc_buf s i)" using cache_okD(3) [OF ok i] hd by simp
  have c: "content s b = b_data (bc_buf s i)" by (rule content_held [OF ok h(1) v])
  let ?s = "upd_buf i (\<lambda>x. x\<lparr>b_dirty := False\<rparr>) (s\<lparr>d_disk := (d_disk s)(b := content s b),
     d_trace := d_trace s @ [(b, content s b)]\<rparr>)"
  have e: "(bc_buf s i)\<lparr>b_dirty := False, b_valid := True\<rparr> = (bc_buf s i)\<lparr>b_dirty := False\<rparr>" using v by (cases "bc_buf s i") simp
  have run: "bwrite i s = Inr ?s"
    using h hd b c v by (simp add: bwrite_def iderw_def e)
  have hs: "holds ?s j c \<longleftrightarrow> holds s j c" for j c by (simp add: holds_def)
  have ok': "cache_ok ?s"
  proof (rule cache_ok_upd [OF ok i])
    show "buf_ok (d_disk ?s) (bc_buf ?s i)" using ok i h(2) v hd by (simp add: cache_ok_alt buf_ok_def)
    fix j c assume "j \<noteq> i" "holds s j c"
    then show "\<not> holds ?s i c" using holds_unique [OF ok] hs by blast
  next
    fix c assume "d_disk ?s c \<noteq> d_disk s c"
    then show "holds s i c" using h(1) by (auto split: if_splits)
  qed (use ok in \<open>auto simp: cache_ok_def\<close>)
  have "content ?s x = content s x \<and> (x \<in> dirty ?s \<longleftrightarrow> x \<in> dirty s - {b})" for x
  proof (cases "x = b")
    case True
    then show ?thesis using content_held [OF ok', of i b] dirty_held [OF ok', of i b] hs h v c by simp
  next
    case False
    then have "\<not> holds s i x" using holds_self h(1) by blast
    then show ?thesis using content_other [OF ok ok', of i x] hs False by simp
  qed
  then have "content ?s = content s" "dirty ?s = dirty s - {b}" by auto
  with run ok' show ?thesis by (simp add: log_part_def)
qed

text \<open>Releasing a buffer whose data is on the disk or logged.\<close>

lemma brelse_ok:
  assumes ok: "cache_ok s" and h: "holds s i b" "b_lock (bc_buf s i)" "b_refcnt (bc_buf s i) = 1"
    and c: "b \<in> dirty s \<or> content s b = d_disk s b"
  shows "\<exists>s'. brelse i s = Inr s' \<and> cache_ok s' \<and> content s' = content s \<and> dirty s' = dirty s
    \<and> d_disk s' = d_disk s \<and> d_trace s' = d_trace s \<and> log_part s' = log_part s
    \<and> (\<forall>j. j \<noteq> i \<longrightarrow> bc_buf s' j = bc_buf s j) \<and> bc_buf s' i = (bc_buf s i)\<lparr>b_lock := False, b_refcnt := 0\<rparr>"
proof -
  have i: "i < NBUF" using h by (simp add: holds_def)
  have hd: "b_dev (bc_buf s i) = 1" "b_blockno (bc_buf s i) = b" using h by (simp_all add: holds_def)
  have v: "b_valid (bc_buf s i)" using cache_okD(3) [OF ok i] hd by simp
  have cb: "content s b = b_data (bc_buf s i)" by (rule content_held [OF ok h(1) v])
  let ?s = "(upd_buf i (\<lambda>x. x\<lparr>b_lock := False, b_refcnt := 0\<rparr>) s)\<lparr>bc_mru := i # remove1 i (bc_mru s)\<rparr>"
  have run: "brelse i s = Inr ?s" using h by (simp add: brelse_def)
  have hs: "holds ?s j c \<longleftrightarrow> holds s j c" for j c by (simp add: holds_def)
  have ok': "cache_ok ?s"
  proof (rule cache_ok_upd [OF ok i])
    show "buf_ok (d_disk ?s) (bc_buf ?s i)"
      using ok i v hd c cb dirty_held [OF ok h(1)] by (auto simp: cache_ok_alt buf_ok_def)
    show "distinct (bc_mru ?s)" "set (bc_mru ?s) = {..<NBUF}" using ok i by (auto simp: cache_ok_def)
    fix j c assume "j \<noteq> i" "holds s j c"
    then show "\<not> holds ?s i c" using holds_unique [OF ok] hs by blast
  qed simp_all
  have "content ?s x = content s x" for x
  proof (cases "x = b")
    case True
    then show ?thesis using content_held [OF ok', of i b] hs h v cb by simp
  next
    case False
    then have "\<not> holds s i x" using holds_self h(1) by blast
    then show ?thesis using content_other(1) [OF ok ok', of i x] hs by simp
  qed
  moreover have "dirty ?s = dirty s" by (rule dirty_cong) (simp_all add: holds_def)
  ultimately show ?thesis using run ok' by (auto simp: log_part_def)
qed

section \<open>Working on two buffers\<close>

text \<open>Between operations no buffer is locked; two of them can be recycled.\<close>

definition quiet :: "fsys \<Rightarrow> bool" where
  "quiet s \<longleftrightarrow> cache_ok s \<and> (\<forall>i<NBUF. \<not> b_lock (bc_buf s i))"

definition avail :: "fsys \<Rightarrow> bool" where
  "avail s \<longleftrightarrow> (\<exists>i<NBUF. \<exists>j<NBUF. i \<noteq> j \<and> usable s i \<and> usable s j)"

lemma avail_mono: "avail s \<Longrightarrow> (\<And>i. i < NBUF \<Longrightarrow> usable s i \<Longrightarrow> usable s' i) \<Longrightarrow> avail s'"
  unfolding avail_def by blast

text \<open>\<^verbatim>\<open>memmove(to->data, from->data, BSIZE)\<close>\<close>

definition copy_buf :: "nat \<Rightarrow> nat \<Rightarrow> fsys \<Rightarrow> fsys" where
  "copy_buf to from s = upd_buf to (\<lambda>b. b\<lparr>b_data := b_data (bc_buf s from)\<rparr>) s"

lemma read_post_usable:
  assumes "read_post s b i s'" "j < NBUF" "usable s j"
  shows "\<not> b_dirty (bc_buf s' j) \<and> (j \<noteq> i \<longrightarrow> usable s' j)"
proof (cases "j = i")
  case True
  have ok: "cache_ok s'" and h: "holds s' i b" and o: "\<And>j. j \<noteq> i \<Longrightarrow> bc_buf s' j = bc_buf s j" and d: "dirty s' = dirty s"
    using assms(1) by (simp_all add: read_post_def)
  have "\<not> b_dirty (bc_buf s' i)"
  proof
    assume "b_dirty (bc_buf s' i)"
    then have "b \<in> dirty s" using dirty_held [OF ok h] d by simp
    then obtain k where k: "holds s k b" "b_dirty (bc_buf s k)" by (auto simp: dirty_def)
    have "k = i"
    proof (rule ccontr)
      assume "k \<noteq> i"
      then have "holds s' k b" using k(1) holds_upd [of i s' s k b, OF o] by simp
      with \<open>k \<noteq> i\<close> holds_unique [OF ok h] show False by blast
    qed
    with k(2) True assms(3) show False by (simp add: usable_def)
  qed
  with True show ?thesis by simp
next
  case False
  with assms show ?thesis by (simp add: read_post_def usable_def)
qed

lemma read_two:
  assumes q: "quiet s" "avail s" and b: "b1 \<noteq> b2" "b1 < d_size s" "b2 < d_size s"
  shows "\<exists>i1 s1 i2 s2. bread_sync 1 b1 s = Inr (i1, s1) \<and> read_post s b1 i1 s1
    \<and> bread_sync 1 b2 s1 = Inr (i2, s2) \<and> read_post s1 b2 i2 s2 \<and> i1 \<noteq> i2"
proof -
  have ok: "cache_ok s" and un: "\<And>i. i < NBUF \<Longrightarrow> \<not> b_lock (bc_buf s i)" using q(1) by (simp_all add: quiet_def)
  obtain u v where uv: "u < NBUF" "v < NBUF" "u \<noteq> v" "usable s u" "usable s v" using q(2) by (auto simp: avail_def)
  have "\<exists>i s'. bread_sync 1 b1 s = Inr (i, s') \<and> read_post s b1 i s'"
    by (rule bread_sync_ok [OF ok b(2)]) (use un uv in \<open>auto simp: holds_def\<close>)
  then obtain i1 s1 where r1: "bread_sync 1 b1 s = Inr (i1, s1)" "read_post s b1 i1 s1" by blast
  have ok1: "cache_ok s1" "d_size s1 = d_size s" "holds s1 i1 b1" "b_lock (bc_buf s1 i1)"
      "\<And>j. j \<noteq> i1 \<Longrightarrow> bc_buf s1 j = bc_buf s j"
    using r1(2) by (auto simp: read_post_def log_part_def)
  have l1: "\<not> b_lock (bc_buf s1 i)" if "holds s1 i b2" for i
  proof -
    have "i \<noteq> i1" using that ok1(3) b(1) by (auto simp: holds_def)
    then show ?thesis using un [of i] ok1(5) that by (simp add: holds_def)
  qed
  have "\<exists>i<NBUF. usable s1 i"
    using read_post_usable [OF r1(2)] uv by metis
  with bread_sync_ok [OF ok1(1) _ l1] b(3) ok1(2) obtain i2 s2 where
    r2: "bread_sync 1 b2 s1 = Inr (i2, s2)" "read_post s1 b2 i2 s2" by metis
  have "i1 \<noteq> i2" using r2(2) ok1(4) by (auto simp: read_post_def)
  with r1 r2 show ?thesis by blast
qed

lemma copy_finish:
  assumes ok: "cache_ok s" and h: "holds s f src" "holds s t dst" "src \<noteq> dst"
    and l: "b_lock (bc_buf s f)" "b_lock (bc_buf s t)" "b_refcnt (bc_buf s f) = 1" "b_refcnt (bc_buf s t) = 1"
    and o: "\<And>i. i < NBUF \<Longrightarrow> b_lock (bc_buf s i) \<Longrightarrow> i = f \<or> i = t"
    and c: "src \<in> dirty s \<or> content s src = d_disk s src" and d: "dst < d_size s"
  shows "\<exists>s'. rbind (bwrite t (copy_buf t f s)) (\<lambda>s. rbind (brelse f s) (brelse t)) = Inr s' \<and> quiet s'
    \<and> content s' = (content s)(dst := content s src) \<and> dirty s' = dirty s - {dst}
    \<and> d_disk s' = (d_disk s)(dst := content s src) \<and> d_trace s' = d_trace s @ [(dst, content s src)]
    \<and> log_part s' = log_part s \<and> (\<forall>j. \<not> b_dirty (bc_buf s j) \<longrightarrow> \<not> b_dirty (bc_buf s' j))"
proof -
  have ft: "f \<noteq> t" using h by (auto simp: holds_def)
  have fi: "f < NBUF" using h by (simp add: holds_def)
  have df: "b_data (bc_buf s f) = content s src"
    using content_held [OF ok h(1)] cache_okD(3) [OF ok fi] h(1) by (simp add: holds_def)
  let ?s1 = "copy_buf t f s"
  have s1: "cache_ok ?s1" "content ?s1 = (content s)(dst := content s src)" "dirty ?s1 = dirty s"
    using set_data_ok [OF ok h(2) l(2), of "content s src"] by (simp_all add: copy_buf_def df)
  have b1: "bc_buf ?s1 f = bc_buf s f" "holds ?s1 t dst" "b_lock (bc_buf ?s1 t)" "b_refcnt (bc_buf ?s1 t) = 1"
    "d_size ?s1 = d_size s" "d_disk ?s1 = d_disk s" "d_trace ?s1 = d_trace s" "log_part ?s1 = log_part s"
    "\<And>j. j \<noteq> t \<Longrightarrow> bc_buf ?s1 j = bc_buf s j"
    using ft h(2) l(2,4) by (simp_all add: copy_buf_def holds_def log_part_def)
  from bwrite_ok [OF s1(1) b1(2,3)] d b1(5) obtain s2 where
    s2: "bwrite t ?s1 = Inr s2" "cache_ok s2" "content s2 = content ?s1" "dirty s2 = dirty ?s1 - {dst}"
      "d_disk s2 = (d_disk ?s1)(dst := content ?s1 dst)" "d_trace s2 = d_trace ?s1 @ [(dst, content ?s1 dst)]"
      "log_part s2 = log_part ?s1" "\<forall>j. j \<noteq> t \<longrightarrow> bc_buf s2 j = bc_buf ?s1 j" "bc_buf s2 t = (bc_buf ?s1 t)\<lparr>b_dirty := False\<rparr>"
    by auto
  have f2: "bc_buf s2 f = bc_buf s f" using s2(8) b1(1) ft by simp
  have h2: "holds s2 f src" "holds s2 t dst" using h(1) f2 b1(2) s2(9) by (simp_all add: holds_def)
  have "src \<in> dirty s2 \<or> content s2 src = d_disk s2 src" using c h(3) by (auto simp: s2 s1 b1)
  from brelse_ok [OF s2(2) h2(1) _ _ this] l(1,3) f2 obtain s3 where
    s3: "brelse f s2 = Inr s3" "cache_ok s3" "content s3 = content s2" "dirty s3 = dirty s2" "d_disk s3 = d_disk s2"
      "d_trace s3 = d_trace s2" "log_part s3 = log_part s2" "\<forall>j. j \<noteq> f \<longrightarrow> bc_buf s3 j = bc_buf s2 j"
      "bc_buf s3 f = (bc_buf s2 f)\<lparr>b_lock := False, b_refcnt := 0\<rparr>" by auto
  have t3: "bc_buf s3 t = (bc_buf ?s1 t)\<lparr>b_dirty := False\<rparr>" using s3(8) s2(9) ft by simp
  have h3: "holds s3 t dst" "b_lock (bc_buf s3 t)" "b_refcnt (bc_buf s3 t) = 1" using b1(2-4) t3 by (simp_all add: holds_def)
  have "content s3 dst = d_disk s3 dst" by (simp add: s3 s2 s1)
  with brelse_ok [OF s3(2) h3] obtain s4 where
    s4: "brelse t s3 = Inr s4" "cache_ok s4" "content s4 = content s3" "dirty s4 = dirty s3" "d_disk s4 = d_disk s3"
      "d_trace s4 = d_trace s3" "log_part s4 = log_part s3" "\<forall>j. j \<noteq> t \<longrightarrow> bc_buf s4 j = bc_buf s3 j"
      "bc_buf s4 t = (bc_buf s3 t)\<lparr>b_lock := False, b_refcnt := 0\<rparr>" by blast
  have rest: "bc_buf s4 j = bc_buf s j" if "j \<noteq> f" "j \<noteq> t" for j using that s4(8) s3(8) s2(8) b1(9) by simp
  have f4: "bc_buf s4 f = (bc_buf s f)\<lparr>b_lock := False, b_refcnt := 0\<rparr>" using s4(8) s3(9) f2 ft by simp
  have "\<not> b_lock (bc_buf s4 j)" if "j < NBUF" for j
    using o [OF that] rest [of j] f4 s4(9) by (cases "j = f"; cases "j = t") auto
  moreover have "\<not> b_dirty (bc_buf s4 j)" if "\<not> b_dirty (bc_buf s j)" for j
    using that rest [of j] f4 s4(9) t3 by (cases "j = f"; cases "j = t") auto
  ultimately show ?thesis using s2 s3 s4 s1 b1 by (auto simp: quiet_def)
qed

lemma quiet_clean: "quiet s \<Longrightarrow> b \<notin> dirty s \<Longrightarrow> content s b = d_disk s b"
  by (rule content_clean) (auto simp: quiet_def holds_def)

text \<open>The effect of copying block \<open>src\<close> to block \<open>dst\<close> and writing \<open>dst\<close>.\<close>

definition copied :: "nat \<Rightarrow> nat \<Rightarrow> fsys \<Rightarrow> fsys \<Rightarrow> bool" where
  "copied src dst s s' \<longleftrightarrow> quiet s' \<and> avail s' \<and> content s' = (content s)(dst := content s src)
     \<and> dirty s' = dirty s - {dst} \<and> d_disk s' = (d_disk s)(dst := content s src)
     \<and> d_trace s' = d_trace s @ [(dst, content s src)] \<and> log_part s' = log_part s"

lemma copied_finish:
  assumes q: "quiet s" "avail s" and sd: "src \<noteq> dst" "dst < d_size s"
    and r: "read_post s b1 i1 s1" "read_post s1 b2 i2 s2" "i1 \<noteq> i2"
    and b: "b1 = src \<and> b2 = dst \<and> f = i1 \<and> t = i2 \<or> b1 = dst \<and> b2 = src \<and> f = i2 \<and> t = i1"
  shows "\<exists>s'. rbind (bwrite t (copy_buf t f s2)) (\<lambda>s. rbind (brelse f s) (brelse t)) = Inr s' \<and> copied src dst s s'"
proof -
  have ok: "cache_ok s" and un: "\<And>i. i < NBUF \<Longrightarrow> \<not> b_lock (bc_buf s i)" using q(1) by (simp_all add: quiet_def)
  have r1: "content s1 = content s" "dirty s1 = dirty s" "d_disk s1 = d_disk s" "d_trace s1 = d_trace s"
      "log_part s1 = log_part s" "holds s1 i1 b1" "b_lock (bc_buf s1 i1)" "b_refcnt (bc_buf s1 i1) = 1"
      "\<And>j. j \<noteq> i1 \<Longrightarrow> bc_buf s1 j = bc_buf s j" using r(1) by (simp_all add: read_post_def)
  have r2: "cache_ok s2" "content s2 = content s1" "dirty s2 = dirty s1" "d_disk s2 = d_disk s1" "d_trace s2 = d_trace s1"
      "log_part s2 = log_part s1" "holds s2 i2 b2" "b_lock (bc_buf s2 i2)" "b_refcnt (bc_buf s2 i2) = 1"
      "\<And>j. j \<noteq> i2 \<Longrightarrow> bc_buf s2 j = bc_buf s1 j" using r(2) by (simp_all add: read_post_def)
  have h1: "holds s2 i1 b1" "b_lock (bc_buf s2 i1)" "b_refcnt (bc_buf s2 i1) = 1"
    using r1(6-8) r2(10) [OF r(3)] by (simp_all add: holds_def)
  have lk: "i = f \<or> i = t" if "i < NBUF" "b_lock (bc_buf s2 i)" for i
    using that un [of i] r1(9) [of i] r2(10) [of i] b by (cases "i = i1"; cases "i = i2") auto
  have cl: "src \<in> dirty s2 \<or> content s2 src = d_disk s2 src"
    using quiet_clean [OF q(1), of src] r1(1-3) r2(2-4) by auto
  have sz: "dst < d_size s2" using sd(2) log_partD(1) [OF r1(5)] log_partD(1) [OF r2(6)] by simp
  have hs: "holds s2 f src" "holds s2 t dst" "b_lock (bc_buf s2 f)" "b_lock (bc_buf s2 t)"
      "b_refcnt (bc_buf s2 f) = 1" "b_refcnt (bc_buf s2 t) = 1" using b h1 r2(7-9) by auto
  from copy_finish [OF r2(1) hs(1,2) sd(1) hs(3-6) lk cl sz] obtain s' where
    s': "rbind (bwrite t (copy_buf t f s2)) (\<lambda>s. rbind (brelse f s) (brelse t)) = Inr s'" "quiet s'"
      "content s' = (content s2)(dst := content s2 src)" "dirty s' = dirty s2 - {dst}"
      "d_disk s' = (d_disk s2)(dst := content s2 src)" "d_trace s' = d_trace s2 @ [(dst, content s2 src)]"
      "log_part s' = log_part s2" "\<forall>j. \<not> b_dirty (bc_buf s2 j) \<longrightarrow> \<not> b_dirty (bc_buf s' j)" by blast
  have "usable s' j" if j: "j < NBUF" "usable s j" for j
  proof -
    have d1: "\<not> b_dirty (bc_buf s1 j)" "j \<noteq> i1 \<Longrightarrow> usable s1 j" using read_post_usable [OF r(1) j] by auto
    have "\<not> b_dirty (bc_buf s2 j)"
    proof (cases "j = i1")
      case True
      with d1(1) r2(10) [OF r(3)] show ?thesis by simp
    next
      case False
      with read_post_usable [OF r(2) j(1) d1(2)] show ?thesis by simp
    qed
    with s'(8) cache_okD(1) [of s' j] s'(2) j(1) show ?thesis by (simp add: usable_def quiet_def)
  qed
  then have "avail s'" using avail_mono [OF q(2)] by blast
  with s' show ?thesis by (simp add: copied_def r1(1-5) r2(2-6))
qed

lemma copy_dst_first:
  assumes "quiet s" "avail s" "src \<noteq> dst" "src < d_size s" "dst < d_size s"
  shows "\<exists>t s1 f s2 s'. bread_sync 1 dst s = Inr (t, s1) \<and> log_part s1 = log_part s \<and> bread_sync 1 src s1 = Inr (f, s2)
    \<and> rbind (bwrite t (copy_buf t f s2)) (\<lambda>s. rbind (brelse f s) (brelse t)) = Inr s' \<and> copied src dst s s'"
proof -
  from read_two [OF assms(1,2) assms(3) [symmetric] assms(5,4)] obtain t s1 f s2 where
    r: "bread_sync 1 dst s = Inr (t, s1)" "read_post s dst t s1" "bread_sync 1 src s1 = Inr (f, s2)"
      "read_post s1 src f s2" "t \<noteq> f" by blast
  with copied_finish [OF assms(1-3,5) r(2,4,5), of f t] show ?thesis by (auto simp: read_post_def)
qed

lemma copy_src_first:
  assumes "quiet s" "avail s" "src \<noteq> dst" "src < d_size s" "dst < d_size s"
  shows "\<exists>f s1 t s2 s'. bread_sync 1 src s = Inr (f, s1) \<and> log_part s1 = log_part s \<and> bread_sync 1 dst s1 = Inr (t, s2)
    \<and> rbind (bwrite t (copy_buf t f s2)) (\<lambda>s. rbind (brelse f s) (brelse t)) = Inr s' \<and> copied src dst s s'"
proof -
  from read_two [OF assms(1-5)] obtain f s1 t s2 where
    r: "bread_sync 1 src s = Inr (f, s1)" "read_post s src f s1" "bread_sync 1 dst s1 = Inr (t, s2)"
      "read_post s1 dst t s2" "f \<noteq> t" by blast
  with copied_finish [OF assms(1-3,5) r(2,4,5), of f t] show ?thesis by (auto simp: read_post_def)
qed

text \<open>Reading one block, and writing a new value of it.\<close>

lemma quiet_read:
  assumes q: "quiet s" "avail s" and b: "b < d_size s"
  shows "\<exists>i s'. bread_sync 1 b s = Inr (i, s') \<and> read_post s b i s' \<and> b_data (bc_buf s' i) = content s b"
proof -
  have "\<exists>i s'. bread_sync 1 b s = Inr (i, s') \<and> read_post s b i s'"
    by (rule bread_sync_ok [OF _ b]) (use q in \<open>auto simp: quiet_def holds_def avail_def\<close>)
  then obtain i s' where r: "bread_sync 1 b s = Inr (i, s')" "read_post s b i s'" by blast
  then have "b_data (bc_buf s' i) = content s b" using content_held [of s' i b] by (simp add: read_post_def)
  with r show ?thesis by blast
qed

lemma read_release:
  assumes q: "quiet s" "avail s" and r: "read_post s b i s1"
  shows "\<exists>s'. brelse i s1 = Inr s' \<and> quiet s' \<and> avail s' \<and> content s' = content s \<and> dirty s' = dirty s
    \<and> d_disk s' = d_disk s \<and> d_trace s' = d_trace s \<and> log_part s' = log_part s"
proof -
  have r1: "cache_ok s1" "holds s1 i b" "b_lock (bc_buf s1 i)" "b_refcnt (bc_buf s1 i) = 1" "content s1 = content s"
      "dirty s1 = dirty s" "d_disk s1 = d_disk s" "d_trace s1 = d_trace s" "log_part s1 = log_part s"
      "\<And>j. j \<noteq> i \<Longrightarrow> bc_buf s1 j = bc_buf s j" using r by (simp_all add: read_post_def)
  have "b \<in> dirty s1 \<or> content s1 b = d_disk s1 b" using quiet_clean [OF q(1), of b] r1 by auto
  from brelse_ok [OF r1(1-4) this] obtain s' where
    s': "brelse i s1 = Inr s'" "cache_ok s'" "content s' = content s1" "dirty s' = dirty s1" "d_disk s' = d_disk s1"
      "d_trace s' = d_trace s1" "log_part s' = log_part s1" "\<forall>j. j \<noteq> i \<longrightarrow> bc_buf s' j = bc_buf s1 j"
      "bc_buf s' i = (bc_buf s1 i)\<lparr>b_lock := False, b_refcnt := 0\<rparr>" by blast
  have un: "\<not> b_lock (bc_buf s' j)" if "j < NBUF" for j
    using that q(1) s'(8,9) r1(10) by (cases "j = i") (auto simp: quiet_def)
  have "usable s' j" if "j < NBUF" "usable s j" for j
    using read_post_usable [OF r that] un [OF that(1)] cache_okD(1) [OF s'(2) that(1)] s'(8,9)
    by (cases "j = i") (auto simp: usable_def)
  then have "avail s'" using avail_mono [OF q(2)] by blast
  with un s' r1 show ?thesis by (simp add: quiet_def)
qed

lemma write_one:
  assumes q: "quiet s" "avail s" and b: "b < d_size s" and r: "read_post s b i s1"
  shows "\<exists>s'. rbind (bwrite i (upd_buf i (\<lambda>x. x\<lparr>b_data := d\<rparr>) s1)) (brelse i) = Inr s' \<and> quiet s' \<and> avail s'
    \<and> content s' = (content s)(b := d) \<and> dirty s' = dirty s - {b} \<and> d_disk s' = (d_disk s)(b := d)
    \<and> d_trace s' = d_trace s @ [(b, d)] \<and> log_part s' = log_part s"
proof -
  have r1: "cache_ok s1" "holds s1 i b" "b_lock (bc_buf s1 i)" "b_refcnt (bc_buf s1 i) = 1" "content s1 = content s"
      "dirty s1 = dirty s" "d_disk s1 = d_disk s" "d_trace s1 = d_trace s" "log_part s1 = log_part s"
      "\<And>j. j \<noteq> i \<Longrightarrow> bc_buf s1 j = bc_buf s j" using r by (simp_all add: read_post_def)
  let ?s2 = "upd_buf i (\<lambda>x. x\<lparr>b_data := d\<rparr>) s1"
  note s2 = set_data_ok [OF r1(1-3), of d]
  have h2: "holds ?s2 i b" "b_lock (bc_buf ?s2 i)" "b < d_size ?s2"
    using r1(2,3) b log_partD(1) [OF r1(9)] by (simp_all add: holds_def)
  from bwrite_ok [OF s2(1) h2] obtain s3 where
    s3: "bwrite i ?s2 = Inr s3" "cache_ok s3" "content s3 = content ?s2" "dirty s3 = dirty ?s2 - {b}"
      "d_disk s3 = (d_disk ?s2)(b := content ?s2 b)" "d_trace s3 = d_trace ?s2 @ [(b, content ?s2 b)]"
      "log_part s3 = log_part ?s2" "\<forall>j. j \<noteq> i \<longrightarrow> bc_buf s3 j = bc_buf ?s2 j"
      "bc_buf s3 i = (bc_buf ?s2 i)\<lparr>b_dirty := False\<rparr>" by blast
  have h3: "holds s3 i b" "b_lock (bc_buf s3 i)" "b_refcnt (bc_buf s3 i) = 1" using s3(9) r1(2-4) by (simp_all add: holds_def)
  have "content s3 b = d_disk s3 b" by (simp add: s3)
  with brelse_ok [OF s3(2) h3] obtain s' where
    s': "brelse i s3 = Inr s'" "cache_ok s'" "content s' = content s3" "dirty s' = dirty s3" "d_disk s' = d_disk s3"
      "d_trace s' = d_trace s3" "log_part s' = log_part s3" "\<forall>j. j \<noteq> i \<longrightarrow> bc_buf s' j = bc_buf s3 j"
      "bc_buf s' i = (bc_buf s3 i)\<lparr>b_lock := False, b_refcnt := 0\<rparr>" by blast
  have un: "\<not> b_lock (bc_buf s' j)" if "j < NBUF" for j
    using that q(1) s'(8,9) s3(8) r1(10) by (cases "j = i") (auto simp: quiet_def)
  have "usable s' j" if "j < NBUF" "usable s j" for j
    using read_post_usable [OF r that] un [OF that(1)] cache_okD(1) [OF s'(2) that(1)] s'(8,9) s3(8,9)
    by (cases "j = i") (auto simp: usable_def)
  then have "avail s'" using avail_mono [OF q(2)] by blast
  with un s' s3 s2 r1 show ?thesis by (simp add: quiet_def log_part_def)
qed

end
