(* ===== verification/Fs_Log.thy ===== *)
theory Fs_Log
  imports Fs_Cache
begin

text \<open>
  The redo log of project 3 (\<^verbatim>\<open>log.c\<close>) and the part of \<^verbatim>\<open>bget\<close> that writes the cache back.  The functions
  of the log read blocks through \<open>brd\<close>, which is \<open>bread\<close> during recovery and \<open>bread_sync\<close> while
  \<^verbatim>\<open>synchronizing\<close> is set.  A function that would sleep returns \<open>None\<close> for its result.
\<close>

section \<open>Operations\<close>

type_synonym reader = "nat \<Rightarrow> nat \<Rightarrow> fsys \<Rightarrow> (nat \<times> fsys) result"

record superblock =
  sb_size :: nat
  sb_nblocks :: nat
  sb_ninodes :: nat
  sb_nlog :: nat
  sb_logstart :: nat
  sb_inodestart :: nat
  sb_bmapstart :: nat

definition sb_of :: "block \<Rightarrow> superblock" where
  "sb_of d = \<lparr>sb_size = get32 d 0, sb_nblocks = get32 d 4, sb_ninodes = get32 d 8, sb_nlog = get32 d 12,
     sb_logstart = get32 d 16, sb_inodestart = get32 d 20, sb_bmapstart = get32 d 24\<rparr>"

definition readsb :: "reader \<Rightarrow> nat \<Rightarrow> fsys \<Rightarrow> (superblock \<times> fsys) result" where
  "readsb brd dev s =
     rbind (brd dev 1 s) (\<lambda>(bp, s). rbind (brelse bp s) (\<lambda>s'. Inr (sb_of (b_data (bc_buf s bp)), s')))"

text \<open>\<^verbatim>\<open>uint\<close> values read as \<^verbatim>\<open>int\<close>\<close>

definition s32 :: "nat \<Rightarrow> int" where
  "s32 n = (if n < 2 ^ 31 then int n else int n - 2 ^ 32)"

definition install_trans :: "reader \<Rightarrow> fsys \<Rightarrow> fsys result" where
  "install_trans brd s = rfold (\<lambda>tail s.
     rbind (brd (lg_dev s) (lg_start s + tail + 1) s) (\<lambda>(lbuf, s).
     rbind (brd (lg_dev s) (lg_block s ! tail) s) (\<lambda>(dbuf, s).
     rbind (bwrite dbuf (copy_buf dbuf lbuf s)) (\<lambda>s. rbind (brelse lbuf s) (brelse dbuf))))) [0..<nat (lg_n s)] s"

definition read_head :: "reader \<Rightarrow> fsys \<Rightarrow> fsys result" where
  "read_head brd s =
     rbind (brd (lg_dev s) (lg_start s) s) (\<lambda>(b, s).
       let lh = b_data (bc_buf s b); n = s32 (get32 lh 0) in
       if nat n > LOGSIZE then Inl OutOfBounds
       else brelse b (s\<lparr>lg_n := n,
              lg_block := map (\<lambda>i. get32 lh (4 + 4 * i)) [0..<nat n] @ drop (nat n) (lg_block s)\<rparr>))"

text \<open>The header that \<^verbatim>\<open>write_head\<close> leaves in its buffer.\<close>

definition head_data :: "int \<Rightarrow> nat list \<Rightarrow> block \<Rightarrow> block" where
  "head_data n bs d = fold (\<lambda>i d. put32 (4 + 4 * i) (bs ! i) d) [0..<nat n] (put32 0 (nat (n mod 2 ^ 32)) d)"

definition write_head :: "reader \<Rightarrow> fsys \<Rightarrow> fsys result" where
  "write_head brd s =
     rbind (brd (lg_dev s) (lg_start s) s) (\<lambda>(b, s).
     rbind (bwrite b (upd_buf b (\<lambda>x. x\<lparr>b_data := head_data (lg_n s) (lg_block s) (b_data x)\<rparr>) s)) (brelse b))"

definition recover_from_log :: "reader \<Rightarrow> fsys \<Rightarrow> fsys result" where
  "recover_from_log brd s =
     rbind (read_head brd s) (\<lambda>s.
     rbind (install_trans brd s) (\<lambda>s. write_head brd (s\<lparr>lg_n := 0\<rparr>)))"

definition begin_op :: "fsys \<Rightarrow> fsys option" where
  "begin_op s = (if lg_committing s then None else Some (s\<lparr>lg_outstanding := lg_outstanding s + 1\<rparr>))"

text \<open>\<^verbatim>\<open>end_op\<close>: whether it is done or has to sleep until a commit is over.\<close>

definition end_op :: "fsys \<Rightarrow> bool \<times> fsys" where
  "end_op s = (\<not> lg_committing s, s\<lparr>lg_outstanding := lg_outstanding s - 1\<rparr>)"

definition write_log :: "reader \<Rightarrow> fsys \<Rightarrow> fsys result" where
  "write_log brd s = rfold (\<lambda>tail s.
     rbind (brd (lg_dev s) (lg_start s + tail + 1) s) (\<lambda>(to, s).
     rbind (brd (lg_dev s) (lg_block s ! tail) s) (\<lambda>(from, s).
     rbind (bwrite to (copy_buf to from s)) (\<lambda>s. rbind (brelse from s) (brelse to))))) [0..<nat (lg_n s)] s"

definition commit :: "reader \<Rightarrow> fsys \<Rightarrow> fsys result" where
  "commit brd s =
     (if \<not> lg_committing s then Inl (Panic ''in commit, log.committing 0'')
      else if lg_n s > 0 then
        rbind (write_log brd s) (\<lambda>s.
        rbind (write_head brd s) (\<lambda>s.
        rbind (install_trans brd s) (\<lambda>s. write_head brd (s\<lparr>lg_n := 0\<rparr>))))
      else Inr s)"

definition sync1 :: "bool \<Rightarrow> fsys \<Rightarrow> (int option \<times> fsys) result" where
  "sync1 is_syscall s =
     (if is_syscall \<and> lg_committing s then Inr (None, s)
      else let n = lg_n s in
        rbind (commit bread_sync (s\<lparr>lg_committing := True\<rparr>)) (\<lambda>s.
          let s = s\<lparr>lg_committing := False\<rparr> in
          Inr (Some (if lg_n s \<noteq> 0 then - 1 else n), s)))"

text \<open>What a waiting \<^verbatim>\<open>sync1\<close> returns after it is woken.\<close>

definition sync1_woken :: "fsys \<Rightarrow> int" where
  "sync1_woken s = (if lg_n s \<noteq> 0 then - 1 else lg_n s)"

definition sys_sync :: "fsys \<Rightarrow> (int option \<times> fsys) result" where
  "sys_sync s = rbind (sync1 True (s\<lparr>bc_sync := 1\<rparr>)) (\<lambda>(r, s). Inr (r, s\<lparr>bc_sync := 0\<rparr>))"

definition bget :: "nat \<Rightarrow> nat \<Rightarrow> fsys \<Rightarrow> (nat \<times> fsys) result" where
  "bget dev blockno s =
     (let cnt = length (filter (usable s) (rev (bc_mru s))) in
      rbind (if cnt \<le> NRESBUF \<and> bc_sync s = 0
             then rbind (sync1 False (s\<lparr>bc_sync := bc_sync s + 1\<rparr>)) (\<lambda>(r, s). Inr (s\<lparr>bc_sync := 0\<rparr>))
             else Inr s)
        (bget_lookup dev blockno))"

definition bread :: "nat \<Rightarrow> nat \<Rightarrow> fsys \<Rightarrow> (nat \<times> fsys) result" where
  "bread = bread_from bget"

definition initlog :: "nat \<Rightarrow> fsys \<Rightarrow> fsys result" where
  "initlog dev s =
     (if 4 + 4 * LOGSIZE \<ge> BSIZE then Inl (Panic ''initlog: too big logheader'')
      else rbind (readsb bread dev s) (\<lambda>(sb, s).
        rbind (recover_from_log bread (s\<lparr>lg_start := sb_logstart sb, lg_size := sb_nlog sb, lg_dev := dev\<rparr>))
          (\<lambda>s. Inr (s\<lparr>bc_sync := 0\<rparr>))))"

definition log_write :: "nat \<Rightarrow> fsys \<Rightarrow> fsys result" where
  "log_write b s =
     (if lg_n s \<ge> int LOGSIZE \<or> lg_n s \<ge> int (lg_size s) - 1 then Inl (Panic ''too big a transaction'')
      else
        let blockno = b_blockno (bc_buf s b);
            i = (case first_index (\<lambda>i. lg_block s ! i = blockno) [0..<nat (lg_n s)] of
                   Some i \<Rightarrow> i | None \<Rightarrow> nat (lg_n s));
            s = s\<lparr>lg_block := (lg_block s)[i := blockno]\<rparr>;
            s = (if int i = lg_n s then s\<lparr>lg_n := lg_n s + 1\<rparr> else s)
        in Inr (upd_buf b (\<lambda>x. x\<lparr>b_dirty := True\<rparr>) s))"

section \<open>Sequences of disk writes\<close>

definition apply_writes :: "(nat \<times> block) list \<Rightarrow> (nat \<Rightarrow> block) \<Rightarrow> (nat \<Rightarrow> block)" where
  "apply_writes ws d = fold (\<lambda>(b, x) d. d(b := x)) ws d"

lemma apply_writes_simps [simp]:
  "apply_writes [] d = d" "apply_writes ((b, x) # ws) d = apply_writes ws (d(b := x))"
  "apply_writes (ws @ vs) d = apply_writes vs (apply_writes ws d)"
  by (simp_all add: apply_writes_def)

lemma apply_writes_notin: "b \<notin> fst ` set ws \<Longrightarrow> apply_writes ws d b = d b"
  by (induction ws arbitrary: d) auto

lemma apply_writes_in: "distinct (map fst ws) \<Longrightarrow> (b, x) \<in> set ws \<Longrightarrow> apply_writes ws d b = x"
proof (induction ws arbitrary: d)
  case (Cons w ws)
  then show ?case by (cases w) (auto simp: apply_writes_notin)
qed simp

text \<open>\<open>wrote ws s s'\<close>: the operation wrote exactly \<open>ws\<close>, in this order, and nothing else changed.\<close>

definition wrote :: "(nat \<times> block) list \<Rightarrow> fsys \<Rightarrow> fsys \<Rightarrow> bool" where
  "wrote ws s s' \<longleftrightarrow> quiet s' \<and> avail s' \<and> content s' = apply_writes ws (content s)
     \<and> dirty s' = dirty s - fst ` set ws \<and> d_disk s' = apply_writes ws (d_disk s)
     \<and> d_trace s' = d_trace s @ ws \<and> log_part s' = log_part s"

lemma wrote_refl: "quiet s \<Longrightarrow> avail s \<Longrightarrow> wrote [] s s"
  by (simp add: wrote_def)

lemma wrote_trans: "wrote ws s s' \<Longrightarrow> wrote vs s' s'' \<Longrightarrow> wrote (ws @ vs) s s''"
  by (auto simp: wrote_def)

lemma wrote_copied: "copied src dst s s' \<Longrightarrow> wrote [(dst, content s src)] s s'"
  by (simp add: wrote_def copied_def)

text \<open>The cache does not look at the fields of the log.\<close>

lemma holds_lg [simp]: "holds (s\<lparr>lg_n := n\<rparr>) = holds s" "holds (s\<lparr>lg_block := l\<rparr>) = holds s"
    "holds (s\<lparr>lg_committing := c\<rparr>) = holds s" "holds (s\<lparr>bc_sync := y\<rparr>) = holds s"
    "holds (s\<lparr>lg_start := a\<rparr>) = holds s" "holds (s\<lparr>lg_size := m\<rparr>) = holds s" "holds (s\<lparr>lg_dev := v\<rparr>) = holds s"
  by (simp_all add: fun_eq_iff holds_def)

lemma cache_lg [simp]: "cache_ok (s\<lparr>lg_n := n\<rparr>) = cache_ok s" "cache_ok (s\<lparr>lg_block := l\<rparr>) = cache_ok s"
    "cache_ok (s\<lparr>lg_committing := c\<rparr>) = cache_ok s" "cache_ok (s\<lparr>bc_sync := y\<rparr>) = cache_ok s"
    "cache_ok (s\<lparr>lg_start := a\<rparr>) = cache_ok s" "cache_ok (s\<lparr>lg_size := m\<rparr>) = cache_ok s" "cache_ok (s\<lparr>lg_dev := v\<rparr>) = cache_ok s"
  by (simp_all add: cache_ok_alt)

lemma quiet_lg [simp]: "quiet (s\<lparr>lg_n := n\<rparr>) = quiet s" "quiet (s\<lparr>lg_block := l\<rparr>) = quiet s"
    "quiet (s\<lparr>lg_committing := c\<rparr>) = quiet s" "quiet (s\<lparr>bc_sync := y\<rparr>) = quiet s"
    "quiet (s\<lparr>lg_start := a\<rparr>) = quiet s" "quiet (s\<lparr>lg_size := m\<rparr>) = quiet s" "quiet (s\<lparr>lg_dev := v\<rparr>) = quiet s"
  by (simp_all add: quiet_def)

lemma avail_lg [simp]: "avail (s\<lparr>lg_n := n\<rparr>) = avail s" "avail (s\<lparr>lg_block := l\<rparr>) = avail s"
    "avail (s\<lparr>lg_committing := c\<rparr>) = avail s" "avail (s\<lparr>bc_sync := y\<rparr>) = avail s"
    "avail (s\<lparr>lg_start := a\<rparr>) = avail s" "avail (s\<lparr>lg_size := m\<rparr>) = avail s" "avail (s\<lparr>lg_dev := v\<rparr>) = avail s"
  by (simp_all add: avail_def usable_def)

lemma content_lg [simp]: "content (s\<lparr>lg_n := n\<rparr>) = content s" "content (s\<lparr>lg_block := l\<rparr>) = content s"
    "content (s\<lparr>lg_committing := c\<rparr>) = content s" "content (s\<lparr>bc_sync := y\<rparr>) = content s"
    "content (s\<lparr>lg_start := a\<rparr>) = content s" "content (s\<lparr>lg_size := m\<rparr>) = content s" "content (s\<lparr>lg_dev := v\<rparr>) = content s"
  by (simp_all add: fun_eq_iff content_def cong: option.case_cong)

lemma dirty_lg [simp]: "dirty (s\<lparr>lg_n := n\<rparr>) = dirty s" "dirty (s\<lparr>lg_block := l\<rparr>) = dirty s"
    "dirty (s\<lparr>lg_committing := c\<rparr>) = dirty s" "dirty (s\<lparr>bc_sync := y\<rparr>) = dirty s"
    "dirty (s\<lparr>lg_start := a\<rparr>) = dirty s" "dirty (s\<lparr>lg_size := m\<rparr>) = dirty s" "dirty (s\<lparr>lg_dev := v\<rparr>) = dirty s"
  by (simp_all add: dirty_def)

lemma brelse_lg:
  "brelse i (s\<lparr>lg_n := n, lg_block := l\<rparr>) = rbind (brelse i s) (\<lambda>s. Inr (s\<lparr>lg_n := n, lg_block := l\<rparr>))"
  by (simp add: brelse_def Let_def)

section \<open>The log over a reader\<close>

text \<open>
  What the log needs of the function that reads blocks, in states that satisfy \<open>good\<close>: two different
  blocks can be read one after the other, and one of them copied to the other.
\<close>

text \<open>The blocks in the log, and the geometry that the code relies on.\<close>

definition logged :: "fsys \<Rightarrow> nat list" where
  "logged s = take (nat (lg_n s)) (lg_block s)"

definition log_shape :: "fsys \<Rightarrow> bool" where
  "log_shape s \<longleftrightarrow> lg_dev s = 1 \<and> 0 \<le> lg_n s \<and> nat (lg_n s) \<le> LOGSIZE \<and> nat (lg_n s) < lg_size s
     \<and> lg_start s + lg_size s \<le> d_size s \<and> length (lg_block s) = LOGSIZE \<and> distinct (logged s)
     \<and> (\<forall>b\<in>set (logged s). b < d_size s \<and> (b < lg_start s \<or> lg_start s + lg_size s \<le> b))"

lemma log_shape_part: "log_part s' = log_part s \<Longrightarrow> log_shape s' = log_shape s" "log_part s' = log_part s \<Longrightarrow> logged s' = logged s"
  by (simp_all add: log_shape_def logged_def log_part_def)

lemma log_shapeD:
  assumes "log_shape s" "j < nat (lg_n s)"
  shows "lg_block s ! j = logged s ! j" "logged s ! j < d_size s" "lg_start s + j + 1 < lg_start s + lg_size s"
    "logged s ! j < lg_start s \<or> lg_start s + lg_size s \<le> logged s ! j" "lg_start s + j + 1 < d_size s"
proof -
  have l: "j < length (logged s)" using assms by (simp add: logged_def log_shape_def)
  show "lg_block s ! j = logged s ! j" using assms(2) by (simp add: logged_def)
  have "logged s ! j \<in> set (logged s)" using l by simp
  then show "logged s ! j < d_size s" "logged s ! j < lg_start s \<or> lg_start s + lg_size s \<le> logged s ! j"
    using assms(1) by (auto simp: log_shape_def)
  show "lg_start s + j + 1 < lg_start s + lg_size s" "lg_start s + j + 1 < d_size s"
    using assms by (auto simp: log_shape_def)
qed

lemma length_logged: "log_shape s \<Longrightarrow> length (logged s) = nat (lg_n s)"
  by (simp add: logged_def log_shape_def)

locale log_reader =
  fixes brd :: reader and good :: "fsys \<Rightarrow> bool"
  assumes src_first: "good s \<Longrightarrow> quiet s \<Longrightarrow> avail s \<Longrightarrow> src \<noteq> dst \<Longrightarrow> src < d_size s \<Longrightarrow> dst < d_size s \<Longrightarrow>
      \<exists>f s1 t s2 s'. brd 1 src s = Inr (f, s1) \<and> log_part s1 = log_part s \<and> brd 1 dst s1 = Inr (t, s2)
        \<and> rbind (bwrite t (copy_buf t f s2)) (\<lambda>s. rbind (brelse f s) (brelse t)) = Inr s' \<and> copied src dst s s'"
    and dst_first: "good s \<Longrightarrow> quiet s \<Longrightarrow> avail s \<Longrightarrow> src \<noteq> dst \<Longrightarrow> src < d_size s \<Longrightarrow> dst < d_size s \<Longrightarrow>
      \<exists>t s1 f s2 s'. brd 1 dst s = Inr (t, s1) \<and> log_part s1 = log_part s \<and> brd 1 src s1 = Inr (f, s2)
        \<and> rbind (bwrite t (copy_buf t f s2)) (\<lambda>s. rbind (brelse f s) (brelse t)) = Inr s' \<and> copied src dst s s'"
    and one: "good s \<Longrightarrow> quiet s \<Longrightarrow> avail s \<Longrightarrow> b < d_size s \<Longrightarrow>
      \<exists>i s'. brd 1 b s = Inr (i, s') \<and> read_post s b i s' \<and> b_data (bc_buf s' i) = content s b"
    and good_wrote: "good s \<Longrightarrow> wrote ws s s' \<Longrightarrow> good s'"
begin

lemma write_head_ok:
  assumes "good s" "quiet s" "avail s" "lg_dev s = 1" "lg_start s < d_size s"
  shows "\<exists>s'. write_head brd s = Inr s' \<and> wrote [(lg_start s, head_data (lg_n s) (lg_block s) (content s (lg_start s)))] s s'"
proof -
  from one [OF assms(1-3,5)] obtain i s1 where
    r: "brd 1 (lg_start s) s = Inr (i, s1)" "read_post s (lg_start s) i s1" "b_data (bc_buf s1 i) = content s (lg_start s)" by blast
  have l: "lg_n s1 = lg_n s" "lg_block s1 = lg_block s" using r(2) by (auto simp: read_post_def log_part_def)
  let ?d = "head_data (lg_n s) (lg_block s) (content s (lg_start s))"
  from write_one [OF assms(2,3,5) r(2), of ?d] obtain s' where
    s': "rbind (bwrite i (upd_buf i (\<lambda>x. x\<lparr>b_data := ?d\<rparr>) s1)) (brelse i) = Inr s'" "quiet s'" "avail s'"
      "content s' = (content s)(lg_start s := ?d)" "dirty s' = dirty s - {lg_start s}"
      "d_disk s' = (d_disk s)(lg_start s := ?d)" "d_trace s' = d_trace s @ [(lg_start s, ?d)]" "log_part s' = log_part s"
    by blast
  then have "write_head brd s = Inr s'" using r(1,3) l assms(4) by (simp add: write_head_def)
  with s' show ?thesis by (auto simp: wrote_def)
qed

text \<open>The two copying loops, for the blocks \<open>bs\<close> that the log records.\<close>

lemma copy_loop:
  assumes q: "good s" "quiet s" "avail s"
    and step: "\<And>s' j. j < n \<Longrightarrow> good s' \<Longrightarrow> quiet s' \<Longrightarrow> avail s' \<Longrightarrow> log_part s' = log_part s \<Longrightarrow>
      \<exists>s''. f j s' = Inr s'' \<and> copied (src j) (dst j) s' s''"
    and sep: "\<And>i j. i < j \<Longrightarrow> j < n \<Longrightarrow> src j \<noteq> dst i"
  shows "\<exists>s'. rfold f [0..<n] s = Inr s' \<and> good s' \<and> wrote (map (\<lambda>j. (dst j, content s (src j))) [0..<n]) s s'"
proof -
  let ?W = "\<lambda>k. map (\<lambda>j. (dst j, content s (src j))) [0..<k]"
  have "\<exists>s'. rfold f [0..<k] s = Inr s' \<and> good s' \<and> wrote (?W k) s s'" if "k \<le> n" for k
    using that
  proof (induction k)
    case 0
    then show ?case using q wrote_refl by auto
  next
    case (Suc k)
    then obtain s1 where s1: "rfold f [0..<k] s = Inr s1" "good s1" "wrote (?W k) s s1" by auto
    have w: "quiet s1" "avail s1" "log_part s1 = log_part s" "content s1 = apply_writes (?W k) (content s)"
      using s1(3) by (simp_all add: wrote_def)
    from step [OF _ s1(2) w(1-3), of k] Suc.prems obtain s2 where s2: "f k s1 = Inr s2" "copied (src k) (dst k) s1 s2" by auto
    have "dst i \<noteq> src k" if "i < k" for i using sep [OF that] Suc.prems by auto
    then have "src k \<notin> dst ` {0..<k}" by (metis atLeastLessThan_iff imageE)
    then have "src k \<notin> fst ` set (?W k)" by (simp add: image_image)
    then have "content s1 (src k) = content s (src k)" using w(4) by (simp add: apply_writes_notin)
    with wrote_copied [OF s2(2)] have w2: "wrote [(dst k, content s (src k))] s1 s2" by simp
    have "rfold f [0..<Suc k] s = Inr s2" using s1(1) s2(1) by simp
    moreover have "wrote (?W (Suc k)) s s2" using wrote_trans [OF s1(3) w2] by simp
    ultimately show ?case using good_wrote [OF s1(2) w2] by blast
  qed
  then show ?thesis by blast
qed

lemma write_log_ok:
  assumes q: "good s" "quiet s" "avail s" and sh: "log_shape s"
  shows "\<exists>s'. write_log brd s = Inr s' \<and> good s'
    \<and> wrote (map (\<lambda>j. (lg_start s + j + 1, content s (logged s ! j))) [0..<nat (lg_n s)]) s s'"
  unfolding write_log_def
proof (rule copy_loop [OF q])
  fix s' j assume j: "j < nat (lg_n s)" and g: "good s'" "quiet s'" "avail s'" and lp: "log_part s' = log_part s"
  note D = log_shapeD [OF sh j] and L = log_partD [OF lp]
  have ne: "logged s ! j \<noteq> lg_start s + j + 1" using D(3,4) by auto
  have sz: "logged s ! j < d_size s'" "lg_start s + j + 1 < d_size s'" using D(2,5) L(1) by simp_all
  have dv: "lg_dev s' = 1" using L(7) sh by (simp add: log_shape_def)
  from dst_first [OF g ne sz] obtain t s1 f s2 s'' where
    r: "brd 1 (lg_start s + j + 1) s' = Inr (t, s1)" "log_part s1 = log_part s'" "brd 1 (logged s ! j) s1 = Inr (f, s2)"
      "rbind (bwrite t (copy_buf t f s2)) (\<lambda>s. rbind (brelse f s) (brelse t)) = Inr s''"
      "copied (logged s ! j) (lg_start s + j + 1) s' s''" by blast
  have "lg_dev s1 = 1" "lg_block s1 ! j = logged s ! j"
    using log_partD [OF r(2)] dv L(9) D(1) by simp_all
  with r dv L(3) show "\<exists>s''. rbind (brd (lg_dev s') (lg_start s' + j + 1) s') (\<lambda>(to, s).
     rbind (brd (lg_dev s) (lg_block s ! j) s) (\<lambda>(from, s).
     rbind (bwrite to (copy_buf to from s)) (\<lambda>s. rbind (brelse from s) (brelse to)))) = Inr s''
     \<and> copied (logged s ! j) (lg_start s + j + 1) s' s''" by simp
next
  fix i j assume "i < j" "j < nat (lg_n s)"
  then show "logged s ! j \<noteq> lg_start s + i + 1" using log_shapeD(3) [OF sh, of i] log_shapeD(4) [OF sh, of j] by auto
qed

lemma install_trans_ok:
  assumes q: "good s" "quiet s" "avail s" and sh: "log_shape s"
  shows "\<exists>s'. install_trans brd s = Inr s' \<and> good s'
    \<and> wrote (map (\<lambda>j. (logged s ! j, content s (lg_start s + j + 1))) [0..<nat (lg_n s)]) s s'"
  unfolding install_trans_def
proof (rule copy_loop [OF q])
  fix s' j assume j: "j < nat (lg_n s)" and g: "good s'" "quiet s'" "avail s'" and lp: "log_part s' = log_part s"
  note D = log_shapeD [OF sh j] and L = log_partD [OF lp]
  have ne: "lg_start s + j + 1 \<noteq> logged s ! j" using D(3,4) by auto
  have sz: "lg_start s + j + 1 < d_size s'" "logged s ! j < d_size s'" using D(2,5) L(1) by simp_all
  have dv: "lg_dev s' = 1" using L(7) sh by (simp add: log_shape_def)
  from src_first [OF g ne sz] obtain f s1 t s2 s'' where
    r: "brd 1 (lg_start s + j + 1) s' = Inr (f, s1)" "log_part s1 = log_part s'" "brd 1 (logged s ! j) s1 = Inr (t, s2)"
      "rbind (bwrite t (copy_buf t f s2)) (\<lambda>s. rbind (brelse f s) (brelse t)) = Inr s''"
      "copied (lg_start s + j + 1) (logged s ! j) s' s''" by blast
  have "lg_dev s1 = 1" "lg_block s1 ! j = logged s ! j"
    using log_partD [OF r(2)] dv L(9) D(1) by simp_all
  with r dv L(3) show "\<exists>s''. rbind (brd (lg_dev s') (lg_start s' + j + 1) s') (\<lambda>(lbuf, s).
     rbind (brd (lg_dev s) (lg_block s ! j) s) (\<lambda>(dbuf, s).
     rbind (bwrite dbuf (copy_buf dbuf lbuf s)) (\<lambda>s. rbind (brelse lbuf s) (brelse dbuf)))) = Inr s''
     \<and> copied (lg_start s + j + 1) (logged s ! j) s' s''" by simp
next
  fix i j assume "i < j" "j < nat (lg_n s)"
  then show "lg_start s + j + 1 \<noteq> logged s ! i" using log_shapeD(3) [OF sh, of j] log_shapeD(4) [OF sh, of i] by auto
qed

lemma read_head_ok:
  assumes q: "good s" "quiet s" "avail s" and d: "lg_dev s = 1" "lg_start s < d_size s"
    and n: "nat (s32 (get32 (content s (lg_start s)) 0)) \<le> LOGSIZE"
  shows "\<exists>s'. let lh = content s (lg_start s); n = s32 (get32 lh 0) in
      read_head brd s = Inr (s'\<lparr>lg_n := n, lg_block := map (\<lambda>i. get32 lh (4 + 4 * i)) [0..<nat n] @ drop (nat n) (lg_block s)\<rparr>)
    \<and> wrote [] s s'"
proof -
  from one [OF q d(2)] obtain i s1 where
    r: "brd 1 (lg_start s) s = Inr (i, s1)" "read_post s (lg_start s) i s1" "b_data (bc_buf s1 i) = content s (lg_start s)" by blast
  from read_release [OF q(2,3) r(2)] obtain s' where
    s': "brelse i s1 = Inr s'" "quiet s'" "avail s'" "content s' = content s" "dirty s' = dirty s" "d_disk s' = d_disk s"
      "d_trace s' = d_trace s" "log_part s' = log_part s" by blast
  have lb: "lg_block s1 = lg_block s" using r(2) by (auto simp: read_post_def log_part_def)
  have n': "\<not> LOGSIZE < nat (s32 (get32 (content s (lg_start s)) 0))" using n by simp
  have "wrote [] s s'" using s' by (simp add: wrote_def)
  then show ?thesis
    unfolding read_head_def d(1) r(1) rbind_simps prod.case Let_def r(3) if_not_P [OF n'] brelse_lg s'(1) lb by blast
qed

end

interpretation sync_reader: log_reader bread_sync "\<lambda>_. True"
proof unfold_locales
  fix s :: fsys and src dst b :: nat
  assume q: "quiet s" "avail s"
  show "\<exists>f s1 t s2 s'. bread_sync 1 src s = Inr (f, s1) \<and> log_part s1 = log_part s \<and> bread_sync 1 dst s1 = Inr (t, s2)
        \<and> rbind (bwrite t (copy_buf t f s2)) (\<lambda>s. rbind (brelse f s) (brelse t)) = Inr s' \<and> copied src dst s s'"
    if "src \<noteq> dst" "src < d_size s" "dst < d_size s" using copy_src_first [OF q that] .
  show "\<exists>t s1 f s2 s'. bread_sync 1 dst s = Inr (t, s1) \<and> log_part s1 = log_part s \<and> bread_sync 1 src s1 = Inr (f, s2)
        \<and> rbind (bwrite t (copy_buf t f s2)) (\<lambda>s. rbind (brelse f s) (brelse t)) = Inr s' \<and> copied src dst s s'"
    if "src \<noteq> dst" "src < d_size s" "dst < d_size s" using copy_dst_first [OF q that] .
  show "\<exists>i s'. bread_sync 1 b s = Inr (i, s') \<and> read_post s b i s' \<and> b_data (bc_buf s' i) = content s b"
    if "b < d_size s" using quiet_read [OF q that] .
qed simp

section \<open>Commit\<close>

text \<open>The header block: what \<^verbatim>\<open>write_head\<close> writes, \<^verbatim>\<open>read_head\<close> reads back.\<close>

lemma head_fold:
  fixes bs :: "nat list"
  assumes "length d = BSIZE" "m \<le> LOGSIZE"
  defines "h \<equiv> fold (\<lambda>i d. put32 (4 + 4 * i) (bs ! i) d) [0..<m] d"
  shows "length h = BSIZE \<and> get32 h 0 = get32 d 0 \<and> (\<forall>i<m. get32 h (4 + 4 * i) = bs ! i mod 2 ^ 32)"
  using assms(2) unfolding h_def
proof (induction m)
  case 0
  then show ?case using assms(1) by simp
next
  case (Suc m)
  let ?h = "fold (\<lambda>i d. put32 (4 + 4 * i) (bs ! i) d) [0..<m] d"
  have IH: "length ?h = BSIZE" "get32 ?h 0 = get32 d 0" "\<forall>i<m. get32 ?h (4 + 4 * i) = bs ! i mod 2 ^ 32" using Suc by auto
  have f: "fold (\<lambda>i d. put32 (4 + 4 * i) (bs ! i) d) [0..<Suc m] d = put32 (4 + 4 * m) (bs ! m) ?h" by simp
  have "get32 (put32 (4 + 4 * m) (bs ! m) ?h) (4 + 4 * i) = bs ! i mod 2 ^ 32" if "i < Suc m" for i
  proof (cases "i = m")
    case True
    then show ?thesis using IH(1) Suc.prems by (simp add: BSIZE_def LOGSIZE_def)
  next
    case False
    then show ?thesis using IH(3) that by simp
  qed
  then show ?case unfolding f using IH(1,2) by simp
qed

lemma head_data_ok:
  assumes "length d = BSIZE" "0 \<le> n" "nat n \<le> LOGSIZE"
  shows "length (head_data n bs d) = BSIZE" "get32 (head_data n bs d) 0 = nat n"
    "i < nat n \<Longrightarrow> get32 (head_data n bs d) (4 + 4 * i) = bs ! i mod 2 ^ 32"
proof -
  let ?p = "put32 0 (nat (n mod 2 ^ 32)) d"
  have n: "n mod 2 ^ 32 = n" using assms(2,3) by (simp add: LOGSIZE_def)
  have p: "length ?p = BSIZE" using assms(1) by simp
  have "get32 ?p 0 = nat n mod 2 ^ 32" unfolding n using assms(1) by (simp add: BSIZE_def)
  also have "\<dots> = nat n" using assms(3) by (simp add: LOGSIZE_def)
  finally have g: "get32 ?p 0 = nat n" .
  note h = head_fold [OF p assms(3), of bs]
  show "length (head_data n bs d) = BSIZE" "get32 (head_data n bs d) 0 = nat n" using h g by (simp_all add: head_data_def)
  show "get32 (head_data n bs d) (4 + 4 * i) = bs ! i mod 2 ^ 32" if "i < nat n" using h that by (simp add: head_data_def)
qed

text \<open>The writes of a commit in their order: log blocks, header, home blocks, empty header.\<close>

definition log_writes :: "fsys \<Rightarrow> (nat \<times> block) list" where
  "log_writes s = map (\<lambda>j. (lg_start s + j + 1, content s (logged s ! j))) [0..<nat (lg_n s)]"

definition home_writes :: "fsys \<Rightarrow> (nat \<times> block) list" where
  "home_writes s = map (\<lambda>j. (logged s ! j, content s (logged s ! j))) [0..<nat (lg_n s)]"

definition full_head :: "fsys \<Rightarrow> block" where
  "full_head s = head_data (lg_n s) (lg_block s) (content s (lg_start s))"

definition commit_writes :: "fsys \<Rightarrow> (nat \<times> block) list" where
  "commit_writes s = log_writes s @ [(lg_start s, full_head s)] @ home_writes s
     @ [(lg_start s, head_data 0 (lg_block s) (full_head s))]"

lemma writes_fst:
  assumes "log_shape s"
  shows "fst ` set (log_writes s) = {lg_start s + 1..<lg_start s + 1 + nat (lg_n s)}" "fst ` set (home_writes s) = set (logged s)"
    "distinct (map fst (log_writes s))" "distinct (map fst (home_writes s))"
proof -
  have "fst ` set (log_writes s) = (\<lambda>j. lg_start s + j + 1) ` {0..<nat (lg_n s)}" by (simp add: log_writes_def image_image)
  also have "(\<lambda>j. lg_start s + j + 1) = plus (lg_start s + 1)" by (simp add: fun_eq_iff)
  finally show "fst ` set (log_writes s) = {lg_start s + 1..<lg_start s + 1 + nat (lg_n s)}"
    by (simp only: image_add_atLeastLessThan) (simp add: add.commute)
  have m: "map fst (home_writes s) = logged s"
    using map_nth [of "logged s"] length_logged [OF assms] by (simp add: home_writes_def comp_def)
  then have "set (map fst (home_writes s)) = set (logged s)" by simp
  then show "fst ` set (home_writes s) = set (logged s)" by simp
  show "distinct (map fst (log_writes s))" by (simp add: log_writes_def comp_def distinct_map inj_on_def)
  show "distinct (map fst (home_writes s))" unfolding m using assms by (simp add: log_shape_def)
qed

lemma log_writes_content:
  assumes "log_shape s" "j < nat (lg_n s)"
  shows "apply_writes (log_writes s) d (lg_start s + j + 1) = content s (logged s ! j)"
  by (rule apply_writes_in [OF writes_fst(3) [OF assms(1)]]) (use assms(2) in \<open>auto simp: log_writes_def\<close>)

lemma home_writes_content:
  assumes "log_shape s"
  shows "apply_writes (home_writes s) d b = (if b \<in> set (logged s) then content s b else d b)"
proof (cases "b \<in> set (logged s)")
  case True
  then obtain j where "j < length (logged s)" "logged s ! j = b" by (auto simp: in_set_conv_nth)
  then have "(b, content s b) \<in> set (home_writes s)" using length_logged [OF assms] by (auto simp: home_writes_def)
  with apply_writes_in [OF writes_fst(4) [OF assms]] True show ?thesis by simp
next
  case False
  with apply_writes_notin writes_fst(2) [OF assms] show ?thesis by simp
qed

lemma commit_ok:
  assumes q: "quiet s" "avail s" and sh: "log_shape s" and c: "lg_committing s" "0 < lg_n s"
    and d: "dirty s = set (logged s)"
  shows "\<exists>s'. commit bread_sync s = Inr s' \<and> quiet s' \<and> avail s' \<and> dirty s' = {} \<and> log_part s' = log_part (s\<lparr>lg_n := 0\<rparr>)
    \<and> d_trace s' = d_trace s @ commit_writes s \<and> d_disk s' = apply_writes (commit_writes s) (d_disk s)
    \<and> content s' = apply_writes (commit_writes s) (content s)"
proof -
  have dv: "lg_dev s = 1" "lg_start s < d_size s" using sh by (auto simp: log_shape_def)
  from sync_reader.write_log_ok [OF TrueI q sh] obtain s1 where
    s1: "write_log bread_sync s = Inr s1" "wrote (log_writes s) s s1" by (auto simp: log_writes_def)
  have w1: "quiet s1" "avail s1" "log_part s1 = log_part s" using s1(2) by (simp_all add: wrote_def)
  note L1 = log_partD [OF w1(3)]
  have "lg_start s \<notin> fst ` set (log_writes s)" using writes_fst(1) [OF sh] by simp
  then have c1: "content s1 (lg_start s) = content s (lg_start s)" using s1(2) by (simp add: wrote_def apply_writes_notin)
  from sync_reader.write_head_ok [OF TrueI w1(1,2)] dv L1 c1 obtain s2 where
    s2: "write_head bread_sync s1 = Inr s2" "wrote [(lg_start s, full_head s)] s1 s2" by (auto simp: full_head_def)
  have w2: "quiet s2" "avail s2" "log_part s2 = log_part s" using s2(2) w1(3) by (simp_all add: wrote_def)
  note L2 = log_partD [OF w2(3)]
  have sh2: "log_shape s2" "logged s2 = logged s" using log_shape_part [OF w2(3)] sh by simp_all
  have wt: "wrote (log_writes s @ [(lg_start s, full_head s)]) s s2" by (rule wrote_trans [OF s1(2) s2(2)])
  have c2: "content s2 (lg_start s + j + 1) = content s (logged s ! j)" if "j < nat (lg_n s)" for j
    using wt log_writes_content [OF sh that] by (simp add: wrote_def)
  have hw: "map (\<lambda>j. (logged s2 ! j, content s2 (lg_start s2 + j + 1))) [0..<nat (lg_n s2)] = home_writes s"
    using c2 sh2(2) L2 by (simp add: home_writes_def)
  from sync_reader.install_trans_ok [OF TrueI w2(1,2) sh2(1)] obtain s3 where
    s3: "install_trans bread_sync s2 = Inr s3" "wrote (home_writes s) s2 s3" unfolding hw by blast
  have w3: "quiet s3" "avail s3" "log_part s3 = log_part s" using s3(2) w2(3) by (simp_all add: wrote_def)
  note L3 = log_partD [OF w3(3)]
  have "lg_start s \<notin> set (logged s)" using sh by (auto simp: log_shape_def)
  then have c3: "content s3 (lg_start s) = full_head s"
    using s3(2) s2(2) writes_fst(2) [OF sh] by (simp add: wrote_def apply_writes_notin)
  let ?s3 = "s3\<lparr>lg_n := 0\<rparr>"
  have "\<exists>s'. write_head bread_sync ?s3 = Inr s'
      \<and> wrote [(lg_start ?s3, head_data (lg_n ?s3) (lg_block ?s3) (content ?s3 (lg_start ?s3)))] ?s3 s'"
    by (rule sync_reader.write_head_ok) (use w3 dv L3 in simp_all)
  then obtain s4 where s4: "write_head bread_sync ?s3 = Inr s4"
    "wrote [(lg_start s, head_data 0 (lg_block s) (full_head s))] ?s3 s4" using L3 c3 by auto
  have wt3: "wrote (log_writes s @ [(lg_start s, full_head s)] @ home_writes s) s s3"
    using wrote_trans [OF wt s3(2)] by simp
  have run: "commit bread_sync s = Inr s4"
    using c s1(1) s2(1) s3(1) s4(1) by (simp add: commit_def)
  have "d_disk s4 = apply_writes (commit_writes s) (d_disk s)" "content s4 = apply_writes (commit_writes s) (content s)"
      "d_trace s4 = d_trace s @ commit_writes s"
    using wt3 s4(2) by (simp_all add: wrote_def commit_writes_def)
  moreover have "dirty s4 = {}" using wt3 s4(2) d writes_fst(2) [OF sh] by (auto simp: wrote_def)
  moreover have "quiet s4" "avail s4" "log_part s4 = log_part (s\<lparr>lg_n := 0\<rparr>)"
    using s4(2) w3(3) by (simp_all add: wrote_def log_part_def)
  ultimately show ?thesis using run by blast
qed

section \<open>Recovery\<close>

text \<open>While the cache has clean buffers to spare, \<^verbatim>\<open>bget\<close> does not write back.\<close>

lemma usable_count:
  assumes "cache_ok s" "\<And>j. j < NBUF \<Longrightarrow> j \<noteq> i \<Longrightarrow> usable s j"
  shows "NBUF - 1 \<le> length (filter (usable s) (rev (bc_mru s)))"
proof -
  have m: "distinct (bc_mru s)" "set (bc_mru s) = {..<NBUF}" using assms(1) by (simp_all add: cache_ok_def)
  have "{..<NBUF} - {i} \<subseteq> set (filter (usable s) (rev (bc_mru s)))" using m assms(2) by auto
  then have "card ({..<NBUF} - {i}) \<le> card (set (filter (usable s) (rev (bc_mru s))))" by (rule card_mono [rotated]) simp
  also have "\<dots> = length (filter (usable s) (rev (bc_mru s)))" using m by (intro distinct_card) simp
  finally show ?thesis by (cases "i < NBUF") (auto simp: card_Diff_singleton_if)
qed

lemma bread_eq_sync:
  assumes "cache_ok s" "\<And>j. j < NBUF \<Longrightarrow> j \<noteq> i \<Longrightarrow> usable s j"
  shows "bread dev b s = bread_sync dev b s"
proof -
  have "NBUF - 1 \<le> length (filter (usable s) (rev (bc_mru s)))" by (rule usable_count) (use assms in auto)
  then have "\<not> length (filter (usable s) (rev (bc_mru s))) \<le> NRESBUF" by (simp add: NBUF_def NRESBUF_def)
  then show ?thesis by (simp add: bread_def bread_sync_def bread_from_def bget_def)
qed

lemma clean_usable:
  assumes "quiet s" "dirty s = {}" "i < NBUF"
  shows "usable s i"
proof -
  have ok: "cache_ok s" using assms(1) by (simp add: quiet_def)
  have "\<not> b_dirty (bc_buf s i)"
  proof
    assume d: "b_dirty (bc_buf s i)"
    then have "holds s i (b_blockno (bc_buf s i))" using cache_okD(2,3) [OF ok assms(3)] assms(3) by (simp add: holds_def)
    with d assms(2) show False by (auto simp: dirty_def)
  qed
  with assms show ?thesis using cache_okD(1) [OF ok assms(3)] by (simp add: usable_def quiet_def)
qed

lemma bread_two:
  assumes d: "dirty s = {}" and q: "quiet s" "avail s" and b: "b1 \<noteq> b2" "b1 < d_size s" "b2 < d_size s"
  shows "\<exists>i1 s1 i2 s2. bread 1 b1 s = Inr (i1, s1) \<and> read_post s b1 i1 s1
    \<and> bread 1 b2 s1 = Inr (i2, s2) \<and> read_post s1 b2 i2 s2 \<and> i1 \<noteq> i2"
proof -
  from read_two [OF q b] obtain i1 s1 i2 s2 where
    r: "bread_sync 1 b1 s = Inr (i1, s1)" "read_post s b1 i1 s1" "bread_sync 1 b2 s1 = Inr (i2, s2)"
      "read_post s1 b2 i2 s2" "i1 \<noteq> i2" by blast
  have u: "usable s j" if "j < NBUF" for j using clean_usable [OF q(1) d that] .
  have "bread 1 b1 s = bread_sync 1 b1 s" by (rule bread_eq_sync [where i = 0]) (use q(1) u in \<open>simp_all add: quiet_def\<close>)
  moreover have "bread 1 b2 s1 = bread_sync 1 b2 s1"
    by (rule bread_eq_sync [where i = i1]) (use r(2) u read_post_usable [OF r(2)] in \<open>simp_all add: read_post_def\<close>)
  ultimately show ?thesis using r by auto
qed

interpretation boot_reader: log_reader bread "\<lambda>s. dirty s = {}"
proof unfold_locales
  fix s :: fsys and src dst b :: nat
  assume d: "dirty s = {}" and q: "quiet s" "avail s"
  show "\<exists>f s1 t s2 s'. bread 1 src s = Inr (f, s1) \<and> log_part s1 = log_part s \<and> bread 1 dst s1 = Inr (t, s2)
        \<and> rbind (bwrite t (copy_buf t f s2)) (\<lambda>s. rbind (brelse f s) (brelse t)) = Inr s' \<and> copied src dst s s'"
    if b: "src \<noteq> dst" "src < d_size s" "dst < d_size s"
  proof -
    from bread_two [OF d q b] obtain f s1 t s2 where
      r: "bread 1 src s = Inr (f, s1)" "read_post s src f s1" "bread 1 dst s1 = Inr (t, s2)" "read_post s1 dst t s2" "f \<noteq> t" by blast
    with copied_finish [OF q b(1,3) r(2,4,5), of f t] show ?thesis by (auto simp: read_post_def)
  qed
  show "\<exists>t s1 f s2 s'. bread 1 dst s = Inr (t, s1) \<and> log_part s1 = log_part s \<and> bread 1 src s1 = Inr (f, s2)
        \<and> rbind (bwrite t (copy_buf t f s2)) (\<lambda>s. rbind (brelse f s) (brelse t)) = Inr s' \<and> copied src dst s s'"
    if b: "src \<noteq> dst" "src < d_size s" "dst < d_size s"
  proof -
    from bread_two [OF d q b(1) [symmetric] b(3,2)] obtain t s1 f s2 where
      r: "bread 1 dst s = Inr (t, s1)" "read_post s dst t s1" "bread 1 src s1 = Inr (f, s2)" "read_post s1 src f s2" "t \<noteq> f" by blast
    with copied_finish [OF q b(1,3) r(2,4,5), of f t] show ?thesis by (auto simp: read_post_def)
  qed
  show "\<exists>i s'. bread 1 b s = Inr (i, s') \<and> read_post s b i s' \<and> b_data (bc_buf s' i) = content s b"
    if "b < d_size s"
  proof -
    have "bread 1 b s = bread_sync 1 b s"
      by (rule bread_eq_sync [where i = 0]) (use q(1) clean_usable [OF q(1) d] in \<open>simp_all add: quiet_def\<close>)
    with quiet_read [OF q that] show ?thesis by simp
  qed
next
  fix s s' :: fsys and ws
  show "dirty s = {} \<Longrightarrow> wrote ws s s' \<Longrightarrow> dirty s' = {}" by (simp add: wrote_def)
qed

text \<open>The log that a header block \<open>h\<close> describes, as \<^verbatim>\<open>read_head\<close> loads it.\<close>

definition head_n :: "block \<Rightarrow> nat" where "head_n h = get32 h 0"

definition head_blocks :: "block \<Rightarrow> nat list" where
  "head_blocks h = map (\<lambda>i. get32 h (4 + 4 * i)) [0..<head_n h]"

lemma recover_ok:
  assumes q: "dirty s = {}" "quiet s" "avail s" and dv: "lg_dev s = 1" "length (lg_block s) = LOGSIZE"
    and h: "h = d_disk s (lg_start s)" "head_n h \<le> LOGSIZE" "head_n h < lg_size s" "lg_start s + lg_size s \<le> d_size s"
    and bs: "distinct (head_blocks h)"
      "\<forall>b\<in>set (head_blocks h). b < d_size s \<and> (b < lg_start s \<or> lg_start s + lg_size s \<le> b)"
  shows "\<exists>s' x. recover_from_log bread s = Inr s' \<and> quiet s' \<and> avail s' \<and> dirty s' = {} \<and> lg_n s' = 0
    \<and> d_disk s' = apply_writes (map (\<lambda>j. (head_blocks h ! j, d_disk s (lg_start s + j + 1))) [0..<head_n h] @ [(lg_start s, x)]) (d_disk s)"
proof -
  have cd: "content s = d_disk s" using quiet_clean [OF q(2)] q(1) by auto
  have n: "s32 (get32 h 0) = int (head_n h)" "nat (int (head_n h)) = head_n h"
    using h(2) by (simp_all add: s32_def head_n_def LOGSIZE_def)
  have st: "lg_start s < d_size s" using h(3,4) by simp
  have "nat (s32 (get32 (content s (lg_start s)) 0)) \<le> LOGSIZE" using h(2) n by (simp add: cd h(1) [symmetric])
  from boot_reader.read_head_ok [OF q dv(1) st this] obtain s1 where
    s1: "read_head bread s = Inr (s1\<lparr>lg_n := int (head_n h), lg_block := head_blocks h @ drop (head_n h) (lg_block s)\<rparr>)"
      "wrote [] s s1" by (auto simp: Let_def cd h(1) [symmetric] n head_blocks_def)
  let ?s1 = "s1\<lparr>lg_n := int (head_n h), lg_block := head_blocks h @ drop (head_n h) (lg_block s)\<rparr>"
  have w1: "quiet ?s1" "avail ?s1" "dirty ?s1 = {}" "content ?s1 = d_disk s" "d_disk ?s1 = d_disk s" "log_part s1 = log_part s"
    using s1(2) q(1) cd by (auto simp: wrote_def)
  note L = log_partD [OF w1(6)]
  have c1: "content s1 = d_disk s" using w1(4) by simp
  have lb: "logged ?s1 = head_blocks h" by (simp add: logged_def head_blocks_def)
  have sh: "log_shape ?s1"
    using h(2-4) bs dv L by (simp add: log_shape_def lb) (simp add: head_blocks_def)
  from boot_reader.install_trans_ok [OF w1(3,1,2) sh] obtain s2 where
    s2: "install_trans bread ?s1 = Inr s2" "dirty s2 = {}"
      "wrote (map (\<lambda>j. (head_blocks h ! j, d_disk s (lg_start s + j + 1))) [0..<head_n h]) ?s1 s2"
    using L(3) lb c1 by auto
  have w2: "quiet s2" "avail s2" "log_part s2 = log_part ?s1" using s2(3) by (simp_all add: wrote_def)
  note L2 = log_partD [OF w2(3)]
  let ?s2 = "s2\<lparr>lg_n := 0\<rparr>"
  have "\<exists>s'. write_head bread ?s2 = Inr s'
      \<and> wrote [(lg_start ?s2, head_data (lg_n ?s2) (lg_block ?s2) (content ?s2 (lg_start ?s2)))] ?s2 s'"
    by (rule boot_reader.write_head_ok) (use w2 s2(2) L2 L dv st in simp_all)
  then obtain s3 x where s3: "write_head bread ?s2 = Inr s3" "wrote [(lg_start s, x)] ?s2 s3" using L2 L by auto
  have "recover_from_log bread s = Inr s3" using s1(1) s2(1) s3(1) by (simp add: recover_from_log_def)
  moreover have "lg_n s3 = 0" using s3(2) by (auto simp: wrote_def log_part_def)
  moreover have "d_disk s3 = apply_writes (map (\<lambda>j. (head_blocks h ! j, d_disk s (lg_start s + j + 1))) [0..<head_n h] @ [(lg_start s, x)]) (d_disk s)"
    using s3(2) s2(3) w1(5) by (simp add: wrote_def)
  moreover have "quiet s3" "avail s3" "dirty s3 = {}" using s3(2) s2(2) by (simp_all add: wrote_def)
  ultimately show ?thesis by blast
qed

section \<open>The log as a whole\<close>

text \<open>
  The invariant of the log between file system calls: no buffer is locked, exactly the blocks in
  the log are dirty, and the log on the disk is empty.
\<close>

definition in_log :: "fsys \<Rightarrow> nat \<Rightarrow> bool" where
  "in_log s b \<longleftrightarrow> lg_start s \<le> b \<and> b < lg_start s + lg_size s"

definition log_ok :: "fsys \<Rightarrow> bool" where
  "log_ok s \<longleftrightarrow> quiet s \<and> avail s \<and> log_shape s \<and> dirty s = set (logged s) \<and> \<not> lg_committing s \<and> d_size s \<le> 2 ^ 32
     \<and> length (d_disk s (lg_start s)) = BSIZE \<and> head_n (d_disk s (lg_start s)) = 0"

lemma logged_home: "log_shape s \<Longrightarrow> b \<in> set (logged s) \<Longrightarrow> \<not> in_log s b"
  by (auto simp: log_shape_def in_log_def)

lemma start_in_log: "log_shape s \<Longrightarrow> in_log s (lg_start s)"
  by (auto simp: log_shape_def in_log_def)

lemma log_head:
  assumes "log_ok s"
  shows "content s (lg_start s) = d_disk s (lg_start s)" "length (full_head s) = BSIZE" "head_n (full_head s) = nat (lg_n s)"
    "head_blocks (full_head s) = logged s"
proof -
  have sh: "log_shape s" and q: "quiet s" and d: "dirty s = set (logged s)" using assms by (simp_all add: log_ok_def)
  have "lg_start s \<notin> dirty s" using logged_home [OF sh] start_in_log [OF sh] d by blast
  then show c: "content s (lg_start s) = d_disk s (lg_start s)" by (rule quiet_clean [OF q])
  have len: "length (content s (lg_start s)) = BSIZE" using c assms by (simp add: log_ok_def)
  have n: "0 \<le> lg_n s" "nat (lg_n s) \<le> LOGSIZE" using sh by (simp_all add: log_shape_def)
  note h = head_data_ok [OF len n, where bs = "lg_block s"]
  show "length (full_head s) = BSIZE" "head_n (full_head s) = nat (lg_n s)" using h by (simp_all add: full_head_def head_n_def)
  have "get32 (full_head s) (4 + 4 * j) = logged s ! j" if j: "j < nat (lg_n s)" for j
  proof -
    have "logged s ! j < 2 ^ 32" using log_shapeD(2) [OF sh j] assms by (simp add: log_ok_def)
    then show ?thesis using h(3) [OF j] log_shapeD(1) [OF sh j] by (simp add: full_head_def)
  qed
  then show "head_blocks (full_head s) = logged s"
    using h(2) length_logged [OF sh] by (intro nth_equalityI) (simp_all add: head_blocks_def head_n_def full_head_def)
qed

lemma commit_final:
  assumes "log_ok s" "\<not> in_log s b"
  shows "apply_writes (commit_writes s) d b = (if b \<in> set (logged s) then content s b else d b)"
proof -
  have sh: "log_shape s" using assms by (simp add: log_ok_def)
  have n: "b \<noteq> lg_start s" using start_in_log [OF sh] assms(2) by auto
  have "b \<notin> fst ` set (log_writes s)" using assms(2) sh by (auto simp: writes_fst(1) [OF sh] in_log_def log_shape_def)
  with n show ?thesis by (simp add: commit_writes_def home_writes_content [OF sh] apply_writes_notin)
qed

lemma sync1_ok:
  assumes ok: "log_ok s"
  shows "\<exists>s'. sync1 f s = Inr (Some (lg_n s), s') \<and> log_ok s' \<and> lg_n s' = 0
    \<and> d_trace s' = d_trace s @ (if lg_n s > 0 then commit_writes s else [])
    \<and> log_part s' = log_part (s\<lparr>lg_n := 0\<rparr>)
    \<and> (\<forall>b. \<not> in_log s b \<longrightarrow> d_disk s' b = content s b \<and> content s' b = content s b)"
proof -
  have sh: "log_shape s" and q: "quiet s" "avail s" and d: "dirty s = set (logged s)" and c: "\<not> lg_committing s"
    using ok by (simp_all add: log_ok_def)
  show ?thesis
  proof (cases "0 < lg_n s")
    case False
    then have "lg_n s = 0" using sh by (simp add: log_shape_def)
    then have e: "dirty s = {}" using d by (simp add: logged_def)
    let ?s = "s\<lparr>lg_committing := False\<rparr>"
    have "sync1 f s = Inr (Some (lg_n s), ?s)"
      using False c \<open>lg_n s = 0\<close> by (simp add: sync1_def commit_def Let_def)
    moreover have "log_ok ?s" using ok by (simp add: log_ok_def log_shape_def logged_def)
    ultimately show ?thesis using False \<open>lg_n s = 0\<close> quiet_clean [OF q(1)] e c by (simp add: log_part_def)
  next
    case True
    let ?t = "s\<lparr>lg_committing := True\<rparr>"
    have lt: "logged ?t = logged s" by (simp add: logged_def)
    have t: "quiet ?t" "avail ?t" "log_shape ?t" "lg_committing ?t" "0 < lg_n ?t" "dirty ?t = set (logged ?t)"
      using q sh d True by (simp_all add: log_shape_def lt)
    have cw: "commit_writes ?t = commit_writes s"
      by (simp add: commit_writes_def log_writes_def home_writes_def full_head_def logged_def)
    from commit_ok [OF t] obtain s1 where
      s1: "commit bread_sync ?t = Inr s1" "quiet s1" "avail s1" "dirty s1 = {}" "log_part s1 = log_part (?t\<lparr>lg_n := 0\<rparr>)"
        "d_trace s1 = d_trace s @ commit_writes s" "d_disk s1 = apply_writes (commit_writes s) (d_disk s)"
        "content s1 = apply_writes (commit_writes s) (content s)" by (auto simp: cw)
    note L = log_partD [OF s1(5)]
    let ?s = "s1\<lparr>lg_committing := False\<rparr>"
    have "sync1 f s = Inr (Some (lg_n s), ?s)"
      using c s1(1) L by (simp add: sync1_def Let_def)
    moreover have hd: "d_disk s1 (lg_start s) = head_data 0 (lg_block s) (full_head s)"
      by (simp add: s1(7) commit_writes_def)
    have "length (d_disk s1 (lg_start s)) = BSIZE" "head_n (d_disk s1 (lg_start s)) = 0"
      using head_data_ok(1,2) [OF log_head(2) [OF ok], where n = 0 and bs = "lg_block s"] by (simp_all add: hd head_n_def)
    then have "log_ok ?s"
      using s1(2-4) L sh ok by (simp add: log_ok_def log_shape_def logged_def)
    moreover have "d_disk s1 b = content s b \<and> content s1 b = content s b" if "\<not> in_log s b" for b
      using commit_final [OF ok that] quiet_clean [OF q(1), of b] d by (simp add: s1(7,8))
    moreover have "log_part ?s = log_part (s\<lparr>lg_n := 0\<rparr>)" using L c by (simp add: log_part_def)
    ultimately show ?thesis using s1(6) L True by auto
  qed
qed

lemma log_ok_sync [simp]: "log_ok (s\<lparr>bc_sync := y\<rparr>) = log_ok s"
  by (simp add: log_ok_def log_shape_def logged_def)

lemma commit_writes_sync [simp]: "commit_writes (s\<lparr>bc_sync := y\<rparr>) = commit_writes s"
  by (simp add: commit_writes_def log_writes_def home_writes_def full_head_def logged_def)

lemma in_log_sync [simp]: "in_log (s\<lparr>bc_sync := y\<rparr>) = in_log s"
  by (simp add: in_log_def fun_eq_iff)

lemma sync_ok:
  assumes ok: "log_ok s"
  shows "\<exists>s'. sys_sync s = Inr (Some (lg_n s), s') \<and> log_ok s' \<and> lg_n s' = 0
    \<and> d_trace s' = d_trace s @ (if lg_n s > 0 then commit_writes s else [])
    \<and> (\<forall>b. \<not> in_log s b \<longrightarrow> d_disk s' b = content s b \<and> content s' b = content s b)"
proof -
  have "log_ok (s\<lparr>bc_sync := 1\<rparr>)" using ok by simp
  from sync1_ok [OF this, of True] obtain s' where
    s': "sync1 True (s\<lparr>bc_sync := 1\<rparr>) = Inr (Some (lg_n s), s')" "log_ok s'" "lg_n s' = 0"
      "d_trace s' = d_trace s @ (if lg_n s > 0 then commit_writes s else [])"
      "\<forall>b. \<not> in_log s b \<longrightarrow> d_disk s' b = content s b \<and> content s' b = content s b" by auto
  then show ?thesis by (intro exI [of _ "s'\<lparr>bc_sync := 0\<rparr>"]) (simp add: sys_sync_def)
qed

section \<open>Crashes\<close>

text \<open>The kernel state at boot: an empty cache in front of the disk \<open>d\<close>.\<close>

definition zero_buf :: buf where
  "zero_buf = \<lparr>b_valid = False, b_dirty = False, b_dev = 0, b_blockno = 0, b_lock = False, b_refcnt = 0,
     b_data = replicate BSIZE 0\<rparr>"

definition fresh :: "(nat \<Rightarrow> block) \<Rightarrow> nat \<Rightarrow> fsys" where
  "fresh d dsz = \<lparr>d_disk = d, d_size = dsz, d_trace = [], bc_buf = (\<lambda>_. zero_buf), bc_mru = [], bc_sync = 0,
     lg_start = 0, lg_size = 0, lg_outstanding = 0, lg_committing = False, lg_dev = 0, lg_n = 0,
     lg_block = replicate LOGSIZE 0\<rparr>"

lemma binit_fields: "binit s = s\<lparr>bc_mru := rev [0..<NBUF]\<rparr>"
proof -
  have "fold (\<lambda>b s. s\<lparr>bc_mru := b # bc_mru s\<rparr>) bs s = s\<lparr>bc_mru := rev bs @ bc_mru s\<rparr>" for bs and s :: fsys
    by (induction bs arbitrary: s) simp_all
  then show ?thesis by (simp add: binit_def)
qed

lemma fresh_ok:
  assumes "s = binit (fresh d dsz)"
  shows "quiet s" "avail s" "dirty s = {}" "d_disk s = d" "d_size s = dsz" "length (lg_block s) = LOGSIZE"
proof -
  have h: "\<not> holds s i b" for i b by (simp add: assms binit_fields fresh_def holds_def zero_buf_def)
  have "cache_ok s" unfolding cache_ok_alt using h
    by (simp add: assms binit_fields fresh_def buf_ok_def zero_buf_def atLeast0LessThan)
  then show "quiet s" by (simp add: quiet_def assms binit_fields fresh_def zero_buf_def)
  have "usable s i" for i by (simp add: usable_def assms binit_fields fresh_def zero_buf_def)
  then show "avail s" unfolding avail_def by (intro exI [of _ 0] conjI exI [of _ 1]) (simp_all add: NBUF_def)
  show "dirty s = {}" using h by (simp add: dirty_def)
  show "d_disk s = d" "d_size s = dsz" "length (lg_block s) = LOGSIZE" by (simp_all add: assms binit_fields fresh_def)
qed

lemma initlog_ok:
  assumes sb: "sb_logstart (sb_of (d 1)) = st" "sb_nlog (sb_of (d 1)) = sz" "1 < dsz"
    and h: "h = d st" "head_n h \<le> LOGSIZE" "head_n h < sz" "st + sz \<le> dsz"
    and bs: "distinct (head_blocks h)" "\<forall>b\<in>set (head_blocks h). b < dsz \<and> (b < st \<or> st + sz \<le> b)"
  shows "\<exists>s' x. initlog 1 (binit (fresh d dsz)) = Inr s' \<and> quiet s' \<and> dirty s' = {} \<and> lg_n s' = 0
    \<and> d_disk s' = apply_writes (map (\<lambda>j. (head_blocks h ! j, d (st + j + 1))) [0..<head_n h] @ [(st, x)]) d"
proof -
  let ?s = "binit (fresh d dsz)"
  note F = fresh_ok [OF refl, of d dsz]
  have cd: "content ?s 1 = d 1" using quiet_clean [OF F(1)] F(3,4) by simp
  have s1: "1 < d_size ?s" using sb(3) F(5) by simp
  from boot_reader.one [OF F(3,1,2) s1] obtain i s1 where
    r: "bread 1 1 ?s = Inr (i, s1)" "read_post ?s 1 i s1" "b_data (bc_buf s1 i) = d 1" unfolding cd by blast
  from read_release [OF F(1,2) r(2)] obtain s2 where
    s2: "brelse i s1 = Inr s2" "quiet s2" "avail s2" "dirty s2 = dirty ?s" "d_disk s2 = d_disk ?s" "log_part s2 = log_part ?s"
    by blast
  note L = log_partD [OF s2(6)]
  have rd: "readsb bread 1 ?s = Inr (sb_of (d 1), s2)" using r s2(1) by (simp add: readsb_def)
  let ?t = "s2\<lparr>lg_start := st, lg_size := sz, lg_dev := 1\<rparr>"
  have "\<exists>s' x. recover_from_log bread ?t = Inr s' \<and> quiet s' \<and> avail s' \<and> dirty s' = {} \<and> lg_n s' = 0
    \<and> d_disk s' = apply_writes (map (\<lambda>j. (head_blocks h ! j, d_disk ?t (lg_start ?t + j + 1))) [0..<head_n h]
        @ [(lg_start ?t, x)]) (d_disk ?t)"
    by (rule recover_ok) (use s2 F L h bs in simp_all)
  then obtain s3 x where s3: "recover_from_log bread ?t = Inr s3" "quiet s3" "dirty s3 = {}" "lg_n s3 = 0"
    "d_disk s3 = apply_writes (map (\<lambda>j. (head_blocks h ! j, d (st + j + 1))) [0..<head_n h] @ [(st, x)]) d"
    using s2(5) F(4) by auto
  have "initlog 1 ?s = Inr (s3\<lparr>bc_sync := 0\<rparr>)"
    using rd s3(1) sb by (simp add: initlog_def LOGSIZE_def BSIZE_def)
  with s3 show ?thesis by (intro exI [of _ "s3\<lparr>bc_sync := 0\<rparr>"] exI [of _ x]) simp
qed

text \<open>The disk after the first \<open>k\<close> writes of a commit.\<close>

definition crash_disk :: "fsys \<Rightarrow> nat \<Rightarrow> (nat \<Rightarrow> block)" where
  "crash_disk s k = apply_writes (take k (commit_writes s)) (d_disk s)"

lemma writes_length: "length (log_writes s) = nat (lg_n s)" "length (home_writes s) = nat (lg_n s)"
  by (simp_all add: log_writes_def home_writes_def)

lemma crash_early:
  assumes "k \<le> nat (lg_n s)"
  shows "take k (commit_writes s) = take k (log_writes s)"
  using assms by (simp add: commit_writes_def writes_length)

lemma crash_middle:
  assumes "nat (lg_n s) < k" "k \<le> 2 * nat (lg_n s) + 1"
  shows "take k (commit_writes s) = log_writes s @ [(lg_start s, full_head s)] @ take (k - nat (lg_n s) - 1) (home_writes s)"
proof -
  obtain m where m: "k = nat (lg_n s) + Suc m" "m \<le> nat (lg_n s)"
    using assms less_imp_Suc_add [OF assms(1)] by auto
  then show ?thesis by (simp add: commit_writes_def writes_length)
qed

lemma take_home:
  assumes "log_shape s"
  shows "apply_writes (take m (home_writes s)) d b = (if b \<in> fst ` set (take m (home_writes s)) then content s b else d b)"
    "fst ` set (take m (home_writes s)) \<subseteq> set (logged s)"
proof -
  show sub: "fst ` set (take m (home_writes s)) \<subseteq> set (logged s)"
    using writes_fst(2) [OF assms] set_take_subset [of m "home_writes s"] by auto
  show "apply_writes (take m (home_writes s)) d b = (if b \<in> fst ` set (take m (home_writes s)) then content s b else d b)"
  proof (cases "b \<in> fst ` set (take m (home_writes s))")
    case True
    then obtain w where w: "w \<in> set (take m (home_writes s))" "fst w = b" by auto
    have "w = (b, content s b)" using in_set_takeD [OF w(1)] w(2) by (auto simp: home_writes_def)
    with w(1) have "(b, content s b) \<in> set (take m (home_writes s))" by simp
    moreover have "distinct (map fst (take m (home_writes s)))"
      using writes_fst(4) [OF assms] by (simp add: take_map [symmetric])
    ultimately show ?thesis using True apply_writes_in by force
  next
    case False
    then show ?thesis by (simp add: apply_writes_notin)
  qed
qed

text \<open>The superblock is where the log expects it and is not part of any transaction.\<close>

definition sb_ok :: "fsys \<Rightarrow> bool" where
  "sb_ok s \<longleftrightarrow> sb_logstart (sb_of (d_disk s 1)) = lg_start s \<and> sb_nlog (sb_of (d_disk s 1)) = lg_size s \<and> 1 < d_size s
     \<and> \<not> in_log s 1 \<and> 1 \<notin> set (logged s)"

lemma initlog_empty:
  assumes ok: "log_ok s" and sb: "sb_ok s" and d: "d 1 = d_disk s 1" "head_n (d (lg_start s)) = 0"
  shows "\<exists>s'. initlog 1 (binit (fresh d (d_size s))) = Inr s' \<and> quiet s' \<and> dirty s' = {} \<and> lg_n s' = 0
    \<and> (\<forall>b. \<not> in_log s b \<longrightarrow> d_disk s' b = d b)"
proof -
  have sh: "log_shape s" using ok by (simp add: log_ok_def)
  have hb: "head_blocks (d (lg_start s)) = []" by (simp add: head_blocks_def d(2))
  have "\<exists>s' x. initlog 1 (binit (fresh d (d_size s))) = Inr s' \<and> quiet s' \<and> dirty s' = {} \<and> lg_n s' = 0
    \<and> d_disk s' = apply_writes (map (\<lambda>j. (head_blocks (d (lg_start s)) ! j, d (lg_start s + j + 1))) [0..<head_n (d (lg_start s))]
        @ [(lg_start s, x)]) d"
    by (rule initlog_ok [where sz = "lg_size s"]) (use sb sh d hb in \<open>simp_all add: sb_ok_def log_shape_def\<close>)
  then obtain s' x where "initlog 1 (binit (fresh d (d_size s))) = Inr s'" "quiet s'" "dirty s' = {}" "lg_n s' = 0"
    "d_disk s' = d(lg_start s := x)" by (auto simp: d(2))
  with start_in_log [OF sh] show ?thesis by (intro exI [of _ s']) auto
qed

lemma initlog_full:
  assumes ok: "log_ok s" and sb: "sb_ok s" and d: "d 1 = d_disk s 1" "d (lg_start s) = full_head s"
    "\<And>j. j < nat (lg_n s) \<Longrightarrow> d (lg_start s + j + 1) = content s (logged s ! j)"
    "\<And>b. b \<notin> set (logged s) \<Longrightarrow> \<not> in_log s b \<Longrightarrow> d b = d_disk s b"
  shows "\<exists>s'. initlog 1 (binit (fresh d (d_size s))) = Inr s' \<and> quiet s' \<and> dirty s' = {} \<and> lg_n s' = 0
    \<and> (\<forall>b. \<not> in_log s b \<longrightarrow> d_disk s' b = content s b)"
proof -
  have sh: "log_shape s" and q: "quiet s" and dt: "dirty s = set (logged s)" using ok by (simp_all add: log_ok_def)
  note H = log_head [OF ok]
  have "\<exists>s' x. initlog 1 (binit (fresh d (d_size s))) = Inr s' \<and> quiet s' \<and> dirty s' = {} \<and> lg_n s' = 0
    \<and> d_disk s' = apply_writes (map (\<lambda>j. (head_blocks (full_head s) ! j, d (lg_start s + j + 1))) [0..<head_n (full_head s)]
        @ [(lg_start s, x)]) d"
    by (rule initlog_ok [where sz = "lg_size s"]) (use sb sh d H in \<open>simp_all add: sb_ok_def log_shape_def\<close>)
  then obtain s' x where s': "initlog 1 (binit (fresh d (d_size s))) = Inr s'" "quiet s'" "dirty s' = {}" "lg_n s' = 0"
    "d_disk s' = (apply_writes (map (\<lambda>j. (logged s ! j, d (lg_start s + j + 1))) [0..<nat (lg_n s)]) d)(lg_start s := x)"
    by (auto simp: H)
  have "map (\<lambda>j. (logged s ! j, d (lg_start s + j + 1))) [0..<nat (lg_n s)] = home_writes s"
    using d(3) by (simp add: home_writes_def)
  with s'(5) have dd: "d_disk s' = (apply_writes (home_writes s) d)(lg_start s := x)" by simp
  have "d_disk s' b = content s b" if b: "\<not> in_log s b" for b
  proof -
    have "b \<noteq> lg_start s" using start_in_log [OF sh] b by auto
    then show ?thesis
      using d(4) [OF _ b] quiet_clean [OF q, of b] dt by (simp add: dd home_writes_content [OF sh])
  qed
  with s' show ?thesis by blast
qed

lemma crash_recovery_ok:
  assumes ok: "log_ok s" and sb: "sb_ok s"
  shows "\<exists>s'. initlog 1 (binit (fresh (crash_disk s k) (d_size s))) = Inr s' \<and> quiet s' \<and> dirty s' = {} \<and> lg_n s' = 0
    \<and> (\<forall>b. \<not> in_log s b \<longrightarrow> d_disk s' b = (if k \<le> nat (lg_n s) then d_disk s b else content s b))"
proof -
  have sh: "log_shape s" and q: "quiet s" and dt: "dirty s = set (logged s)" and hd: "head_n (d_disk s (lg_start s)) = 0"
    using ok by (simp_all add: log_ok_def)
  let ?d = "crash_disk s k" and ?n = "nat (lg_n s)"
  have lw: "b \<notin> fst ` set (log_writes s)" if "\<not> in_log s b \<or> b = lg_start s" for b
    using that sh by (auto simp: writes_fst(1) [OF sh] in_log_def log_shape_def)
  have lwt: "b \<notin> fst ` set (take k (log_writes s))" if "\<not> in_log s b \<or> b = lg_start s" for b
    using lw [OF that] set_take_subset [of k "log_writes s"] by auto
  have st: "\<not> in_log s b \<Longrightarrow> b \<noteq> lg_start s" for b using start_in_log [OF sh] by auto
  have n1: "\<not> in_log s 1" "1 \<notin> set (logged s)" "1 \<noteq> lg_start s" using sb st by (auto simp: sb_ok_def)
  consider "k \<le> ?n" | "?n < k" "k \<le> 2 * ?n + 1" | "2 * ?n + 1 < k" by linarith
  then show ?thesis
  proof cases
    case 1
    have e: "?d b = d_disk s b" if "\<not> in_log s b \<or> b = lg_start s" for b
      using lwt [OF that] by (simp add: crash_disk_def crash_early [OF 1] apply_writes_notin)
    have "?d 1 = d_disk s 1" "head_n (?d (lg_start s)) = 0" using e n1(1) hd by simp_all
    from initlog_empty [OF ok sb this] e 1 show ?thesis by auto
  next
    case 2
    let ?m = "k - ?n - 1"
    have e: "?d b = (if b \<in> fst ` set (take ?m (home_writes s)) then content s b
        else if b = lg_start s then full_head s else apply_writes (log_writes s) (d_disk s) b)" for b
      by (simp add: crash_disk_def crash_middle [OF 2] take_home(1) [OF sh])
    have hsub: "b \<notin> fst ` set (take ?m (home_writes s))" if "in_log s b \<or> b \<notin> set (logged s)" for b
      using that take_home(2) [OF sh, of ?m] logged_home [OF sh] by blast
    have "?d 1 = d_disk s 1" using e [of 1] hsub [of 1] n1 lw [of 1] by (simp add: apply_writes_notin)
    moreover have "?d (lg_start s) = full_head s" using e [of "lg_start s"] hsub start_in_log [OF sh] by simp
    moreover have "?d (lg_start s + j + 1) = content s (logged s ! j)" if j: "j < ?n" for j
    proof -
      have "in_log s (lg_start s + j + 1)" using log_shapeD(3) [OF sh j] by (simp add: in_log_def)
      then show ?thesis using e [of "lg_start s + j + 1"] hsub log_writes_content [OF sh j] by simp
    qed
    moreover have "?d b = d_disk s b" if "b \<notin> set (logged s)" "\<not> in_log s b" for b
      using e [of b] hsub [of b] that lw [of b] st [OF that(2)] by (simp add: apply_writes_notin)
    ultimately show ?thesis using initlog_full [OF ok sb] 2 by auto
  next
    case 3
    then have tk: "take k (commit_writes s) = commit_writes s" by (simp add: commit_writes_def writes_length)
    have e: "?d b = content s b" if "\<not> in_log s b" for b
      using commit_final [OF ok that] quiet_clean [OF q, of b] dt by (simp add: crash_disk_def tk)
    have h: "?d (lg_start s) = head_data 0 (lg_block s) (full_head s)"
      unfolding crash_disk_def tk by (simp add: commit_writes_def)
    have "head_n (?d (lg_start s)) = 0"
      using head_data_ok(2) [OF log_head(2) [OF ok], where n = 0 and bs = "lg_block s"] by (simp add: h head_n_def)
    moreover have "?d 1 = d_disk s 1" using e [OF n1(1)] quiet_clean [OF q, of 1] n1 dt by simp
    ultimately show ?thesis using initlog_empty [OF ok sb, of ?d] e 3 by auto
  qed
qed

end
