(* ===== verification/Fs_Txn.thy ===== *)
theory Fs_Txn
  imports Fs_Log
begin

text \<open>
  Updates of blocks through the log, and the properties of the log: a block that is read, changed,
  logged and released is seen by every later reader, \<^verbatim>\<open>sync\<close> makes the changes durable, and recovery
  after a crash at any point of a commit finds all of the changes or none.
\<close>

section \<open>Updating a block\<close>

text \<open>The pattern of every file system update: \<^verbatim>\<open>bread\<close>, change the data, \<^verbatim>\<open>log_write\<close>, \<^verbatim>\<open>brelse\<close>.\<close>

definition bmod :: "nat \<Rightarrow> nat \<Rightarrow> (block \<Rightarrow> block) \<Rightarrow> fsys \<Rightarrow> fsys result" where
  "bmod dev b f s =
     rbind (bread dev b s) (\<lambda>(bp, s).
     rbind (log_write bp (upd_buf bp (\<lambda>x. x\<lparr>b_data := f (b_data x)\<rparr>) s)) (brelse bp))"

definition bzero :: "nat \<Rightarrow> nat \<Rightarrow> fsys \<Rightarrow> fsys result" where
  "bzero dev bno s = bmod dev bno (\<lambda>d. replicate BSIZE 0) s"

lemma dirty_card:
  assumes "avail s" "cache_ok s"
  shows "card (dirty s) \<le> NBUF - 2"
proof -
  obtain u v where uv: "u < NBUF" "v < NBUF" "u \<noteq> v" "usable s u" "usable s v" using assms(1) by (auto simp: avail_def)
  have "dirty s \<subseteq> (\<lambda>i. b_blockno (bc_buf s i)) ` ({..<NBUF} - {u, v})"
    using uv by (auto simp: dirty_def holds_def usable_def)
  then have "card (dirty s) \<le> card ((\<lambda>i. b_blockno (bc_buf s i)) ` ({..<NBUF} - {u, v}))" by (rule card_mono [rotated]) simp
  also have "\<dots> \<le> card ({..<NBUF} - {u, v})" by (rule card_image_le) simp
  also have "\<dots> = NBUF - 2" using uv by (simp add: card_Diff_subset)
  finally show ?thesis .
qed

text \<open>Three buffers that can be recycled: what \<^verbatim>\<open>bget\<close> makes sure of before it takes one.\<close>

definition avail3 :: "fsys \<Rightarrow> bool" where
  "avail3 s \<longleftrightarrow> (\<forall>k. \<exists>i<NBUF. \<exists>j<NBUF. i \<noteq> j \<and> i \<noteq> k \<and> j \<noteq> k \<and> usable s i \<and> usable s j)"

lemma avail3_count:
  assumes "cache_ok s" "\<not> length (filter (usable s) (rev (bc_mru s))) \<le> NRESBUF"
  shows "avail3 s"
  unfolding avail3_def
proof
  fix k
  have m: "distinct (bc_mru s)" "set (bc_mru s) = {..<NBUF}" using assms(1) by (simp_all add: cache_ok_def)
  let ?U = "{i. i < NBUF \<and> usable s i}"
  have "set (filter (usable s) (rev (bc_mru s))) = ?U" using m by auto
  moreover have "distinct (filter (usable s) (rev (bc_mru s)))" using m by simp
  ultimately have "length (filter (usable s) (rev (bc_mru s))) = card ?U" by (metis distinct_card)
  with assms(2) have "2 < card ?U" by (simp add: NRESBUF_def)
  then have "1 < card (?U - {k})" by (auto simp: card_Diff_singleton_if)
  then have "\<not> card (?U - {k}) \<le> Suc 0" "finite (?U - {k})" by simp_all
  then obtain i j where "i \<in> ?U - {k}" "j \<in> ?U - {k}" "i \<noteq> j" using card_le_Suc0_iff_eq by blast
  then show "\<exists>i<NBUF. \<exists>j<NBUF. i \<noteq> j \<and> i \<noteq> k \<and> j \<noteq> k \<and> usable s i \<and> usable s j" by blast
qed

lemma avail3_clean: "quiet s \<Longrightarrow> dirty s = {} \<Longrightarrow> avail3 s"
proof -
  assume q: "quiet s" and d: "dirty s = {}"
  have "NBUF - 1 \<le> length (filter (usable s) (rev (bc_mru s)))"
    by (rule usable_count) (use q clean_usable [OF q d] in \<open>auto simp: quiet_def\<close>)
  then show ?thesis using avail3_count [of s] q by (simp add: quiet_def NBUF_def NRESBUF_def)
qed

text \<open>The state after \<^verbatim>\<open>bget\<close> has made room: the same contents, possibly after a commit.\<close>

definition room :: "fsys \<Rightarrow> fsys \<Rightarrow> bool" where
  "room s s0 \<longleftrightarrow> log_ok s0 \<and> avail3 s0 \<and> bc_sync s0 = 0 \<and> d_size s0 = d_size s \<and> lg_start s0 = lg_start s
     \<and> lg_size s0 = lg_size s \<and> lg_dev s0 = lg_dev s \<and> (\<forall>c. \<not> in_log s c \<longrightarrow> content s0 c = content s c)"

lemma bread_room:
  assumes ok: "log_ok s" and y: "bc_sync s = 0"
  shows "\<exists>s0. bread dev b s = bread_sync dev b s0 \<and> room s s0"
proof (cases "length (filter (usable s) (rev (bc_mru s))) \<le> NRESBUF")
  case False
  have "avail3 s" by (rule avail3_count [OF _ False]) (use ok in \<open>simp add: log_ok_def quiet_def\<close>)
  moreover have "bread dev b s = bread_sync dev b s"
    using False by (simp add: bread_def bread_sync_def bread_from_def bget_def)
  ultimately show ?thesis using ok y by (auto simp: room_def)
next
  case True
  have "log_ok (s\<lparr>bc_sync := 1\<rparr>)" using ok by simp
  from sync1_ok [OF this, of False] obtain s' where
    s': "sync1 False (s\<lparr>bc_sync := 1\<rparr>) = Inr (Some (lg_n s), s')" "log_ok s'" "lg_n s' = 0"
      "log_part s' = log_part (s\<lparr>bc_sync := 1, lg_n := 0\<rparr>)"
      "\<forall>b. \<not> in_log s b \<longrightarrow> content s' b = content s b" by auto
  let ?s = "s'\<lparr>bc_sync := 0\<rparr>"
  have "dirty ?s = {}" using s'(2,3) by (simp add: log_ok_def logged_def)
  then have "avail3 ?s" using avail3_clean [of ?s] s'(2) by (simp add: log_ok_def)
  moreover have "bread dev b s = bread_sync dev b ?s"
    using True y s'(1) by (simp add: bread_def bread_sync_def bread_from_def bget_def Let_def)
  ultimately show ?thesis using s'(2,5) log_partD [OF s'(4)] by (auto simp: room_def)
qed

text \<open>Marking a locked buffer dirty.\<close>

lemma mark_dirty_ok:
  assumes ok: "cache_ok s" and h: "holds s i b"
  defines "s' \<equiv> upd_buf i (\<lambda>x. x\<lparr>b_dirty := True\<rparr>) s"
  shows "cache_ok s'" "content s' = content s" "dirty s' = insert b (dirty s)"
proof -
  have i: "i < NBUF" using h by (simp add: holds_def)
  have v: "b_valid (bc_buf s i)" using cache_okD(3) [OF ok i] h by (simp add: holds_def)
  have hs: "holds s' j c \<longleftrightarrow> holds s j c" for j c by (simp add: holds_def s'_def)
  show ok': "cache_ok s'"
  proof (rule cache_ok_upd [OF ok i])
    show "buf_ok (d_disk s') (bc_buf s' i)" using ok i v by (simp add: cache_ok_alt buf_ok_def s'_def)
    fix j c assume "j \<noteq> i" "holds s j c"
    then show "\<not> holds s' i c" using holds_unique [OF ok] hs by blast
  qed (use ok in \<open>auto simp: cache_ok_def s'_def\<close>)
  show "content s' = content s"
  proof
    fix c show "content s' c = content s c"
    proof (cases "holds s i c")
      case True
      then show ?thesis using content_held [OF ok True v] content_held [OF ok', of i c] hs v by (simp add: s'_def)
    next
      case False
      then show ?thesis using content_other(1) [OF ok ok', of i c] hs by (simp add: s'_def)
    qed
  qed
  have "c \<in> dirty s' \<longleftrightarrow> c \<in> insert b (dirty s)" for c
  proof (cases "c = b")
    case True
    then show ?thesis using dirty_held [OF ok', of i b] hs h by (simp add: s'_def)
  next
    case False
    then have "\<not> holds s i c" using holds_self h by blast
    then show ?thesis using content_other(2) [OF ok ok', of i c] hs False by (simp add: s'_def)
  qed
  then show "dirty s' = insert b (dirty s)" by blast
qed

text \<open>The bookkeeping of \<^verbatim>\<open>log_write\<close>: the block is appended unless it is there already.\<close>

definition log_add :: "nat \<Rightarrow> fsys \<Rightarrow> fsys" where
  "log_add b s = (if b \<in> set (logged s) then s
     else s\<lparr>lg_block := (lg_block s)[nat (lg_n s) := b], lg_n := lg_n s + 1\<rparr>)"

lemma log_write_eq:
  assumes sh: "log_shape s" and n: "nat (lg_n s) < LOGSIZE" "nat (lg_n s) < lg_size s - 1" and b: "b_blockno (bc_buf s i) = b"
  shows "log_write i s = Inr (upd_buf i (\<lambda>x. x\<lparr>b_dirty := True\<rparr>) (log_add b s))"
proof -
  have g: "\<not> (lg_n s \<ge> int LOGSIZE \<or> lg_n s \<ge> int (lg_size s) - 1)" using n sh by (auto simp: log_shape_def)
  have nn: "int (nat (lg_n s)) = lg_n s" using sh by (simp add: log_shape_def)
  show ?thesis
  proof (cases "first_index (\<lambda>i. lg_block s ! i = b) [0..<nat (lg_n s)]")
    case None
    then have "\<forall>j<nat (lg_n s). lg_block s ! j \<noteq> b" by simp
    then have "b \<notin> set (logged s)" using log_shapeD(1) [OF sh] length_logged [OF sh] by (auto simp: in_set_conv_nth)
    with g nn show ?thesis unfolding log_write_def Let_def b None option.case log_add_def by simp
  next
    case (Some j)
    have j: "j < nat (lg_n s)" "lg_block s ! j = b" using first_index_Some [OF Some] by auto
    then have "b \<in> set (logged s)" using log_shapeD(1) [OF sh] length_logged [OF sh] by (metis nth_mem)
    moreover have "(lg_block s)[j := b] = lg_block s" using j(2) list_update_id [of "lg_block s" j] by simp
    moreover have "int j \<noteq> lg_n s" using j(1) by auto
    ultimately show ?thesis using g unfolding log_write_def Let_def b Some option.case log_add_def by simp
  qed
qed

lemma log_add_ok:
  assumes sh: "log_shape s" and n: "nat (lg_n s) < LOGSIZE" "nat (lg_n s) < lg_size s - 1" and b: "b < d_size s" "\<not> in_log s b"
  shows "log_shape (log_add b s)" "set (logged (log_add b s)) = insert b (set (logged s))"
proof -
  have "logged (log_add b s) = (if b \<in> set (logged s) then logged s else logged s @ [b])"
    using sh n(1) by (simp add: log_add_def logged_def log_shape_def nat_add_distrib take_Suc_conv_app_nth)
  moreover have "length (lg_block (log_add b s)) = LOGSIZE" using sh by (simp add: log_add_def log_shape_def)
  ultimately show "log_shape (log_add b s)" "set (logged (log_add b s)) = insert b (set (logged s))"
    using sh n b by (auto simp: log_shape_def log_add_def in_log_def)
qed

lemma quiet_log_add: "quiet (log_add b s) = quiet s" "holds (log_add b s) = holds s" "content (log_add b s) = content s"
    "dirty (log_add b s) = dirty s" "cache_ok (log_add b s) = cache_ok s" "bc_buf (log_add b s) = bc_buf s"
    "d_disk (log_add b s) = d_disk s" "d_size (log_add b s) = d_size s" "bc_sync (log_add b s) = bc_sync s"
    "lg_start (log_add b s) = lg_start s" "lg_size (log_add b s) = lg_size s" "lg_dev (log_add b s) = lg_dev s"
    "lg_committing (log_add b s) = lg_committing s"
  by (simp_all add: log_add_def)

lemma bmod_ok:
  assumes ok: "log_ok s" and y: "bc_sync s = 0" and b: "b < d_size s" "\<not> in_log s b" and z: "NBUF < lg_size s"
  shows "\<exists>s'. bmod 1 b f s = Inr s' \<and> log_ok s' \<and> bc_sync s' = 0 \<and> d_size s' = d_size s \<and> lg_start s' = lg_start s
    \<and> lg_size s' = lg_size s \<and> (\<forall>c. \<not> in_log s c \<longrightarrow> content s' c = ((content s)(b := f (content s b))) c)"
proof -
  from bread_room [OF ok y] obtain s0 where s0: "bread 1 b s = bread_sync 1 b s0" "room s s0" by blast
  have R: "log_ok s0" "avail3 s0" "bc_sync s0 = 0" "d_size s0 = d_size s" "lg_start s0 = lg_start s" "lg_size s0 = lg_size s"
      "\<And>c. \<not> in_log s c \<Longrightarrow> content s0 c = content s c" using s0(2) by (simp_all add: room_def)
  have q: "quiet s0" "avail s0" "log_shape s0" "dirty s0 = set (logged s0)" "cache_ok s0" "d_size s0 \<le> 2 ^ 32"
      "length (d_disk s0 (lg_start s0)) = BSIZE" "head_n (d_disk s0 (lg_start s0)) = 0" "\<not> lg_committing s0"
    using R(1) by (simp_all add: log_ok_def quiet_def)
  have nb: "\<not> in_log s0 b" using b(2) R(5,6) by (simp add: in_log_def)
  have "card (set (logged s0)) = nat (lg_n s0)"
    using distinct_card [of "logged s0"] q(3) length_logged [OF q(3)] by (simp add: log_shape_def)
  then have n: "nat (lg_n s0) \<le> NBUF - 2" using dirty_card [OF q(2,5)] q(4) by simp
  have "b < d_size s0" using b(1) R(4) by simp
  from quiet_read [OF q(1,2) this] obtain i s1 where
    r: "bread_sync 1 b s0 = Inr (i, s1)" "read_post s0 b i s1" "b_data (bc_buf s1 i) = content s0 b" by blast
  have r1: "cache_ok s1" "holds s1 i b" "b_lock (bc_buf s1 i)" "b_refcnt (bc_buf s1 i) = 1" "content s1 = content s0"
      "dirty s1 = dirty s0" "d_disk s1 = d_disk s0" "log_part s1 = log_part s0" "\<And>j. j \<noteq> i \<Longrightarrow> bc_buf s1 j = bc_buf s0 j"
    using r(2) by (simp_all add: read_post_def)
  let ?d = "f (content s0 b)"
  let ?s2 = "upd_buf i (\<lambda>x. x\<lparr>b_data := ?d\<rparr>) s1"
  note s2 = set_data_ok [OF r1(1-3), of ?d]
  have L2: "log_part ?s2 = log_part s0" using r1(8) by (simp add: log_part_def)
  note P2 = log_partD [OF L2]
  have sh2: "log_shape ?s2" "logged ?s2 = logged s0" using log_shape_part [OF L2] q(3) by simp_all
  have h2: "holds ?s2 i b" using r1(2) by (simp add: holds_def)
  have n2: "nat (lg_n ?s2) < LOGSIZE" "nat (lg_n ?s2) < lg_size ?s2 - 1"
    using n z R(6) P2 by (simp_all add: NBUF_def LOGSIZE_def)
  let ?s3 = "upd_buf i (\<lambda>x. x\<lparr>b_dirty := True\<rparr>) (log_add b ?s2)"
  have lw: "log_write i ?s2 = Inr ?s3" by (rule log_write_eq [OF sh2(1) n2]) (use r1(2) in \<open>simp add: holds_def\<close>)
  have la: "log_shape (log_add b ?s2)" "set (logged (log_add b ?s2)) = insert b (set (logged s0))"
    using log_add_ok [OF sh2(1) n2, of b] b(1) R(4) nb P2 sh2(2) by (auto simp: in_log_def)
  have h2': "holds (log_add b ?s2) i b" "cache_ok (log_add b ?s2)" using h2 s2(1) by (simp_all only: quiet_log_add)
  note s3 = mark_dirty_ok [OF h2'(2,1), unfolded quiet_log_add]
  have h3: "holds ?s3 i b" "b_lock (bc_buf ?s3 i)" "b_refcnt (bc_buf ?s3 i) = 1"
    using h2 r1(3,4) by (simp_all add: holds_def quiet_log_add)
  have d3: "dirty ?s3 = insert b (dirty s0)" "content ?s3 = (content s0)(b := ?d)"
    using s3(2,3) s2(2,3) r1(5,6) by (simp_all add: quiet_log_add)
  have c3: "cache_ok ?s3" using s3(1) by (simp add: quiet_log_add)
  have "b \<in> dirty ?s3 \<or> content ?s3 b = d_disk ?s3 b" using d3(1) by blast
  from brelse_ok [OF c3 h3 this] obtain s' where
    s': "brelse i ?s3 = Inr s'" "cache_ok s'" "content s' = content ?s3" "dirty s' = dirty ?s3" "d_disk s' = d_disk ?s3"
      "log_part s' = log_part ?s3" "\<forall>j. j \<noteq> i \<longrightarrow> bc_buf s' j = bc_buf ?s3 j"
      "bc_buf s' i = (bc_buf ?s3 i)\<lparr>b_lock := False, b_refcnt := 0\<rparr>" by blast
  have run: "bmod 1 b f s = Inr s'"
    using s0(1) r(1,3) lw s'(1) by (simp add: bmod_def)
  have o: "bc_buf s' j = bc_buf s0 j" if "j \<noteq> i" for j using that s'(7) r1(9) by (simp add: quiet_log_add)
  have un: "\<not> b_lock (bc_buf s' j)" if "j < NBUF" for j
    using that o [of j] s'(8) q(1) by (cases "j = i") (auto simp: quiet_def)
  obtain u v where uv: "u < NBUF" "v < NBUF" "u \<noteq> v" "u \<noteq> i" "v \<noteq> i" "usable s0 u" "usable s0 v"
    using R(2) unfolding avail3_def by blast
  then have "usable s' u" "usable s' v" using o [of u] o [of v] by (simp_all add: usable_def)
  with uv have "avail s'" by (auto simp: avail_def)
  moreover have L': "log_part s' = log_part (log_add b ?s2)" using s'(6) by (simp add: log_part_def)
  note P' = log_partD [OF L']
  have "log_shape s'" "set (logged s') = insert b (set (logged s0))" using log_shape_part [OF L'] la by simp_all
  moreover have ds: "d_disk s' = d_disk s0" using s'(5) r1(7) by (simp add: quiet_log_add)
  moreover have geo: "lg_start s' = lg_start s0" "lg_size s' = lg_size s0" "d_size s' = d_size s0" "bc_sync s' = bc_sync s0"
      "lg_committing s' = lg_committing s0" using P' P2 by (simp_all add: quiet_log_add)
  ultimately have "log_ok s'"
    using un s'(2,4) d3(1) q by (simp add: log_ok_def quiet_def)
  moreover have "content s' c = ((content s)(b := f (content s b))) c" if "\<not> in_log s c" for c
    using that R(7) [OF that] R(7) [OF b(2)] s'(3) d3(2) by simp
  ultimately show ?thesis using run geo R by auto
qed

section \<open>A commit in the middle of an operation\<close>

text \<open>Reading a block whose buffer the caller has locked.\<close>

lemma read_locked:
  assumes "cache_ok s" "holds s i b" "b_lock (bc_buf s i)"
  shows "bread_sync 1 b s = Inl Deadlock"
  using lookup_hit [OF assms(1), of b i] assms(2,3)
  by (simp add: bread_sync_def bread_from_def bget_lookup_def acquiresleep_def)

lemma commit_locked:
  assumes ok: "cache_ok s" and sh: "log_shape s" and c: "lg_committing s" "0 < lg_n s"
    and h: "holds s i (logged s ! 0)" "b_lock (bc_buf s i)"
    and u: "u < NBUF" "usable s u" and l: "\<And>j. holds s j (lg_start s + 1) \<Longrightarrow> \<not> b_lock (bc_buf s j)"
  shows "commit bread_sync s = Inl Deadlock"
proof -
  have n: "0 < nat (lg_n s)" using c(2) by simp
  note D = log_shapeD [OF sh n]
  have dv: "lg_dev s = 1" using sh by (simp add: log_shape_def)
  have "\<exists>t s1. bread_sync 1 (lg_start s + 1) s = Inr (t, s1) \<and> read_post s (lg_start s + 1) t s1"
    by (rule bread_sync_ok [OF ok]) (use D(5) u l in auto)
  then obtain t s1 where r: "bread_sync 1 (lg_start s + 1) s = Inr (t, s1)" "read_post s (lg_start s + 1) t s1" by blast
  have r1: "cache_ok s1" "log_part s1 = log_part s" "\<not> b_lock (bc_buf s t)" "\<And>j. j \<noteq> t \<Longrightarrow> bc_buf s1 j = bc_buf s j"
    using r(2) by (simp_all add: read_post_def)
  have "i \<noteq> t" using r1(3) h(2) by auto
  then have h1: "holds s1 i (logged s ! 0)" "b_lock (bc_buf s1 i)" using h r1(4) [of i] by (simp_all add: holds_def)
  have "bread_sync 1 (lg_block s1 ! 0) s1 = Inl Deadlock"
    using read_locked [OF r1(1) h1] log_partD(9) [OF r1(2)] D(1) by simp
  moreover obtain m where "nat (lg_n s) = Suc m" using n by (cases "nat (lg_n s)") auto
  then have "[0..<nat (lg_n s)] = 0 # [1..<nat (lg_n s)]" using n by (simp add: upt_conv_Cons)
  ultimately have "write_log bread_sync s = Inl Deadlock"
    using r(1) dv log_partD(7) [OF r1(2)] by (simp add: write_log_def)
  then show ?thesis using c by (simp add: commit_def)
qed

section \<open>Concrete states\<close>

text \<open>
  A disk of 400 blocks with a log of 60 blocks from block 2; in \<open>demo_txn\<close> one changed block is in the log,
  in \<open>demo_full\<close> 48 blocks are, and the first of them is locked.
\<close>

definition demo_disk :: "nat \<Rightarrow> block" where
  "demo_disk b = (if b = 1 then put32 16 2 (put32 12 60 (replicate BSIZE 0)) else replicate BSIZE 0)"

definition demo_log :: fsys where
  "demo_log = (binit (fresh demo_disk 400))\<lparr>lg_start := 2, lg_size := 60, lg_dev := 1\<rparr>"

definition demo_buf :: "nat \<Rightarrow> buf" where
  "demo_buf b = \<lparr>b_valid = True, b_dirty = True, b_dev = 1, b_blockno = b, b_lock = False, b_refcnt = 0,
     b_data = replicate BSIZE 1\<rparr>"

definition demo_txn :: fsys where
  "demo_txn = demo_log\<lparr>bc_buf := (bc_buf demo_log)(0 := demo_buf 100), lg_n := 1, lg_block := 100 # replicate 51 0\<rparr>"

definition demo_full :: fsys where
  "demo_full = demo_log\<lparr>bc_buf := (\<lambda>i. if i = 0 then (demo_buf 100)\<lparr>b_lock := True, b_refcnt := 1\<rparr>
       else if i < 48 then demo_buf (100 + i) else zero_buf),
     lg_n := 48, lg_block := map (\<lambda>i. 100 + i) [0..<48] @ replicate 4 0\<rparr>"

lemmas demo_defs = demo_log_def binit_fields fresh_def

lemma demo_log_ok: "log_ok demo_log" "bc_sync demo_log = 0"
proof -
  note F = fresh_ok [OF refl, of demo_disk 400]
  have "dirty demo_log = {}" "quiet demo_log" "avail demo_log" using F by (simp_all add: demo_log_def)
  moreover have "logged demo_log = []" by (simp add: logged_def demo_defs)
  moreover have "head_n (demo_disk 2) = 0" by (simp add: demo_disk_def head_n_def get32_def get16_def BSIZE_def)
  ultimately show "log_ok demo_log"
    by (simp add: log_ok_def log_shape_def) (simp add: demo_defs LOGSIZE_def demo_disk_def)
  show "bc_sync demo_log = 0" by (simp add: demo_defs)
qed

lemma demo_txn_ok: "log_ok demo_txn" "sb_ok demo_txn"
proof -
  have h: "holds demo_txn i b \<longleftrightarrow> i = 0 \<and> b = 100" for i b
    by (auto simp: holds_def demo_txn_def demo_defs demo_buf_def zero_buf_def NBUF_def)
  have d: "dirty demo_txn = {100}" by (auto simp: dirty_def h) (simp_all add: demo_txn_def demo_buf_def)
  have u: "usable demo_txn i" if "i \<noteq> 0" for i using that by (simp add: usable_def demo_txn_def demo_defs zero_buf_def)
  have "cache_ok demo_txn" unfolding cache_ok_alt
    by (auto simp: h) (auto simp: demo_txn_def demo_defs buf_ok_def demo_buf_def zero_buf_def atLeast0LessThan)
  then have q: "quiet demo_txn" by (auto simp: quiet_def demo_txn_def demo_defs demo_buf_def zero_buf_def)
  have a: "avail demo_txn" unfolding avail_def by (intro exI [of _ 1] conjI exI [of _ 2]) (simp_all add: NBUF_def u)
  have lg: "logged demo_txn = [100]" by (simp add: logged_def demo_txn_def demo_defs)
  have "head_n (demo_disk 2) = 0" by (simp add: demo_disk_def head_n_def get32_def get16_def BSIZE_def)
  then show "log_ok demo_txn"
    using q a d by (simp add: log_ok_def log_shape_def lg) (simp add: demo_txn_def demo_defs LOGSIZE_def demo_disk_def)
  show "sb_ok demo_txn"
    by (simp add: sb_ok_def lg) (simp add: demo_txn_def demo_defs in_log_def demo_disk_def sb_of_def BSIZE_def)
qed

lemma demo_full_ok:
  "cache_ok demo_full" "log_shape demo_full" "logged demo_full ! 0 = 100" "usable demo_full 48"
  "holds demo_full 0 100" "\<not> holds demo_full j 3"
  "length (filter (usable demo_full) (rev (bc_mru demo_full))) \<le> NRESBUF"
proof -
  have h: "holds demo_full i b \<longleftrightarrow> i < 48 \<and> b = 100 + i" for i b
    by (auto simp: holds_def demo_full_def demo_defs demo_buf_def zero_buf_def NBUF_def)
  show "cache_ok demo_full" unfolding cache_ok_alt
    by (auto simp: h) (auto simp: demo_full_def demo_defs buf_ok_def demo_buf_def zero_buf_def atLeast0LessThan)
  have lg: "logged demo_full = map (\<lambda>i. 100 + i) [0..<48]" by (simp add: logged_def demo_full_def demo_defs)
  show "log_shape demo_full"
    by (simp add: log_shape_def lg distinct_map inj_on_def) (simp add: demo_full_def demo_defs LOGSIZE_def)
  show "logged demo_full ! 0 = 100" by (simp add: lg)
  have u: "usable demo_full i \<longleftrightarrow> 48 \<le> i" for i
    by (auto simp: usable_def demo_full_def demo_defs demo_buf_def zero_buf_def)
  show "usable demo_full 48" "holds demo_full 0 100" "\<not> holds demo_full j 3" by (simp_all add: u h)
  have "bc_mru demo_full = rev [0..<50]" by (simp add: demo_full_def demo_defs NBUF_def)
  moreover have "filter (\<lambda>i. 48 \<le> i) [0..<50] = [48, 49::nat]" by code_simp
  ultimately show "length (filter (usable demo_full) (rev (bc_mru demo_full))) \<le> NRESBUF"
    by (simp add: u [abs_def] NRESBUF_def)
qed

section \<open>Properties\<close>



text \<open>
  C29.  \<^verbatim>\<open>sync\<close> returns the number of blocks that were in the log, writes exactly the sequence of
  \<open>commit_writes\<close> (log blocks, header, home blocks, empty header), after which the disk holds what readers
  saw before for every block outside the log, and the log is empty.
\<close>

theorem sync_durable:
  assumes "log_ok s"
  shows "\<exists>s'. sys_sync s = Inr (Some (lg_n s), s') \<and> log_ok s' \<and> lg_n s' = 0
    \<and> d_trace s' = d_trace s @ (if lg_n s > 0 then commit_writes s else [])
    \<and> (\<forall>b. \<not> in_log s b \<longrightarrow> d_disk s' b = content s b \<and> content s' b = content s b)"
  using sync_ok [OF assms] .

theorem sync_durable_witness:
  "log_ok demo_txn \<and> (\<exists>s'. sys_sync demo_txn = Inr (Some (lg_n demo_txn), s') \<and> log_ok s' \<and> lg_n s' = 0
    \<and> d_trace s' = d_trace demo_txn @ (if lg_n demo_txn > 0 then commit_writes demo_txn else [])
    \<and> (\<forall>b. \<not> in_log demo_txn b \<longrightarrow> d_disk s' b = content demo_txn b \<and> content s' b = content demo_txn b))"
  using sync_durable [OF demo_txn_ok(1)] demo_txn_ok(1) by blast

text \<open>
  C30.  An update of one block through the cache and the log (\<^verbatim>\<open>bread\<close>, change, \<^verbatim>\<open>log_write\<close>, \<^verbatim>\<open>brelse\<close>)
  never runs out of buffers or log space when the log has more blocks than the cache: it may commit
  first to make room, keeps the invariant of the log, and changes what readers see of that block only.
\<close>

theorem logged_update:
  assumes "log_ok s" "bc_sync s = 0" "b < d_size s" "\<not> in_log s b" "NBUF < lg_size s"
  shows "\<exists>s'. bmod 1 b f s = Inr s' \<and> log_ok s' \<and> bc_sync s' = 0 \<and> d_size s' = d_size s \<and> lg_start s' = lg_start s
    \<and> lg_size s' = lg_size s \<and> (\<forall>c. \<not> in_log s c \<longrightarrow> content s' c = ((content s)(b := f (content s b))) c)"
  using bmod_ok [OF assms] .

theorem logged_update_witness:
  "\<exists>s'. bmod 1 99 (\<lambda>d. replicate BSIZE 7) demo_log = Inr s' \<and> log_ok s' \<and> bc_sync s' = 0 \<and> d_size s' = d_size demo_log
    \<and> lg_start s' = lg_start demo_log \<and> lg_size s' = lg_size demo_log
    \<and> (\<forall>c. \<not> in_log demo_log c \<longrightarrow> content s' c = ((content demo_log)(99 := replicate BSIZE 7)) c)"
  using logged_update [OF demo_log_ok, of 99 "\<lambda>d. replicate BSIZE 7"]
  by (simp add: in_log_def demo_defs NBUF_def)

text \<open>
  C31.  \<^verbatim>\<open>bget\<close> commits in the middle of an operation.  When the cache is nearly full and the caller holds
  the buffer of the first block in the log, the commit waits for the lock of its own caller: a
  deadlock.
\<close>

theorem commit_self_deadlock:
  assumes "cache_ok s" "log_shape s" "0 < lg_n s" "bc_sync s = 0"
    and "length (filter (usable s) (rev (bc_mru s))) \<le> NRESBUF" "u < NBUF" "usable s u"
    and "holds s i (logged s ! 0)" "b_lock (bc_buf s i)" "\<forall>j. \<not> holds s j (lg_start s + 1)"
  shows "bread dev b s = Inl Deadlock"
proof -
  let ?t = "s\<lparr>bc_sync := 1, lg_committing := True\<rparr>"
  have lt: "logged ?t = logged s" by (simp add: logged_def)
  have ut: "usable ?t u" using assms(7) by (simp add: usable_def)
  have "commit bread_sync ?t = Inl Deadlock"
    by (rule commit_locked [where i = i and u = u]) (use assms lt ut in \<open>simp_all add: log_shape_def\<close>)
  then have "sync1 False (s\<lparr>bc_sync := 1\<rparr>) = Inl Deadlock" by (simp add: sync1_def Let_def)
  then show ?thesis using assms(4,5) by (simp add: bread_def bread_from_def bget_def Let_def)
qed

theorem commit_self_deadlock_witness: "bread 1 300 demo_full = Inl Deadlock"
proof -
  have "0 < lg_n demo_full" "bc_sync demo_full = 0" "b_lock (bc_buf demo_full 0)" "lg_start demo_full + 1 = 3" "48 < NBUF"
    by (simp_all add: demo_full_def demo_defs demo_buf_def NBUF_def)
  with commit_self_deadlock [of demo_full 48 0 1 300] demo_full_ok show ?thesis by simp
qed

end
