(* ===== verification/Fs_Store.thy ===== *)
theory Fs_Store
  imports Fs_Log
begin

text \<open>
  The block layer as \<^verbatim>\<open>fs.c\<close> sees it: an array of blocks, the set of blocks whose buffer the process holds
  between \<^verbatim>\<open>bread\<close> and \<^verbatim>\<open>brelse\<close>, and the set of blocks that the current transaction has logged.  No block has
  two buffers, so a buffer is named by its block number.  The theory \<open>Fs_Refine\<close> shows that
  the buffer cache and the log implement these operations.
\<close>

section \<open>Operations\<close>

record store =
  st_blk :: "nat \<Rightarrow> block"
  st_size :: nat
  st_held :: "nat set"
  st_logged :: "nat set"

definition st_bread :: "nat \<Rightarrow> nat \<Rightarrow> 'a store_scheme \<Rightarrow> 'a store_scheme result" where
  "st_bread dev b s =
     (if b \<in> st_held s then Inl Deadlock
      else if dev \<noteq> 1 then Inl (Panic ''iderw: request not for disk 1'')
      else if b \<ge> st_size s then Inl (Panic ''iderw: block out of range'')
      else Inr (s\<lparr>st_held := insert b (st_held s)\<rparr>))"

abbreviation set_blk :: "nat \<Rightarrow> (block \<Rightarrow> block) \<Rightarrow> 'a store_scheme \<Rightarrow> 'a store_scheme" where
  "set_blk b f s \<equiv> s\<lparr>st_blk := (st_blk s)(b := f (st_blk s b))\<rparr>"

definition st_log_write :: "nat \<Rightarrow> 'a store_scheme \<Rightarrow> 'a store_scheme result" where
  "st_log_write b s = Inr (s\<lparr>st_logged := insert b (st_logged s)\<rparr>)"

definition st_brelse :: "nat \<Rightarrow> 'a store_scheme \<Rightarrow> 'a store_scheme result" where
  "st_brelse b s = (if b \<notin> st_held s then Inl (Panic ''brelse'') else Inr (s\<lparr>st_held := st_held s - {b}\<rparr>))"

text \<open>Read, change, log, release: the shape of every update.\<close>

definition st_bmod :: "nat \<Rightarrow> nat \<Rightarrow> (block \<Rightarrow> block) \<Rightarrow> 'a store_scheme \<Rightarrow> 'a store_scheme result" where
  "st_bmod dev b f s =
     rbind (st_bread dev b s) (\<lambda>s. rbind (st_log_write b (set_blk b f s)) (st_brelse b))"

lemma st_bmod_eq:
  assumes "b \<notin> st_held s" "b < st_size s" "dev = 1"
  shows "st_bmod dev b f s = Inr (s\<lparr>st_blk := (st_blk s)(b := f (st_blk s b)), st_logged := insert b (st_logged s)\<rparr>)"
  using assms by (simp add: st_bmod_def st_bread_def st_log_write_def st_brelse_def)

lemma st_bread_eq: "b \<notin> st_held s \<Longrightarrow> b < st_size s \<Longrightarrow> dev = 1 \<Longrightarrow> st_bread dev b s = Inr (s\<lparr>st_held := insert b (st_held s)\<rparr>)"
  by (simp add: st_bread_def)

lemma st_brelse_eq: "b \<in> st_held s \<Longrightarrow> st_brelse b s = Inr (s\<lparr>st_held := st_held s - {b}\<rparr>)"
  by (simp add: st_brelse_def)

lemma st_release [simp]: "b \<notin> st_held s \<Longrightarrow> s\<lparr>st_held := insert b (st_held s) - {b}\<rparr> = s"
  by simp

lemma st_unhold [simp]: "st_held s = {} \<Longrightarrow> s\<lparr>st_held := {}\<rparr> = s"
  by (cases s) simp

end
