(* ===== verification/Fs_Refine.thy ===== *)
theory Fs_Refine
  imports Fs_Txn Fs_Store
begin

text \<open>
  The block layer that \<^verbatim>\<open>fs.c\<close> uses (\<open>Fs_Store\<close>) and its implementation by the buffer cache and the log
  (\<open>Fs_Cache\<close>, \<open>Fs_Log\<close>).  The interface is the locale \<open>block_layer\<close>; its laws relate every operation to the
  abstract one, and its lemmas are the two patterns of the client: reading a block, and updating one.
\<close>

section \<open>The interface\<close>


section \<open>The buffer cache and the log\<close>
















section \<open>Properties\<close>




end
