(* ===== verification/Xv6_String.thy ===== *)
theory Xv6_String
  imports Fs_Bytes
begin

text \<open>
  The string and memory functions of the kernel (\<^verbatim>\<open>string.c\<close>) and of the user library (\<^verbatim>\<open>ulib.c\<close>) over a
  flat byte memory.  A function that scans for a terminating zero is a \<^theory_text>\<open>partial_function\<close>: \<open>None\<close> means
  that it runs off without finding one.
\<close>

type_synonym mem = "nat \<Rightarrow> byte"

section \<open>Block operations\<close>

text \<open>The string instructions behind \<^verbatim>\<open>stosb\<close> and \<^verbatim>\<open>stosl\<close>.\<close>

fun stosb :: "nat \<Rightarrow> byte \<Rightarrow> nat \<Rightarrow> mem \<Rightarrow> mem" where
  "stosb a c 0 m = m"
| "stosb a c (Suc n) m = stosb (a + 1) c n (m(a := c))"

fun stosl :: "nat \<Rightarrow> 32 word \<Rightarrow> nat \<Rightarrow> mem \<Rightarrow> mem" where
  "stosl a w 0 m = m"
| "stosl a w (Suc n) m = stosl (a + 4) w n
     (m(a := ucast w, a + 1 := ucast (drop_bit 8 w), a + 2 := ucast (drop_bit 16 w), a + 3 := ucast (drop_bit 24 w)))"

definition memset :: "nat \<Rightarrow> 32 word \<Rightarrow> nat \<Rightarrow> mem \<Rightarrow> mem" where
  "memset dst c n m =
     (if dst mod 4 = 0 \<and> n mod 4 = 0 then
        let c = and c 255 in
        stosl dst (or (or (or (push_bit 24 c) (push_bit 16 c)) (push_bit 8 c)) c) (n div 4) m
      else stosb dst (ucast c) n m)"

fun memcmp :: "nat \<Rightarrow> nat \<Rightarrow> nat \<Rightarrow> mem \<Rightarrow> int" where
  "memcmp s1 s2 0 m = 0"
| "memcmp s1 s2 (Suc n) m =
     (if m s1 \<noteq> m s2 then uint (m s1) - uint (m s2) else memcmp (s1 + 1) (s2 + 1) n m)"

fun copy_up :: "nat \<Rightarrow> nat \<Rightarrow> nat \<Rightarrow> mem \<Rightarrow> mem" where
  "copy_up d s 0 m = m"
| "copy_up d s (Suc n) m = copy_up (d + 1) (s + 1) n (m(d := m s))"

fun copy_down :: "nat \<Rightarrow> nat \<Rightarrow> nat \<Rightarrow> mem \<Rightarrow> mem" where
  "copy_down d s 0 m = m"
| "copy_down d s (Suc n) m = copy_down (d - 1) (s - 1) n (m(d - 1 := m (s - 1)))"

definition memmove :: "nat \<Rightarrow> nat \<Rightarrow> nat \<Rightarrow> mem \<Rightarrow> mem" where
  "memmove dst src n m =
     (if src < dst \<and> src + n > dst then copy_down (dst + n) (src + n) n m else copy_up dst src n m)"

definition memcpy :: "nat \<Rightarrow> nat \<Rightarrow> nat \<Rightarrow> mem \<Rightarrow> mem" where
  "memcpy dst src n m = memmove dst src n m"

text \<open>The user library has its own, simpler versions.\<close>

definition ulib_memset :: "nat \<Rightarrow> 32 word \<Rightarrow> nat \<Rightarrow> mem \<Rightarrow> mem" where
  "ulib_memset dst c n m = stosb dst (ucast c) n m"

definition ulib_memmove :: "nat \<Rightarrow> nat \<Rightarrow> int \<Rightarrow> mem \<Rightarrow> mem" where
  "ulib_memmove vdst vsrc n m = copy_up vdst vsrc (nat n) m"

section \<open>Strings\<close>

fun strncmp :: "nat \<Rightarrow> nat \<Rightarrow> nat \<Rightarrow> mem \<Rightarrow> int" where
  "strncmp p q 0 m = 0"
| "strncmp p q (Suc n) m =
     (if m p \<noteq> 0 \<and> m p = m q then strncmp (p + 1) (q + 1) n m else uint (m p) - uint (m q))"

text \<open>The second loop of \<^verbatim>\<open>strncpy\<close> fills up with zeros.\<close>

fun strncpy :: "nat \<Rightarrow> nat \<Rightarrow> nat \<Rightarrow> mem \<Rightarrow> mem" where
  "strncpy s t 0 m = m"
| "strncpy s t (Suc n) m =
     (let c = m t; m = m(s := c) in if c \<noteq> 0 then strncpy (s + 1) (t + 1) n m else stosb (s + 1) 0 n m)"

text \<open>The loop of \<^verbatim>\<open>safestrcpy\<close> with \<open>n - 1\<close> bytes to go, and the final zero.\<close>

fun safestrcpy_loop :: "nat \<Rightarrow> nat \<Rightarrow> nat \<Rightarrow> mem \<Rightarrow> mem" where
  "safestrcpy_loop s t 0 m = m(s := 0)"
| "safestrcpy_loop s t (Suc n) m =
     (let c = m t; m = m(s := c) in if c \<noteq> 0 then safestrcpy_loop (s + 1) (t + 1) n m else m(s + 1 := 0))"

definition safestrcpy :: "nat \<Rightarrow> nat \<Rightarrow> int \<Rightarrow> mem \<Rightarrow> mem" where
  "safestrcpy s t n m = (if n \<le> 0 then m else safestrcpy_loop s t (nat n - 1) m)"

partial_function (option) strlen_from :: "mem \<Rightarrow> nat \<Rightarrow> nat \<Rightarrow> nat option" where
  "strlen_from m s n = (if m (s + n) = 0 then Some n else strlen_from m s (n + 1))"

definition strlen :: "nat \<Rightarrow> mem \<Rightarrow> nat option" where
  "strlen s m = strlen_from m s 0"

partial_function (option) strcpy :: "nat \<Rightarrow> nat \<Rightarrow> mem \<Rightarrow> mem option" where
  "strcpy s t m = (let c = m t; m = m(s := c) in if c \<noteq> 0 then strcpy (s + 1) (t + 1) m else Some m)"

partial_function (option) strcmp :: "nat \<Rightarrow> nat \<Rightarrow> mem \<Rightarrow> int option" where
  "strcmp p q m =
     (if m p \<noteq> 0 \<and> m p = m q then strcmp (p + 1) (q + 1) m else Some (uint (m p) - uint (m q)))"

text \<open>\<^verbatim>\<open>strchr\<close> returns a pointer, or 0.\<close>

partial_function (option) strchr :: "nat \<Rightarrow> byte \<Rightarrow> mem \<Rightarrow> nat option" where
  "strchr s c m = (if m s = 0 then Some 0 else if m s = c then Some s else strchr (s + 1) c m)"

partial_function (option) atoi_from :: "mem \<Rightarrow> nat \<Rightarrow> 32 word \<Rightarrow> 32 word option" where
  "atoi_from m s n =
     (if 48 \<le> m s \<and> m s \<le> 57 then atoi_from m (s + 1) (n * 10 + ucast (m s) - 48) else Some n)"

definition atoi :: "nat \<Rightarrow> mem \<Rightarrow> 32 word option" where
  "atoi s m = atoi_from m s 0"

text \<open>\<^verbatim>\<open>gets\<close> on the bytes \<open>inp\<close> that \<^verbatim>\<open>read(0, &c, 1)\<close> delivers: the line, and what is left.\<close>

fun gets_loop :: "nat \<Rightarrow> byte list \<Rightarrow> byte list \<Rightarrow> byte list \<times> byte list" where
  "gets_loop k [] line = (line, [])"
| "gets_loop 0 inp line = (line, inp)"
| "gets_loop (Suc k) (c # inp) line =
     (if c = 10 \<or> c = 13 then (line @ [c], inp) else gets_loop k inp (line @ [c]))"

definition gets :: "int \<Rightarrow> byte list \<Rightarrow> byte list \<times> byte list" where
  "gets mx inp = gets_loop (nat (mx - 1)) inp []"

section \<open>Correctness of the block operations\<close>

lemma stosb_fill: "stosb a c n m x = (if a \<le> x \<and> x < a + n then c else m x)"
  by (induction n arbitrary: a m) auto

lemma stosl_fill:
  assumes "ucast w = c" "ucast (drop_bit 8 w) = c" "ucast (drop_bit 16 w) = c" "ucast (drop_bit 24 w) = (c :: byte)"
  shows "stosl a w n m x = (if a \<le> x \<and> x < a + 4 * n then c else m x)"
  using assms
proof (induction n arbitrary: a m)
  case (Suc n)
  have "x = a \<or> x = a + 1 \<or> x = a + 2 \<or> x = a + 3 \<longleftrightarrow> a \<le> x \<and> x < a + 4" by auto
  with Suc show ?case by auto
qed auto

lemma splat_bytes:
  fixes c :: "32 word"
  assumes "d = and c 255" "w = or (or (or (push_bit 24 d) (push_bit 16 d)) (push_bit 8 d)) d"
  shows "(ucast w :: byte) = ucast c" "(ucast (drop_bit 8 w) :: byte) = ucast c"
    "(ucast (drop_bit 16 w) :: byte) = ucast c" "(ucast (drop_bit 24 w) :: byte) = ucast c"
proof -
  have b: "bit (255 :: 32 word) n \<longleftrightarrow> n < 8" for n
  proof -
    have "(255 :: 32 word) = mask 8" by (simp add: mask_eq_exp_minus_1)
    then show ?thesis by (simp only: bit_mask_iff) auto
  qed
  have d: "bit d n \<longleftrightarrow> n < 8 \<and> bit c n" for n by (auto simp only: assms(1) bit_and_iff b)
  have w: "bit w n \<longleftrightarrow> n < 32 \<and> bit c (n mod 8)" for n
  proof -
    consider "n < 8" | "8 \<le> n" "n < 16" | "16 \<le> n" "n < 24" | "24 \<le> n" "n < 32" | "32 \<le> n" by linarith
    then show ?thesis
      by cases (auto simp: assms(2) bit_or_iff bit_push_bit_iff d le_mod_geq possible_bit_def)
  qed
  have r: "(ucast (drop_bit (8 * k) w) :: byte) = ucast c" if "k < 4" for k
    by (rule bit_word_eqI) (use that in \<open>auto simp: bit_ucast_iff bit_drop_bit_eq w\<close>)
  show "(ucast w :: byte) = ucast c" "(ucast (drop_bit 8 w) :: byte) = ucast c"
    "(ucast (drop_bit 16 w) :: byte) = ucast c" "(ucast (drop_bit 24 w) :: byte) = ucast c"
    using r [of 0] r [of 1] r [of 2] r [of 3] by simp_all
qed

lemma memset_correct: "memset dst c n m x = (if dst \<le> x \<and> x < dst + n then ucast c else m x)"
proof (cases "dst mod 4 = 0 \<and> n mod 4 = 0")
  case True
  then have "4 * (n div 4) = n" by auto
  with stosl_fill [OF splat_bytes [OF refl refl], of dst c "n div 4" m x] True show ?thesis
    by (simp add: memset_def Let_def)
next
  case False
  show ?thesis unfolding memset_def if_not_P [OF False] by (rule stosb_fill)
qed

lemma copy_up_correct:
  "d \<le> s \<or> s + n \<le> d \<Longrightarrow> copy_up d s n m x = (if d \<le> x \<and> x < d + n then m (s + (x - d)) else m x)"
proof (induction n arbitrary: d s m)
  case (Suc n)
  have IH: "copy_up (d + 1) (s + 1) n (m(d := m s)) x
      = (if d + 1 \<le> x \<and> x < d + 1 + n then (m(d := m s)) (s + 1 + (x - (d + 1))) else (m(d := m s)) x)"
    by (rule Suc.IH) (use Suc.prems in auto)
  have e: "s + 1 + (x - (d + 1)) = s + (x - d)" "s + (x - d) \<noteq> d" if "d + 1 \<le> x" "x < d + 1 + n"
    using that Suc.prems by auto
  show ?case unfolding copy_up.simps IH using e by (cases "d + 1 \<le> x \<and> x < d + 1 + n") auto
qed auto

lemma copy_down_correct:
  "s < d \<Longrightarrow> copy_down (d + n) (s + n) n m x = (if d \<le> x \<and> x < d + n then m (s + (x - d)) else m x)"
proof (induction n arbitrary: m)
  case (Suc n)
  have "copy_down (d + Suc n) (s + Suc n) (Suc n) m x = copy_down (d + n) (s + n) n (m(d + n := m (s + n))) x" by simp
  also have "\<dots> = (if d \<le> x \<and> x < d + n then (m(d + n := m (s + n))) (s + (x - d)) else (m(d + n := m (s + n))) x)"
    using Suc by simp
  also have "\<dots> = (if d \<le> x \<and> x < d + Suc n then m (s + (x - d)) else m x)"
    using Suc(2) by auto
  finally show ?case .
qed auto

lemma memmove_correct:
  "memmove dst src n m x = (if dst \<le> x \<and> x < dst + n then m (src + (x - dst)) else m x)"
  using copy_down_correct [of src dst n m x] copy_up_correct [of dst src n m x] by (auto simp: memmove_def)

lemma byte_diff_zero: "uint (a :: byte) - uint b = 0 \<longleftrightarrow> a = b"
  by (simp add: word_uint_eq_iff)

lemma memcmp_zero: "memcmp s1 s2 n m = 0 \<longleftrightarrow> (\<forall>i<n. m (s1 + i) = m (s2 + i))"
proof (induction n arbitrary: s1 s2)
  case (Suc n)
  have "(\<forall>i<Suc n. m (s1 + i) = m (s2 + i)) \<longleftrightarrow> m s1 = m s2 \<and> (\<forall>i<n. m (s1 + 1 + i) = m (s2 + 1 + i))"
    by (simp add: All_less_Suc2)
  then show ?case unfolding memcmp.simps using Suc [of "s1 + 1" "s2 + 1"] byte_diff_zero [of "m s1" "m s2"] by presburger
qed simp

section \<open>Correctness of the string operations\<close>

text \<open>The string in a field of \<open>n\<close> bytes: up to the first zero, or all of them.\<close>

definition field :: "mem \<Rightarrow> nat \<Rightarrow> nat \<Rightarrow> byte list" where
  "field m p n = takeWhile (\<lambda>c. c \<noteq> 0) (map (\<lambda>i. m (p + i)) [0..<n])"

text \<open>A zero terminated string at \<open>p\<close>.\<close>

fun cstr :: "mem \<Rightarrow> nat \<Rightarrow> byte list \<Rightarrow> bool" where
  "cstr m p [] \<longleftrightarrow> m p = 0"
| "cstr m p (c # cs) \<longleftrightarrow> m p = c \<and> c \<noteq> 0 \<and> cstr m (p + 1) cs"

lemma field_0 [simp]: "field m p 0 = []"
  by (simp add: field_def)

lemma field_Suc: "field m p (Suc n) = (if m p = 0 then [] else m p # field m (p + 1) n)"
proof -
  have "map (\<lambda>i. m (p + i)) [0..<Suc n] = m p # map (\<lambda>i. m (p + 1 + i)) [0..<n]"
    by (simp add: upt_conv_Cons map_Suc_upt [symmetric] del: upt_Suc)
  then show ?thesis by (simp add: field_def del: upt_Suc)
qed

lemma field_cong: "(\<And>i. i < n \<Longrightarrow> m' (q + i) = m (p + i)) \<Longrightarrow> field m' q n = field m p n"
  unfolding field_def by (intro arg_cong [where f = "takeWhile (\<lambda>c. c \<noteq> 0)"] map_cong) simp_all

lemma strncmp_zero: "strncmp p q n m = 0 \<longleftrightarrow> field m p n = field m q n"
proof (induction n arbitrary: p q)
  case (Suc n)
  then show ?case using byte_diff_zero [of "m p" "m q"] by (auto simp: field_Suc)
qed simp

lemma strncmp_sign:
  "strncmp p q n m < 0 \<longleftrightarrow> (\<exists>i<n. (\<forall>j<i. m (p + j) \<noteq> 0 \<and> m (p + j) = m (q + j)) \<and> m (p + i) < m (q + i))"
proof (induction n arbitrary: p q)
  case (Suc n)
  have lt: "uint (m p) - uint (m q) < 0 \<longleftrightarrow> m p < m q" by (simp add: word_less_def)
  have ex: "(\<exists>i<Suc n. (\<forall>j<i. m (p + j) \<noteq> 0 \<and> m (p + j) = m (q + j)) \<and> m (p + i) < m (q + i)) \<longleftrightarrow>
      m p < m q \<or> (m p \<noteq> 0 \<and> m p = m q \<and>
        (\<exists>i<n. (\<forall>j<i. m (p + 1 + j) \<noteq> 0 \<and> m (p + 1 + j) = m (q + 1 + j)) \<and> m (p + 1 + i) < m (q + 1 + i)))"
    unfolding Ex_less_Suc2 All_less_Suc2 by auto
  show ?case
  proof (cases "m p \<noteq> 0 \<and> m p = m q")
    case True
    then show ?thesis unfolding ex strncmp.simps using Suc [of "p + 1" "q + 1"] by simp
  next
    case False
    then show ?thesis unfolding ex strncmp.simps lt [symmetric] by auto
  qed
qed simp

lemma strncpy_frame: "x < s \<or> s + n \<le> x \<Longrightarrow> strncpy s t n m x = m x"
  by (induction n arbitrary: s t m) (auto simp: Let_def stosb_fill)

lemma strncpy_field:
  assumes "s + n \<le> t \<or> t + n \<le> s"
  shows "field (strncpy s t n m) s n = field m t n
    \<and> (\<forall>x. s + length (field m t n) \<le> x \<and> x < s + n \<longrightarrow> strncpy s t n m x = 0)"
  using assms
proof (induction n arbitrary: s t m)
  case (Suc n)
  define M where "M = m(s := m t)"
  have f: "field M (t + 1) n = field m (t + 1) n" unfolding M_def by (rule field_cong) (use Suc.prems in auto)
  have Ms: "M s = m t" by (simp add: M_def)
  show ?case
  proof (cases "m t = 0")
    case True
    then have e: "strncpy s t (Suc n) m = stosb (s + 1) 0 n M" by (simp add: Let_def M_def)
    have "stosb (s + 1) 0 n M s = 0" using True Ms by (simp add: stosb_fill)
    then show ?thesis unfolding e field_Suc using True Ms by (auto simp: stosb_fill) (metis le_antisym not_less_eq_eq)
  next
    case False
    then have e: "strncpy s t (Suc n) m = strncpy (s + 1) (t + 1) n M" by (simp add: Let_def M_def)
    have "s + 1 + n \<le> t + 1 \<or> t + 1 + n \<le> s + 1" using Suc.prems by auto
    note IH = Suc.IH [OF this, of M, unfolded f]
    have "strncpy (s + 1) (t + 1) n M s = m t" using strncpy_frame [of s "s + 1" n "t + 1" M] Ms by simp
    then show ?thesis unfolding e field_Suc using False IH by simp
  qed
qed auto


lemma safestrcpy_frame: "x < s \<or> s + n < x \<Longrightarrow> safestrcpy_loop s t n m x = m x"
  by (induction n arbitrary: s t m) (auto simp: Let_def)

lemma safestrcpy_loop_field:
  assumes "s + n < t \<or> t + n \<le> s"
  shows "field (safestrcpy_loop s t n m) s (Suc n) = field m t n"
  using assms
proof (induction n arbitrary: s t m)
  case 0
  then show ?case by (simp add: field_Suc)
next
  case (Suc n)
  define M where "M = m(s := m t)"
  have f: "field M (t + 1) n = field m (t + 1) n" unfolding M_def by (rule field_cong) (use Suc.prems in auto)
  have Ms: "M s = m t" by (simp add: M_def)
  show ?case
  proof (cases "m t = 0")
    case True
    then have "safestrcpy_loop s t (Suc n) m s = 0" by (simp add: Let_def)
    then show ?thesis using True by (simp add: field_Suc)
  next
    case False
    then have e: "safestrcpy_loop s t (Suc n) m = safestrcpy_loop (s + 1) (t + 1) n M" by (simp add: Let_def M_def)
    have "s + 1 + n < t + 1 \<or> t + 1 + n \<le> s + 1" using Suc.prems by auto
    note IH = Suc.IH [OF this, of M, unfolded f]
    have "safestrcpy_loop (s + 1) (t + 1) n M s = m t" using safestrcpy_frame [of s "s + 1" n "t + 1" M] Ms by simp
    then show ?thesis unfolding e field_Suc [of _ s] field_Suc [of m t] using False IH by simp
  qed
qed

lemma strlen_cstr: "cstr m s cs \<Longrightarrow> strlen s m = Some (length cs)"
proof -
  have "cstr m (s + k) cs \<Longrightarrow> strlen_from m s k = Some (k + length cs)" for k
  proof (induction cs arbitrary: k)
    case (Cons c cs)
    then have "strlen_from m s (k + 1) = Some (k + 1 + length cs)" by simp
    with Cons.prems show ?case by (subst strlen_from.simps) simp
  qed (subst strlen_from.simps, simp)
  from this [of 0] show "cstr m s cs \<Longrightarrow> strlen s m = Some (length cs)" by (simp add: strlen_def)
qed

lemma strcmp_cstr:
  "cstr m p xs \<Longrightarrow> cstr m q ys \<Longrightarrow> \<exists>r. strcmp p q m = Some r \<and> (r = 0 \<longleftrightarrow> xs = ys)"
proof (induction xs arbitrary: p q ys)
  case Nil
  then show ?case by (subst strcmp.simps) (cases ys, auto simp: word_uint_eq_iff)
next
  case (Cons x xs)
  show ?case
  proof (cases ys)
    case Nil
    with Cons.prems show ?thesis by (subst strcmp.simps) (auto simp: word_uint_eq_iff)
  next
    case (Cons y zs)
    show ?thesis
    proof (cases "x = y")
      case True
      have "strcmp p q m = strcmp (p + 1) (q + 1) m" using Cons.prems Cons True by (subst strcmp.simps) auto
      with Cons.IH [of "p + 1" "q + 1" zs] Cons.prems Cons True show ?thesis by auto
    next
      case False
      have "strcmp p q m = Some (uint x - uint y)" using Cons.prems Cons False by (subst strcmp.simps) auto
      then show ?thesis using False Cons by (simp add: word_uint_eq_iff)
    qed
  qed
qed

end
