(* ===== verification/Fs_Inode.thy ===== *)
theory Fs_Inode
  imports Fs_Store Xv6_String
begin

text \<open>
  The file system proper of project 3 (\<^verbatim>\<open>fs.c\<close>): the block allocator, the inode cache, the block map with
  double and triple indirect blocks, reading and writing of files, directories, path names and symbolic
  links, over the block layer of \<open>Fs_Store\<close>.  One process runs at a time: a sleep lock is a flag, and
  taking one that is held is \<open>Deadlock\<close>.  A pointer to an inode is its index in \<^verbatim>\<open>icache.inode\<close>.
\<close>

section \<open>State\<close>

definition NINODE :: nat where "NINODE = 50"
definition NDEV :: int where "NDEV = 10"
definition ROOTDEV :: nat where "ROOTDEV = 1"
definition ROOTINO :: nat where "ROOTINO = 1"
definition NDIRECT :: nat where "NDIRECT = 10"
definition NINDIRECT :: nat where "NINDIRECT = 128"
definition NDOUBLE :: nat where "NDOUBLE = NINDIRECT * NINDIRECT"
definition NTRIPLE :: nat where "NTRIPLE = NINDIRECT * NINDIRECT * NINDIRECT"
definition MAXFILE :: nat where "MAXFILE = NDIRECT + NINDIRECT + NDOUBLE + NTRIPLE"
definition IPB :: nat where "IPB = 8"
definition BPB :: nat where "BPB = BSIZE * 8"
definition DIRSIZ :: nat where "DIRSIZ = 14"
definition SYMDEPTH :: nat where "SYMDEPTH = 15"
definition T_DIR :: int where "T_DIR = 1"
definition T_FILE :: int where "T_FILE = 2"
definition T_DEV :: int where "T_DEV = 3"
definition T_SYM :: int where "T_SYM = 4"

record inode =
  i_dev :: nat
  i_inum :: nat
  i_ref :: int
  i_lock :: bool
  i_valid :: bool
  i_type :: int
  i_major :: int
  i_minor :: int
  i_nlink :: int
  i_size :: nat
  i_addrs :: "nat list"
  i_D :: nat
  i_T :: nat

record fs = store +
  f_sb :: superblock
  f_ic :: "nat \<Rightarrow> inode"

abbreviation upd_ip :: "nat \<Rightarrow> (inode \<Rightarrow> inode) \<Rightarrow> fs \<Rightarrow> fs" where
  "upd_ip ip f s \<equiv> s\<lparr>f_ic := (f_ic s)(ip := f (f_ic s ip))\<rparr>"

definition IBLOCK :: "nat \<Rightarrow> superblock \<Rightarrow> nat" where
  "IBLOCK i sb = i div IPB + sb_inodestart sb"

definition BBLOCK :: "nat \<Rightarrow> superblock \<Rightarrow> nat" where
  "BBLOCK b sb = b div BPB + sb_bmapstart sb"

section \<open>Blocks\<close>

definition bm_mask :: "nat \<Rightarrow> byte" where
  "bm_mask bi = push_bit (bi mod 8) 1"

definition bm_free :: "block \<Rightarrow> nat \<Rightarrow> bool" where
  "bm_free d bi \<longleftrightarrow> and (d ! (bi div 8)) (bm_mask bi) = 0"

definition bm_set :: "nat \<Rightarrow> block \<Rightarrow> block" where
  "bm_set bi d = d[bi div 8 := or (d ! (bi div 8)) (bm_mask bi)]"

definition bm_clear :: "nat \<Rightarrow> block \<Rightarrow> block" where
  "bm_clear bi d = d[bi div 8 := and (d ! (bi div 8)) (not (bm_mask bi))]"

definition st_bzero :: "nat \<Rightarrow> nat \<Rightarrow> 'a store_scheme \<Rightarrow> 'a store_scheme result" where
  "st_bzero dev bno s = st_bmod dev bno (\<lambda>d. replicate BSIZE 0) s"

text \<open>The loop of \<^verbatim>\<open>balloc\<close> over the bitmap blocks; \<open>bs\<close> are the values of \<^verbatim>\<open>b\<close> still to come.\<close>

fun balloc_loop :: "nat \<Rightarrow> nat list \<Rightarrow> fs \<Rightarrow> (nat \<times> fs) result" where
  "balloc_loop dev [] s = Inl (Panic ''balloc: out of blocks'')"
| "balloc_loop dev (b # bs) s =
     (let bp = BBLOCK b (f_sb s) in
      rbind (st_bread dev bp s) (\<lambda>s.
        case first_index (bm_free (st_blk s bp)) [0..<min BPB (sb_size (f_sb s) - b)] of
          Some bi \<Rightarrow>
            rbind (st_log_write bp (set_blk bp (bm_set bi) s)) (\<lambda>s.
            rbind (st_brelse bp s) (\<lambda>s.
            rbind (st_bzero dev (b + bi) s) (\<lambda>s. Inr (b + bi, s))))
        | None \<Rightarrow> rbind (st_brelse bp s) (balloc_loop dev bs)))"

definition balloc :: "nat \<Rightarrow> fs \<Rightarrow> (nat \<times> fs) result" where
  "balloc dev s = balloc_loop dev (map (\<lambda>k. k * BPB) [0..<(sb_size (f_sb s) + BPB - 1) div BPB]) s"

definition bfree :: "nat \<Rightarrow> nat \<Rightarrow> fs \<Rightarrow> fs result" where
  "bfree dev b s =
     (let bp = BBLOCK b (f_sb s); bi = b mod BPB in
      rbind (st_bread dev bp s) (\<lambda>s.
        if bm_free (st_blk s bp) bi then Inl (Panic ''freeing free block'')
        else rbind (st_log_write bp (set_blk bp (bm_clear bi) s)) (st_brelse bp)))"

section \<open>Inodes\<close>

text \<open>\<^verbatim>\<open>short\<close> values on disk\<close>

definition s16 :: "nat \<Rightarrow> int" where
  "s16 n = (if n < 2 ^ 15 then int n else int n - 2 ^ 16)"

definition u16 :: "int \<Rightarrow> nat" where
  "u16 i = nat (i mod 2 ^ 16)"

text \<open>The offset of a \<^verbatim>\<open>struct dinode\<close> in its block, and its fields.\<close>

definition dip_off :: "nat \<Rightarrow> nat" where
  "dip_off inum = 64 * (inum mod IPB)"

definition iinit :: "nat \<Rightarrow> fs \<Rightarrow> fs result" where
  "iinit dev s =
     (let s = s\<lparr>f_ic := (\<lambda>i. if i < NINODE then (f_ic s i)\<lparr>i_lock := False\<rparr> else f_ic s i)\<rparr> in
      rbind (st_bread dev 1 s) (\<lambda>s. rbind (st_brelse 1 s) (\<lambda>s. Inr (s\<lparr>f_sb := sb_of (st_blk s 1)\<rparr>))))"

definition iget :: "nat \<Rightarrow> nat \<Rightarrow> fs \<Rightarrow> (nat \<times> fs) result" where
  "iget dev inum s =
     (case first_index (\<lambda>i. i_ref (f_ic s i) > 0 \<and> i_dev (f_ic s i) = dev \<and> i_inum (f_ic s i) = inum) [0..<NINODE] of
        Some i \<Rightarrow> Inr (i, upd_ip i (\<lambda>x. x\<lparr>i_ref := i_ref x + 1\<rparr>) s)
      | None \<Rightarrow>
          (case first_index (\<lambda>i. i_ref (f_ic s i) = 0) [0..<NINODE] of
             None \<Rightarrow> Inl (Panic ''iget: no inodes'')
           | Some i \<Rightarrow> Inr (i, upd_ip i (\<lambda>x. x\<lparr>i_dev := dev, i_inum := inum, i_ref := 1, i_valid := False\<rparr>) s)))"

fun ialloc_loop :: "nat \<Rightarrow> int \<Rightarrow> nat list \<Rightarrow> fs \<Rightarrow> (nat \<times> fs) result" where
  "ialloc_loop dev type [] s = Inl (Panic ''ialloc: no inodes'')"
| "ialloc_loop dev type (inum # is) s =
     (let bp = IBLOCK inum (f_sb s) in
      rbind (st_bread dev bp s) (\<lambda>s.
        if get16 (st_blk s bp) (dip_off inum) = 0 then
          rbind (st_log_write bp (set_blk bp (\<lambda>d. put16 (dip_off inum) (u16 type) (blit (dip_off inum) (replicate 64 0) d)) s)) (\<lambda>s.
          rbind (st_brelse bp s) (iget dev inum))
        else rbind (st_brelse bp s) (ialloc_loop dev type is)))"

definition ialloc :: "nat \<Rightarrow> int \<Rightarrow> fs \<Rightarrow> (nat \<times> fs) result" where
  "ialloc dev type s = ialloc_loop dev type [1..<sb_ninodes (f_sb s)] s"

text \<open>The fields that \<^verbatim>\<open>iupdate\<close> writes and \<^verbatim>\<open>ilock\<close> reads.\<close>

definition put_dinode :: "nat \<Rightarrow> inode \<Rightarrow> block \<Rightarrow> block" where
  "put_dinode o' x d =
     put32 (o' + 60) (i_T x) (put32 (o' + 56) (i_D x)
       (fold (\<lambda>k. put32 (o' + 12 + 4 * k) (i_addrs x ! k)) [0..<NDIRECT + 1]
         (put32 (o' + 8) (i_size x) (put16 (o' + 6) (u16 (i_nlink x)) (put16 (o' + 4) (u16 (i_minor x))
           (put16 (o' + 2) (u16 (i_major x)) (put16 o' (u16 (i_type x)) d)))))))"

definition get_dinode :: "nat \<Rightarrow> block \<Rightarrow> inode \<Rightarrow> inode" where
  "get_dinode o' d x =
     x\<lparr>i_type := s16 (get16 d o'), i_major := s16 (get16 d (o' + 2)), i_minor := s16 (get16 d (o' + 4)),
       i_nlink := s16 (get16 d (o' + 6)), i_size := get32 d (o' + 8),
       i_addrs := map (\<lambda>k. get32 d (o' + 12 + 4 * k)) [0..<NDIRECT + 1],
       i_D := get32 d (o' + 56), i_T := get32 d (o' + 60)\<rparr>"

definition iupdate :: "nat \<Rightarrow> fs \<Rightarrow> fs result" where
  "iupdate ip s =
     (let x = f_ic s ip in
      st_bmod (i_dev x) (IBLOCK (i_inum x) (f_sb s)) (put_dinode (dip_off (i_inum x)) x) s)"

definition idup :: "nat \<Rightarrow> fs \<Rightarrow> fs" where
  "idup ip s = upd_ip ip (\<lambda>x. x\<lparr>i_ref := i_ref x + 1\<rparr>) s"

definition ilock :: "nat option \<Rightarrow> fs \<Rightarrow> fs result" where
  "ilock p s =
     (case p of None \<Rightarrow> Inl (Panic ''ilock'')
      | Some ip \<Rightarrow>
          if i_ref (f_ic s ip) < 1 then Inl (Panic ''ilock'')
          else if i_lock (f_ic s ip) then Inl Deadlock
          else
            let s = upd_ip ip (\<lambda>x. x\<lparr>i_lock := True\<rparr>) s; x = f_ic s ip; bp = IBLOCK (i_inum x) (f_sb s) in
            if i_valid x then Inr s
            else
              rbind (st_bread (i_dev x) bp s) (\<lambda>s.
                let s = upd_ip ip (get_dinode (dip_off (i_inum x)) (st_blk s bp)) s in
              rbind (st_brelse bp s) (\<lambda>s.
                let s = upd_ip ip (\<lambda>x. x\<lparr>i_valid := True\<rparr>) s in
                if i_type (f_ic s ip) = 0 then Inl (Panic ''ilock: no type'') else Inr s)))"

definition iunlock :: "nat option \<Rightarrow> fs \<Rightarrow> fs result" where
  "iunlock p s =
     (case p of None \<Rightarrow> Inl (Panic ''iunlock'')
      | Some ip \<Rightarrow>
          if \<not> i_lock (f_ic s ip) \<or> i_ref (f_ic s ip) < 1 then Inl (Panic ''iunlock'')
          else Inr (upd_ip ip (\<lambda>x. x\<lparr>i_lock := False\<rparr>) s))"

section \<open>Inode content\<close>

definition bmapstep :: "nat \<Rightarrow> nat \<Rightarrow> nat \<Rightarrow> fs \<Rightarrow> (nat \<times> fs) result" where
  "bmapstep ip addr idx s =
     (let dev = i_dev (f_ic s ip) in
      rbind (st_bread dev addr s) (\<lambda>s.
        let a = get32 (st_blk s addr) (4 * idx) in
        if a = 0 then
          rbind (balloc dev s) (\<lambda>(a, s).
          rbind (st_log_write addr (set_blk addr (put32 (4 * idx) a) s)) (\<lambda>s.
          rbind (st_brelse addr s) (\<lambda>s. Inr (a, s))))
        else rbind (st_brelse addr s) (\<lambda>s. Inr (a, s))))"

definition bmap :: "nat \<Rightarrow> nat \<Rightarrow> fs \<Rightarrow> (nat \<times> fs) result" where
  "bmap ip bn s =
     (let dev = i_dev (f_ic s ip) in
      if bn < NDIRECT then
        (let addr = i_addrs (f_ic s ip) ! bn in
         if addr = 0 then
           rbind (balloc dev s) (\<lambda>(addr, s). Inr (addr, upd_ip ip (\<lambda>x. x\<lparr>i_addrs := (i_addrs x)[bn := addr]\<rparr>) s))
         else Inr (addr, s))
      else let bn = bn - NDIRECT in
      if bn < NINDIRECT then
        rbind (let addr = i_addrs (f_ic s ip) ! NDIRECT in
               if addr = 0 then
                 rbind (balloc dev s) (\<lambda>(addr, s). Inr (addr, upd_ip ip (\<lambda>x. x\<lparr>i_addrs := (i_addrs x)[NDIRECT := addr]\<rparr>) s))
               else Inr (addr, s)) (\<lambda>(addr, s).
        rbind (st_bread dev addr s) (\<lambda>s.
          let a = get32 (st_blk s addr) (4 * bn) in
          if a = 0 then
            rbind (balloc dev s) (\<lambda>(a, s).
            rbind (st_log_write addr (set_blk addr (put32 (4 * bn) a) s)) (\<lambda>s.
            rbind (st_brelse addr s) (\<lambda>s. Inr (a, s))))
          else rbind (st_brelse addr s) (\<lambda>s. Inr (a, s))))
      else let bn = bn - NINDIRECT in
      if bn < NDOUBLE then
        rbind (let addr = i_D (f_ic s ip) in
               if addr = 0 then rbind (balloc dev s) (\<lambda>(addr, s). Inr (addr, upd_ip ip (\<lambda>x. x\<lparr>i_D := addr\<rparr>) s))
               else Inr (addr, s)) (\<lambda>(addr, s).
        rbind (bmapstep ip addr (bn div NINDIRECT) s) (\<lambda>(addr, s).
        bmapstep ip addr (bn mod NINDIRECT) s))
      else let bn = bn - NDOUBLE in
      if bn < NTRIPLE then
        rbind (let addr = i_T (f_ic s ip) in
               if addr = 0 then rbind (balloc dev s) (\<lambda>(addr, s). Inr (addr, upd_ip ip (\<lambda>x. x\<lparr>i_T := addr\<rparr>) s))
               else Inr (addr, s)) (\<lambda>(addr, s).
        rbind (bmapstep ip addr (bn div (NINDIRECT * NINDIRECT)) s) (\<lambda>(addr, s).
        let bn = bn mod (NINDIRECT * NINDIRECT) in
        rbind (bmapstep ip addr (bn div NINDIRECT) s) (\<lambda>(addr, s).
        bmapstep ip addr (bn mod NINDIRECT) s)))
      else Inl (Panic ''bmap: out of range''))"

text \<open>The loops that free the blocks listed in an indirect block.\<close>

definition free_entries :: "nat \<Rightarrow> nat \<Rightarrow> fs \<Rightarrow> fs result" where
  "free_entries dev addr s = rfold (\<lambda>j s.
     let b = get32 (st_blk s addr) (4 * j) in if b \<noteq> 0 then bfree dev b s else Inr s) [0..<NINDIRECT] s"

definition freeDouble :: "nat \<Rightarrow> nat \<Rightarrow> fs \<Rightarrow> fs result" where
  "freeDouble ip addr s =
     (let dev = i_dev (f_ic s ip) in
      rbind (st_bread dev addr s) (\<lambda>s.
      rbind (rfold (\<lambda>i s.
          let a = get32 (st_blk s addr) (4 * i) in
          if a \<noteq> 0 then
            rbind (st_bread dev a s) (\<lambda>s.
            rbind (free_entries dev a s) (\<lambda>s.
            rbind (bfree dev (get32 (st_blk s addr) (4 * i)) s) (st_brelse a)))
          else Inr s) [0..<NINDIRECT] s) (\<lambda>s.
      rbind (st_brelse addr s) (\<lambda>s. bfree dev (i_D (f_ic s ip)) s))))"

definition itrunc :: "nat \<Rightarrow> fs \<Rightarrow> fs result" where
  "itrunc ip s =
     (let dev = i_dev (f_ic s ip) in
      rbind (rfold (\<lambda>i s.
          let a = i_addrs (f_ic s ip) ! i in
          if a \<noteq> 0 then
            rbind (bfree dev a s) (\<lambda>s. Inr (upd_ip ip (\<lambda>x. x\<lparr>i_addrs := (i_addrs x)[i := 0]\<rparr>) s))
          else Inr s) [0..<NDIRECT] s) (\<lambda>s.
      rbind (let a = i_addrs (f_ic s ip) ! NDIRECT in
             if a \<noteq> 0 then
               rbind (st_bread dev a s) (\<lambda>s.
               rbind (free_entries dev a s) (\<lambda>s.
               rbind (st_brelse a s) (\<lambda>s.
               rbind (bfree dev a s) (\<lambda>s. Inr (upd_ip ip (\<lambda>x. x\<lparr>i_addrs := (i_addrs x)[NDIRECT := 0]\<rparr>) s)))))
             else Inr s) (\<lambda>s.
      rbind (let a = i_D (f_ic s ip) in
             if a \<noteq> 0 then rbind (freeDouble ip a s) (\<lambda>s. Inr (upd_ip ip (\<lambda>x. x\<lparr>i_D := 0\<rparr>) s)) else Inr s) (\<lambda>s.
      rbind (let t = i_T (f_ic s ip) in
             if t \<noteq> 0 then
               rbind (st_bread dev t s) (\<lambda>s.
               rbind (rfold (\<lambda>j s.
                   let a = get32 (st_blk s t) (4 * j) in if a \<noteq> 0 then freeDouble ip a s else Inr s) [0..<NINDIRECT] s) (\<lambda>s.
               rbind (st_brelse t s) (\<lambda>s.
               rbind (bfree dev t s) (\<lambda>s. Inr (upd_ip ip (\<lambda>x. x\<lparr>i_T := 0\<rparr>) s)))))
             else Inr s) (\<lambda>s.
      iupdate ip (upd_ip ip (\<lambda>x. x\<lparr>i_size := 0\<rparr>) s))))))"

definition iput :: "nat \<Rightarrow> fs \<Rightarrow> fs result" where
  "iput ip s =
     (if i_lock (f_ic s ip) then Inl Deadlock
      else
        let s = upd_ip ip (\<lambda>x. x\<lparr>i_lock := True\<rparr>) s in
        rbind (if i_valid (f_ic s ip) \<and> i_nlink (f_ic s ip) = 0 \<and> i_ref (f_ic s ip) = 1 then
                 rbind (itrunc ip s) (\<lambda>s.
                 rbind (iupdate ip (upd_ip ip (\<lambda>x. x\<lparr>i_type := 0\<rparr>) s)) (\<lambda>s.
                 Inr (upd_ip ip (\<lambda>x. x\<lparr>i_valid := False\<rparr>) s)))
               else Inr s) (\<lambda>s.
        Inr (upd_ip ip (\<lambda>x. x\<lparr>i_ref := i_ref x - 1\<rparr>) (upd_ip ip (\<lambda>x. x\<lparr>i_lock := False\<rparr>) s))))"

definition iunlockput :: "nat \<Rightarrow> fs \<Rightarrow> fs result" where
  "iunlockput ip s = rbind (iunlock (Some ip) s) (iput ip)"

record stat =
  s_type :: int
  s_dev :: nat
  s_ino :: nat
  s_nlink :: int
  s_size :: nat

definition stati :: "nat \<Rightarrow> fs \<Rightarrow> stat" where
  "stati ip s = (let x = f_ic s ip in
     \<lparr>s_type = i_type x, s_dev = i_dev x, s_ino = i_inum x, s_nlink = i_nlink x, s_size = i_size x\<rparr>)"

text \<open>
  Device switch: \<^verbatim>\<open>devsw[major].read\<close> and \<^verbatim>\<open>write\<close>, filled in by the device drivers; \<open>None\<close> for a null pointer.
\<close>

type_synonym dev_read = "int \<Rightarrow> (nat \<Rightarrow> nat \<Rightarrow> fs \<Rightarrow> (int \<times> byte list \<times> fs) result) option"
type_synonym dev_write = "int \<Rightarrow> (nat \<Rightarrow> byte list \<Rightarrow> nat \<Rightarrow> fs \<Rightarrow> (int \<times> fs) result) option"

text \<open>
  The copying loops.  Here \<open>n\<close> is what is left (\<^verbatim>\<open>n - tot\<close>); each round copies at least one byte.
\<close>

function readi_loop :: "nat \<Rightarrow> nat \<Rightarrow> nat \<Rightarrow> fs \<Rightarrow> (byte list \<times> fs) result" where
  "readi_loop ip off n s =
     (if n = 0 then Inr ([], s)
      else
        rbind (bmap ip (off div BSIZE) s) (\<lambda>(b, s).
        rbind (st_bread (i_dev (f_ic s ip)) b s) (\<lambda>s.
        let m = min n (BSIZE - off mod BSIZE); d = take m (drop (off mod BSIZE) (st_blk s b)) in
        rbind (st_brelse b s) (\<lambda>s.
        rbind (readi_loop ip (off + m) (n - m) s) (\<lambda>(ds, s). Inr (d @ ds, s))))))"
  by pat_completeness auto
termination by (relation "measure (\<lambda>(ip, off, n, s). n)") (auto simp: BSIZE_def)

declare readi_loop.simps [simp del]

function writei_loop :: "nat \<Rightarrow> byte list \<Rightarrow> nat \<Rightarrow> nat \<Rightarrow> fs \<Rightarrow> fs result" where
  "writei_loop ip src off n s =
     (if n = 0 then Inr s
      else
        rbind (bmap ip (off div BSIZE) s) (\<lambda>(b, s).
        rbind (st_bread (i_dev (f_ic s ip)) b s) (\<lambda>s.
        let m = min n (BSIZE - off mod BSIZE) in
        rbind (st_log_write b (set_blk b (blit (off mod BSIZE) (take m src)) s)) (\<lambda>s.
        rbind (st_brelse b s) (\<lambda>s.
        writei_loop ip (drop m src) (off + m) (n - m) s)))))"
  by pat_completeness auto
termination by (relation "measure (\<lambda>(ip, src, off, n, s). n)") (auto simp: BSIZE_def)

declare writei_loop.simps [simp del]

text \<open>
  \<^verbatim>\<open>readi\<close> and \<^verbatim>\<open>writei\<close> after the symbolic links have been followed; \<open>None\<close> is the jump to \<^verbatim>\<open>bad\<close>.  For a
  device the second component says that the function has returned, without the code after the loop.
\<close>

definition readi_data :: "nat \<Rightarrow> nat \<Rightarrow> nat \<Rightarrow> fs \<Rightarrow> (byte list option \<times> fs) result" where
  "readi_data ip off n s =
     (let sz = i_size (f_ic s ip) in
      if off > sz \<or> (off + n) mod 2 ^ 32 < off then Inr (None, s)
      else rbind (readi_loop ip off (if (off + n) mod 2 ^ 32 > sz then sz - off else n) s)
             (\<lambda>(ds, s). Inr (Some ds, s)))"

definition writei_data :: "nat \<Rightarrow> byte list \<Rightarrow> nat \<Rightarrow> nat \<Rightarrow> fs \<Rightarrow> (int option \<times> fs) result" where
  "writei_data ip src off n s =
     (let sz = i_size (f_ic s ip) in
      if off > sz \<or> (off + n) mod 2 ^ 32 < off then Inr (None, s)
      else if (off + n) mod 2 ^ 32 > MAXFILE * BSIZE then Inr (None, s)
      else rbind (writei_loop ip src off n s) (\<lambda>s.
        let off = off + n in
        if n > 0 \<and> off > i_size (f_ic s ip) then
          rbind (iupdate ip (upd_ip ip (\<lambda>x. x\<lparr>i_size := off\<rparr>) s)) (\<lambda>s. Inr (Some (int n), s))
        else Inr (Some (int n), s)))"

end
