(* ===== verification/Fs_Alloc.thy ===== *)
theory Fs_Alloc
  imports Fs_Inode
begin

text \<open>
  The block allocator: \<open>used s b\<close> is the bit of block \<open>b\<close> in the bitmap, \<open>geo_ok\<close> the layout that \<^verbatim>\<open>mkfs\<close> makes
  and the code relies on.  \<^verbatim>\<open>balloc\<close> takes the least free block, \<^verbatim>\<open>bfree\<close> gives a block back, and both
  change nothing else.
\<close>

section \<open>The bitmap\<close>

lemma bm_free_bit: "bm_free d i \<longleftrightarrow> \<not> bit (d ! (i div 8)) (i mod 8)"
  by (simp add: bm_free_def bm_mask_def bit_iff_and_push_bit_not_eq_0)

lemma bit_mask: "bit (bm_mask i) k \<longleftrightarrow> k = i mod 8"
  by (auto simp: bm_mask_def push_bit_eq_mult bit_exp_iff)

lemma div_mod_8: "(i :: nat) div 8 = j div 8 \<Longrightarrow> i mod 8 = j mod 8 \<Longrightarrow> i = j"
  by (metis div_mult_mod_eq)

lemma length_bm [simp]: "length (bm_set i d) = length d" "length (bm_clear i d) = length d"
  by (simp_all add: bm_set_def bm_clear_def)

lemma bm_set_free: "i div 8 < length d \<Longrightarrow> bm_free (bm_set i d) j \<longleftrightarrow> j \<noteq> i \<and> bm_free d j"
  by (cases "i div 8 = j div 8") (auto simp: bm_free_bit bm_set_def bit_or_iff bit_mask dest: div_mod_8)

lemma bm_clear_free: "i div 8 < length d \<Longrightarrow> bm_free (bm_clear i d) j \<longleftrightarrow> j = i \<or> bm_free d j"
proof -
  have "bit (not (bm_mask i)) (j mod 8) \<longleftrightarrow> j mod 8 \<noteq> i mod 8" by (simp add: bit_not_iff bit_mask)
  then show "i div 8 < length d \<Longrightarrow> bm_free (bm_clear i d) j \<longleftrightarrow> j = i \<or> bm_free d j"
    by (cases "i div 8 = j div 8") (auto simp: bm_free_bit bm_clear_def bit_and_iff dest: div_mod_8)
qed

definition used :: "'a fs_scheme \<Rightarrow> nat \<Rightarrow> bool" where
  "used s b \<longleftrightarrow> \<not> bm_free (st_blk s (BBLOCK b (f_sb s))) (b mod BPB)"

text \<open>The first data block.\<close>

definition dstart :: "superblock \<Rightarrow> nat" where
  "dstart sb = sb_bmapstart sb + sb_size sb div BPB + 1"

definition geo_ok :: "'a fs_scheme \<Rightarrow> bool" where
  "geo_ok s \<longleftrightarrow> sb_size (f_sb s) \<le> st_size s \<and> sb_size (f_sb s) \<le> 2 ^ 32 \<and> dstart (f_sb s) \<le> sb_size (f_sb s)
     \<and> 1 < sb_inodestart (f_sb s) \<and> sb_inodestart (f_sb s) + sb_ninodes (f_sb s) div IPB < sb_bmapstart (f_sb s)
     \<and> (\<forall>b < st_size s. length (st_blk s b) = BSIZE) \<and> (\<forall>b<dstart (f_sb s). used s b)"

lemma BBLOCK_meta: "b < sb_size sb \<Longrightarrow> sb_bmapstart sb \<le> BBLOCK b sb \<and> BBLOCK b sb < dstart sb"
  using div_le_mono [of b "sb_size sb" BPB] by (auto simp: BBLOCK_def dstart_def)

lemma geo_okD:
  assumes "geo_ok s"
  shows "sb_size (f_sb s) \<le> st_size s" "sb_size (f_sb s) \<le> 2 ^ 32" "dstart (f_sb s) \<le> sb_size (f_sb s)"
    "\<And>b. b < st_size s \<Longrightarrow> length (st_blk s b) = BSIZE" "\<And>b. \<not> used s b \<Longrightarrow> dstart (f_sb s) \<le> b"
    "\<And>b. used s b \<or> 0 < b"
proof -
  show "\<And>b. \<not> used s b \<Longrightarrow> dstart (f_sb s) \<le> b" using assms by (meson geo_ok_def not_less)
  show "\<And>b. used s b \<or> 0 < b" using assms by (auto simp: geo_ok_def dstart_def)
qed (use assms in \<open>simp_all add: geo_ok_def\<close>)

lemma BPB_pos [simp]: "0 < BPB" by (simp add: BPB_def BSIZE_def)

lemma BBLOCK_split: "BBLOCK b sb = BBLOCK c sb \<Longrightarrow> b mod BPB = c mod BPB \<Longrightarrow> b = c"
  by (metis BBLOCK_def add_right_cancel div_mult_mod_eq)

lemma bit_in_block: "length d = BSIZE \<Longrightarrow> b mod BPB div 8 < length d"
proof -
  have "b mod BPB < BSIZE * 8" by (simp add: BPB_def BSIZE_def)
  then show "length d = BSIZE \<Longrightarrow> b mod BPB div 8 < length d" by (simp add: less_mult_imp_div_less)
qed

section \<open>Allocation\<close>

text \<open>The state after block \<open>b\<close> has been allocated.\<close>

definition alloc_at :: "nat \<Rightarrow> fs \<Rightarrow> fs" where
  "alloc_at b s = (let bp = BBLOCK b (f_sb s) in
     s\<lparr>st_blk := (st_blk s)(bp := bm_set (b mod BPB) (st_blk s bp), b := replicate BSIZE 0),
       st_logged := insert b (insert bp (st_logged s))\<rparr>)"

lemma alloc_at_same [simp]:
  "st_size (alloc_at b s) = st_size s" "st_held (alloc_at b s) = st_held s" "f_sb (alloc_at b s) = f_sb s"
  "f_ic (alloc_at b s) = f_ic s"
  by (simp_all add: alloc_at_def Let_def)

text \<open>Blocks that the process does not hold where the allocator needs them.\<close>

definition bm_loose :: "'a fs_scheme \<Rightarrow> bool" where
  "bm_loose s \<longleftrightarrow> (\<forall>b\<in>st_held s. used s b \<and> (b < sb_bmapstart (f_sb s) \<or> dstart (f_sb s) \<le> b))"

lemma bm_loose_empty: "st_held s = {} \<Longrightarrow> bm_loose s"
  by (simp add: bm_loose_def)

lemma bm_looseD:
  assumes "bm_loose s" "b < sb_size (f_sb s)"
  shows "BBLOCK b (f_sb s) \<notin> st_held s" "\<not> used s b \<Longrightarrow> b \<notin> st_held s"
  using assms BBLOCK_meta [OF assms(2)] by (fastforce simp: bm_loose_def)+

lemma balloc_found:
  assumes g: "geo_ok s" and l: "bm_loose s" and b: "b < sb_size (f_sb s)" "\<not> used s b"
  shows "rbind (st_log_write (BBLOCK b (f_sb s)) (set_blk (BBLOCK b (f_sb s)) (bm_set (b mod BPB))
      (s\<lparr>st_held := insert (BBLOCK b (f_sb s)) (st_held s)\<rparr>))) (\<lambda>s'.
    rbind (st_brelse (BBLOCK b (f_sb s)) s') (\<lambda>s'. rbind (st_bzero 1 b s') (\<lambda>s'. Inr (b, s')))) = Inr (b, alloc_at b s)"
proof -
  have m: "BBLOCK b (f_sb s) < dstart (f_sb s)" "dstart (f_sb s) \<le> b" using BBLOCK_meta [OF b(1)] geo_okD(5) [OF g b(2)] by auto
  have h: "BBLOCK b (f_sb s) \<notin> st_held s" "b \<notin> st_held s" using bm_looseD [OF l b(1)] b(2) by auto
  have z: "b < st_size s" using geo_okD(1) [OF g] b(1) by simp
  show ?thesis using m h z by (simp add: st_log_write_def st_brelse_def st_bzero_def st_bmod_eq alloc_at_def Let_def)
qed

lemma block_range: "k * BPB + i = b \<Longrightarrow> i < BPB \<Longrightarrow> b div BPB = k \<and> b mod BPB = i"
  by (auto simp: mult.commute)

lemma balloc_loop_ok:
  assumes g: "geo_ok s" and l: "bm_loose s" and K: "K = (sb_size (f_sb s) + BPB - 1) div BPB" and k: "k \<le> K"
  shows "balloc_loop 1 (map (\<lambda>k. k * BPB) [k..<K]) s =
    (case first_index (\<lambda>b. \<not> used s b) [k * BPB..<sb_size (f_sb s)] of
       None \<Rightarrow> Inl (Panic ''balloc: out of blocks'') | Some b \<Rightarrow> Inr (b, alloc_at b s))"
  using k
proof (induction "K - k" arbitrary: k)
  case 0
  then have "k = K" by simp
  have "sb_size (f_sb s) \<le> K * BPB"
    using div_mult_mod_eq [of "sb_size (f_sb s) + BPB - 1" BPB] mod_less_divisor [OF BPB_pos, of "sb_size (f_sb s) + BPB - 1"]
    unfolding K by linarith
  then show ?case using \<open>k = K\<close> by simp
next
  case (Suc n)
  then have kK: "k < K" by simp
  let ?N = "sb_size (f_sb s)" and ?b = "k * BPB"
  let ?M = "min BPB (?N - ?b)"
  have bN: "?b < ?N"
  proof (rule ccontr)
    assume "\<not> ?b < ?N"
    then have "K \<le> (k * BPB + (BPB - 1)) div BPB" unfolding K by (intro div_le_mono) simp
    also have "\<dots> = k" by simp
    finally show False using kK by simp
  qed
  have bp: "BBLOCK ?b (f_sb s) = k + sb_bmapstart (f_sb s)" by (simp add: BBLOCK_def)
  have nh: "BBLOCK ?b (f_sb s) \<notin> st_held s" by (rule bm_looseD(1) [OF l bN])
  have sz: "BBLOCK ?b (f_sb s) < st_size s" using BBLOCK_meta [OF bN] geo_okD(1,3) [OF g] by simp
  have us: "bm_free (st_blk s (BBLOCK ?b (f_sb s))) i \<longleftrightarrow> \<not> used s (?b + i)" if "i < BPB" for i
    using block_range [OF refl that, of k] bp by (simp add: used_def BBLOCK_def)
  have shift: "map (\<lambda>i. ?b + i) [0..<m] = [?b..<?b + m]" for m using map_add_upt [of ?b m] by (simp add: add.commute)
  have up: "[?b..<?N] = map (\<lambda>i. ?b + i) [0..<?M] @ [Suc k * BPB..<?N]"
  proof (cases "?N - ?b \<le> BPB")
    case True
    then have "?N \<le> Suc k * BPB" "?M = ?N - ?b" by auto
    then show ?thesis using bN shift by simp
  next
    case False
    then have "?M = BPB" "?N = (?b + BPB) + (?N - (?b + BPB))" by simp_all
    moreover from this(2) have "[?b..<?N] = [?b..<?b + BPB] @ [?b + BPB..<?N]" by (metis le_add1 upt_add_eq_append)
    ultimately have "?M = BPB" "[?b..<?N] = [?b..<?b + BPB] @ [?b + BPB..<?N]" by simp_all
    then show ?thesis using shift by (simp add: add.commute)
  qed
  have fa: "first_index P (xs @ ys) = (case first_index P xs of None \<Rightarrow> first_index P ys | Some i \<Rightarrow> Some i)" for P xs ys
    by (induction xs) auto
  have fm: "first_index P (map (\<lambda>i. ?b + i) xs) = map_option (\<lambda>i. ?b + i) (first_index (\<lambda>i. P (?b + i)) xs)" for P xs
    by (induction xs) auto
  have fe: "first_index (bm_free (st_blk s (BBLOCK ?b (f_sb s)))) [0..<?M] = first_index (\<lambda>i. \<not> used s (?b + i)) [0..<?M]"
    by (rule first_index_cong) (use us in auto)
  have unf: "map (\<lambda>k. k * BPB) [k..<K] = ?b # map (\<lambda>k. k * BPB) [Suc k..<K]" using kK by (simp add: upt_conv_Cons)
  show ?case
  proof (cases "first_index (\<lambda>i. \<not> used s (?b + i)) [0..<?M]")
    case None
    have "balloc_loop 1 (map (\<lambda>k. k * BPB) [k..<K]) s = balloc_loop 1 (map (\<lambda>k. k * BPB) [Suc k..<K]) s"
      unfolding unf balloc_loop.simps Let_def st_bread_eq [OF nh sz refl] rbind_simps
      by (simp add: fe None nh st_brelse_eq)
    also have "\<dots> = (case first_index (\<lambda>b. \<not> used s b) [Suc k * BPB..<?N] of
       None \<Rightarrow> Inl (Panic ''balloc: out of blocks'') | Some b \<Rightarrow> Inr (b, alloc_at b s))"
      by (rule Suc.hyps(1)) (use Suc.hyps(2) kK in auto)
    finally show ?thesis unfolding up fa fm None by simp
  next
    case (Some i)
    then have i: "i < ?M" "\<not> used s (?b + i)" by (auto dest: first_index_Some)
    have "?b + i < ?N" using i(1) by linarith
    note F = balloc_found [OF g l this i(2)]
    have e: "(?b + i) div BPB = k" "(?b + i) mod BPB = i" "BBLOCK (?b + i) (f_sb s) = BBLOCK ?b (f_sb s)"
      using block_range [OF refl, of i k] i(1) bp by (simp_all add: BBLOCK_def)
    have "balloc_loop 1 (map (\<lambda>k. k * BPB) [k..<K]) s = Inr (?b + i, alloc_at (?b + i) s)"
      unfolding unf balloc_loop.simps Let_def st_bread_eq [OF nh sz refl] rbind_simps
      using F e by (simp add: fe Some)
    then show ?thesis unfolding up fa fm Some by simp
  qed
qed

text \<open>\<^verbatim>\<open>balloc\<close> finds the least free block; without one it panics.\<close>

lemma balloc_eq:
  assumes g: "geo_ok s" and l: "bm_loose s"
  shows "balloc 1 s = (case first_index (\<lambda>b. \<not> used s b) [0..<sb_size (f_sb s)] of
       None \<Rightarrow> Inl (Panic ''balloc: out of blocks'') | Some b \<Rightarrow> Inr (b, alloc_at b s))"
  using balloc_loop_ok [OF g l refl, of 0] by (simp add: balloc_def)

lemma alloc_at_used:
  assumes g: "geo_ok s" and b: "b < sb_size (f_sb s)" "\<not> used s b" and c: "c < sb_size (f_sb s)"
  shows "used (alloc_at b s) c \<longleftrightarrow> c = b \<or> used s c"
proof -
  let ?bp = "BBLOCK b (f_sb s)" and ?cp = "BBLOCK c (f_sb s)"
  have m: "?bp < dstart (f_sb s)" "?cp < dstart (f_sb s)" "dstart (f_sb s) \<le> b"
    using BBLOCK_meta b c geo_okD(5) [OF g b(2)] by auto
  then have ne: "?bp \<noteq> b" "?cp \<noteq> b" by auto
  have len: "length (st_blk s ?bp) = BSIZE" using m geo_okD(1,3,4) [OF g] by simp
  show ?thesis
  proof (cases "?cp = ?bp")
    case True
    have "bm_free (bm_set (b mod BPB) (st_blk s ?bp)) (c mod BPB) \<longleftrightarrow> c mod BPB \<noteq> b mod BPB \<and> bm_free (st_blk s ?bp) (c mod BPB)"
      by (rule bm_set_free [OF bit_in_block [OF len]])
    then show ?thesis using True ne BBLOCK_split [OF True] by (auto simp: used_def alloc_at_def Let_def)
  next
    case False
    then have "c \<noteq> b" by auto
    with False show ?thesis using ne by (auto simp: used_def alloc_at_def Let_def)
  qed
qed

lemma alloc_at_geo:
  assumes g: "geo_ok s" and b: "b < sb_size (f_sb s)" "\<not> used s b"
  shows "geo_ok (alloc_at b s)"
proof -
  have "used (alloc_at b s) c" if "c < dstart (f_sb s)" for c
    using alloc_at_used [OF g b, of c] that g by (auto simp: geo_ok_def)
  moreover have "length (st_blk (alloc_at b s) c) = BSIZE" if "c < st_size s" for c
    using g that by (auto simp: geo_ok_def alloc_at_def Let_def)
  ultimately show ?thesis using g by (simp add: geo_ok_def)
qed

lemma alloc_at_blk:
  assumes "geo_ok s" "b < sb_size (f_sb s)" "\<not> used s b"
  shows "st_blk (alloc_at b s) b = replicate BSIZE 0"
    "c \<noteq> b \<Longrightarrow> c < sb_bmapstart (f_sb s) \<or> dstart (f_sb s) \<le> c \<Longrightarrow> st_blk (alloc_at b s) c = st_blk s c"
  using BBLOCK_meta [OF assms(2)] by (auto simp: alloc_at_def Let_def)

section \<open>Freeing\<close>

definition free_at :: "nat \<Rightarrow> fs \<Rightarrow> fs" where
  "free_at b s = (let bp = BBLOCK b (f_sb s) in
     s\<lparr>st_blk := (st_blk s)(bp := bm_clear (b mod BPB) (st_blk s bp)), st_logged := insert bp (st_logged s)\<rparr>)"

lemma free_at_same [simp]:
  "st_size (free_at b s) = st_size s" "st_held (free_at b s) = st_held s" "f_sb (free_at b s) = f_sb s"
  "f_ic (free_at b s) = f_ic s"
  by (simp_all add: free_at_def Let_def)

lemma bfree_eq:
  assumes g: "geo_ok s" and b: "b < sb_size (f_sb s)" and h: "BBLOCK b (f_sb s) \<notin> st_held s"
  shows "bfree 1 b s = (if used s b then Inr (free_at b s) else Inl (Panic ''freeing free block''))"
proof -
  have z: "BBLOCK b (f_sb s) < st_size s" using BBLOCK_meta [OF b] geo_okD(1,3) [OF g] by simp
  show ?thesis using h z
    by (simp add: bfree_def Let_def st_bread_eq st_brelse_eq st_log_write_def free_at_def used_def st_brelse_def)
qed

lemma free_at_used:
  assumes g: "geo_ok s" and b: "b < sb_size (f_sb s)" and c: "c < sb_size (f_sb s)"
  shows "used (free_at b s) c \<longleftrightarrow> c \<noteq> b \<and> used s c"
proof -
  let ?bp = "BBLOCK b (f_sb s)" and ?cp = "BBLOCK c (f_sb s)"
  have len: "length (st_blk s ?bp) = BSIZE" using BBLOCK_meta [OF b] geo_okD(1,3,4) [OF g] by simp
  show ?thesis
  proof (cases "?cp = ?bp")
    case True
    have "bm_free (bm_clear (b mod BPB) (st_blk s ?bp)) (c mod BPB) \<longleftrightarrow> c mod BPB = b mod BPB \<or> bm_free (st_blk s ?bp) (c mod BPB)"
      by (rule bm_clear_free [OF bit_in_block [OF len]])
    then show ?thesis using True BBLOCK_split [OF True] by (auto simp: used_def free_at_def Let_def)
  next
    case False
    then have "c \<noteq> b" by auto
    with False show ?thesis by (auto simp: used_def free_at_def Let_def)
  qed
qed

lemma free_at_geo:
  assumes g: "geo_ok s" and b: "dstart (f_sb s) \<le> b" "b < sb_size (f_sb s)"
  shows "geo_ok (free_at b s)"
proof -
  have "used (free_at b s) c" if "c < dstart (f_sb s)" for c
    using free_at_used [OF g b(2), of c] that g b by (auto simp: geo_ok_def)
  moreover have "length (st_blk (free_at b s) c) = BSIZE" if "c < st_size s" for c
    using g that by (auto simp: geo_ok_def free_at_def Let_def)
  ultimately show ?thesis using g by (simp add: geo_ok_def)
qed

lemma free_at_blk:
  assumes "b < sb_size (f_sb s)" "c < sb_bmapstart (f_sb s) \<or> dstart (f_sb s) \<le> c"
  shows "st_blk (free_at b s) c = st_blk s c"
  using BBLOCK_meta [OF assms(1)] assms(2) by (auto simp: free_at_def Let_def)

end
