(* ===== verification/Fs_Bmap.thy ===== *)
theory Fs_Bmap
  imports Fs_Alloc
begin

text \<open>
  The block map of an inode as a tree: its 13 roots are the entries of \<^verbatim>\<open>addrs\<close>, \<^verbatim>\<open>D_addr\<close> and \<^verbatim>\<open>T_addr\<close>, a node is named by
  its root and the indices on the way to it, and block \<open>bn\<close> of the file is the leaf \<open>bpos bn\<close>.  The theory shows
  that \<^verbatim>\<open>bmap\<close> returns the leaf, that it adds the missing nodes on the way, and that it leaves the rest
  of the tree, the blocks of other files and the contents of all leaves as they are.
\<close>

section \<open>Positions\<close>

type_synonym tpos = "nat \<times> nat list"

definition root :: "inode \<Rightarrow> nat \<Rightarrow> nat" where
  "root x k = (if k \<le> NDIRECT then i_addrs x ! k else if k = NDIRECT + 1 then i_D x else i_T x)"

definition set_root :: "nat \<Rightarrow> nat \<Rightarrow> inode \<Rightarrow> inode" where
  "set_root k a x = (if k \<le> NDIRECT then x\<lparr>i_addrs := (i_addrs x)[k := a]\<rparr>
     else if k = NDIRECT + 1 then x\<lparr>i_D := a\<rparr> else x\<lparr>i_T := a\<rparr>)"

definition depth :: "nat \<Rightarrow> nat" where
  "depth k = k - (NDIRECT - 1)"

definition tp :: "tpos \<Rightarrow> bool" where
  "tp p \<longleftrightarrow> fst p < NDIRECT + 3 \<and> length (snd p) \<le> depth (fst p) \<and> (\<forall>i\<in>set (snd p). i < NINDIRECT)"

definition leaf :: "tpos \<Rightarrow> bool" where
  "leaf p \<longleftrightarrow> tp p \<and> length (snd p) = depth (fst p)"

fun walk :: "(nat \<Rightarrow> block) \<Rightarrow> nat \<Rightarrow> nat list \<Rightarrow> nat" where
  "walk d a [] = a"
| "walk d a (i # is) = (if a = 0 then 0 else walk d (get32 (d a) (4 * i)) is)"

definition node :: "fs \<Rightarrow> nat \<Rightarrow> tpos \<Rightarrow> nat" where
  "node s ip p = walk (st_blk s) (root (f_ic s ip) (fst p)) (snd p)"

definition bpos :: "nat \<Rightarrow> tpos" where
  "bpos bn = (if bn < NDIRECT then (bn, [])
     else let bn = bn - NDIRECT in
     if bn < NINDIRECT then (NDIRECT, [bn])
     else let bn = bn - NINDIRECT in
     if bn < NDOUBLE then (NDIRECT + 1, [bn div NINDIRECT, bn mod NINDIRECT])
     else let bn = bn - NDOUBLE in
       (NDIRECT + 2, [bn div (NINDIRECT * NINDIRECT), bn mod (NINDIRECT * NINDIRECT) div NINDIRECT,
          bn mod (NINDIRECT * NINDIRECT) mod NINDIRECT]))"

lemmas ndefs = NDIRECT_def NINDIRECT_def NDOUBLE_def NTRIPLE_def MAXFILE_def

lemma walk_zero [simp]: "walk d 0 is = 0"
  by (cases "is") auto

lemma walk_snoc: "walk d a (is @ [i]) = (if walk d a is = 0 then 0 else get32 (d (walk d a is)) (4 * i))"
  by (induction "is" arbitrary: a) auto

lemma walk_append: "walk d a (is @ js) = walk d (walk d a is) js"
  by (induction "is" arbitrary: a) auto

lemma node_prefix: "node s ip (k, js @ is) \<noteq> 0 \<Longrightarrow> node s ip (k, js) \<noteq> 0"
  by (cases "node s ip (k, js) = 0") (simp_all add: node_def walk_append)

lemma node_root: "node s ip (k, []) = root (f_ic s ip) k"
  by (simp add: node_def)

lemma node_snoc:
  "node s ip (k, is @ [i]) = (if node s ip (k, is) = 0 then 0 else get32 (st_blk s (node s ip (k, is))) (4 * i))"
  by (simp add: node_def walk_snoc)

lemma root_set_root:
  "length (i_addrs x) = NDIRECT + 1 \<Longrightarrow> k < NDIRECT + 3 \<Longrightarrow> j < NDIRECT + 3 \<Longrightarrow>
   root (set_root k a x) j = (if j = k then a else root x j)"
  by (auto simp: root_def set_root_def NDIRECT_def nth_list_update)

lemma bpos_leaf: "bn < MAXFILE \<Longrightarrow> leaf (bpos bn)"
  by (auto simp: bpos_def leaf_def tp_def depth_def Let_def ndefs less_mult_imp_div_less)

fun bnum :: "tpos \<Rightarrow> nat" where
  "bnum (k, [i]) = NDIRECT + i"
| "bnum (k, [i, j]) = NDIRECT + NINDIRECT + (i * NINDIRECT + j)"
| "bnum (k, [i, j, l]) = NDIRECT + NINDIRECT + NDOUBLE + (i * (NINDIRECT * NINDIRECT) + (j * NINDIRECT + l))"
| "bnum (k, _) = k"

lemma bnum_bpos: "bnum (bpos bn) = bn"
proof -
  consider "bn < NDIRECT" | "\<not> bn < NDIRECT" "bn - NDIRECT < NINDIRECT"
    | "\<not> bn < NDIRECT" "\<not> bn - NDIRECT < NINDIRECT" "bn - NDIRECT - NINDIRECT < NDOUBLE"
    | "\<not> bn < NDIRECT" "\<not> bn - NDIRECT < NINDIRECT" "\<not> bn - NDIRECT - NINDIRECT < NDOUBLE" by blast
  then show ?thesis by cases (simp_all add: bpos_def Let_def div_mult_mod_eq)
qed

lemma bpos_inj: "bpos bn = bpos bm \<Longrightarrow> bn = bm"
  by (metis bnum_bpos)

section \<open>Well formed block maps\<close>

text \<open>Every node is an allocated data block, and no block is at two positions.\<close>

definition tree_ok :: "fs \<Rightarrow> nat \<Rightarrow> bool" where
  "tree_ok s ip \<longleftrightarrow>
     (\<forall>p. tp p \<and> node s ip p \<noteq> 0 \<longrightarrow> dstart (f_sb s) \<le> node s ip p \<and> node s ip p < sb_size (f_sb s) \<and> used s (node s ip p)) \<and>
     (\<forall>p q. tp p \<and> tp q \<and> node s ip p \<noteq> 0 \<and> node s ip p = node s ip q \<longrightarrow> p = q)"

definition fs_ok :: "fs \<Rightarrow> nat \<Rightarrow> bool" where
  "fs_ok s ip \<longleftrightarrow> geo_ok s \<and> tree_ok s ip \<and> st_held s = {} \<and> i_dev (f_ic s ip) = 1 \<and> length (i_addrs (f_ic s ip)) = NDIRECT + 1"

lemma fs_okD:
  assumes "fs_ok s ip"
  shows "geo_ok s" "st_held s = {}" "i_dev (f_ic s ip) = 1" "length (i_addrs (f_ic s ip)) = NDIRECT + 1" "bm_loose s"
  using assms by (simp_all add: fs_ok_def bm_loose_empty)

lemma node_ok:
  assumes "fs_ok s ip" "tp p" "node s ip p \<noteq> 0"
  shows "dstart (f_sb s) \<le> node s ip p" "node s ip p < sb_size (f_sb s)" "used s (node s ip p)"
    "node s ip p < st_size s"
proof -
  show *: "dstart (f_sb s) \<le> node s ip p" "node s ip p < sb_size (f_sb s)" "used s (node s ip p)"
    using assms unfolding fs_ok_def tree_ok_def by blast+
  then show "node s ip p < st_size s" using geo_okD(1) [OF fs_okD(1) [OF assms(1)]] by simp
qed

lemma node_inj: "fs_ok s ip \<Longrightarrow> tp p \<Longrightarrow> tp q \<Longrightarrow> node s ip p \<noteq> 0 \<Longrightarrow> node s ip p = node s ip q \<Longrightarrow> p = q"
  unfolding fs_ok_def tree_ok_def by blast

definition nfree :: "fs \<Rightarrow> nat" where
  "nfree s = card {b. b < sb_size (f_sb s) \<and> \<not> used s b}"

text \<open>Blocks outside the bitmap.\<close>

definition plain :: "fs \<Rightarrow> nat \<Rightarrow> bool" where
  "plain s c \<longleftrightarrow> c < sb_size (f_sb s) \<and> (c < sb_bmapstart (f_sb s) \<or> dstart (f_sb s) \<le> c)"

text \<open>The inode without its block map, and what never changes.\<close>

definition meta :: "inode \<Rightarrow> inode" where
  "meta x = x\<lparr>i_addrs := [], i_D := 0, i_T := 0\<rparr>"

definition same_meta :: "nat \<Rightarrow> fs \<Rightarrow> fs \<Rightarrow> bool" where
  "same_meta ip s s' \<longleftrightarrow> f_sb s' = f_sb s \<and> st_size s' = st_size s \<and> meta (f_ic s' ip) = meta (f_ic s ip)
     \<and> (\<forall>j. j \<noteq> ip \<longrightarrow> f_ic s' j = f_ic s j)"

lemma meta_fields:
  assumes "meta x = meta y"
  shows "i_dev x = i_dev y" "i_inum x = i_inum y" "i_ref x = i_ref y" "i_lock x = i_lock y" "i_valid x = i_valid y"
    "i_type x = i_type y" "i_major x = i_major y" "i_minor x = i_minor y" "i_nlink x = i_nlink y" "i_size x = i_size y"
  using assms by (cases x; cases y; simp add: meta_def)+

lemma meta_set_root: "meta (set_root k a x) = meta x"
  by (simp add: meta_def set_root_def)

text \<open>
  \<open>evolved n ip s s'\<close>: at most \<open>n\<close> nodes were added to the tree, with blocks that were free; allocated blocks
  outside the tree are as before; and every block that was changed has been logged.  With \<open>grown\<close> the
  contents of the leaves are as before too, and new leaves are zero.
\<close>

definition evolved :: "nat \<Rightarrow> nat \<Rightarrow> fs \<Rightarrow> fs \<Rightarrow> bool" where
  "evolved n ip s s' \<longleftrightarrow> fs_ok s' ip \<and> same_meta ip s s' \<and> nfree s \<le> nfree s' + n
     \<and> (\<forall>p. tp p \<longrightarrow> node s ip p \<noteq> 0 \<longrightarrow> node s' ip p = node s ip p)
     \<and> (\<forall>p. tp p \<longrightarrow> node s ip p = 0 \<longrightarrow> node s' ip p \<noteq> 0 \<longrightarrow> \<not> used s (node s' ip p))
     \<and> (\<forall>c. plain s c \<longrightarrow> used s c \<longrightarrow> (\<forall>p. tp p \<longrightarrow> node s ip p \<noteq> c) \<longrightarrow> st_blk s' c = st_blk s c)
     \<and> (\<forall>c < sb_size (f_sb s). used s c \<longrightarrow> used s' c)
     \<and> st_logged s \<subseteq> st_logged s' \<and> (\<forall>c. st_blk s' c \<noteq> st_blk s c \<longrightarrow> c \<in> st_logged s')"

definition grown :: "nat \<Rightarrow> nat \<Rightarrow> fs \<Rightarrow> fs \<Rightarrow> bool" where
  "grown n ip s s' \<longleftrightarrow> evolved n ip s s'
     \<and> (\<forall>p. leaf p \<longrightarrow> node s' ip p \<noteq> 0 \<longrightarrow>
          st_blk s' (node s' ip p) = (if node s ip p = 0 then replicate BSIZE 0 else st_blk s (node s ip p)))"

lemma evolvedD:
  assumes "evolved n ip s s'"
  shows "fs_ok s' ip" "same_meta ip s s'" "nfree s \<le> nfree s' + n"
    "\<And>p. tp p \<Longrightarrow> node s ip p \<noteq> 0 \<Longrightarrow> node s' ip p = node s ip p"
    "\<And>p. tp p \<Longrightarrow> node s ip p = 0 \<Longrightarrow> node s' ip p \<noteq> 0 \<Longrightarrow> \<not> used s (node s' ip p)"
    "\<And>c. plain s c \<Longrightarrow> used s c \<Longrightarrow> (\<And>p. tp p \<Longrightarrow> node s ip p \<noteq> c) \<Longrightarrow> st_blk s' c = st_blk s c"
    "\<And>c. c < sb_size (f_sb s) \<Longrightarrow> used s c \<Longrightarrow> used s' c"
    "st_logged s \<subseteq> st_logged s'" "\<And>c. st_blk s' c \<noteq> st_blk s c \<Longrightarrow> c \<in> st_logged s'"
  using assms unfolding evolved_def by blast+

lemma grownD:
  assumes "grown n ip s s'"
  shows "evolved n ip s s'" "fs_ok s' ip" "nfree s \<le> nfree s' + n"
    "\<And>p. leaf p \<Longrightarrow> node s' ip p \<noteq> 0 \<Longrightarrow>
       st_blk s' (node s' ip p) = (if node s ip p = 0 then replicate BSIZE 0 else st_blk s (node s ip p))"
  using assms unfolding grown_def evolved_def by blast+

lemma evolved_refl: "fs_ok s ip \<Longrightarrow> evolved 0 ip s s"
  by (simp add: evolved_def same_meta_def)

lemma grown_refl: "fs_ok s ip \<Longrightarrow> grown 0 ip s s"
  by (simp add: grown_def evolved_refl)

lemma leaf_tp: "leaf p \<Longrightarrow> tp p"
  by (simp add: leaf_def)

lemma same_metaD:
  assumes "same_meta ip s s'"
  shows "f_sb s' = f_sb s" "st_size s' = st_size s" "meta (f_ic s' ip) = meta (f_ic s ip)" "\<And>j. j \<noteq> ip \<Longrightarrow> f_ic s' j = f_ic s j"
  using assms by (simp_all add: same_meta_def)

lemma evolved_trans:
  assumes a: "evolved m ip s s1" and b: "evolved n ip s1 s2"
  shows "evolved (m + n) ip s s2"
proof -
  note A = evolvedD [OF a] and B = evolvedD [OF b]
    and SA = same_metaD [OF evolvedD(2) [OF a]] and SB = same_metaD [OF evolvedD(2) [OF b]]
  have plain: "plain s1 c = plain s c" for c using SA(1) by (simp add: plain_def)
  have "node s2 ip p = node s ip p" if "tp p" "node s ip p \<noteq> 0" for p using A(4) [OF that] B(4) [OF that(1)] that by simp
  moreover have "\<not> used s (node s2 ip p)" if p: "tp p" "node s ip p = 0" "node s2 ip p \<noteq> 0" for p
  proof (cases "node s1 ip p = 0")
    case True
    then have "\<not> used s1 (node s2 ip p)" using B(5) p by simp
    moreover have "node s2 ip p < sb_size (f_sb s)" using node_ok(2) [OF B(1) p(1,3)] SA(1) SB(1) by simp
    ultimately show ?thesis using A(7) by blast
  next
    case False
    then show ?thesis using A(5) [OF p(1,2)] B(4) [OF p(1)] by simp
  qed
  moreover have "st_blk s2 c = st_blk s c" if c: "plain s c" "used s c" "\<And>p. tp p \<Longrightarrow> node s ip p \<noteq> c" for c
  proof -
    have cs: "c < sb_size (f_sb s)" using c(1) by (simp add: plain_def)
    have "node s1 ip p \<noteq> c" if "tp p" for p
    proof (cases "node s ip p = 0")
      case True
      then show ?thesis using A(5) [OF that] c(2) c(3) [OF that] by (cases "node s1 ip p = 0") auto
    next
      case False
      then show ?thesis using A(4) [OF that] c(3) [OF that] by simp
    qed
    then have "st_blk s2 c = st_blk s1 c" using B(6) [of c] c(1) A(7) [OF cs c(2)] plain by blast
    then show ?thesis using A(6) [OF c(1,2)] c(3) by simp
  qed
  moreover have "\<forall>c. st_blk s2 c \<noteq> st_blk s c \<longrightarrow> c \<in> st_logged s2" using A(9) B(8,9) by (metis in_mono)
  moreover have "\<forall>c < sb_size (f_sb s). used s c \<longrightarrow> used s2 c" using A(7) B(7) SA(1) by simp
  moreover have "same_meta ip s s2" using SA SB by (simp add: same_meta_def)
  ultimately show ?thesis using A(3,8) B(1,3,8) unfolding evolved_def by fastforce
qed

lemma grown_trans:
  assumes a: "grown m ip s s1" and b: "grown n ip s1 s2"
  shows "grown (m + n) ip s s2"
proof -
  have "st_blk s2 (node s2 ip p) = (if node s ip p = 0 then replicate BSIZE 0 else st_blk s (node s ip p))"
    if p: "leaf p" "node s2 ip p \<noteq> 0" for p
    using grownD(4) [OF a p(1)] grownD(4) [OF b p] evolvedD(4) [OF grownD(1) [OF a] leaf_tp [OF p(1)]]
    by (cases "node s1 ip p = 0") auto
  then show ?thesis using evolved_trans [OF grownD(1) [OF a] grownD(1) [OF b]] by (simp add: grown_def)
qed

lemma evolved_mono: "evolved n ip s s' \<Longrightarrow> n \<le> m \<Longrightarrow> evolved m ip s s'"
  by (auto simp: evolved_def)

lemma grown_mono: "grown n ip s s' \<Longrightarrow> n \<le> m \<Longrightarrow> grown m ip s s'"
  using evolved_mono by (auto simp: grown_def)

section \<open>Adding a node\<close>

lemma tp_snoc: "tp (k, is @ [i]) \<Longrightarrow> tp (k, is) \<and> \<not> leaf (k, is) \<and> i < NINDIRECT"
  by (auto simp: tp_def leaf_def)

lemma get32_zero: "i + 3 < BSIZE \<Longrightarrow> get32 (replicate BSIZE 0) i = 0"
  by (simp add: get32_def get16_def)

lemma idx_in_block: "i < NINDIRECT \<Longrightarrow> 4 * i + 3 < BSIZE"
  by (simp add: NINDIRECT_def BSIZE_def)

text \<open>
  The tree after block \<open>b\<close> has been hung in at \<open>p\<close>: either a root is set or an entry of the parent.
\<close>

lemma node_insert:
  assumes zero: "node s ip p = 0" and b: "b \<noteq> 0" "st_blk s' b = replicate BSIZE 0"
    and roots: "\<And>j. j < NDIRECT + 3 \<Longrightarrow> root (f_ic s' ip) j = (if (j, []) = p then b else root (f_ic s ip) j)"
    and par: "\<And>k is i. (k, is @ [i]) = p \<Longrightarrow> node s ip (k, is) \<noteq> 0"
    and kids: "\<And>k is j. tp (k, is) \<Longrightarrow> node s ip (k, is) \<noteq> 0 \<Longrightarrow> j < NINDIRECT \<Longrightarrow>
      get32 (st_blk s' (node s ip (k, is))) (4 * j) = (if (k, is @ [j]) = p then b else get32 (st_blk s (node s ip (k, is))) (4 * j))"
    and q: "tp (k, is)"
  shows "node s' ip (k, is) = (if (k, is) = p then b else node s ip (k, is))"
  using q
proof (induction "is" rule: rev_induct)
  case Nil
  then show ?case using roots [of k] by (simp add: node_root tp_def)
next
  case (snoc j js)
  note T = tp_snoc [OF snoc.prems]
  have IH: "node s' ip (k, js) = (if (k, js) = p then b else node s ip (k, js))" using snoc.IH T by blast
  show ?case
  proof (cases "(k, js) = p")
    case True
    then have "node s' ip (k, js @ [j]) = 0"
      using IH b get32_zero [OF idx_in_block, of j] T by (simp add: node_snoc)
    moreover have "node s ip (k, js @ [j]) = 0" using True zero by (simp add: node_snoc)
    moreover have "(k, js @ [j]) \<noteq> p" using True by auto
    ultimately show ?thesis by simp
  next
    case False
    then have e: "node s' ip (k, js) = node s ip (k, js)" using IH by simp
    show ?thesis
    proof (cases "node s ip (k, js) = 0")
      case True
      then show ?thesis using e par [of k js j] by (auto simp: node_snoc)
    next
      case False
      then show ?thesis using e kids [of k js j] T by (simp add: node_snoc)
    qed
  qed
qed

lemma nfree_alloc:
  assumes "f_sb s' = f_sb s" "b < sb_size (f_sb s)" "\<not> used s b"
    "\<And>c. c < sb_size (f_sb s) \<Longrightarrow> used s' c \<longleftrightarrow> c = b \<or> used s c"
  shows "nfree s = Suc (nfree s')"
proof -
  have "{c. c < sb_size (f_sb s) \<and> \<not> used s c} = insert b {c. c < sb_size (f_sb s') \<and> \<not> used s' c}"
    using assms by auto
  then show ?thesis using assms(1,2,4) by (simp add: nfree_def)
qed

lemma insert_grown:
  assumes ok: "fs_ok s ip" and b: "b < sb_size (f_sb s)" "\<not> used s b" "st_blk s' b = replicate BSIZE 0"
    and g: "geo_ok s'" "st_held s' = {}" "same_meta ip s s'" "length (i_addrs (f_ic s' ip)) = NDIRECT + 1"
    and us: "\<And>c. c < sb_size (f_sb s) \<Longrightarrow> used s' c \<longleftrightarrow> c = b \<or> used s c"
    and p: "tp p" "node s ip p = 0"
    and nodes: "\<And>q. tp q \<Longrightarrow> node s' ip q = (if q = p then b else node s ip q)"
    and same: "\<And>c. plain s c \<Longrightarrow> c \<noteq> b \<Longrightarrow> (\<And>q. tp q \<Longrightarrow> \<not> leaf q \<Longrightarrow> node s ip q \<noteq> c) \<Longrightarrow> st_blk s' c = st_blk s c"
    and log: "st_logged s \<subseteq> st_logged s'" "\<And>c. st_blk s' c \<noteq> st_blk s c \<Longrightarrow> c \<in> st_logged s'"
  shows "grown 1 ip s s'"
proof -
  note G = fs_okD [OF ok] and M = same_metaD [OF g(3)]
  have bd: "dstart (f_sb s) \<le> b" by (rule geo_okD(5) [OF G(1) b(2)])
  have fresh: "node s ip q \<noteq> b" if "tp q" for q
    using node_ok(3) [OF ok that] b(2) bd by (cases "node s ip q = 0") (auto simp: dstart_def)
  have "tree_ok s' ip"
    unfolding tree_ok_def M(1)
  proof (intro conjI allI impI)
    fix q assume q: "tp q \<and> node s' ip q \<noteq> 0"
    have "dstart (f_sb s) \<le> node s' ip q \<and> node s' ip q < sb_size (f_sb s) \<and> used s' (node s' ip q)"
    proof (cases "q = p")
      case True
      then show ?thesis using nodes [of q] q us [OF b(1)] b(1) bd by simp
    next
      case False
      then have e: "node s' ip q = node s ip q" using nodes q by simp
      then have "tp q" "node s ip q \<noteq> 0" using q by simp_all
      note N = node_ok [OF ok this]
      show ?thesis unfolding e using N us [OF N(2)] by simp
    qed
    then show "dstart (f_sb s) \<le> node s' ip q" "node s' ip q < sb_size (f_sb s)" "used s' (node s' ip q)" by simp_all
  next
    fix q r assume a: "tp q \<and> tp r \<and> node s' ip q \<noteq> 0 \<and> node s' ip q = node s' ip r"
    then have n: "tp q" "tp r" "(if q = p then b else node s ip q) \<noteq> 0"
        "(if q = p then b else node s ip q) = (if r = p then b else node s ip r)" using nodes [of q] nodes [of r] by simp_all
    show "q = r"
    proof (cases "q = p \<or> r = p")
      case True
      then show ?thesis using n(4) fresh [OF n(1)] fresh [OF n(2)] by (auto split: if_splits)
    next
      case False
      then show ?thesis using node_inj [OF ok n(1,2)] n(3,4) by simp
    qed
  qed
  then have ok': "fs_ok s' ip" using g meta_fields(1) [OF M(3)] G(3) by (simp add: fs_ok_def)
  have data: "st_blk s' (node s ip q) = st_blk s (node s ip q)" if q: "leaf q" "node s ip q \<noteq> 0" for q
  proof (rule same)
    note N = node_ok [OF ok leaf_tp [OF q(1)] q(2)]
    show "plain s (node s ip q)" using N by (simp add: plain_def)
    show "node s ip q \<noteq> b" by (rule fresh [OF leaf_tp [OF q(1)]])
    show "node s ip r \<noteq> node s ip q" if "tp r" "\<not> leaf r" for r
      using node_inj [OF ok leaf_tp [OF q(1)] that(1) q(2)] that(2) q(1) by metis
  qed
  have "st_blk s' c = st_blk s c" if "plain s c" "used s c" "\<forall>q. tp q \<longrightarrow> node s ip q \<noteq> c" for c
    by (rule same) (use that b(2) in auto)
  moreover have "st_blk s' (node s' ip q) = (if node s ip q = 0 then replicate BSIZE 0 else st_blk s (node s ip q))"
    if "leaf q" "node s' ip q \<noteq> 0" for q
    using that nodes [OF leaf_tp [OF that(1)]] data [of q] b(3) p(2) by (auto split: if_splits)
  moreover have "nfree s = Suc (nfree s')" by (rule nfree_alloc [OF M(1) b(1,2) us])
  moreover have "node s' ip q = node s ip q" if "tp q" "node s ip q \<noteq> 0" for q using nodes [OF that(1)] that(2) p(2) by auto
  moreover have "\<not> used s (node s' ip q)" if "tp q" "node s ip q = 0" "node s' ip q \<noteq> 0" for q
    using nodes [OF that(1)] that b(2) by (auto split: if_splits)
  ultimately show ?thesis using ok' g(3) us log unfolding grown_def evolved_def by simp
qed

section \<open>The steps of bmap\<close>

lemma balloc_free:
  assumes "geo_ok s" "bm_loose s" "0 < nfree s"
  obtains b where "balloc 1 s = Inr (b, alloc_at b s)" "b < sb_size (f_sb s)" "\<not> used s b"
proof (cases "first_index (\<lambda>b. \<not> used s b) [0..<sb_size (f_sb s)]")
  case None
  then have "{b. b < sb_size (f_sb s) \<and> \<not> used s b} = {}" by auto
  then show ?thesis using assms(3) by (simp only: nfree_def card.empty)
next
  case (Some b)
  then show ?thesis using that [of b] balloc_eq [OF assms(1,2)] by (auto dest: first_index_Some)
qed

text \<open>A root of the tree, allocated when it is missing.\<close>

definition root_get :: "nat \<Rightarrow> nat \<Rightarrow> fs \<Rightarrow> (nat \<times> fs) result" where
  "root_get ip k s = (let addr = root (f_ic s ip) k in
     if addr = 0 then rbind (balloc (i_dev (f_ic s ip)) s) (\<lambda>(addr, s). Inr (addr, upd_ip ip (set_root k addr) s))
     else Inr (addr, s))"

lemma used_upd_ip [simp]: "used (s\<lparr>f_ic := F\<rparr>) = used s"
  by (simp add: used_def fun_eq_iff)

lemma geo_upd_ip [simp]: "geo_ok (s\<lparr>f_ic := F\<rparr>) = geo_ok s"
  by (simp add: geo_ok_def)

lemma root_get_ok:
  assumes ok: "fs_ok s ip" and k: "k < NDIRECT + 3" and fr: "0 < nfree s"
  shows "\<exists>a s'. root_get ip k s = Inr (a, s') \<and> grown 1 ip s s' \<and> a = node s' ip (k, []) \<and> a \<noteq> 0"
proof (cases "root (f_ic s ip) k = 0")
  case False
  then show ?thesis using grown_mono [OF grown_refl [OF ok]] by (simp add: root_get_def node_root)
next
  case True
  note G = fs_okD [OF ok]
  from balloc_free [OF G(1,5) fr] obtain b where b: "balloc 1 s = Inr (b, alloc_at b s)" "b < sb_size (f_sb s)" "\<not> used s b" .
  let ?s = "upd_ip ip (set_root k b) (alloc_at b s)"
  note A = alloc_at_blk [OF G(1) b(2,3)]
  have b0: "b \<noteq> 0" using geo_okD(5) [OF G(1) b(3)] by (simp add: dstart_def)
  have z: "node s ip (k, []) = 0" using True by (simp add: node_root)
  have ne: "node s ip q \<noteq> b" if "tp q" "node s ip q \<noteq> 0" for q using node_ok(3) [OF ok that] b(3) by auto
  have nodes: "node ?s ip q = (if q = (k, []) then b else node s ip q)" if "tp q" for q
  proof (cases q)
    case (Pair j js)
    show ?thesis unfolding Pair
    proof (rule node_insert [OF z b0])
      show "st_blk ?s b = replicate BSIZE 0" using A(1) by simp
      show "root (f_ic ?s ip) j = (if (j, []) = (k, []) then b else root (f_ic s ip) j)" if "j < NDIRECT + 3" for j
        using root_set_root [OF G(4) k that, of b] by simp
      show "get32 (st_blk ?s (node s ip (k', is))) (4 * j) =
          (if (k', is @ [j]) = (k, []) then b else get32 (st_blk s (node s ip (k', is))) (4 * j))"
        if "tp (k', is)" "node s ip (k', is) \<noteq> 0" for k' "is" j
        using A(2) [OF ne [OF that]] node_ok(1) [OF ok that] by simp
    qed (use that Pair in auto)
  qed
  have "grown 1 ip s ?s"
  proof (rule insert_grown [OF ok b(2,3)])
    show "st_blk ?s b = replicate BSIZE 0" using A(1) by simp
    show "geo_ok ?s" using alloc_at_geo [OF G(1) b(2,3)] by simp
    show "used ?s c = (c = b \<or> used s c)" if "c < sb_size (f_sb s)" for c using alloc_at_used [OF G(1) b(2,3) that] by simp
    show "same_meta ip s ?s" by (simp add: same_meta_def meta_set_root)
    show "length (i_addrs (f_ic ?s ip)) = NDIRECT + 1" using G(4) by (simp add: set_root_def)
    show "st_blk ?s c = st_blk s c" if "plain s c" "c \<noteq> b" for c using A(2) [OF that(2)] that(1) by (simp add: plain_def)
    show "c \<in> st_logged ?s" if "st_blk ?s c \<noteq> st_blk s c" for c using that by (auto simp: alloc_at_def Let_def split: if_splits)
    show "st_logged s \<subseteq> st_logged ?s" by (auto simp: alloc_at_def Let_def)
    show "tp (k, [])" using k by (simp add: tp_def)
  qed (use nodes z G(2) in auto)
  moreover have "root_get ip k s = Inr (b, ?s)" using True b(1) G(3) by (simp add: root_get_def)
  moreover have "node ?s ip (k, []) = b" using nodes [of "(k, [])"] k by (simp add: tp_def)
  ultimately show ?thesis using b0 by metis
qed

lemma held_irrelevant [simp]: "geo_ok (s\<lparr>st_held := H\<rparr>) = geo_ok s" "used (s\<lparr>st_held := H\<rparr>) = used s"
    "nfree (s\<lparr>st_held := H\<rparr>) = nfree s" "alloc_at b (s\<lparr>st_held := H\<rparr>) = (alloc_at b s)\<lparr>st_held := H\<rparr>"
  by (simp_all add: geo_ok_def used_def nfree_def fun_eq_iff alloc_at_def Let_def)

text \<open>The state after a node has been hung into its parent.\<close>

definition hang :: "nat \<Rightarrow> nat \<Rightarrow> nat \<Rightarrow> fs \<Rightarrow> fs" where
  "hang addr i b s = (let s = alloc_at b s in
     s\<lparr>st_blk := (st_blk s)(addr := put32 (4 * i) b (st_blk s addr)), st_logged := insert addr (st_logged s)\<rparr>)"

lemma hang_same [simp]:
  "st_size (hang a i b s) = st_size s" "st_held (hang a i b s) = st_held s" "f_sb (hang a i b s) = f_sb s"
  "f_ic (hang a i b s) = f_ic s"
  by (simp_all add: hang_def Let_def)

lemma hang_blk:
  assumes "geo_ok s" "b < sb_size (f_sb s)" "\<not> used s b" "used s a" "dstart (f_sb s) \<le> a"
  shows "st_blk (hang a i b s) b = replicate BSIZE 0" "st_blk (hang a i b s) a = put32 (4 * i) b (st_blk s a)"
    "c \<noteq> b \<Longrightarrow> c \<noteq> a \<Longrightarrow> c < sb_bmapstart (f_sb s) \<or> dstart (f_sb s) \<le> c \<Longrightarrow> st_blk (hang a i b s) c = st_blk s c"
proof -
  have ne: "a \<noteq> b" using assms(3,4) by auto
  then show "st_blk (hang a i b s) b = replicate BSIZE 0" "st_blk (hang a i b s) a = put32 (4 * i) b (st_blk s a)"
    using alloc_at_blk(1) [OF assms(1-3)] alloc_at_blk(2) [OF assms(1-3), of a] assms(5) by (simp_all add: hang_def Let_def)
  show "st_blk (hang a i b s) c = st_blk s c" if "c \<noteq> b" "c \<noteq> a" "c < sb_bmapstart (f_sb s) \<or> dstart (f_sb s) \<le> c"
    using alloc_at_blk(2) [OF assms(1-3) that(1,3)] that(2) by (simp add: hang_def Let_def)
qed

lemma hang_used:
  assumes g: "geo_ok s" and b: "b < sb_size (f_sb s)" "\<not> used s b" and a: "dstart (f_sb s) \<le> a" and c: "c < sb_size (f_sb s)"
  shows "used (hang a i b s) c \<longleftrightarrow> c = b \<or> used s c"
proof -
  have "BBLOCK c (f_sb s) \<noteq> a" using BBLOCK_meta [OF c] a by auto
  then have "used (hang a i b s) c = used (alloc_at b s) c" by (simp add: hang_def Let_def used_def)
  then show ?thesis using alloc_at_used [OF g b c] by simp
qed

lemma hang_geo:
  assumes g: "geo_ok s" and b: "b < sb_size (f_sb s)" "\<not> used s b" and a: "dstart (f_sb s) \<le> a"
  shows "geo_ok (hang a i b s)"
proof -
  have "length (st_blk (hang a i b s) c) = length (st_blk (alloc_at b s) c)" for c by (simp add: hang_def Let_def)
  moreover have "used (hang a i b s) c" if "c < dstart (f_sb s)" for c
    using hang_used [OF g b a, of c] that g by (auto simp: geo_ok_def)
  ultimately show ?thesis using alloc_at_geo [OF g b] by (simp add: geo_ok_def)
qed

lemma bmapstep_ok:
  assumes ok: "fs_ok s ip" and p: "tp (k, is @ [i])" and a: "a = node s ip (k, is)" "a \<noteq> 0" and fr: "0 < nfree s"
  shows "\<exists>c s'. bmapstep ip a i s = Inr (c, s') \<and> grown 1 ip s s' \<and> c = node s' ip (k, is @ [i]) \<and> c \<noteq> 0"
proof -
  note G = fs_okD [OF ok]
  have T: "tp (k, is)" "\<not> leaf (k, is)" "i < NINDIRECT" using tp_snoc [OF p] by auto
  note N = node_ok [OF ok T(1), folded a(1), OF a(2)]
  have held: "a \<notin> st_held s" using G(2) by simp
  let ?s1 = "s\<lparr>st_held := insert a (st_held s)\<rparr>"
  have rd: "st_bread 1 a s = Inr ?s1" by (rule st_bread_eq [OF held N(4) refl])
  have c: "node s ip (k, is @ [i]) = get32 (st_blk s a) (4 * i)" using a by (simp add: node_snoc)
  show ?thesis
  proof (cases "get32 (st_blk s a) (4 * i) = 0")
    case False
    then have "bmapstep ip a i s = Inr (get32 (st_blk s a) (4 * i), s)"
      using rd G(3) held by (simp add: bmapstep_def st_brelse_eq)
    then show ?thesis using False c grown_mono [OF grown_refl [OF ok]] by simp
  next
    case True
    have "bm_loose ?s1" using N G(2) by (simp add: bm_loose_def)
    then obtain b where b: "balloc 1 ?s1 = Inr (b, alloc_at b ?s1)" "b < sb_size (f_sb s)" "\<not> used s b"
      using balloc_free [of ?s1] G(1) fr by auto
    let ?s = "hang a i b s"
    have run: "bmapstep ip a i s = Inr (b, ?s)"
      using rd True b(1) G(2,3) by (simp add: bmapstep_def Let_def st_log_write_def st_brelse_def hang_def)
    have b0: "b \<noteq> 0" using geo_okD(5) [OF G(1) b(3)] by (simp add: dstart_def)
    have b32: "b < 2 ^ 32" using b(2) geo_okD(2) [OF G(1)] by simp
    note A = hang_blk [OF G(1) b(2,3) N(3,1)]
    have z: "node s ip (k, is @ [i]) = 0" using True c by simp
    have ne: "node s ip q \<noteq> b" if "tp q" "node s ip q \<noteq> 0" for q using node_ok(3) [OF ok that] b(3) by auto
    have len: "length (st_blk s a) = BSIZE" by (rule geo_okD(4) [OF G(1) N(4)])
    have nodes: "node ?s ip q = (if q = (k, is @ [i]) then b else node s ip q)" if "tp q" for q
    proof (cases q)
      case (Pair j js)
      show ?thesis unfolding Pair
      proof (rule node_insert [OF z b0 A(1)])
        fix k' js' j' assume t: "tp (k', js')" "node s ip (k', js') \<noteq> 0" "j' < NINDIRECT"
        show "get32 (st_blk ?s (node s ip (k', js'))) (4 * j') =
            (if (k', js' @ [j']) = (k, is @ [i]) then b else get32 (st_blk s (node s ip (k', js'))) (4 * j'))"
        proof (cases "(k', js') = (k, is)")
          case True
          have "get32 (put32 (4 * i) b (st_blk s a)) (4 * j') = (if j' = i then b else get32 (st_blk s a) (4 * j'))"
            using len b32 idx_in_block [OF T(3)] by (cases "j' = i"; cases "j' < i") auto
          then show ?thesis using True a(1) A(2) by simp
        next
          case False
          then have "node s ip (k', js') \<noteq> a" using node_inj [OF ok t(1) T(1) t(2)] a(1) by auto
          then show ?thesis using False A(3) [OF ne [OF t(1,2)]] node_ok(1) [OF ok t(1,2)] by auto
        qed
      qed (use that Pair a in auto)
    qed
    have "grown 1 ip s ?s"
    proof (rule insert_grown [OF ok b(2,3) A(1)])
      show "geo_ok ?s" by (rule hang_geo [OF G(1) b(2,3) N(1)])
      show "used ?s c = (c = b \<or> used s c)" if "c < sb_size (f_sb s)" for c by (rule hang_used [OF G(1) b(2,3) N(1) that])
      show "st_blk ?s c = st_blk s c" if "plain s c" "c \<noteq> b" "\<And>q. tp q \<Longrightarrow> \<not> leaf q \<Longrightarrow> node s ip q \<noteq> c" for c
        using A(3) [OF that(2)] that(1) that(3) [OF T(1,2)] a(1) by (simp add: plain_def)
      show "c \<in> st_logged ?s" if "st_blk ?s c \<noteq> st_blk s c" for c
        using that by (auto simp: hang_def alloc_at_def Let_def split: if_splits)
      show "st_logged s \<subseteq> st_logged ?s" by (auto simp: hang_def alloc_at_def Let_def)
      show "same_meta ip s ?s" by (simp add: same_meta_def)
    qed (use nodes z G p in auto)
    then show ?thesis using run nodes [OF p] b0 by metis
  qed
qed

section \<open>bmap\<close>

text \<open>The reference definition: take the root, then one step per level.\<close>

fun bmap_walk :: "nat \<Rightarrow> nat \<Rightarrow> nat list \<Rightarrow> fs \<Rightarrow> (nat \<times> fs) result" where
  "bmap_walk ip a [] s = Inr (a, s)"
| "bmap_walk ip a (i # is) s = rbind (bmapstep ip a i s) (\<lambda>(a, s). bmap_walk ip a is s)"

lemma bmap_walk_steps:
  "bmap_walk ip a [i] = bmapstep ip a i"
  "bmap_walk ip a [i, j] = (\<lambda>s. rbind (bmapstep ip a i s) (\<lambda>(a, s). bmapstep ip a j s))"
  "bmap_walk ip a [i, j, l] = (\<lambda>s. rbind (bmapstep ip a i s) (\<lambda>(a, s). rbind (bmapstep ip a j s) (\<lambda>(a, s). bmapstep ip a l s)))"
proof -
  have one: "bmap_walk ip a [i] = bmapstep ip a i" for a i
  proof
    fix s show "bmap_walk ip a [i] s = bmapstep ip a i s" by (cases "bmapstep ip a i s") auto
  qed
  have two: "bmap_walk ip a (i # k # is) = (\<lambda>s. rbind (bmapstep ip a i s) (\<lambda>(a, s). bmap_walk ip a (k # is) s))" for a i k "is" by (rule ext) (rule bmap_walk.simps)
  show "bmap_walk ip a [i] = bmapstep ip a i"
    "bmap_walk ip a [i, j] = (\<lambda>s. rbind (bmapstep ip a i s) (\<lambda>(a, s). bmapstep ip a j s))"
    "bmap_walk ip a [i, j, l] = (\<lambda>s. rbind (bmapstep ip a i s) (\<lambda>(a, s). rbind (bmapstep ip a j s) (\<lambda>(a, s). bmapstep ip a l s)))"
    by (simp_all only: one two)
qed

lemma root_get_dev: "root_get ip k s = Inr (a, s') \<Longrightarrow> i_dev (f_ic s' ip) = i_dev (f_ic s ip)"
proof -
  have ic: "balloc_loop dev bs s = Inr (b, s') \<Longrightarrow> f_ic s' = f_ic s" for dev bs s b s'
  proof (induction bs arbitrary: s)
    case (Cons b bs)
    then show ?case
      by (auto simp: Let_def rbind_eq_Inr st_bread_def st_brelse_def st_log_write_def st_bzero_def st_bmod_def split: if_splits option.splits)
  qed simp
  show "root_get ip k s = Inr (a, s') \<Longrightarrow> i_dev (f_ic s' ip) = i_dev (f_ic s ip)"
    by (auto simp: root_get_def Let_def rbind_eq_Inr balloc_def set_root_def dest: ic split: if_splits)
qed

lemma bmap_eq:
  assumes "bn < MAXFILE"
  shows "bmap ip bn s = rbind (root_get ip (fst (bpos bn)) s) (\<lambda>(a, s). bmap_walk ip a (snd (bpos bn)) s)"
proof -
  have id: "rbind r Inr = r" for r :: "(nat \<times> fs) result" by (cases r) auto
  have ind: "rbind (root_get ip NDIRECT s) (\<lambda>(addr, s'). g addr s' (i_dev (f_ic s ip)))
      = rbind (root_get ip NDIRECT s) (\<lambda>(addr, s'). g addr s' (i_dev (f_ic s' ip)))" for g :: "nat \<Rightarrow> fs \<Rightarrow> nat \<Rightarrow> (nat \<times> fs) result"
    using root_get_dev [of ip NDIRECT s] by (cases "root_get ip NDIRECT s") auto
  consider "bn < NDIRECT" | "\<not> bn < NDIRECT" "bn - NDIRECT < NINDIRECT"
    | "\<not> bn < NDIRECT" "\<not> bn - NDIRECT < NINDIRECT" "bn - NDIRECT - NINDIRECT < NDOUBLE"
    | "\<not> bn < NDIRECT" "\<not> bn - NDIRECT < NINDIRECT" "\<not> bn - NDIRECT - NINDIRECT < NDOUBLE" by blast
  then show ?thesis
  proof cases
    case 1
    then show ?thesis by (simp add: bmap_def bpos_def root_get_def root_def set_root_def Let_def id)
  next
    case 2
    then have "bmap ip bn s = rbind (root_get ip NDIRECT s) (\<lambda>(addr, s').
        rbind (st_bread (i_dev (f_ic s ip)) addr s') (\<lambda>s'.
          let a = get32 (st_blk s' addr) (4 * (bn - NDIRECT)) in
          if a = 0 then
            rbind (balloc (i_dev (f_ic s ip)) s') (\<lambda>(a, s').
            rbind (st_log_write addr (set_blk addr (put32 (4 * (bn - NDIRECT)) a) s')) (\<lambda>s'.
            rbind (st_brelse addr s') (\<lambda>s'. Inr (a, s'))))
          else rbind (st_brelse addr s') (\<lambda>s'. Inr (a, s'))))"
      by (simp add: bmap_def root_get_def root_def set_root_def Let_def)
    also have "\<dots> = rbind (root_get ip NDIRECT s) (\<lambda>(addr, s'). bmapstep ip addr (bn - NDIRECT) s')"
      unfolding bmapstep_def Let_def by (rule ind)
    finally show ?thesis using 2 by (simp add: bpos_def Let_def bmap_walk_steps del: bmap_walk.simps)
  next
    case 3
    then show ?thesis by (simp add: bmap_def bpos_def root_get_def root_def set_root_def Let_def id bmap_walk_steps del: bmap_walk.simps)
  next
    case 4
    then have "bn - NDIRECT - NINDIRECT - NDOUBLE < NTRIPLE" using assms by (simp add: MAXFILE_def)
    with 4 show ?thesis by (simp add: bmap_def bpos_def root_get_def root_def set_root_def Let_def id bmap_walk_steps del: bmap_walk.simps)
  qed
qed

lemma bmap_walk_ok:
  assumes "fs_ok s ip" "tp (k, js @ is)" "a = node s ip (k, js)" "a \<noteq> 0" "length is \<le> nfree s"
  shows "\<exists>c s'. bmap_walk ip a is s = Inr (c, s') \<and> grown (length is) ip s s' \<and> c = node s' ip (k, js @ is) \<and> c \<noteq> 0"
  using assms
proof (induction "is" arbitrary: js a s)
  case Nil
  then show ?case using grown_refl by simp
next
  case (Cons i "is")
  have t: "tp (k, js @ [i])" using Cons.prems(2) by (auto simp: tp_def)
  from bmapstep_ok [OF Cons.prems(1) t Cons.prems(3,4)] Cons.prems(5) obtain c s1 where
    s1: "bmapstep ip a i s = Inr (c, s1)" "grown 1 ip s s1" "c = node s1 ip (k, js @ [i])" "c \<noteq> 0" by auto
  have "length is \<le> nfree s1" using grownD(3) [OF s1(2)] Cons.prems(5) by simp
  from Cons.IH [OF grownD(2) [OF s1(2)] _ s1(3,4) this] Cons.prems(2) obtain d s2 where
    s2: "bmap_walk ip c is s1 = Inr (d, s2)" "grown (length is) ip s1 s2" "d = node s2 ip (k, (js @ [i]) @ is)" "d \<noteq> 0" by auto
  then show ?case using s1 grown_trans [OF s1(2) s2(2)] by simp
qed

lemma bmap_ok:
  assumes ok: "fs_ok s ip" and bn: "bn < MAXFILE" and fr: "4 \<le> nfree s"
  shows "\<exists>a s'. bmap ip bn s = Inr (a, s') \<and> grown 4 ip s s' \<and> a = node s' ip (bpos bn) \<and> a \<noteq> 0"
proof -
  obtain k "is" where p: "bpos bn = (k, is)" by (cases "bpos bn")
  then have t: "tp (k, is)" "length is = depth k" using bpos_leaf [OF bn] by (simp_all add: leaf_def)
  then have k: "k < NDIRECT + 3" "length is \<le> 3" by (auto simp: tp_def depth_def NDIRECT_def)
  from root_get_ok [OF ok k(1)] fr obtain c s1 where
    s1: "root_get ip k s = Inr (c, s1)" "grown 1 ip s s1" "c = node s1 ip (k, [])" "c \<noteq> 0" by auto
  have "length is \<le> nfree s1" using grownD(3) [OF s1(2)] fr k(2) by simp
  from bmap_walk_ok [OF grownD(2) [OF s1(2)] _ s1(3,4) this] t obtain a s2 where
    s2: "bmap_walk ip c is s1 = Inr (a, s2)" "grown (length is) ip s1 s2" "a = node s2 ip (k, is)" "a \<noteq> 0" by auto
  have "grown 4 ip s s2" using grown_mono [OF grown_trans [OF s1(2) s2(2)], of 4] k(2) by simp
  then show ?thesis using s1 s2 p bmap_eq [OF bn] by simp
qed

text \<open>A block that is there already is found without any change of the state.\<close>

lemma bmapstep_hit:
  assumes ok: "fs_ok s ip" and p: "tp (k, is @ [i])" and c: "node s ip (k, is @ [i]) \<noteq> 0"
  shows "bmapstep ip (node s ip (k, is)) i s = Inr (node s ip (k, is @ [i]), s)"
proof -
  let ?a = "node s ip (k, is)"
  have a: "?a \<noteq> 0" "node s ip (k, is @ [i]) = get32 (st_blk s ?a) (4 * i)" using c by (auto simp: node_snoc split: if_splits)
  have T: "tp (k, is)" using tp_snoc [OF p] by simp
  have h: "?a \<notin> st_held s" "?a < st_size s" "i_dev (f_ic s ip) = 1" using fs_okD(2,3) [OF ok] node_ok(4) [OF ok T a(1)] by auto
  show ?thesis using a c h by (simp add: bmapstep_def Let_def st_bread_eq st_brelse_eq)
qed

lemma bmap_walk_hit:
  assumes "fs_ok s ip" "tp (k, js @ is)" "node s ip (k, js @ is) \<noteq> 0"
  shows "bmap_walk ip (node s ip (k, js)) is s = Inr (node s ip (k, js @ is), s)"
  using assms
proof (induction "is" arbitrary: js)
  case (Cons i "is")
  have t: "tp (k, js @ [i])" using Cons.prems(2) by (auto simp: tp_def)
  have "node s ip (k, js @ [i]) \<noteq> 0"
    using Cons.prems(3) node_prefix [of s ip k "js @ [i]" "is"] by simp
  then show ?case using bmapstep_hit [OF Cons.prems(1) t] Cons.IH [of "js @ [i]"] Cons.prems by simp
qed simp

lemma bmap_hit:
  assumes ok: "fs_ok s ip" and bn: "bn < MAXFILE" and a: "node s ip (bpos bn) \<noteq> 0"
  shows "bmap ip bn s = Inr (node s ip (bpos bn), s)"
proof -
  obtain k "is" where p: "bpos bn = (k, is)" by (cases "bpos bn")
  then have t: "tp (k, is)" using bpos_leaf [OF bn] by (simp add: leaf_def)
  have r: "root (f_ic s ip) k \<noteq> 0" using a p node_prefix [of s ip k "[]" "is"] by (simp add: node_root)
  then have "root_get ip k s = Inr (node s ip (k, []), s)" by (simp add: root_get_def node_root)
  then show ?thesis using bmap_walk_hit [OF ok, of k "[]" "is"] t a p bmap_eq [OF bn] by simp
qed

end
