(* ===== verification/Fs_File.thy ===== *)
theory Fs_File
  imports Fs_Bmap
begin

text \<open>
  Contents of files.  \<open>fbyte s ip o'\<close> is byte \<open>o'\<close> of the file, read through the block map; \<open>file_ok\<close> says that the
  file has no holes below its size.  \<^verbatim>\<open>readi\<close> returns the bytes and changes nothing, \<^verbatim>\<open>writei\<close> changes
  exactly the bytes it is given; the inode round trip between \<^verbatim>\<open>iupdate\<close> and \<^verbatim>\<open>ilock\<close> is here too.
\<close>

section \<open>Bytes of a file\<close>

definition fblk :: "fs \<Rightarrow> nat \<Rightarrow> nat \<Rightarrow> block" where
  "fblk s ip bn = (if node s ip (bpos bn) = 0 then replicate BSIZE 0 else st_blk s (node s ip (bpos bn)))"

definition fbyte :: "fs \<Rightarrow> nat \<Rightarrow> nat \<Rightarrow> byte" where
  "fbyte s ip o' = fblk s ip (o' div BSIZE) ! (o' mod BSIZE)"

definition full :: "fs \<Rightarrow> nat \<Rightarrow> bool" where
  "full s ip \<longleftrightarrow> (\<forall>o'<i_size (f_ic s ip). node s ip (bpos (o' div BSIZE)) \<noteq> 0)"

definition file_ok :: "fs \<Rightarrow> nat \<Rightarrow> bool" where
  "file_ok s ip \<longleftrightarrow> fs_ok s ip \<and> full s ip \<and> i_inum (f_ic s ip) < sb_ninodes (f_sb s) \<and> i_size (f_ic s ip) \<le> MAXFILE * BSIZE"

lemma BSIZE_pos [simp]: "0 < BSIZE" by (simp add: BSIZE_def)

lemma byte_block: "o' < MAXFILE * BSIZE \<Longrightarrow> o' div BSIZE < MAXFILE"
  by (simp add: less_mult_imp_div_less)

lemma same_block:
  assumes "off mod BSIZE + i < BSIZE"
  shows "(off + i) div BSIZE = off div BSIZE" "(off + i) mod BSIZE = off mod BSIZE + i"
proof -
  have e: "off + i = (off mod BSIZE + i) + off div BSIZE * BSIZE" by simp
  have x: "(x + k * BSIZE) div BSIZE = k" "(x + k * BSIZE) mod BSIZE = x" if "x < BSIZE" for x k using that by simp_all
  show "(off + i) div BSIZE = off div BSIZE" by (rule trans [OF arg_cong [OF e, of "\<lambda>x. x div BSIZE"] x(1) [OF assms]])
  show "(off + i) mod BSIZE = off mod BSIZE + i" by (rule trans [OF arg_cong [OF e, of "\<lambda>x. x mod BSIZE"] x(2) [OF assms]])
qed

lemma length_fblk: "fs_ok s ip \<Longrightarrow> bn < MAXFILE \<Longrightarrow> length (fblk s ip bn) = BSIZE"
proof (cases "node s ip (bpos bn) = 0")
  case False
  assume "fs_ok s ip" "bn < MAXFILE"
  then show ?thesis
    using False node_ok(4) [OF _ leaf_tp [OF bpos_leaf] False] geo_okD(4) [OF fs_okD(1)] by (simp add: fblk_def)
qed (simp add: fblk_def)

lemma grown_fblk:
  assumes "grown n ip s s'" "bn < MAXFILE"
  shows "fblk s' ip bn = fblk s ip bn"
  using grownD(4) [OF assms(1) bpos_leaf [OF assms(2)]] evolvedD(4) [OF grownD(1) [OF assms(1)] leaf_tp [OF bpos_leaf [OF assms(2)]]]
  by (cases "node s' ip (bpos bn) = 0") (auto simp: fblk_def)

section \<open>Reading\<close>

lemma take_fbyte:
  assumes "fs_ok s ip" "off < MAXFILE * BSIZE" "m \<le> BSIZE - off mod BSIZE"
  shows "take m (drop (off mod BSIZE) (fblk s ip (off div BSIZE))) = map (fbyte s ip) [off..<off + m]"
proof (rule nth_equalityI)
  have len: "length (fblk s ip (off div BSIZE)) = BSIZE" by (rule length_fblk [OF assms(1) byte_block [OF assms(2)]])
  then show "length (take m (drop (off mod BSIZE) (fblk s ip (off div BSIZE)))) = length (map (fbyte s ip) [off..<off + m])"
    using assms(3) by simp
  fix i assume "i < length (take m (drop (off mod BSIZE) (fblk s ip (off div BSIZE))))"
  then have i: "i < m" "off mod BSIZE + i < BSIZE" using len assms(3) by auto
  note same_block [OF i(2)]
  then show "take m (drop (off mod BSIZE) (fblk s ip (off div BSIZE))) ! i = map (fbyte s ip) [off..<off + m] ! i"
    using i len by (simp add: fbyte_def)
qed

text \<open>One round of the loops: how far it gets.\<close>

definition chunk :: "nat \<Rightarrow> nat \<Rightarrow> nat" where
  "chunk off n = min n (BSIZE - off mod BSIZE)"

lemma chunk_bounds: "0 < n \<Longrightarrow> 0 < chunk off n" "chunk off n \<le> n" "chunk off n \<le> BSIZE - off mod BSIZE"
  using mod_less_divisor [OF BSIZE_pos, of off] by (auto simp: chunk_def simp del: mod_less_divisor)

lemma readi_loop_ok:
  assumes "fs_ok s ip" "off + n \<le> MAXFILE * BSIZE" "\<And>i. off \<le> i \<Longrightarrow> i < off + n \<Longrightarrow> node s ip (bpos (i div BSIZE)) \<noteq> 0"
  shows "readi_loop ip off n s = Inr (map (fbyte s ip) [off..<off + n], s)"
  using assms(2,3)
proof (induction n arbitrary: off rule: less_induct)
  case (less n)
  show ?case
  proof (cases "n = 0")
    case True
    then show ?thesis by (simp add: readi_loop.simps)
  next
    case False
    let ?m = "chunk off n" and ?b = "node s ip (bpos (off div BSIZE))"
    note C = chunk_bounds(1) [of n off] chunk_bounds(2,3) [of off n]
    have o: "off < MAXFILE * BSIZE" using less.prems(1) False by simp
    have b: "?b \<noteq> 0" using less.prems(2) [of off] False by simp
    note B = bmap_hit [OF assms(1) byte_block [OF o] b]
    have sz: "?b < st_size s" by (rule node_ok(4) [OF assms(1) leaf_tp [OF bpos_leaf [OF byte_block [OF o]]] b])
    note G = fs_okD [OF assms(1)]
    have d: "take ?m (drop (off mod BSIZE) (st_blk s ?b)) = map (fbyte s ip) [off..<off + ?m]"
      using take_fbyte [OF assms(1) o C(3)] b by (simp add: fblk_def)
    have IH: "readi_loop ip (off + ?m) (n - ?m) s = Inr (map (fbyte s ip) [off + ?m..<off + n], s)"
      using less.IH [of "n - ?m" "off + ?m"] less.prems C False by simp
    have "[off..<off + n] = [off..<off + ?m] @ [off + ?m..<off + n]"
      using upt_add_eq_append [of off "off + ?m" "n - ?m"] C(2) by simp
    then show ?thesis
      using False B sz G(2,3) IH d [unfolded chunk_def] unfolding chunk_def
      by (subst readi_loop.simps) (simp add: Let_def st_bread_eq st_brelse_eq)
  qed
qed

lemma maxfile_32: "MAXFILE * BSIZE < 2 ^ 32"
  by (simp add: ndefs BSIZE_def)

lemma readi_data_ok:
  assumes ok: "file_ok s ip" and n: "off \<le> i_size (f_ic s ip)" "off + n < 2 ^ 32"
  shows "readi_data ip off n s = Inr (Some (map (fbyte s ip) [off..<min (off + n) (i_size (f_ic s ip))]), s)"
proof -
  let ?sz = "i_size (f_ic s ip)"
  have F: "fs_ok s ip" "full s ip" "?sz \<le> MAXFILE * BSIZE" using ok by (simp_all add: file_ok_def)
  let ?n = "if off + n > ?sz then ?sz - off else n"
  have e: "off + ?n = min (off + n) ?sz" using n(1) by (auto simp: min_def)
  have "readi_loop ip off ?n s = Inr (map (fbyte s ip) [off..<off + ?n], s)"
    by (rule readi_loop_ok [OF F(1)]) (use e F(2,3) in \<open>auto simp: full_def\<close>)
  then show ?thesis using n unfolding e by (simp add: readi_data_def Let_def)
qed

lemma readi_data_bad: "off > i_size (f_ic s ip) \<Longrightarrow> readi_data ip off n s = Inr (None, s)"
  by (simp add: readi_data_def)

section \<open>Writing\<close>

text \<open>Overwriting the contents of a leaf.\<close>

definition set_leaf :: "nat \<Rightarrow> block \<Rightarrow> fs \<Rightarrow> fs" where
  "set_leaf a d s = s\<lparr>st_blk := (st_blk s)(a := d), st_logged := insert a (st_logged s)\<rparr>"

lemma set_leaf_same [simp]:
  "st_size (set_leaf a d s) = st_size s" "st_held (set_leaf a d s) = st_held s" "f_sb (set_leaf a d s) = f_sb s"
  "f_ic (set_leaf a d s) = f_ic s" "st_blk (set_leaf a d s) = (st_blk s)(a := d)"
  by (simp_all add: set_leaf_def)

lemma set_leaf_ok:
  assumes ok: "fs_ok s ip" and p: "leaf p" and a: "node s ip p = a" "a \<noteq> 0" and d: "length d = BSIZE"
  shows "evolved 0 ip s (set_leaf a d s)" "\<And>q. tp q \<Longrightarrow> node (set_leaf a d s) ip q = node s ip q"
proof -
  let ?s = "set_leaf a d s"
  note G = fs_okD [OF ok] and N = node_ok [OF ok leaf_tp [OF p], unfolded a(1), OF a(2)]
  have nd: "node ?s ip (k, js) = node s ip (k, js)" if "tp (k, js)" for k js
    using that
  proof (induction js rule: rev_induct)
    case (snoc j js)
    note T = tp_snoc [OF snoc.prems]
    have "node s ip (k, js) \<noteq> a"
    proof
      assume "node s ip (k, js) = a"
      then have "p = (k, js)" using node_inj [OF ok leaf_tp [OF p] conjunct1 [OF T]] a by simp
      then show False using p T by simp
    qed
    then show ?case using snoc.IH T by (simp add: node_snoc)
  qed (simp add: node_root)
  then show nodes: "\<And>q. tp q \<Longrightarrow> node ?s ip q = node s ip q" by (metis surj_pair)
  have us: "used ?s c = used s c" if "c < sb_size (f_sb s)" for c
    using BBLOCK_meta [OF that] N(1) by (auto simp: used_def)
  have "geo_ok ?s" using G(1) us geo_okD(3) [OF G(1)] d by (auto simp: geo_ok_def)
  moreover have "tree_ok ?s ip"
    unfolding tree_ok_def
  proof (intro conjI allI impI)
    fix q assume q: "tp q \<and> node ?s ip q \<noteq> 0"
    then have e: "tp q" "node s ip q \<noteq> 0" "node ?s ip q = node s ip q" using nodes [of q] by simp_all
    show "dstart (f_sb ?s) \<le> node ?s ip q" "node ?s ip q < sb_size (f_sb ?s)" "used ?s (node ?s ip q)"
      unfolding e(3) using node_ok [OF ok e(1,2)] us by simp_all
  next
    fix q r assume q: "tp q \<and> tp r \<and> node ?s ip q \<noteq> 0 \<and> node ?s ip q = node ?s ip r"
    then have "tp q" "tp r" "node s ip q \<noteq> 0" "node s ip q = node s ip r" using nodes [of q] nodes [of r] by simp_all
    then show "q = r" by (rule node_inj [OF ok])
  qed
  ultimately have ok': "fs_ok ?s ip" using G by (simp add: fs_ok_def)
  have "nfree ?s = nfree s" unfolding nfree_def set_leaf_same by (rule arg_cong [where f = card]) (use us in auto)
  moreover have "st_blk ?s c = st_blk s c" if "\<forall>p. tp p \<longrightarrow> node s ip p \<noteq> c" for c
  proof -
    have "c \<noteq> a" using that a(1) leaf_tp [OF p] by blast
    then show ?thesis by simp
  qed
  moreover have "c \<in> st_logged ?s" if "st_blk ?s c \<noteq> st_blk s c" for c using that by (auto simp: set_leaf_def split: if_splits)
  moreover have "st_logged s \<subseteq> st_logged ?s" by (auto simp: set_leaf_def)
  moreover have "same_meta ip s ?s" by (simp add: same_meta_def)
  ultimately show "evolved 0 ip s ?s"
    using ok' nodes us unfolding evolved_def by simp
qed

lemma set_leaf_fblk:
  assumes ok: "fs_ok s ip" and b: "bn < MAXFILE" "a = node s ip (bpos bn)" "a \<noteq> 0" and d: "length d = BSIZE" and c: "c < MAXFILE"
  shows "fblk (set_leaf a d s) ip c = (if c = bn then d else fblk s ip c)"
proof -
  note L = set_leaf_ok(2) [OF ok bpos_leaf [OF b(1)] b(2) [symmetric] b(3) d, OF leaf_tp [OF bpos_leaf [OF c]]]
  have "node s ip (bpos c) = a \<Longrightarrow> c = bn"
    using node_inj [OF ok leaf_tp [OF bpos_leaf [OF b(1)]] leaf_tp [OF bpos_leaf [OF c]]] b bpos_inj by metis
  then show ?thesis using L b by (auto simp: fblk_def)
qed

text \<open>The effect of writing on the bytes of a file.\<close>

definition patched :: "nat \<Rightarrow> byte list \<Rightarrow> (nat \<Rightarrow> byte) \<Rightarrow> nat \<Rightarrow> byte" where
  "patched off src f i = (if off \<le> i \<and> i < off + length src then src ! (i - off) else f i)"

lemma patched_append: "patched (off + length xs) ys (patched off xs f) = patched off (xs @ ys) f"
  by (auto simp: patched_def fun_eq_iff nth_append)

lemma patched_cong: "f i = g i \<Longrightarrow> patched off src f i = patched off src g i"
  by (simp add: patched_def)

text \<open>The number of rounds of the loop, each of which may add four nodes.\<close>

definition rounds :: "nat \<Rightarrow> nat \<Rightarrow> nat" where
  "rounds off n = (if n = 0 then 0 else (off mod BSIZE + n + BSIZE - 1) div BSIZE)"

lemma rounds_step: "0 < n \<Longrightarrow> rounds off n = Suc (rounds (off + chunk off n) (n - chunk off n))"
proof (cases "n \<le> BSIZE - off mod BSIZE")
  case True
  assume n: "0 < n"
  have "off mod BSIZE + n + BSIZE - 1 = (off mod BSIZE + n - 1) + 1 * BSIZE" using n by simp
  moreover have "off mod BSIZE + n - 1 < BSIZE" using True n mod_less_divisor [OF BSIZE_pos, of off] by linarith
  ultimately have "(off mod BSIZE + n + BSIZE - 1) div BSIZE = 1" by (simp only: div_mult_self1 BSIZE_pos div_less add_0_right)
  then show ?thesis using True n by (simp add: rounds_def chunk_def)
next
  case False
  let ?r = "BSIZE - off mod BSIZE"
  have r: "chunk off n = ?r" "0 < n - ?r" "off mod BSIZE + ?r = BSIZE"
    using False mod_less_divisor [OF BSIZE_pos, of off] by (auto simp: chunk_def simp del: mod_less_divisor)
  have "(off + ?r) mod BSIZE = (off mod BSIZE + ?r) mod BSIZE" by (rule mod_add_left_eq [symmetric])
  then have m: "(off + ?r) mod BSIZE = 0" using r(3) by simp
  have "off mod BSIZE + n + BSIZE - 1 = (n - ?r + BSIZE - 1) + BSIZE" using r(2,3) by linarith
  then have "(off mod BSIZE + n + BSIZE - 1) div BSIZE = (n - ?r + BSIZE - 1) div BSIZE + 1" by (simp add: div_add_self2)
  moreover have "n \<noteq> 0" using r(2) by linarith
  ultimately show ?thesis using r(2) unfolding rounds_def r(1) m by simp
qed

lemma blit_patched:
  assumes "fs_ok s ip" "off < MAXFILE * BSIZE" "length src \<le> BSIZE - off mod BSIZE" "i < MAXFILE * BSIZE"
    "\<And>c. c < MAXFILE \<Longrightarrow> fblk s' ip c = (if c = off div BSIZE then blit (off mod BSIZE) src (fblk s ip c) else fblk s ip c)"
  shows "fbyte s' ip i = patched off src (fbyte s ip) i"
proof (cases "i div BSIZE = off div BSIZE")
  case False
  have "\<not> (off \<le> i \<and> i < off + length src)"
  proof
    assume a: "off \<le> i \<and> i < off + length src"
    then have "off mod BSIZE + (i - off) < BSIZE" using assms(3) by linarith
    from same_block(1) [OF this] a False show False by simp
  qed
  then show ?thesis using False assms(5) [OF byte_block [OF assms(4)]] by (auto simp: fbyte_def patched_def)
next
  case True
  have len: "length (fblk s ip (off div BSIZE)) = BSIZE" by (rule length_fblk [OF assms(1) byte_block [OF assms(2)]])
  have e: "off = off div BSIZE * BSIZE + off mod BSIZE" "i = off div BSIZE * BSIZE + i mod BSIZE" using True div_mult_mod_eq by metis+
  have "fbyte s' ip i = blit (off mod BSIZE) src (fblk s ip (off div BSIZE)) ! (i mod BSIZE)"
    using True assms(5) [OF byte_block [OF assms(4)]] by (simp add: fbyte_def)
  also have "\<dots> = (if off mod BSIZE \<le> i mod BSIZE \<and> i mod BSIZE < off mod BSIZE + length src
      then src ! (i mod BSIZE - off mod BSIZE) else fblk s ip (off div BSIZE) ! (i mod BSIZE))"
    by (rule nth_blit) (use len assms(3) mod_less_divisor [OF BSIZE_pos, of off] mod_less_divisor [OF BSIZE_pos, of i] in \<open>simp_all del: mod_less_divisor\<close>)
  also have "\<dots> = patched off src (fbyte s ip) i"
  proof -
    have "off \<le> i \<longleftrightarrow> off mod BSIZE \<le> i mod BSIZE" "i < off + length src \<longleftrightarrow> i mod BSIZE < off mod BSIZE + length src"
      "i - off = i mod BSIZE - off mod BSIZE" using e by linarith+
    then show ?thesis using True by (simp add: patched_def fbyte_def)
  qed
  finally show ?thesis .
qed

lemma evolved_bounds: "evolved n ip s s' \<Longrightarrow> i_dev (f_ic s' ip) = 1"
  using fs_okD(3) evolvedD(1) by blast

lemma writei_loop_ok:
  assumes "fs_ok s ip" "off + n \<le> MAXFILE * BSIZE" "n = length src" "4 * rounds off n \<le> nfree s"
  shows "\<exists>s'. writei_loop ip src off n s = Inr s' \<and> evolved (4 * rounds off n) ip s s'
    \<and> (\<forall>i < MAXFILE * BSIZE. fbyte s' ip i = patched off src (fbyte s ip) i)
    \<and> (\<forall>i. off \<le> i \<longrightarrow> i < off + n \<longrightarrow> node s' ip (bpos (i div BSIZE)) \<noteq> 0)"
  using assms
proof (induction n arbitrary: off src s rule: less_induct)
  case (less n)
  show ?case
  proof (cases "n = 0")
    case True
    then show ?thesis using less.prems evolved_refl by (auto simp: writei_loop.simps patched_def rounds_def)
  next
    case False
    let ?m = "chunk off n" and ?bn = "off div BSIZE"
    have C: "0 < ?m" "?m \<le> n" "?m \<le> BSIZE - off mod BSIZE" using chunk_bounds [of n off] chunk_bounds(2,3) [of off n] False by simp_all
    have o: "off < MAXFILE * BSIZE" "off + ?m \<le> MAXFILE * BSIZE" using less.prems(2) False C(2) by simp_all
    note bn = byte_block [OF o(1)]
    have R: "rounds off n = Suc (rounds (off + ?m) (n - ?m))" using rounds_step False by simp
    have fr: "4 \<le> nfree s" using R less.prems(4) by simp
    from bmap_ok [OF less.prems(1) bn fr] obtain b s1 where
      b: "bmap ip ?bn s = Inr (b, s1)" "grown 4 ip s s1" "b = node s1 ip (bpos ?bn)" "b \<noteq> 0" by blast
    note ok1 = grownD(2) [OF b(2)]
    note G = fs_okD [OF ok1]
    have sz: "b < st_size s1" using node_ok(4) [OF ok1 leaf_tp [OF bpos_leaf [OF bn]]] b by simp
    let ?src = "take ?m src"
    have lsrc: "length ?src = ?m" using less.prems(3) C(2) by simp
    let ?d = "blit (off mod BSIZE) ?src (st_blk s1 b)"
    let ?s2 = "set_leaf b ?d s1"
    have off: "off mod BSIZE + ?m \<le> BSIZE" using C(3) mod_less_divisor [OF BSIZE_pos, of off] by linarith
    have len: "length ?d = BSIZE" using lsrc off geo_okD(4) [OF G(1) sz] by simp
    note L = set_leaf_ok [OF ok1 bpos_leaf [OF bn] b(3) [symmetric] b(4) len]
    have E2: "evolved 4 ip s ?s2" using evolved_trans [OF grownD(1) [OF b(2)] L(1)] by simp
    note ok2 = evolvedD(1) [OF E2]
    have F2: "fblk ?s2 ip c = (if c = ?bn then blit (off mod BSIZE) ?src (fblk s ip c) else fblk s ip c)" if "c < MAXFILE" for c
      using set_leaf_fblk [OF ok1 bn b(3,4) len that] grown_fblk [OF b(2) that] b(3,4) by (auto simp: fblk_def)
    have P2: "fbyte ?s2 ip i = patched off ?src (fbyte s ip) i" if "i < MAXFILE * BSIZE" for i
      by (rule blit_patched [OF less.prems(1) o(1) _ that F2]) (use lsrc C(3) in auto)
    have run: "writei_loop ip src off n s = writei_loop ip (drop ?m src) (off + ?m) (n - ?m) ?s2"
      using False b(1) sz G(2,3) unfolding chunk_def
      by (subst writei_loop.simps) (simp add: Let_def st_bread_eq st_brelse_eq st_log_write_def st_brelse_def set_leaf_def)
    have "\<exists>s'. writei_loop ip (drop ?m src) (off + ?m) (n - ?m) ?s2 = Inr s'
        \<and> evolved (4 * rounds (off + ?m) (n - ?m)) ip ?s2 s'
        \<and> (\<forall>i < MAXFILE * BSIZE. fbyte s' ip i = patched (off + ?m) (drop ?m src) (fbyte ?s2 ip) i)
        \<and> (\<forall>i. off + ?m \<le> i \<longrightarrow> i < off + ?m + (n - ?m) \<longrightarrow> node s' ip (bpos (i div BSIZE)) \<noteq> 0)"
      by (rule less.IH [OF _ ok2]) (use less.prems C R evolvedD(3) [OF E2] False in auto)
    then obtain s' where s': "writei_loop ip (drop ?m src) (off + ?m) (n - ?m) ?s2 = Inr s'"
        "evolved (4 * rounds (off + ?m) (n - ?m)) ip ?s2 s'"
        "\<And>i. i < MAXFILE * BSIZE \<Longrightarrow> fbyte s' ip i = patched (off + ?m) (drop ?m src) (fbyte ?s2 ip) i"
        "\<And>i. off + ?m \<le> i \<Longrightarrow> i < off + n \<Longrightarrow> node s' ip (bpos (i div BSIZE)) \<noteq> 0" using C(2) by auto
    have "fbyte s' ip i = patched off src (fbyte s ip) i" if i: "i < MAXFILE * BSIZE" for i
    proof -
      have "patched (off + ?m) (drop ?m src) (patched off ?src (fbyte s ip)) = patched off src (fbyte s ip)"
        using patched_append [of off ?src "drop ?m src" "fbyte s ip"] lsrc by simp
      then show ?thesis
        using s'(3) [OF i] patched_cong [of "fbyte ?s2 ip" i "patched off ?src (fbyte s ip)", OF P2 [OF i]] by simp
    qed
    moreover have "node s' ip (bpos (i div BSIZE)) \<noteq> 0" if "off \<le> i" "i < off + n" for i
    proof (cases "i < off + ?m")
      case True
      have "i div BSIZE = ?bn" using same_block(1) [of off "i - off"] off True that(1) by simp
      moreover have "node ?s2 ip (bpos ?bn) \<noteq> 0" using L(2) [OF leaf_tp [OF bpos_leaf [OF bn]]] b(3,4) by simp
      ultimately show ?thesis using evolvedD(4) [OF s'(2) leaf_tp [OF bpos_leaf [OF bn]]] by simp
    next
      case False
      then show ?thesis using s'(4) that by simp
    qed
    moreover have "evolved (4 * rounds off n) ip s s'" using evolved_trans [OF E2 s'(2)] R by simp
    ultimately show ?thesis using run s'(1) by auto
  qed
qed

section \<open>Inodes on disk\<close>

definition inode_range :: "inode \<Rightarrow> bool" where
  "inode_range x \<longleftrightarrow> (\<forall>i\<in>{i_type x, i_major x, i_minor x, i_nlink x}. - (2 ^ 15) \<le> i \<and> i < 2 ^ 15)
     \<and> length (i_addrs x) = NDIRECT + 1 \<and> (\<forall>a\<in>set (i_addrs x). a < 2 ^ 32) \<and> i_size x < 2 ^ 32 \<and> i_D x < 2 ^ 32 \<and> i_T x < 2 ^ 32"

lemma s16_u16: "- (2 ^ 15) \<le> i \<Longrightarrow> i < 2 ^ 15 \<Longrightarrow> s16 (u16 i) = i"
proof (cases "0 \<le> i")
  case True
  assume "i < 2 ^ 15"
  then show ?thesis using True by (simp add: s16_def u16_def)
next
  case False
  assume "- (2 ^ 15) \<le> i"
  then have "i mod 65536 = i + 65536" using False by (intro int_mod_pos_eq [of _ _ "- 1"]) auto
  then show ?thesis using False \<open>- (2 ^ 15) \<le> i\<close> by (simp add: s16_def u16_def)
qed

lemma u16_bound: "u16 i < 65536"
  by (simp add: u16_def nat_less_iff)

lemma length_put_dinode [simp]: "length (put_dinode o' x d) = length d"
  by (simp add: put_dinode_def NDIRECT_def upt_rec)

lemma dinode_round_trip:
  assumes "inode_range x" "o' + 64 \<le> length d"
  shows "get_dinode o' (put_dinode o' x d) y =
    y\<lparr>i_type := i_type x, i_major := i_major x, i_minor := i_minor x, i_nlink := i_nlink x, i_size := i_size x,
      i_addrs := i_addrs x, i_D := i_D x, i_T := i_T x\<rparr>"
proof -
  have r: "i_size x < 4294967296" "i_D x < 4294967296" "i_T x < 4294967296" "\<And>k. k < 11 \<Longrightarrow> i_addrs x ! k < 4294967296"
    using assms(1) nth_mem [of _ "i_addrs x"] by (auto simp: inode_range_def NDIRECT_def)
  have ten: "[0..<NDIRECT + 1] = [0, 1, 2, 3, 4, 5, 6, 7, 8, 9, 10]" by (simp add: NDIRECT_def upt_rec)
  have a: "map (\<lambda>k. i_addrs x ! k) [0, 1, 2, 3, 4, 5, 6, 7, 8, 9, 10] = i_addrs x"
    using assms(1) map_nth [of "i_addrs x"] unfolding inode_range_def ten [symmetric] by simp
  show ?thesis
    unfolding get_dinode_def put_dinode_def ten
    using assms r a u16_bound s16_u16
    by (simp add: inode_range_def)
qed

lemma iupdate_eq:
  assumes "st_held s = {}" "i_dev (f_ic s ip) = 1" "IBLOCK (i_inum (f_ic s ip)) (f_sb s) < st_size s"
  shows "iupdate ip s = (let b = IBLOCK (i_inum (f_ic s ip)) (f_sb s) in
    Inr (s\<lparr>st_blk := (st_blk s)(b := put_dinode (dip_off (i_inum (f_ic s ip))) (f_ic s ip) (st_blk s b)),
      st_logged := insert b (st_logged s)\<rparr>))"
  using assms by (simp add: iupdate_def Let_def st_bmod_eq)

lemma IBLOCK_meta:
  assumes "geo_ok s" "i < sb_ninodes (f_sb s)"
  shows "IBLOCK i (f_sb s) < sb_bmapstart (f_sb s)" "IBLOCK i (f_sb s) < st_size s"
proof -
  have "i div IPB \<le> sb_ninodes (f_sb s) div IPB" using assms(2) by (simp add: div_le_mono)
  then show "IBLOCK i (f_sb s) < sb_bmapstart (f_sb s)" using assms(1) by (simp add: geo_ok_def IBLOCK_def)
  then show "IBLOCK i (f_sb s) < st_size s" using assms(1) by (auto simp: geo_ok_def dstart_def)
qed

text \<open>Changing a block in front of the bitmap, and fields of the inode that are not part of the block map.\<close>

lemma meta_block_ok:
  fixes L :: "nat set"
  assumes ok: "fs_ok s ip" and b: "b < sb_bmapstart (f_sb s)" "length d = BSIZE"
    and x: "i_dev x = 1" "i_addrs x = i_addrs (f_ic s ip)" "i_D x = i_D (f_ic s ip)" "i_T x = i_T (f_ic s ip)"
  defines "s' \<equiv> s\<lparr>st_blk := (st_blk s)(b := d), st_logged := L, f_ic := (f_ic s)(ip := x)\<rparr>"
  shows "fs_ok s' ip" "\<And>q. tp q \<Longrightarrow> node s' ip q = node s ip q" "\<And>c. c < sb_size (f_sb s) \<Longrightarrow> used s' c = used s c"
proof -
  note G = fs_okD [OF ok]
  have nd: "node s' ip (k, js) = node s ip (k, js)" if "tp (k, js)" for k js
    using that
  proof (induction js rule: rev_induct)
    case Nil
    then show ?case using x by (simp add: node_root root_def s'_def)
  next
    case (snoc j js)
    have T: "tp (k, js)" using tp_snoc [OF snoc.prems] by simp
    have "node s ip (k, js) \<noteq> b" if "node s ip (k, js) \<noteq> 0" using node_ok(1) [OF ok T that] b(1) by (simp add: dstart_def)
    then show ?case using snoc.IH [OF T] by (simp add: node_snoc s'_def)
  qed
  then show nodes: "\<And>q. tp q \<Longrightarrow> node s' ip q = node s ip q" by (metis surj_pair)
  show us: "used s' c = used s c" if "c < sb_size (f_sb s)" for c
    using BBLOCK_meta [OF that] b(1) by (auto simp: used_def s'_def)
  have "geo_ok s'" using G(1) us geo_okD(3) [OF G(1)] b(2) by (auto simp: geo_ok_def s'_def)
  moreover have "tree_ok s' ip"
    unfolding tree_ok_def
  proof (intro conjI allI impI)
    fix q assume q: "tp q \<and> node s' ip q \<noteq> 0"
    then have e: "tp q" "node s ip q \<noteq> 0" "node s' ip q = node s ip q" using nodes [of q] by simp_all
    show "dstart (f_sb s') \<le> node s' ip q" "node s' ip q < sb_size (f_sb s')" "used s' (node s' ip q)"
      unfolding e(3) using node_ok [OF ok e(1,2)] us by (simp_all add: s'_def)
  next
    fix q r assume q: "tp q \<and> tp r \<and> node s' ip q \<noteq> 0 \<and> node s' ip q = node s' ip r"
    then have "tp q" "tp r" "node s ip q \<noteq> 0" "node s ip q = node s ip r" using nodes [of q] nodes [of r] by simp_all
    then show "q = r" by (rule node_inj [OF ok])
  qed
  ultimately show "fs_ok s' ip" using G x by (simp add: fs_ok_def s'_def)
qed

text \<open>What a write leaves alone: the rest of the inode cache and the blocks of other files.\<close>

definition others_same :: "nat \<Rightarrow> fs \<Rightarrow> fs \<Rightarrow> bool" where
  "others_same ip s s' \<longleftrightarrow> (\<forall>j. j \<noteq> ip \<longrightarrow> f_ic s' j = f_ic s j) \<and> f_sb s' = f_sb s \<and>
     (\<forall>c. plain s c \<longrightarrow> used s c \<longrightarrow> c \<noteq> IBLOCK (i_inum (f_ic s ip)) (f_sb s) \<longrightarrow> (\<forall>p. tp p \<longrightarrow> node s ip p \<noteq> c) \<longrightarrow>
        st_blk s' c = st_blk s c \<and> used s' c) \<and>
     (\<forall>c. st_blk s' c \<noteq> st_blk s c \<longrightarrow> c \<in> st_logged s')"

lemma evolved_others: "evolved n ip s s' \<Longrightarrow> others_same ip s s'"
proof -
  assume e: "evolved n ip s s'"
  note M = same_metaD [OF evolvedD(2) [OF e]]
  have "st_blk s' c = st_blk s c \<and> used s' c" if "plain s c" "used s c" "\<forall>p. tp p \<longrightarrow> node s ip p \<noteq> c" for c
    using evolvedD(6) [OF e that(1,2)] evolvedD(7) [OF e _ that(2)] that by (simp add: plain_def)
  then show ?thesis using M(1,4) evolvedD(9) [OF e] unfolding others_same_def by blast
qed

lemma meta_size: "meta (x\<lparr>i_size := z\<rparr>) = (meta x)\<lparr>i_size := z\<rparr>"
  by (simp add: meta_def)

lemma writei_data_ok:
  assumes ok: "file_ok s ip" and o: "off \<le> i_size (f_ic s ip)" "off + n \<le> MAXFILE * BSIZE" and n: "n = length src"
    and fr: "4 * rounds off n \<le> nfree s"
  shows "\<exists>s'. writei_data ip src off n s = Inr (Some (int n), s') \<and> file_ok s' ip
    \<and> i_size (f_ic s' ip) = max (i_size (f_ic s ip)) (off + n)
    \<and> (\<forall>i < MAXFILE * BSIZE. fbyte s' ip i = patched off src (fbyte s ip) i) \<and> others_same ip s s'
    \<and> meta (f_ic s' ip) = (meta (f_ic s ip))\<lparr>i_size := max (i_size (f_ic s ip)) (off + n)\<rparr>
    \<and> nfree s \<le> nfree s' + 4 * rounds off n"
proof -
  let ?sz = "i_size (f_ic s ip)"
  have F: "fs_ok s ip" "full s ip" "i_inum (f_ic s ip) < sb_ninodes (f_sb s)" "?sz \<le> MAXFILE * BSIZE" using ok by (simp_all add: file_ok_def)
  from writei_loop_ok [OF F(1) o(2) n fr] obtain s1 where
    s1: "writei_loop ip src off n s = Inr s1" "evolved (4 * rounds off n) ip s s1"
      "\<And>i. i < MAXFILE * BSIZE \<Longrightarrow> fbyte s1 ip i = patched off src (fbyte s ip) i"
      "\<And>i. off \<le> i \<Longrightarrow> i < off + n \<Longrightarrow> node s1 ip (bpos (i div BSIZE)) \<noteq> 0" by blast
  note M = same_metaD [OF evolvedD(2) [OF s1(2)]]
  note mf = meta_fields [OF M(3)] and ok1 = evolvedD(1) [OF s1(2)]
  note G1 = fs_okD [OF ok1]
  have small: "off + n < 2 ^ 32" "off + n < 4294967296" using o(2) maxfile_32 by simp_all
  have old: "node s1 ip (bpos (i div BSIZE)) \<noteq> 0" if "i < ?sz" for i
  proof -
    have b: "i div BSIZE < MAXFILE" using that F(4) byte_block by simp
    have "node s ip (bpos (i div BSIZE)) \<noteq> 0" using F(2) that by (simp add: full_def)
    then show ?thesis using evolvedD(4) [OF s1(2) leaf_tp [OF bpos_leaf [OF b]]] by simp
  qed
  have there: "node s1 ip (bpos (i div BSIZE)) \<noteq> 0" if "i < max ?sz (off + n)" for i
    using that old s1(4) o(1) by (cases "i < ?sz") auto
  show ?thesis
  proof (cases "n > 0 \<and> off + n > ?sz")
    case False
    then have "max ?sz (off + n) = ?sz" using o(1) by auto
    moreover have "writei_data ip src off n s = Inr (Some (int n), s1)"
      using False o small s1(1) mf(10) by (auto simp: writei_data_def Let_def)
    moreover have "full s1 ip" using old mf(10) by (simp add: full_def)
    moreover have "meta (f_ic s ip) = (meta (f_ic s ip))\<lparr>i_size := ?sz\<rparr>" by (simp add: meta_def)
    ultimately show ?thesis
      using s1(3) mf(2,10) M(1,3) F(3,4) ok1 evolved_others [OF s1(2)] evolvedD(3) [OF s1(2)] by (auto simp: file_ok_def)
  next
    case True
    let ?x = "(f_ic s1 ip)\<lparr>i_size := off + n\<rparr>"
    let ?b = "IBLOCK (i_inum (f_ic s ip)) (f_sb s)"
    let ?d = "put_dinode (dip_off (i_inum ?x)) ?x (st_blk s1 ?b)"
    let ?s = "s1\<lparr>st_blk := (st_blk s1)(?b := ?d), st_logged := insert ?b (st_logged s1), f_ic := (f_ic s1)(ip := ?x)\<rparr>"
    have B: "?b < sb_bmapstart (f_sb s1)" "?b < st_size s1" using IBLOCK_meta [OF G1(1), of "i_inum (f_ic s ip)"] F(3) M(1) by simp_all
    have len: "length ?d = BSIZE" using geo_okD(4) [OF G1(1) B(2)] by simp
    note K = meta_block_ok [OF ok1 B(1) len, where x = ?x and L = "insert ?b (st_logged s1)"]
    have K: "fs_ok ?s ip" "\<And>q. tp q \<Longrightarrow> node ?s ip q = node s1 ip q" "\<And>c. c < sb_size (f_sb s) \<Longrightarrow> used ?s c = used s1 c"
      using K G1(3) M(1) by simp_all
    have run: "writei_data ip src off n s = Inr (Some (int n), ?s)"
      using True o small s1(1) mf(2,10) G1(2,3) B(2) M(1) by (simp add: writei_data_def Let_def iupdate_eq)
    have bb: "fblk ?s ip c = fblk s1 ip c" if "c < MAXFILE" for c
    proof -
      have "node s1 ip (bpos c) \<noteq> ?b" if "node s1 ip (bpos c) \<noteq> 0"
        using node_ok(1) [OF ok1 leaf_tp [OF bpos_leaf [OF \<open>c < MAXFILE\<close>]] that] B(1) by (simp add: dstart_def)
      then show ?thesis using K(2) [OF leaf_tp [OF bpos_leaf [OF that]]] by (auto simp: fblk_def)
    qed
    have "fbyte ?s ip i = patched off src (fbyte s ip) i" if "i < MAXFILE * BSIZE" for i
      using s1(3) [OF that] bb [OF byte_block [OF that]] by (simp add: fbyte_def)
    moreover have "full ?s ip"
    proof -
      have "node ?s ip (bpos (i div BSIZE)) \<noteq> 0" if "i < off + n" for i
      proof -
        have "i div BSIZE < MAXFILE" using that o(2) byte_block by simp
        then show ?thesis using K(2) [OF leaf_tp [OF bpos_leaf]] there [of i] that by simp
      qed
      then show ?thesis by (simp add: full_def)
    qed
    moreover have "others_same ip s ?s"
      using evolved_others [OF s1(2)] K(3) by (auto simp: others_same_def plain_def)
    moreover have "meta ?x = (meta (f_ic s ip))\<lparr>i_size := off + n\<rparr>" using M(3) meta_size by metis
    moreover have "nfree ?s = nfree s1" using K(3) M(1) unfolding nfree_def by (intro arg_cong [where f = card]) auto
    ultimately show ?thesis using run True K(1) F(3) mf(2) M(1) o(2) evolvedD(3) [OF s1(2)] by (auto simp: file_ok_def)
  qed
qed

end
