(* ===== verification/Fs_Path.thy ===== *)
theory Fs_Path
  imports Fs_Inode
begin

text \<open>
  Directories, path names and symbolic links of \<^verbatim>\<open>fs.c\<close>, and \<^verbatim>\<open>readi\<close> and \<^verbatim>\<open>writei\<close>, which follow symbolic links.
  \<^verbatim>\<open>readi\<close> calls \<^verbatim>\<open>namei\<close>, which calls \<^verbatim>\<open>readi\<close> again, but only on directories, where it is \<open>readi_data\<close>; the
  operations on directories are therefore written with \<open>readi_data\<close> and \<open>writei_data\<close>.  Strings are lists of bytes
  without the terminating zero; \<open>cwd\<close> is \<^verbatim>\<open>myproc()->cwd\<close>.
\<close>

section \<open>Directories\<close>

text \<open>Two names side by side in memory, as the arguments of \<^verbatim>\<open>strncmp\<close>.\<close>

definition name_byte :: "byte list \<Rightarrow> nat \<Rightarrow> byte" where
  "name_byte s i = (if i < length s then s ! i else 0)"

definition two_names :: "byte list \<Rightarrow> byte list \<Rightarrow> mem" where
  "two_names s t = (\<lambda>i. if i < DIRSIZ then name_byte s i else name_byte t (i - DIRSIZ))"

definition namecmp :: "byte list \<Rightarrow> byte list \<Rightarrow> int" where
  "namecmp s t = strncmp 0 DIRSIZ DIRSIZ (two_names s t)"

text \<open>The offsets of the entries of a directory, and \<^verbatim>\<open>struct dirent\<close>.\<close>

definition dir_offs :: "nat \<Rightarrow> nat list" where
  "dir_offs sz = map (\<lambda>k. k * 16) [0..<(sz + 15) div 16]"

definition dirent :: "nat \<Rightarrow> byte list \<Rightarrow> byte list" where
  "dirent inum name = [byte_of inum, byte_of (inum div 256)] @ map (\<lambda>i. strncpy 0 DIRSIZ DIRSIZ (two_names [] name) i) [0..<DIRSIZ]"

definition read_dirent :: "string \<Rightarrow> nat \<Rightarrow> nat \<Rightarrow> fs \<Rightarrow> (byte list \<times> fs) result" where
  "read_dirent msg dp off s =
     rbind (readi_data dp off 16 s) (\<lambda>(r, s).
       case r of None \<Rightarrow> Inl (Panic msg) | Some de \<Rightarrow> if length de \<noteq> 16 then Inl (Panic msg) else Inr (de, s))"

fun dirlookup_loop :: "nat \<Rightarrow> byte list \<Rightarrow> nat list \<Rightarrow> fs \<Rightarrow> ((nat \<times> nat) option \<times> fs) result" where
  "dirlookup_loop dp name [] s = Inr (None, s)"
| "dirlookup_loop dp name (off # offs) s =
     rbind (read_dirent ''dirlookup read'' dp off s) (\<lambda>(de, s).
       if get16 de 0 = 0 then dirlookup_loop dp name offs s
       else if namecmp name (drop 2 de) = 0 then
         rbind (iget (i_dev (f_ic s dp)) (get16 de 0) s) (\<lambda>(ip, s). Inr (Some (ip, off), s))
       else dirlookup_loop dp name offs s)"

text \<open>The inode and the offset \<^verbatim>\<open>*poff\<close> of the entry.\<close>

definition dirlookup :: "nat \<Rightarrow> byte list \<Rightarrow> fs \<Rightarrow> ((nat \<times> nat) option \<times> fs) result" where
  "dirlookup dp name s =
     (if i_type (f_ic s dp) \<noteq> T_DIR then Inl (Panic ''dirlookup not DIR'')
      else dirlookup_loop dp name (dir_offs (i_size (f_ic s dp))) s)"

text \<open>The search for an empty entry; \<open>lst\<close> is the value of \<^verbatim>\<open>off\<close> when there is none.\<close>

fun empty_dirent :: "nat \<Rightarrow> nat \<Rightarrow> nat list \<Rightarrow> fs \<Rightarrow> (nat \<times> fs) result" where
  "empty_dirent dp lst [] s = Inr (lst, s)"
| "empty_dirent dp lst (off # offs) s =
     rbind (read_dirent ''dirlink read'' dp off s) (\<lambda>(de, s).
       if get16 de 0 = 0 then Inr (off, s) else empty_dirent dp lst offs s)"

definition dirlink :: "nat \<Rightarrow> byte list \<Rightarrow> nat \<Rightarrow> fs \<Rightarrow> (int \<times> fs) result" where
  "dirlink dp name inum s =
     rbind (dirlookup dp name s) (\<lambda>(r, s).
       case r of
         Some (ip, off) \<Rightarrow> rbind (iput ip s) (\<lambda>s. Inr (- 1, s))
       | None \<Rightarrow>
           let sz = i_size (f_ic s dp) in
           rbind (empty_dirent dp (16 * ((sz + 15) div 16)) (dir_offs sz) s) (\<lambda>(off, s).
           rbind (writei_data dp (dirent inum name) off 16 s) (\<lambda>(r, s).
             if r \<noteq> Some 16 then Inl (Panic ''dirlink'') else Inr (0, s))))"

section \<open>Paths\<close>

abbreviation SLASH :: byte where "SLASH \<equiv> 47"

definition skipelem :: "byte list \<Rightarrow> (byte list \<times> byte list) option" where
  "skipelem path =
     (let s = dropWhile (\<lambda>c. c = SLASH) path in
      if s = [] then None
      else
        let name = takeWhile (\<lambda>c. c \<noteq> SLASH) s; path = dropWhile (\<lambda>c. c \<noteq> SLASH) s in
        Some (dropWhile (\<lambda>c. c = SLASH) path, take DIRSIZ name))"

lemma length_dropWhile_less: "xs \<noteq> [] \<Longrightarrow> P (hd xs) \<Longrightarrow> length (dropWhile P xs) < length xs"
  by (cases xs) (auto intro: le_imp_less_Suc length_dropWhile_le)

lemma skipelem_shorter: "skipelem path = Some (rest, name) \<Longrightarrow> length rest < length path"
proof -
  assume a: "skipelem path = Some (rest, name)"
  let ?s = "dropWhile (\<lambda>c. c = SLASH) path"
  have s: "?s \<noteq> []" "rest = dropWhile (\<lambda>c. c = SLASH) (dropWhile (\<lambda>c. c \<noteq> SLASH) ?s)"
    using a by (auto simp: skipelem_def Let_def split: if_splits)
  have "hd ?s \<noteq> SLASH" using s(1) hd_dropWhile by blast
  then have "length (dropWhile (\<lambda>c. c \<noteq> SLASH) ?s) < length ?s" using length_dropWhile_less [OF s(1), of "\<lambda>c. c \<noteq> SLASH"] by blast
  then show ?thesis
    unfolding s(2) using length_dropWhile_le [of "\<lambda>c. c = SLASH" path]
      length_dropWhile_le [of "\<lambda>c. c = SLASH" "dropWhile (\<lambda>c. c \<noteq> SLASH) ?s"] by linarith
qed

text \<open>The loop of \<^verbatim>\<open>namex\<close>; it returns the inode and the last name taken from the path.\<close>

function namex_loop :: "bool \<Rightarrow> nat \<Rightarrow> byte list \<Rightarrow> byte list \<Rightarrow> fs \<Rightarrow> ((nat \<times> byte list) option \<times> fs) result" where
  "namex_loop nameiparent ip path nm s =
     (case skipelem path of
        None \<Rightarrow>
          if nameiparent then rbind (iput ip s) (\<lambda>s. Inr (None, s)) else Inr (Some (ip, nm), s)
      | Some (path', name) \<Rightarrow>
          rbind (ilock (Some ip) s) (\<lambda>s.
            if i_type (f_ic s ip) \<noteq> T_DIR then rbind (iunlockput ip s) (\<lambda>s. Inr (None, s))
            else if nameiparent \<and> path' = [] then rbind (iunlock (Some ip) s) (\<lambda>s. Inr (Some (ip, name), s))
            else
              rbind (dirlookup ip name s) (\<lambda>(r, s).
                case r of
                  None \<Rightarrow> rbind (iunlockput ip s) (\<lambda>s. Inr (None, s))
                | Some (nxt, off) \<Rightarrow> rbind (iunlockput ip s) (\<lambda>s. namex_loop nameiparent nxt path' name s))))"
  by pat_completeness auto
termination by (relation "measure (\<lambda>(np, ip, path, nm, s). length path)") (auto dest: skipelem_shorter)

declare namex_loop.simps [simp del]

definition namex :: "nat \<Rightarrow> byte list \<Rightarrow> bool \<Rightarrow> fs \<Rightarrow> ((nat \<times> byte list) option \<times> fs) result" where
  "namex cwd path nameiparent s =
     rbind (if path \<noteq> [] \<and> hd path = SLASH then iget ROOTDEV ROOTINO s else Inr (cwd, idup cwd s)) (\<lambda>(ip, s).
       namex_loop nameiparent ip path [] s)"

definition namei :: "nat \<Rightarrow> byte list \<Rightarrow> fs \<Rightarrow> (nat option \<times> fs) result" where
  "namei cwd path s = rbind (namex cwd path False s) (\<lambda>(r, s). Inr (map_option fst r, s))"

definition nameiparent :: "nat \<Rightarrow> byte list \<Rightarrow> fs \<Rightarrow> ((nat \<times> byte list) option \<times> fs) result" where
  "nameiparent cwd path s = namex cwd path True s"

section \<open>Symbolic links\<close>

text \<open>
  The path of a symbolic link is kept in the bytes of the inode from \<^verbatim>\<open>addrs\<close> on: 11 direct addresses, \<^verbatim>\<open>D_addr\<close>
  and \<^verbatim>\<open>T_addr\<close>.  A path without a zero byte there would be read past the end of the inode.
\<close>

definition bytes32 :: "nat \<Rightarrow> byte list" where
  "bytes32 n = [byte_of n, byte_of (n div 256), byte_of (n div 65536), byte_of (n div 16777216)]"

definition sym_path :: "inode \<Rightarrow> byte list result" where
  "sym_path x =
     (let bs = concat (map bytes32 (i_addrs x @ [i_D x, i_T x])) in
      if 0 \<in> set bs then Inr (takeWhile (\<lambda>c. c \<noteq> 0) bs) else Inl OutOfBounds)"

datatype followed =
    Target nat              \<comment> \<open>a locked inode that is not a symbolic link\<close>
  | Bad "nat option"        \<comment> \<open>the jump to \<^verbatim>\<open>bad\<close>, with the value of \<^verbatim>\<open>ip\<close>\<close>

text \<open>The loop over symbolic links; \<open>k\<close> is \<open>SYMDEPTH + 1\<close> less \<^verbatim>\<open>depth\<close>.\<close>

fun follow :: "nat \<Rightarrow> nat \<Rightarrow> nat \<Rightarrow> fs \<Rightarrow> (followed \<times> fs) result" where
  "follow cwd k ip s =
     (if i_type (f_ic s ip) \<noteq> T_SYM then Inr (Target ip, s)
      else case k of
        0 \<Rightarrow> Inr (Bad (Some ip), s)
      | Suc k \<Rightarrow>
          rbind (sym_path (f_ic s ip)) (\<lambda>path.
          rbind (iunlock (Some ip) s) (\<lambda>s.
          rbind (namei cwd path s) (\<lambda>(r, s).
            case r of
              None \<Rightarrow> Inr (Bad None, s)
            | Some ip \<Rightarrow> rbind (ilock (Some ip) s) (follow cwd k ip)))))"

declare follow.simps [simp del]

text \<open>The end of \<^verbatim>\<open>readi\<close> and \<^verbatim>\<open>writei\<close>: the lock of the original symbolic link is taken again.\<close>

definition relock :: "nat option \<Rightarrow> nat option \<Rightarrow> fs \<Rightarrow> fs result" where
  "relock original ip s =
     (case original of None \<Rightarrow> Inr s
      | Some o' \<Rightarrow> rbind (case ip of None \<Rightarrow> Inr s | Some ip \<Rightarrow> iunlock (Some ip) s) (ilock (Some o')))"

definition readi :: "dev_read \<Rightarrow> nat \<Rightarrow> nat \<Rightarrow> nat \<Rightarrow> nat \<Rightarrow> fs \<Rightarrow> ((int \<times> byte list) \<times> fs) result" where
  "readi devsw cwd ip off n s =
     (let original = (if i_type (f_ic s ip) = T_SYM then Some ip else None);
          bad = (\<lambda>p s. rbind (relock original p s) (\<lambda>s. Inr ((- 1, []), s))) in
      rbind (follow cwd (SYMDEPTH + 1) ip s) (\<lambda>(t, s).
        case t of
          Bad p \<Rightarrow> bad p s
        | Target ip \<Rightarrow>
            let x = f_ic s ip in
            if i_type x = T_DEV then
              (if i_major x < 0 \<or> i_major x \<ge> NDEV then bad (Some ip) s
               else case devsw (i_major x) of
                 None \<Rightarrow> bad (Some ip) s
               | Some rd \<Rightarrow> rbind (rd ip n s) (\<lambda>(r, ds, s). Inr ((r, ds), s)))
            else
              rbind (readi_data ip off n s) (\<lambda>(r, s).
                case r of
                  None \<Rightarrow> bad (Some ip) s
                | Some ds \<Rightarrow> rbind (relock original (Some ip) s) (\<lambda>s. Inr ((int (length ds), ds), s)))))"

definition writei :: "dev_write \<Rightarrow> nat \<Rightarrow> nat \<Rightarrow> byte list \<Rightarrow> nat \<Rightarrow> nat \<Rightarrow> fs \<Rightarrow> (int \<times> fs) result" where
  "writei devsw cwd ip src off n s =
     (let original = (if i_type (f_ic s ip) = T_SYM then Some ip else None);
          bad = (\<lambda>p s. rbind (relock original p s) (\<lambda>s. Inr (- 1, s))) in
      rbind (follow cwd (SYMDEPTH + 1) ip s) (\<lambda>(t, s).
        case t of
          Bad p \<Rightarrow> bad p s
        | Target ip \<Rightarrow>
            let x = f_ic s ip in
            if i_type x = T_DEV then
              (if i_major x < 0 \<or> i_major x \<ge> NDEV then bad (Some ip) s
               else case devsw (i_major x) of
                 None \<Rightarrow> bad (Some ip) s
               | Some wr \<Rightarrow> wr ip src n s)
            else
              rbind (writei_data ip src off n s) (\<lambda>(r, s).
                case r of
                  None \<Rightarrow> bad (Some ip) s
                | Some r \<Rightarrow> rbind (relock original (Some ip) s) (\<lambda>s. Inr (r, s)))))"

end
