(* ===== verification/Fs_Dir.thy ===== *)
theory Fs_Dir
  imports Fs_File Fs_Path
begin

text \<open>
  A directory as a map from names to inode numbers.  \<^verbatim>\<open>dirlookup\<close> is the lookup in this map, \<^verbatim>\<open>dirlink\<close> extends it.
\<close>

section \<open>Names\<close>

text \<open>The string in a name field: up to the first zero, at most \<^verbatim>\<open>DIRSIZ\<close> bytes.\<close>

definition nm :: "byte list \<Rightarrow> byte list" where
  "nm s = takeWhile (\<lambda>c. c \<noteq> 0) (map (name_byte s) [0..<DIRSIZ])"

lemma field_two_names: "field (two_names s t) 0 DIRSIZ = nm s" "field (two_names s t) DIRSIZ DIRSIZ = nm t"
  unfolding field_def nm_def by (rule arg_cong [where f = "takeWhile (\<lambda>c. c \<noteq> 0)"], rule map_cong; simp add: two_names_def)+

lemma namecmp_zero: "namecmp s t = 0 \<longleftrightarrow> nm s = nm t"
  by (simp add: namecmp_def strncmp_zero field_two_names)

lemma nm_dirent: "nm (drop 2 (dirent inum name)) = nm name"
proof -
  let ?m = "strncpy 0 DIRSIZ DIRSIZ (two_names [] name)"
  have "nm (map ?m [0..<DIRSIZ]) = field ?m 0 DIRSIZ"
    unfolding field_def nm_def by (rule arg_cong [where f = "takeWhile (\<lambda>c. c \<noteq> 0)"], rule map_cong) (simp_all add: name_byte_def)
  also have "\<dots> = nm name" using strncpy_field [of 0 DIRSIZ DIRSIZ "two_names [] name"] field_two_names(2) by simp
  finally show ?thesis by (simp add: dirent_def)
qed

lemma dirent_inum: "get16 (dirent inum name) 0 = inum mod 65536" "length (dirent inum name) = 16"
proof -
  show "get16 (dirent inum name) 0 = inum mod 65536" using mod_mult2_eq [of inum 256 256] by (simp add: dirent_def get16_def)
qed (simp add: dirent_def DIRSIZ_def)

section \<open>Entries\<close>

definition dent :: "fs \<Rightarrow> nat \<Rightarrow> nat \<Rightarrow> byte list" where
  "dent s dp k = map (fbyte s dp) [16 * k..<16 * k + 16]"

definition dent_inum :: "fs \<Rightarrow> nat \<Rightarrow> nat \<Rightarrow> nat" where
  "dent_inum s dp k = get16 (dent s dp k) 0"

definition dent_name :: "fs \<Rightarrow> nat \<Rightarrow> nat \<Rightarrow> byte list" where
  "dent_name s dp k = nm (drop 2 (dent s dp k))"

definition ndent :: "fs \<Rightarrow> nat \<Rightarrow> nat" where
  "ndent s dp = i_size (f_ic s dp) div 16"

definition dir_ok :: "fs \<Rightarrow> nat \<Rightarrow> bool" where
  "dir_ok s dp \<longleftrightarrow> file_ok s dp \<and> i_type (f_ic s dp) = T_DIR \<and> i_size (f_ic s dp) mod 16 = 0"

text \<open>The first entry with a name.\<close>

definition dent_at :: "fs \<Rightarrow> nat \<Rightarrow> byte list \<Rightarrow> nat option" where
  "dent_at s dp name = first_index (\<lambda>k. dent_inum s dp k \<noteq> 0 \<and> dent_name s dp k = nm name) [0..<ndent s dp]"

text \<open>The directory as a map.\<close>

definition dir_map :: "fs \<Rightarrow> nat \<Rightarrow> byte list \<Rightarrow> nat option" where
  "dir_map s dp name = map_option (dent_inum s dp) (dent_at s dp name)"

lemma dir_size: "dir_ok s dp \<Longrightarrow> i_size (f_ic s dp) = 16 * ndent s dp"
  by (metis add.right_neutral dir_ok_def mult_div_mod_eq ndent_def)

lemma read_dirent_ok:
  assumes ok: "dir_ok s dp" and k: "k < ndent s dp"
  shows "read_dirent msg dp (k * 16) s = Inr (dent s dp k, s)"
proof -
  have F: "file_ok s dp" using ok by (simp add: dir_ok_def)
  have sz: "16 * k + 16 \<le> i_size (f_ic s dp)" using k dir_size [OF ok] by simp
  moreover have "i_size (f_ic s dp) \<le> MAXFILE * BSIZE" using F by (simp add: file_ok_def)
  ultimately have b: "16 * k + 16 < 2 ^ 32" using maxfile_32 by linarith
  from readi_data_ok [OF F, of "16 * k" 16] sz b
  have "readi_data dp (k * 16) 16 s = Inr (Some (dent s dp k), s)" by (simp add: dent_def mult.commute min_def)
  then show ?thesis by (simp add: read_dirent_def dent_def)
qed

lemma dirlookup_loop_ok:
  assumes ok: "dir_ok s dp" and ks: "\<forall>k\<in>set ks. k < ndent s dp"
  shows "dirlookup_loop dp name (map (\<lambda>k. k * 16) ks) s =
    (case first_index (\<lambda>k. dent_inum s dp k \<noteq> 0 \<and> dent_name s dp k = nm name) ks of
       None \<Rightarrow> Inr (None, s)
     | Some k \<Rightarrow> rbind (iget 1 (dent_inum s dp k) s) (\<lambda>(ip, s). Inr (Some (ip, k * 16), s)))"
  using ks
proof (induction ks)
  case (Cons k ks)
  have "i_dev (f_ic s dp) = 1" using ok by (simp add: dir_ok_def file_ok_def fs_ok_def)
  moreover have "namecmp name (drop 2 (dent s dp k)) = 0 \<longleftrightarrow> dent_name s dp k = nm name"
    by (auto simp: namecmp_zero dent_name_def)
  ultimately show ?case using Cons read_dirent_ok [OF ok, of k] by (simp add: dent_inum_def)
qed simp

lemma dirlookup_ok:
  assumes ok: "dir_ok s dp"
  shows "dirlookup dp name s =
    (case dent_at s dp name of None \<Rightarrow> Inr (None, s)
     | Some k \<Rightarrow> rbind (iget 1 (dent_inum s dp k) s) (\<lambda>(ip, s). Inr (Some (ip, k * 16), s)))"
proof -
  have "dir_offs (i_size (f_ic s dp)) = map (\<lambda>k. k * 16) [0..<ndent s dp]"
    using dir_size [OF ok] by (simp add: dir_offs_def)
  then show ?thesis
    using dirlookup_loop_ok [OF ok, of "[0..<ndent s dp]" name] ok by (simp add: dirlookup_def dir_ok_def dent_at_def)
qed

section \<open>Adding an entry\<close>

text \<open>The entry that \<^verbatim>\<open>dirlink\<close> uses: the first empty one, or a new one at the end.\<close>

definition free_dent :: "fs \<Rightarrow> nat \<Rightarrow> nat" where
  "free_dent s dp = (case first_index (\<lambda>k. dent_inum s dp k = 0) [0..<ndent s dp] of None \<Rightarrow> ndent s dp | Some k \<Rightarrow> k)"

lemma empty_dirent_ok:
  assumes ok: "dir_ok s dp" and ks: "\<forall>k\<in>set ks. k < ndent s dp"
  shows "empty_dirent dp e (map (\<lambda>k. k * 16) ks) s =
    Inr (case first_index (\<lambda>k. dent_inum s dp k = 0) ks of None \<Rightarrow> e | Some k \<Rightarrow> k * 16, s)"
  using ks
proof (induction ks)
  case (Cons k ks)
  then show ?case using read_dirent_ok [OF ok, of k] by (simp add: dent_inum_def)
qed simp

lemma free_dent_le: "free_dent s dp \<le> ndent s dp"
  by (auto simp: free_dent_def split: option.split dest: first_index_Some)

lemma dent_patched:
  assumes "\<And>i. i < MAXFILE * BSIZE \<Longrightarrow> fbyte s' dp i = patched (16 * k) d (fbyte s dp) i" "length d = 16"
    "16 * j + 16 \<le> MAXFILE * BSIZE"
  shows "dent s' dp j = (if j = k then d else dent s dp j)"
proof (rule nth_equalityI)
  show "length (dent s' dp j) = length (if j = k then d else dent s dp j)" using assms(2) by (simp add: dent_def)
  fix i assume "i < length (dent s' dp j)"
  then have i: "i < 16" by (simp add: dent_def)
  have "fbyte s' dp (16 * j + i) = patched (16 * k) d (fbyte s dp) (16 * j + i)" by (rule assms(1)) (use i assms(3) in linarith)
  moreover have "16 * k \<le> 16 * j + i \<and> 16 * j + i < 16 * k + 16 \<longleftrightarrow> j = k" using i by linarith
  ultimately show "dent s' dp j ! i = (if j = k then d else dent s dp j) ! i"
    using i assms(2) by (auto simp: dent_def patched_def)
qed

lemma rounds_dirent: "rounds (16 * k) 16 = 1"
proof -
  have "(16 * k) mod BSIZE = 16 * (k mod 32)" using mult_mod_right [of 16 k 32] by (simp add: BSIZE_def)
  moreover have "k mod 32 < 32" by simp
  then have "k mod 32 \<le> 31" by linarith
  ultimately have "(16 * k) mod BSIZE \<le> 496" by linarith
  then have "(16 * k) mod BSIZE + 16 + BSIZE - 1 = ((16 * k) mod BSIZE + 15) + 1 * BSIZE" "(16 * k) mod BSIZE + 15 < BSIZE"
    by (simp_all add: BSIZE_def)
  then have "((16 * k) mod BSIZE + 16 + BSIZE - 1) div BSIZE = 1" by (simp only: div_mult_self1 BSIZE_pos div_less add_0_right)
  then show ?thesis by (simp add: rounds_def)
qed

lemma dirlink_ok:
  assumes ok: "dir_ok s dp" and new: "dent_at s dp name = None" and fr: "4 \<le> nfree s"
    and room: "i_size (f_ic s dp) + 16 \<le> MAXFILE * BSIZE"
  defines "k \<equiv> free_dent s dp"
  shows "\<exists>s'. dirlink dp name inum s = Inr (0, s') \<and> dir_ok s' dp \<and> ndent s' dp = max (ndent s dp) (Suc k)
    \<and> (\<forall>j \<le> ndent s dp. dent s' dp j = (if j = k then dirent inum name else dent s dp j)) \<and> others_same dp s s'"
proof -
  have F: "file_ok s dp" "i_type (f_ic s dp) = T_DIR" using ok by (simp_all add: dir_ok_def)
  note sz = dir_size [OF ok]
  have kl: "k \<le> ndent s dp" unfolding k_def by (rule free_dent_le)
  have "empty_dirent dp (16 * ndent s dp) (map (\<lambda>k. k * 16) [0..<ndent s dp]) s = Inr (16 * k, s)"
    using empty_dirent_ok [OF ok, of "[0..<ndent s dp]" "16 * ndent s dp"]
    by (cases "first_index (\<lambda>k. dent_inum s dp k = 0) [0..<ndent s dp]")
       (simp_all add: k_def free_dent_def mult.commute del: first_index_None)
  moreover have "dir_offs (i_size (f_ic s dp)) = map (\<lambda>k. k * 16) [0..<ndent s dp]" "16 * ((i_size (f_ic s dp) + 15) div 16) = 16 * ndent s dp"
    using sz by (simp_all add: dir_offs_def)
  ultimately have e: "empty_dirent dp (16 * ((i_size (f_ic s dp) + 15) div 16)) (dir_offs (i_size (f_ic s dp))) s = Inr (16 * k, s)" by simp
  have w: "16 * k \<le> i_size (f_ic s dp)" "16 * k + 16 \<le> MAXFILE * BSIZE" "4 * rounds (16 * k) 16 \<le> nfree s"
    using kl sz room rounds_dirent [of k] fr by simp_all
  from writei_data_ok [OF F(1) w(1,2) dirent_inum(2) [symmetric] w(3)] obtain s' where
    s': "writei_data dp (dirent inum name) (16 * k) 16 s = Inr (Some 16, s')" "file_ok s' dp"
      "i_size (f_ic s' dp) = max (i_size (f_ic s dp)) (16 * k + 16)"
      "\<And>i. i < MAXFILE * BSIZE \<Longrightarrow> fbyte s' dp i = patched (16 * k) (dirent inum name) (fbyte s dp) i"
      "others_same dp s s'" "meta (f_ic s' dp) = (meta (f_ic s dp))\<lparr>i_size := max (i_size (f_ic s dp)) (16 * k + 16)\<rparr>" unfolding of_nat_numeral by blast
  have "i_type (meta x) = i_type x" for x by (simp add: meta_def)
  then have ty: "i_type (f_ic s' dp) = T_DIR" using arg_cong [OF s'(6), of i_type] F(2) by simp
  have "max (16 * ndent s dp) (16 * k + 16) = 16 * max (ndent s dp) (Suc k)" by (simp add: max_def)
  then have z: "i_size (f_ic s' dp) = 16 * max (ndent s dp) (Suc k)" using s'(3) sz by simp
  have "dir_ok s' dp" "ndent s' dp = max (ndent s dp) (Suc k)"
    using s'(2) ty z by (simp_all add: dir_ok_def ndent_def [of s'])
  moreover have "dent s' dp j = (if j = k then dirent inum name else dent s dp j)" if "j \<le> ndent s dp" for j
  proof -
    have "16 * j \<le> 16 * ndent s dp" using that by simp
    then have "16 * j + 16 \<le> MAXFILE * BSIZE" using sz room by linarith
    from dent_patched [OF s'(4) dirent_inum(2) this] show ?thesis .
  qed
  moreover have "dirlink dp name inum s = Inr (0, s')"
    using e s'(1) dirlookup_ok [OF ok, of name] new by (simp add: dirlink_def Let_def)
  ultimately show ?thesis using s'(5) by blast
qed

lemma first_index_unique: "k \<in> set xs \<Longrightarrow> P k \<Longrightarrow> (\<And>j. j \<in> set xs \<Longrightarrow> P j \<Longrightarrow> j = k) \<Longrightarrow> first_index P xs = Some k"
proof (cases "first_index P xs")
  case (Some j)
  assume "\<And>j. j \<in> set xs \<Longrightarrow> P j \<Longrightarrow> j = k"
  then show ?thesis using first_index_Some [OF Some] Some by blast
next
  case None
  assume "k \<in> set xs" "P k"
  with None show ?thesis unfolding first_index_None by blast
qed

lemma first_index_snoc: "\<not> P k \<Longrightarrow> first_index P (xs @ [k]) = first_index P xs"
  by (induction xs) auto

text \<open>\<^verbatim>\<open>dirlink\<close> extends the map.\<close>

lemma dirlink_map:
  assumes ok: "dir_ok s dp" and new: "dent_at s dp name = None" and fr: "4 \<le> nfree s"
    and room: "i_size (f_ic s dp) + 16 \<le> MAXFILE * BSIZE" and i: "0 < inum" "inum < 65536"
  shows "\<exists>s'. dirlink dp name inum s = Inr (0, s') \<and> dir_ok s' dp \<and> others_same dp s s'
    \<and> (\<forall>n. dir_map s' dp n = (if nm n = nm name then Some inum else dir_map s dp n))"
proof -
  let ?k = "free_dent s dp" and ?N = "ndent s dp"
  from dirlink_ok [OF ok new fr room] obtain s' where
    s': "dirlink dp name inum s = Inr (0, s')" "dir_ok s' dp" "ndent s' dp = max ?N (Suc ?k)"
      "\<And>j. j \<le> ?N \<Longrightarrow> dent s' dp j = (if j = ?k then dirent inum name else dent s dp j)" "others_same dp s s'" by blast
  have kl: "?k \<le> ?N" by (rule free_dent_le)
  have ent: "dent_inum s' dp j = (if j = ?k then inum else dent_inum s dp j)"
      "dent_name s' dp j = (if j = ?k then nm name else dent_name s dp j)" if "j \<le> ?N" for j
    using s'(4) [OF that] i(2) dirent_inum(1) nm_dirent by (simp_all add: dent_inum_def dent_name_def)
  have kfree: "dent_inum s dp ?k = 0 \<or> ?k = ?N"
    by (auto simp: free_dent_def split: option.split dest: first_index_Some)
  have le: "j \<le> ?N" if "j < ndent s' dp" for j using that s'(3) kl by linarith
  have "dir_map s' dp n = (if nm n = nm name then Some inum else dir_map s dp n)" for n
  proof (cases "nm n = nm name")
    case True
    have "dent_at s' dp n = Some ?k"
      unfolding dent_at_def
    proof (rule first_index_unique)
      show "?k \<in> set [0..<ndent s' dp]" using s'(3) by simp
      show "dent_inum s' dp ?k \<noteq> 0 \<and> dent_name s' dp ?k = nm n" using ent [OF kl] i(1) True by simp
      fix j assume j: "j \<in> set [0..<ndent s' dp]" "dent_inum s' dp j \<noteq> 0 \<and> dent_name s' dp j = nm n"
      show "j = ?k"
      proof (rule ccontr)
        assume ne: "j \<noteq> ?k"
        have jN: "j < ?N" using j(1) ne s'(3) kl by (auto simp: max_def split: if_splits)
        then have "dent_inum s dp j \<noteq> 0 \<and> dent_name s dp j = nm name" using ent [of j] ne j(2) True by simp
        moreover have "\<forall>x\<in>set [0..<?N]. \<not> (dent_inum s dp x \<noteq> 0 \<and> dent_name s dp x = nm name)"
          using new unfolding dent_at_def first_index_None .
        moreover have "j \<in> set [0..<?N]" using jN by simp
        ultimately show False by blast
      qed
    qed
    then show ?thesis using True ent [OF kl] by (simp add: dir_map_def)
  next
    case False
    let ?P = "\<lambda>k. dent_inum s dp k \<noteq> 0 \<and> dent_name s dp k = nm n" and ?Q = "\<lambda>k. dent_inum s' dp k \<noteq> 0 \<and> dent_name s' dp k = nm n"
    have "first_index ?Q [0..<?N] = first_index ?P [0..<?N]"
      by (rule first_index_cong) (use ent False kfree in auto)
    moreover have "first_index ?Q [0..<ndent s' dp] = first_index ?Q [0..<?N]"
    proof (cases "?k = ?N")
      case True
      have "\<not> ?Q ?N" using ent [of ?N] True False by simp
      then have "first_index ?Q ([0..<?N] @ [?N]) = first_index ?Q [0..<?N]" by (rule first_index_snoc)
      then show ?thesis using s'(3) True by simp
    next
      case f: False
      then have "ndent s' dp = ?N" using s'(3) kl by simp
      then show ?thesis by simp
    qed
    ultimately have at: "dent_at s' dp n = dent_at s dp n" by (simp add: dent_at_def)
    moreover have "dent_inum s' dp j = dent_inum s dp j" if "dent_at s dp n = Some j" for j
    proof -
      have "j < ?N" "dent_inum s dp j \<noteq> 0" using that by (auto simp: dent_at_def dest: first_index_Some)
      then show ?thesis using ent(1) [of j] kfree by auto
    qed
    ultimately show ?thesis using False by (cases "dent_at s dp n") (simp_all add: dir_map_def)
  qed
  then show ?thesis using s' by blast
qed

end
