(* ===== verification/Fs_Icache.thy ===== *)
theory Fs_Icache
  imports Fs_File "HOL-Library.Multiset"
begin

text \<open>
  Reference counting of the inode cache.  The abstract state is the multiset of the pointers to cache entries that
  the rest of the kernel holds (open files, current directories, local variables): \<^verbatim>\<open>iget\<close> and \<^verbatim>\<open>idup\<close> make one,
  \<^verbatim>\<open>iput\<close> gives one up.
\<close>

section \<open>Operations that leave the identity of the entries alone\<close>

definition ident :: "inode \<Rightarrow> nat \<times> nat \<times> int" where
  "ident x = (i_dev x, i_inum x, i_ref x)"

definition idents :: "fs \<Rightarrow> nat \<Rightarrow> nat \<times> nat \<times> int" where
  "idents s i = ident (f_ic s i)"

text \<open>Partial correctness of a loop.\<close>

lemma rfold_keeps:
  assumes "\<And>x s s'. f x s = Inr s' \<Longrightarrow> I s' = I s" "rfold f xs s = Inr s'"
  shows "I s' = I s"
  using assms(2)
proof (induction xs arbitrary: s)
  case (Cons x xs)
  then obtain s1 where "f x s = Inr s1" "rfold f xs s1 = Inr s'" by (auto simp: rbind_eq_Inr)
  then show ?case using assms(1) Cons.IH by metis
qed simp

lemma idents_upd: "ident (f (f_ic s ip)) = ident (f_ic s ip) \<Longrightarrow> idents (upd_ip ip f s) = idents s"
  by (auto simp: idents_def fun_eq_iff)

lemma bread_idents: "st_bread dev b s = Inr s' \<Longrightarrow> idents s' = idents s"
  by (auto simp: st_bread_def idents_def fun_eq_iff split: if_splits)

lemma brelse_idents: "st_brelse b s = Inr s' \<Longrightarrow> idents s' = idents s"
  by (auto simp: st_brelse_def idents_def fun_eq_iff split: if_splits)

lemma bmod_idents: "st_bmod dev b f s = Inr s' \<Longrightarrow> idents s' = idents s"
  by (auto simp: st_bmod_def st_bread_def st_brelse_def st_log_write_def idents_def fun_eq_iff rbind_eq_Inr split: if_splits)

lemma bfree_idents: "bfree dev b s = Inr s' \<Longrightarrow> idents s' = idents s"
  by (auto simp: bfree_def Let_def st_bread_def st_brelse_def st_log_write_def idents_def fun_eq_iff rbind_eq_Inr split: if_splits)

lemma iupdate_idents: "iupdate ip s = Inr s' \<Longrightarrow> idents s' = idents s"
  by (auto simp: iupdate_def Let_def dest: bmod_idents)

lemma free_entries_idents: "free_entries dev a s = Inr s' \<Longrightarrow> idents s' = idents s"
  unfolding free_entries_def
  by (erule rfold_keeps [rotated]) (auto simp: Let_def dest: bfree_idents split: if_splits)

lemmas keeps_idents = bread_idents brelse_idents bfree_idents free_entries_idents iupdate_idents

lemma freeDouble_idents: "freeDouble ip a s = Inr s' \<Longrightarrow> idents s' = idents s"
proof -
  assume "freeDouble ip a s = Inr s'"
  then obtain s1 s2 s3 where s: "st_bread (i_dev (f_ic s ip)) a s = Inr s1"
      "rfold (\<lambda>i s'. let c = get32 (st_blk s' a) (4 * i) in if c \<noteq> 0 then
            rbind (st_bread (i_dev (f_ic s ip)) c s') (\<lambda>s'. rbind (free_entries (i_dev (f_ic s ip)) c s') (\<lambda>s'.
            rbind (bfree (i_dev (f_ic s ip)) (get32 (st_blk s' a) (4 * i)) s') (st_brelse c)))
          else Inr s') [0..<NINDIRECT] s1 = Inr s2"
      "st_brelse a s2 = Inr s3" "bfree (i_dev (f_ic s ip)) (i_D (f_ic s3 ip)) s3 = Inr s'"
    by (auto simp: freeDouble_def Let_def rbind_eq_Inr)
  have "idents s2 = idents s1"
    by (rule rfold_keeps [OF _ s(2)]) (auto simp: Let_def rbind_eq_Inr dest!: keeps_idents split: if_splits)
  then show ?thesis using s keeps_idents by metis
qed

lemma itrunc_idents: "itrunc ip s = Inr s' \<Longrightarrow> idents s' = idents s"
proof -
  let ?dev = "i_dev (f_ic s ip)"
  assume "itrunc ip s = Inr s'"
  then obtain s1 s2 s3 s4 where
    r1: "rfold (\<lambda>i s. let a = i_addrs (f_ic s ip) ! i in
          if a \<noteq> 0 then rbind (bfree ?dev a s) (\<lambda>s. Inr (upd_ip ip (\<lambda>x. x\<lparr>i_addrs := (i_addrs x)[i := 0]\<rparr>) s))
          else Inr s) [0..<NDIRECT] s = Inr s1"
    and r2: "(let a = i_addrs (f_ic s1 ip) ! NDIRECT in
             if a \<noteq> 0 then rbind (st_bread ?dev a s1) (\<lambda>s. rbind (free_entries ?dev a s) (\<lambda>s. rbind (st_brelse a s) (\<lambda>s.
               rbind (bfree ?dev a s) (\<lambda>s. Inr (upd_ip ip (\<lambda>x. x\<lparr>i_addrs := (i_addrs x)[NDIRECT := 0]\<rparr>) s)))))
             else Inr s1) = Inr s2"
    and r3: "(let a = i_D (f_ic s2 ip) in
             if a \<noteq> 0 then rbind (freeDouble ip a s2) (\<lambda>s. Inr (upd_ip ip (\<lambda>x. x\<lparr>i_D := 0\<rparr>) s)) else Inr s2) = Inr s3"
    and r4: "(let t = i_T (f_ic s3 ip) in
             if t \<noteq> 0 then rbind (st_bread ?dev t s3) (\<lambda>s. rbind (rfold (\<lambda>j s.
                   let a = get32 (st_blk s t) (4 * j) in if a \<noteq> 0 then freeDouble ip a s else Inr s) [0..<NINDIRECT] s) (\<lambda>s.
               rbind (st_brelse t s) (\<lambda>s. rbind (bfree ?dev t s) (\<lambda>s. Inr (upd_ip ip (\<lambda>x. x\<lparr>i_T := 0\<rparr>) s)))))
             else Inr s3) = Inr s4"
    and r5: "iupdate ip (upd_ip ip (\<lambda>x. x\<lparr>i_size := 0\<rparr>) s4) = Inr s'"
    unfolding itrunc_def Let_def rbind_eq_Inr by blast
  have "idents s1 = idents s"
    by (rule rfold_keeps [OF _ r1])
       (auto simp: Let_def rbind_eq_Inr idents_upd ident_def dest!: keeps_idents split: if_splits)
  moreover have "idents s2 = idents s1"
    using r2 by (auto simp: Let_def rbind_eq_Inr idents_upd ident_def dest!: keeps_idents split: if_splits)
  moreover have "idents s3 = idents s2"
    using r3 by (auto simp: Let_def rbind_eq_Inr idents_upd ident_def dest!: freeDouble_idents split: if_splits)
  moreover have "idents s4 = idents s3"
  proof -
    have loop: "idents v = idents u" if "rfold (\<lambda>j s. let a = get32 (st_blk s t) (4 * j) in if a \<noteq> 0 then freeDouble ip a s else Inr s) xs u = Inr v"
      for t xs u v
      by (rule rfold_keeps [OF _ that]) (auto simp: Let_def dest!: freeDouble_idents split: if_splits)
    then show ?thesis
      using r4 by (auto simp: Let_def rbind_eq_Inr idents_upd ident_def dest!: keeps_idents split: if_splits)
  qed
  moreover have "idents s' = idents s4" using iupdate_idents [OF r5] by (simp add: idents_upd ident_def)
  ultimately show ?thesis by simp
qed

lemma ilock_idents: "ilock (Some ip) s = Inr s' \<Longrightarrow> idents s' = idents s"
proof -
  have g: "ident (get_dinode o' d x) = ident x" for o' d x by (simp add: ident_def get_dinode_def)
  show "ilock (Some ip) s = Inr s' \<Longrightarrow> idents s' = idents s"
    by (auto simp: ilock_def Let_def rbind_eq_Inr idents_upd ident_def st_bread_def st_brelse_def idents_def fun_eq_iff
        get_dinode_def split: if_splits)
qed

lemma iunlock_idents: "iunlock (Some ip) s = Inr s' \<Longrightarrow> idents s' = idents s"
  by (auto simp: iunlock_def idents_upd ident_def split: if_splits)

lemma iput_idents:
  assumes "iput ip s = Inr s'"
  shows "idents s' = (idents s)(ip := (i_dev (f_ic s ip), i_inum (f_ic s ip), i_ref (f_ic s ip) - 1))"
proof -
  let ?s = "upd_ip ip (\<lambda>x. x\<lparr>i_lock := True\<rparr>) s"
  obtain s1 where s1: "(if i_valid (f_ic ?s ip) \<and> i_nlink (f_ic ?s ip) = 0 \<and> i_ref (f_ic ?s ip) = 1 then
       rbind (itrunc ip ?s) (\<lambda>s. rbind (iupdate ip (upd_ip ip (\<lambda>x. x\<lparr>i_type := 0\<rparr>) s)) (\<lambda>s.
         Inr (upd_ip ip (\<lambda>x. x\<lparr>i_valid := False\<rparr>) s))) else Inr ?s) = Inr s1"
      "s' = upd_ip ip (\<lambda>x. x\<lparr>i_ref := i_ref x - 1\<rparr>) (upd_ip ip (\<lambda>x. x\<lparr>i_lock := False\<rparr>) s1)"
    using assms by (auto simp: iput_def Let_def rbind_eq_Inr split: if_splits)
  have s0: "idents ?s = idents s" by (simp add: idents_upd ident_def)
  have "idents s1 = idents s"
  proof (cases "i_valid (f_ic ?s ip) \<and> i_nlink (f_ic ?s ip) = 0 \<and> i_ref (f_ic ?s ip) = 1")
    case False
    have "?s = s1" using s1(1) unfolding if_not_P [OF False] by simp
    then show ?thesis using s0 by simp
  next
    case True
    then obtain s2 s3 where r: "itrunc ip ?s = Inr s2" "iupdate ip (upd_ip ip (\<lambda>x. x\<lparr>i_type := 0\<rparr>) s2) = Inr s3"
        "Inr (upd_ip ip (\<lambda>x. x\<lparr>i_valid := False\<rparr>) s3) = (Inr s1 :: fs result)"
      using s1(1) unfolding if_P [OF True] rbind_eq_Inr by blast
    have "s1 = upd_ip ip (\<lambda>x. x\<lparr>i_valid := False\<rparr>) s3" using r(3) by simp
    then have "idents s1 = idents s3" by (simp add: idents_upd ident_def)
    also have "\<dots> = idents (upd_ip ip (\<lambda>x. x\<lparr>i_type := 0\<rparr>) s2)" by (rule iupdate_idents [OF r(2)])
    also have "\<dots> = idents s2" by (simp add: idents_upd ident_def)
    finally show ?thesis using itrunc_idents [OF r(1)] s0 by simp
  qed
  then have "ident (f_ic s1 j) = ident (f_ic s j)" for j by (auto simp: idents_def fun_eq_iff)
  from this [of ip] this show ?thesis using s1(2) by (auto simp: idents_def ident_def fun_eq_iff)
qed

section \<open>The invariant\<close>

text \<open>
  The reference count of an entry is the number of pointers to it, and no two entries in use are for the same
  inode.
\<close>

definition ic_inv :: "fs \<Rightarrow> nat multiset \<Rightarrow> bool" where
  "ic_inv s R \<longleftrightarrow> (\<forall>i\<in>#R. i < NINODE) \<and> (\<forall>i<NINODE. i_ref (f_ic s i) = int (count R i)) \<and>
     (\<forall>i\<in>#R. \<forall>j\<in>#R. i_dev (f_ic s i) = i_dev (f_ic s j) \<and> i_inum (f_ic s i) = i_inum (f_ic s j) \<longrightarrow> i = j)"

lemma ic_invI:
  assumes "\<And>i. i \<in># R \<Longrightarrow> i < NINODE" "\<And>i. i < NINODE \<Longrightarrow> i_ref (f_ic s i) = int (count R i)"
    "\<And>i j. i \<in># R \<Longrightarrow> j \<in># R \<Longrightarrow> i_dev (f_ic s i) = i_dev (f_ic s j) \<Longrightarrow> i_inum (f_ic s i) = i_inum (f_ic s j) \<Longrightarrow> i = j"
  shows "ic_inv s R"
  using assms unfolding ic_inv_def by blast

lemma ic_invD:
  assumes "ic_inv s R"
  shows "i \<in># R \<Longrightarrow> i < NINODE" "i < NINODE \<Longrightarrow> i_ref (f_ic s i) = int (count R i)"
    "i \<in># R \<Longrightarrow> j \<in># R \<Longrightarrow> i_dev (f_ic s i) = i_dev (f_ic s j) \<Longrightarrow> i_inum (f_ic s i) = i_inum (f_ic s j) \<Longrightarrow> i = j"
  using assms unfolding ic_inv_def by blast+

lemma idents_fields:
  assumes "idents s' = idents s"
  shows "i_dev (f_ic s' i) = i_dev (f_ic s i)" "i_inum (f_ic s' i) = i_inum (f_ic s i)" "i_ref (f_ic s' i) = i_ref (f_ic s i)"
  using fun_cong [OF assms, of i] by (simp_all add: idents_def ident_def)

lemma ic_inv_idents: "idents s' = idents s \<Longrightarrow> ic_inv s' R = ic_inv s R"
  using idents_fields [of s' s] by (simp add: ic_inv_def)

lemma iget_cases:
  assumes "iget dev inum s = Inr (i, s')"
  obtains (hit) "i < NINODE" "i_ref (f_ic s i) > 0" "i_dev (f_ic s i) = dev" "i_inum (f_ic s i) = inum"
      "s' = upd_ip i (\<lambda>x. x\<lparr>i_ref := i_ref x + 1\<rparr>) s"
  | (new) "i < NINODE" "i_ref (f_ic s i) = 0"
      "\<forall>j<NINODE. \<not> (i_ref (f_ic s j) > 0 \<and> i_dev (f_ic s j) = dev \<and> i_inum (f_ic s j) = inum)"
      "s' = upd_ip i (\<lambda>x. x\<lparr>i_dev := dev, i_inum := inum, i_ref := 1, i_valid := False\<rparr>) s"
proof (cases "first_index (\<lambda>i. i_ref (f_ic s i) > 0 \<and> i_dev (f_ic s i) = dev \<and> i_inum (f_ic s i) = inum) [0..<NINODE]")
  case (Some k)
  have "k = i" "s' = upd_ip i (\<lambda>x. x\<lparr>i_ref := i_ref x + 1\<rparr>) s" using assms unfolding iget_def Some by auto
  then show ?thesis using first_index_Some [OF Some] hit by auto
next
  case None
  then have no: "\<forall>j<NINODE. \<not> (i_ref (f_ic s j) > 0 \<and> i_dev (f_ic s j) = dev \<and> i_inum (f_ic s j) = inum)" by simp
  show ?thesis
  proof (cases "first_index (\<lambda>i. i_ref (f_ic s i) = 0) [0..<NINODE]")
    case (Some k)
    have "k = i" "s' = upd_ip i (\<lambda>x. x\<lparr>i_dev := dev, i_inum := inum, i_ref := 1, i_valid := False\<rparr>) s"
      using assms unfolding iget_def None Some option.case by auto
    then show ?thesis using first_index_Some [OF Some] no new by auto
  next
    case n: None
    then show ?thesis using assms unfolding iget_def None n option.case by simp
  qed
qed

lemma iget_inv:
  assumes inv: "ic_inv s R" and g: "iget dev inum s = Inr (i, s')"
  shows "ic_inv s' (add_mset i R)" "i_dev (f_ic s' i) = dev" "i_inum (f_ic s' i) = inum"
    "\<And>j. j \<in># R \<Longrightarrow> j \<noteq> i \<Longrightarrow> f_ic s' j = f_ic s j"
proof -
  note D = ic_invD [OF inv]
  have mem: "j \<in># R \<longleftrightarrow> 0 < i_ref (f_ic s j)" if "j < NINODE" for j using D(2) [OF that] by (simp add: count_greater_zero_iff)
  from g have "ic_inv s' (add_mset i R) \<and> i_dev (f_ic s' i) = dev \<and> i_inum (f_ic s' i) = inum
      \<and> (\<forall>j. j \<in># R \<longrightarrow> j \<noteq> i \<longrightarrow> f_ic s' j = f_ic s j)"
  proof (cases rule: iget_cases)
    case hit
    then have i: "i \<in># R" using mem by simp
    have f: "i_dev (f_ic s' j) = i_dev (f_ic s j)" "i_inum (f_ic s' j) = i_inum (f_ic s j)" for j using hit(5) by simp_all
    have "ic_inv s' (add_mset i R)"
    proof (rule ic_invI)
      fix j k assume "j \<in># add_mset i R" "k \<in># add_mset i R" "i_dev (f_ic s' j) = i_dev (f_ic s' k)" "i_inum (f_ic s' j) = i_inum (f_ic s' k)"
      then show "j = k" using D(3) [of j k] i f by auto
    qed (use hit D(1,2) in auto)
    then show ?thesis using hit by simp
  next
    case new
    then have i: "i \<notin># R" using mem by simp
    have no: "\<not> (i_dev (f_ic s j) = dev \<and> i_inum (f_ic s j) = inum)" if "j \<in># R" for j
      using new(3) mem [OF D(1) [OF that]] D(1) [OF that] that by blast
    have f: "i_dev (f_ic s' j) = (if j = i then dev else i_dev (f_ic s j))"
      "i_inum (f_ic s' j) = (if j = i then inum else i_inum (f_ic s j))" for j using new(4) by simp_all
    have "ic_inv s' (add_mset i R)"
    proof (rule ic_invI)
      fix j k assume a: "j \<in># add_mset i R" "k \<in># add_mset i R" "i_dev (f_ic s' j) = i_dev (f_ic s' k)" "i_inum (f_ic s' j) = i_inum (f_ic s' k)"
      show "j = k"
      proof (cases "j = i \<or> k = i")
        case True
        then show ?thesis using a(1,2) a(3,4) [unfolded f] no [of j] no [of k] by (auto split: if_splits)
      next
        case False
        then show ?thesis using a(1,2) a(3,4) [unfolded f] D(3) [of j k] by simp
      qed
    next
      fix j assume "j < NINODE"
      then show "i_ref (f_ic s' j) = int (count (add_mset i R) j)" using new(4) D(2) i by (auto simp: not_in_iff)
    qed (use new(1) D(1) in auto)
    then show ?thesis using new(4) by simp
  qed
  then show "ic_inv s' (add_mset i R)" "i_dev (f_ic s' i) = dev" "i_inum (f_ic s' i) = inum"
    "\<And>j. j \<in># R \<Longrightarrow> j \<noteq> i \<Longrightarrow> f_ic s' j = f_ic s j" by blast+
qed

lemma idup_inv:
  assumes inv: "ic_inv s R" and i: "i \<in># R"
  shows "ic_inv (idup i s) (add_mset i R)"
proof (rule ic_invI)
  note D = ic_invD [OF inv]
  fix j k assume "j \<in># add_mset i R" "k \<in># add_mset i R" "i_dev (f_ic (idup i s) j) = i_dev (f_ic (idup i s) k)"
    "i_inum (f_ic (idup i s) j) = i_inum (f_ic (idup i s) k)"
  moreover have "i_dev (f_ic (idup i s) j) = i_dev (f_ic s j)" "i_inum (f_ic (idup i s) j) = i_inum (f_ic s j)" for j
    by (simp_all add: idup_def)
  ultimately show "j = k" using D(3) [of j k] i by auto
qed (use ic_invD(1,2) [OF inv] i in \<open>auto simp: idup_def\<close>)

lemma iput_inv:
  assumes inv: "ic_inv s R" and i: "i \<in># R" and p: "iput i s = Inr s'"
  shows "ic_inv s' (R - {#i#})"
proof (rule ic_invI)
  note D = ic_invD [OF inv]
  have id: "ident (f_ic s' j) = (if j = i then (i_dev (f_ic s i), i_inum (f_ic s i), i_ref (f_ic s i) - 1) else ident (f_ic s j))" for j
    using fun_cong [OF iput_idents [OF p], of j] by (simp add: idents_def)
  have f: "i_dev (f_ic s' j) = i_dev (f_ic s j)" "i_inum (f_ic s' j) = i_inum (f_ic s j)"
      "i_ref (f_ic s' j) = i_ref (f_ic s j) - (if j = i then 1 else 0)" for j
    using id [of j] by (auto simp: ident_def split: if_splits)
  show "j = k" if "j \<in># R - {#i#}" "k \<in># R - {#i#}" "i_dev (f_ic s' j) = i_dev (f_ic s' k)" "i_inum (f_ic s' j) = i_inum (f_ic s' k)" for j k
    using that D(3) [OF in_diffD in_diffD] f by simp
  show "j < NINODE" if "j \<in># R - {#i#}" for j using D(1) [OF in_diffD [OF that]] .
  have "0 < count R i" using i by simp
  then show "i_ref (f_ic s' j) = int (count (R - {#i#}) j)" if "j < NINODE" for j using D(2) [OF that] f(3) [of j] by simp
qed

section \<open>Reachable states\<close>

inductive ic_step :: "fs \<times> nat multiset \<Rightarrow> fs \<times> nat multiset \<Rightarrow> bool" where
  step_iget: "iget dev inum s = Inr (i, s') \<Longrightarrow> ic_step (s, R) (s', add_mset i R)"
| step_idup: "i \<in># R \<Longrightarrow> ic_step (s, R) (idup i s, add_mset i R)"
| step_ilock: "i \<in># R \<Longrightarrow> ilock (Some i) s = Inr s' \<Longrightarrow> ic_step (s, R) (s', R)"
| step_iunlock: "i \<in># R \<Longrightarrow> iunlock (Some i) s = Inr s' \<Longrightarrow> ic_step (s, R) (s', R)"
| step_iupdate: "i \<in># R \<Longrightarrow> iupdate i s = Inr s' \<Longrightarrow> ic_step (s, R) (s', R)"
| step_iput: "i \<in># R \<Longrightarrow> iput i s = Inr s' \<Longrightarrow> ic_step (s, R) (s', R - {#i#})"

inductive_cases ic_stepE: "ic_step (s, R) (s', R')"

inductive ic_reach :: "fs \<times> nat multiset \<Rightarrow> bool" where
  reach_init: "(\<And>i. i < NINODE \<Longrightarrow> i_ref (f_ic s i) = 0) \<Longrightarrow> ic_reach (s, {#})"
| reach_step: "ic_reach c \<Longrightarrow> ic_step c c' \<Longrightarrow> ic_reach c'"

lemma ic_step_inv: "ic_step (s, R) (s', R') \<Longrightarrow> ic_inv s R \<Longrightarrow> ic_inv s' R'"
  by (erule ic_stepE)
     (auto simp: idup_inv iget_inv iput_inv ic_inv_idents [OF ilock_idents] ic_inv_idents [OF iunlock_idents] ic_inv_idents [OF iupdate_idents])

lemma ic_reach_inv: "ic_reach c \<Longrightarrow> ic_inv (fst c) (snd c)"
proof (induction rule: ic_reach.induct)
  case (reach_init s)
  then show ?case by (simp add: ic_inv_def)
next
  case (reach_step c c')
  then show ?case using ic_step_inv by (metis surj_pair fst_conv snd_conv)
qed

end
