(* ===== verification/Fs_System.thy ===== *)
theory Fs_System
  imports Fs_Dir Fs_Icache
begin

text \<open>
  The properties of the file system of project 3 (\<^verbatim>\<open>fs.c\<close>), with concrete states on which they apply.
\<close>

section \<open>Concrete states\<close>

text \<open>
  A file system of 40 blocks: inodes from block 2, the bitmap in block 4, data from block 5.  Entry 0 of the inode cache
  is an empty directory, entry 1 is free.
\<close>

definition demo_sb :: superblock where
  "demo_sb = \<lparr>sb_size = 40, sb_nblocks = 35, sb_ninodes = 8, sb_nlog = 0, sb_logstart = 2, sb_inodestart = 2, sb_bmapstart = 4\<rparr>"

definition demo_inode :: inode where
  "demo_inode = \<lparr>i_dev = 1, i_inum = 1, i_ref = 1, i_lock = True, i_valid = True, i_type = T_DIR, i_major = 0, i_minor = 0,
     i_nlink = 1, i_size = 0, i_addrs = replicate (NDIRECT + 1) 0, i_D = 0, i_T = 0\<rparr>"

definition demo_blk :: "nat \<Rightarrow> block" where
  "demo_blk b = (if b = 4 then 31 # replicate 511 0 else replicate BSIZE 0)"

definition demo_fs :: fs where
  "demo_fs = \<lparr>st_blk = demo_blk, st_size = 40, st_held = {}, st_logged = {}, f_sb = demo_sb,
     f_ic = (\<lambda>i. if i = 0 then demo_inode else demo_inode\<lparr>i_ref := 0, i_valid := False, i_lock := False\<rparr>)\<rparr>"

lemma demo_used: "used demo_fs 0" "used demo_fs 1" "used demo_fs 2" "used demo_fs 3" "used demo_fs 4"
    "\<not> used demo_fs 5" "\<not> used demo_fs 6" "\<not> used demo_fs 7" "\<not> used demo_fs 8"
  by (simp_all add: used_def demo_fs_def demo_sb_def demo_blk_def BBLOCK_def BPB_def BSIZE_def bm_free_def bm_mask_def)

lemma demo_fields [simp]: "f_sb demo_fs = demo_sb" "st_size demo_fs = 40" "st_held demo_fs = {}" "f_ic demo_fs 0 = demo_inode"
  by (simp_all add: demo_fs_def)

lemma demo_dstart: "dstart demo_sb = 5"
  by (simp add: dstart_def demo_sb_def BPB_def BSIZE_def)

lemma less5: "b < 5 \<longleftrightarrow> b = 0 \<or> b = 1 \<or> b = 2 \<or> b = 3 \<or> b = (4 :: nat)"
  by auto

lemma demo_geo: "geo_ok demo_fs"
proof -
  have "length (st_blk demo_fs b) = BSIZE" for b by (simp add: demo_fs_def demo_blk_def BSIZE_def)
  moreover have "used demo_fs b" if "b < 5" for b using that demo_used unfolding less5 by auto
  ultimately show ?thesis by (simp add: geo_ok_def demo_dstart) (simp add: demo_sb_def IPB_def)
qed

lemma demo_node: "tp p \<Longrightarrow> node demo_fs 0 p = 0"
  by (auto simp: node_def tp_def root_def demo_inode_def NDIRECT_def nth_replicate simp del: replicate_Suc)

lemma demo_ok: "fs_ok demo_fs 0"
proof -
  have "tree_ok demo_fs 0" unfolding tree_ok_def using demo_node by metis
  then show ?thesis using demo_geo by (simp add: fs_ok_def) (simp add: demo_inode_def)
qed

lemma demo_free: "4 \<le> nfree demo_fs"
proof -
  have "{5, 6, 7, 8} \<subseteq> {b. b < sb_size (f_sb demo_fs) \<and> \<not> used demo_fs b}" using demo_used by (simp add: demo_sb_def)
  then have "card {5, 6, 7, 8 :: nat} \<le> nfree demo_fs" unfolding nfree_def by (rule card_mono [rotated]) simp
  then show ?thesis by simp
qed

lemma demo_dir: "dir_ok demo_fs 0"
  using demo_ok by (simp add: dir_ok_def file_ok_def full_def) (simp add: demo_inode_def demo_sb_def)

section \<open>Blocks\<close>

text \<open>
  C24.  \<^verbatim>\<open>balloc\<close> allocates the least free block: it marks that block and no other in the bitmap, zeroes it, and leaves
  all blocks outside the bitmap as they are; when every block is in use it panics.
\<close>

theorem block_allocation:
  assumes "geo_ok s" "bm_loose s"
  shows "((\<forall>b < sb_size (f_sb s). used s b) \<longrightarrow> balloc 1 s = Inl (Panic ''balloc: out of blocks'')) \<and>
    (\<forall>b < sb_size (f_sb s). \<not> used s b \<and> (\<forall>c<b. used s c) \<longrightarrow>
      (\<exists>s'. balloc 1 s = Inr (b, s') \<and> geo_ok s' \<and> st_blk s' b = replicate BSIZE 0 \<and> st_held s' = st_held s
        \<and> (\<forall>c < sb_size (f_sb s). used s' c \<longleftrightarrow> c = b \<or> used s c) \<and> (\<forall>c. plain s c \<and> c \<noteq> b \<longrightarrow> st_blk s' c = st_blk s c)))"
proof (intro conjI impI allI)
  assume "\<forall>b < sb_size (f_sb s). used s b"
  then have "first_index (\<lambda>b. \<not> used s b) [0..<sb_size (f_sb s)] = None" by simp
  then show "balloc 1 s = Inl (Panic ''balloc: out of blocks'')" using balloc_eq [OF assms] by (simp only: option.case)
next
  fix b assume b: "b < sb_size (f_sb s)" "\<not> used s b \<and> (\<forall>c<b. used s c)"
  have "first_index (\<lambda>b. \<not> used s b) [0..<sb_size (f_sb s)] = Some b"
  proof (cases "first_index (\<lambda>b. \<not> used s b) [0..<sb_size (f_sb s)]")
    case None
    then show ?thesis using b by auto
  next
    case (Some c)
    then have "\<not> used s c" "\<And>j. j < c \<Longrightarrow> used s j" using first_index_Some [OF Some] first_index_least [OF Some] by auto
    then have "c = b" using b(2) by (meson linorder_neqE_nat)
    then show ?thesis using Some by simp
  qed
  then have "balloc 1 s = Inr (b, alloc_at b s)" using balloc_eq [OF assms] by simp
  moreover have "st_blk (alloc_at b s) c = st_blk s c" if "plain s c \<and> c \<noteq> b" for c
    using alloc_at_blk(2) [OF assms(1) b(1)] b(2) that by (simp add: plain_def)
  moreover have "used (alloc_at b s) c \<longleftrightarrow> c = b \<or> used s c" if "c < sb_size (f_sb s)" for c
    using alloc_at_used [OF assms(1) b(1) _ that] b(2) by blast
  ultimately show "\<exists>s'. balloc 1 s = Inr (b, s') \<and> geo_ok s' \<and> st_blk s' b = replicate BSIZE 0 \<and> st_held s' = st_held s
        \<and> (\<forall>c < sb_size (f_sb s). used s' c \<longleftrightarrow> c = b \<or> used s c) \<and> (\<forall>c. plain s c \<and> c \<noteq> b \<longrightarrow> st_blk s' c = st_blk s c)"
    using alloc_at_geo [OF assms(1) b(1)] alloc_at_blk(1) [OF assms(1) b(1)] b(2) by auto
qed

theorem block_allocation_witness:
  "\<exists>s'. balloc 1 demo_fs = Inr (5, s') \<and> used s' 5 \<and> \<not> used s' 6"
proof -
  have "\<forall>c<5. used demo_fs c" using demo_used unfolding less5 by auto
  moreover have "5 < sb_size (f_sb demo_fs)" by (simp add: demo_sb_def)
  ultimately obtain s' where
    "balloc 1 demo_fs = Inr (5, s')" "\<forall>c < sb_size (f_sb demo_fs). used s' c \<longleftrightarrow> c = 5 \<or> used demo_fs c"
    using block_allocation [OF demo_geo bm_loose_empty [OF demo_fields(3)]] demo_used(6) by blast
  then show ?thesis using demo_used(7) by (auto simp: demo_sb_def)
qed

text \<open>
  C25.  Round trip: freeing the block that \<^verbatim>\<open>balloc\<close> has returned gives the bitmap back as it was, and freeing it again panics.
\<close>

theorem alloc_free_round_trip:
  assumes "geo_ok s" "bm_loose s" "balloc 1 s = Inr (b, s1)"
  shows "\<exists>s2. bfree 1 b s1 = Inr s2 \<and> geo_ok s2 \<and> (\<forall>c < sb_size (f_sb s). used s2 c \<longleftrightarrow> used s c)
    \<and> bfree 1 b s2 = Inl (Panic ''freeing free block'')"
proof (cases "first_index (\<lambda>b. \<not> used s b) [0..<sb_size (f_sb s)]")
  case None
  then show ?thesis using balloc_eq [OF assms(1,2)] assms(3) by (simp del: first_index_None)
next
  case (Some c)
  then have b: "c = b" "s1 = alloc_at b s" "b < sb_size (f_sb s)" "\<not> used s b"
    using balloc_eq [OF assms(1,2)] assms(3) first_index_Some [OF Some] by auto
  note A = alloc_at_used [OF assms(1) b(3,4)]
  have g: "geo_ok s1" "dstart (f_sb s1) \<le> b" "b < sb_size (f_sb s1)"
    using alloc_at_geo [OF assms(1) b(3,4)] geo_okD(5) [OF assms(1) b(4)] b by simp_all
  have h: "BBLOCK b (f_sb s1) \<notin> st_held s1" using bm_looseD(1) [OF assms(2) b(3)] b(2) by simp
  have u: "used s1 b" using A [OF b(3)] b(2) by simp
  have 1: "bfree 1 b s1 = Inr (free_at b s1)" using bfree_eq [OF g(1,3) h] u by simp
  note F = free_at_used [OF g(1,3)]
  have "bfree 1 b (free_at b s1) = Inl (Panic ''freeing free block'')"
    using bfree_eq [OF free_at_geo [OF g], of b] F [OF g(3)] g(3) h by simp
  moreover have "used (free_at b s1) c \<longleftrightarrow> used s c" if "c < sb_size (f_sb s)" for c
    using F [of c] A [OF that] that b by auto
  ultimately show ?thesis using 1 free_at_geo [OF g] by blast
qed

theorem alloc_free_round_trip_witness:
  "\<exists>b s1 s2. balloc 1 demo_fs = Inr (b, s1) \<and> bfree 1 b s1 = Inr s2 \<and> \<not> used s2 5"
proof -
  obtain b where b: "balloc 1 demo_fs = Inr (b, alloc_at b demo_fs)"
    using balloc_free [OF demo_geo bm_loose_empty] demo_free by auto
  from alloc_free_round_trip [OF demo_geo bm_loose_empty b] obtain s2 where
    "bfree 1 b (alloc_at b demo_fs) = Inr s2" "\<forall>c < sb_size (f_sb demo_fs). used s2 c \<longleftrightarrow> used demo_fs c" by auto
  then show ?thesis using b demo_used(6) by (auto simp: demo_sb_def)
qed

section \<open>Files\<close>

text \<open>
  C19.  \<^verbatim>\<open>bmap\<close> refines the block tree: for every block number up to the maximal file size it returns the leaf of the tree
  of direct, indirect, double and triple indirect blocks, adding at most four blocks to the tree; the leaves keep
  their contents, new ones are zero, allocated blocks outside the tree are unchanged and every changed block is logged.
\<close>

theorem bmap_correct:
  assumes "fs_ok s ip" "bn < MAXFILE" "4 \<le> nfree s"
  shows "\<exists>a s'. bmap ip bn s = Inr (a, s') \<and> a \<noteq> 0 \<and> a = node s' ip (bpos bn) \<and> grown 4 ip s s'"
  using bmap_ok [OF assms] by blast

theorem bmap_correct_witness:
  "\<exists>a s'. bmap 0 100000 demo_fs = Inr (a, s') \<and> a \<noteq> 0 \<and> a = node s' 0 (NDIRECT + 2, [5, 12, 22])"
proof -
  have "(100000 :: nat) < MAXFILE" by (simp add: ndefs)
  from bmap_correct [OF demo_ok this demo_free] show ?thesis by (auto simp: bpos_def ndefs)
qed

text \<open>
  C18.  Round trip: what \<^verbatim>\<open>writei\<close> writes to a file, \<^verbatim>\<open>readi\<close> reads back.  The write changes no other byte of the file,
  extends the file when it ends behind the old end, and leaves other inodes and the blocks of other files alone.
\<close>

theorem write_read_round_trip:
  assumes "file_ok s ip" "i_type (f_ic s ip) \<noteq> T_SYM" "i_type (f_ic s ip) \<noteq> T_DEV" "off \<le> i_size (f_ic s ip)"
    "off + length src \<le> MAXFILE * BSIZE" "4 * rounds off (length src) \<le> nfree s"
  shows "\<exists>s'. writei dw cwd ip src off (length src) s = Inr (int (length src), s') \<and> file_ok s' ip
    \<and> readi dr cwd ip off (length src) s' = Inr ((int (length src), src), s')
    \<and> i_size (f_ic s' ip) = max (i_size (f_ic s ip)) (off + length src)
    \<and> (\<forall>i < MAXFILE * BSIZE. \<not> (off \<le> i \<and> i < off + length src) \<longrightarrow> fbyte s' ip i = fbyte s ip i) \<and> others_same ip s s'"
proof -
  let ?n = "length src"
  from writei_data_ok [OF assms(1,4,5) refl assms(6)] obtain s' where
    s': "writei_data ip src off ?n s = Inr (Some (int ?n), s')" "file_ok s' ip"
      "i_size (f_ic s' ip) = max (i_size (f_ic s ip)) (off + ?n)"
      "\<And>i. i < MAXFILE * BSIZE \<Longrightarrow> fbyte s' ip i = patched off src (fbyte s ip) i" "others_same ip s s'"
      "meta (f_ic s' ip) = (meta (f_ic s ip))\<lparr>i_size := max (i_size (f_ic s ip)) (off + ?n)\<rparr>" by blast
  have "i_type (meta x) = i_type x" for x by (simp add: meta_def)
  then have ty: "i_type (f_ic s' ip) = i_type (f_ic s ip)" using arg_cong [OF s'(6), of i_type] by simp
  have fw: "follow cwd k ip t = Inr (Target ip, t)" if "i_type (f_ic t ip) = i_type (f_ic s ip)" for k t
    using assms(2) that by (simp add: follow.simps)
  have w: "writei dw cwd ip src off ?n s = Inr (int ?n, s')"
    using s'(1) assms(2,3) fw [OF refl] by (simp add: writei_def relock_def Let_def)
  have le: "off \<le> i_size (f_ic s' ip)" "off + ?n \<le> i_size (f_ic s' ip)" using s'(3) by simp_all
  have b: "off + ?n < 2 ^ 32" using assms(5) maxfile_32 by simp
  have "map (fbyte s' ip) [off..<off + ?n] = src"
  proof (rule nth_equalityI)
    fix i assume "i < length (map (fbyte s' ip) [off..<off + ?n])"
    then have "i < ?n" by simp
    then show "map (fbyte s' ip) [off..<off + ?n] ! i = src ! i"
      using s'(4) [of "off + i"] assms(5) by (simp add: patched_def)
  qed simp
  then have "readi_data ip off ?n s' = Inr (Some src, s')"
    using readi_data_ok [OF s'(2) le(1) b] le(2) by (simp add: min_def)
  then have "readi dr cwd ip off ?n s' = Inr ((int ?n, src), s')"
    using ty assms(2,3) fw [OF ty] by (simp add: readi_def relock_def Let_def)
  moreover have "fbyte s' ip i = fbyte s ip i" if "i < MAXFILE * BSIZE" "\<not> (off \<le> i \<and> i < off + ?n)" for i
    using s'(4) [OF that(1)] that(2) by (simp add: patched_def)
  ultimately show ?thesis using w s'(2,3,5) by blast
qed

theorem write_read_round_trip_witness:
  "\<exists>s'. writei (\<lambda>_. None) 0 0 [1, 2, 3] 0 3 demo_fs = Inr (3, s') \<and> readi (\<lambda>_. None) 0 0 0 3 s' = Inr ((3, [1, 2, 3]), s')"
proof -
  have f: "file_ok demo_fs 0" using demo_dir by (simp add: dir_ok_def)
  have t: "i_type (f_ic demo_fs 0) \<noteq> T_SYM" "i_type (f_ic demo_fs 0) \<noteq> T_DEV" "0 \<le> i_size (f_ic demo_fs 0)"
    by (simp_all add: demo_inode_def T_DIR_def T_SYM_def T_DEV_def)
  have l: "0 + length [1, 2, 3 :: byte] \<le> MAXFILE * BSIZE" by (simp add: ndefs BSIZE_def)
  have r: "4 * rounds 0 (length [1, 2, 3 :: byte]) \<le> nfree demo_fs" using demo_free by (simp add: rounds_def BSIZE_def)
  from write_read_round_trip [OF f t l r, of "\<lambda>_. None" 0 "\<lambda>_. None"] show ?thesis by (auto simp: eval_nat_numeral)
qed

text \<open>
  C23.  Round trip: an inode that \<^verbatim>\<open>iupdate\<close> has written is read back by \<^verbatim>\<open>ilock\<close>, field by field, when it comes
  into the cache again, whatever the cache holds then.
\<close>

theorem inode_round_trip:
  assumes "geo_ok s" "st_held s = {}" "i_dev (f_ic s ip) = 1" "i_inum (f_ic s ip) < sb_ninodes (f_sb s)"
    "inode_range (f_ic s ip)" "i_type (f_ic s ip) \<noteq> 0" and x: "i_dev (F jp) = 1" "i_inum (F jp) = i_inum (f_ic s ip)"
    "0 < i_ref (F jp)" "\<not> i_lock (F jp)" "\<not> i_valid (F jp)"
  shows "\<exists>s1 s2. iupdate ip s = Inr s1 \<and> ilock (Some jp) (s1\<lparr>f_ic := F\<rparr>) = Inr s2
    \<and> f_ic s2 jp = (f_ic s ip)\<lparr>i_ref := i_ref (F jp), i_lock := True, i_valid := True\<rparr>"
proof -
  let ?x = "f_ic s ip" and ?b = "IBLOCK (i_inum (f_ic s ip)) (f_sb s)" and ?o = "dip_off (i_inum (f_ic s ip))"
  have b: "?b < st_size s" by (rule IBLOCK_meta(2) [OF assms(1,4)])
  let ?s1 = "s\<lparr>st_blk := (st_blk s)(?b := put_dinode ?o ?x (st_blk s ?b)), st_logged := insert ?b (st_logged s)\<rparr>"
  have up: "iupdate ip s = Inr ?s1" using iupdate_eq [OF assms(2,3) b] by (simp add: Let_def)
  have "i_inum ?x mod IPB < 8" by (simp add: IPB_def)
  then have "?o + 64 \<le> length (st_blk s ?b)" using geo_okD(4) [OF assms(1) b] by (simp add: dip_off_def BSIZE_def)
  note R = dinode_round_trip [OF assms(5) this]
  show ?thesis
    using up x assms(2,3,6) b R
    by (simp add: ilock_def Let_def st_bread_eq st_brelse_eq)
qed

theorem inode_round_trip_witness:
  "\<exists>s1 s2. iupdate 0 demo_fs = Inr s1 \<and> ilock (Some 1) (s1\<lparr>f_ic := \<lambda>i. demo_inode\<lparr>i_lock := False, i_valid := False\<rparr>\<rparr>) = Inr s2
    \<and> f_ic s2 1 = demo_inode"
proof -
  have r: "inode_range (f_ic demo_fs 0)" by (simp add: inode_range_def demo_inode_def T_DIR_def)
  have n: "i_inum (f_ic demo_fs 0) < sb_ninodes (f_sb demo_fs)" "i_type (f_ic demo_fs 0) \<noteq> 0"
    by (simp_all add: demo_inode_def demo_sb_def T_DIR_def)
  from inode_round_trip [OF demo_geo _ _ n(1) r n(2), of "\<lambda>i. demo_inode\<lparr>i_lock := False, i_valid := False\<rparr>" 1]
  show ?thesis by (simp add: demo_inode_def)
qed

section \<open>Directories and paths\<close>

text \<open>
  C20.  \<^verbatim>\<open>dirlookup\<close> and \<^verbatim>\<open>dirlink\<close> refine a map from names to inode numbers: a lookup returns a reference to the inode of the
  map's value, linking a name that exists fails, and linking a new name extends the map by it and keeps every other name.
\<close>

theorem directory_refinement:
  assumes "dir_ok s dp"
  shows "(dir_map s dp name = None \<longrightarrow> dirlookup dp name s = Inr (None, s)) \<and>
    (\<forall>i. dir_map s dp name = Some i \<longrightarrow>
      (\<exists>off. dirlookup dp name s = rbind (iget 1 i s) (\<lambda>(ip, s). Inr (Some (ip, off), s)))) \<and>
    (\<forall>i r s'. dir_map s dp name = Some i \<longrightarrow> dirlink dp name inum s = Inr (r, s') \<longrightarrow> r = - 1) \<and>
    (dir_map s dp name = None \<and> 4 \<le> nfree s \<and> i_size (f_ic s dp) + 16 \<le> MAXFILE * BSIZE \<and> 0 < inum \<and> inum < 65536 \<longrightarrow>
      (\<exists>s'. dirlink dp name inum s = Inr (0, s') \<and> dir_ok s' dp \<and> others_same dp s s'
        \<and> (\<forall>n. dir_map s' dp n = (if nm n = nm name then Some inum else dir_map s dp n))))"
proof (intro conjI impI allI)
  show "dirlookup dp name s = Inr (None, s)" if "dir_map s dp name = None"
    using that dirlookup_ok [OF assms, of name] by (simp add: dir_map_def)
  show "\<exists>off. dirlookup dp name s = rbind (iget 1 i s) (\<lambda>(ip, s). Inr (Some (ip, off), s))" if "dir_map s dp name = Some i" for i
  proof -
    from that obtain k where "dent_at s dp name = Some k" "dent_inum s dp k = i" by (auto simp: dir_map_def)
    then show ?thesis using dirlookup_ok [OF assms, of name] by auto
  qed
  show "r = - 1" if "dir_map s dp name = Some i" "dirlink dp name inum s = Inr (r, s')" for i r s'
  proof -
    from that(1) obtain k where "dent_at s dp name = Some k" "dent_inum s dp k = i" by (auto simp: dir_map_def)
    then show ?thesis using dirlookup_ok [OF assms, of name] that(2) by (auto simp: dirlink_def rbind_eq_Inr)
  qed
  show "\<exists>s'. dirlink dp name inum s = Inr (0, s') \<and> dir_ok s' dp \<and> others_same dp s s'
        \<and> (\<forall>n. dir_map s' dp n = (if nm n = nm name then Some inum else dir_map s dp n))"
    if "dir_map s dp name = None \<and> 4 \<le> nfree s \<and> i_size (f_ic s dp) + 16 \<le> MAXFILE * BSIZE \<and> 0 < inum \<and> inum < 65536"
    using dirlink_map [OF assms, of name inum] that by (simp add: dir_map_def)
qed

theorem directory_refinement_witness:
  "\<exists>s'. dirlink 0 [97] 3 demo_fs = Inr (0, s') \<and> dir_map s' 0 [97] = Some 3"
proof -
  have n: "dir_map demo_fs 0 [97] = None" by (simp add: dir_map_def dent_at_def ndent_def demo_inode_def)
  have m: "i_size (f_ic demo_fs 0) + 16 \<le> MAXFILE * BSIZE" by (simp add: demo_inode_def ndefs BSIZE_def)
  from directory_refinement [OF demo_dir, of "[97]" 3] n m demo_free show ?thesis by auto
qed

text \<open>
  C26.  \<^verbatim>\<open>skipelem\<close> splits a path into slashes, the next element, the slashes behind it and the rest, which does not start
  with a slash; the name is the element cut to \<^verbatim>\<open>DIRSIZ\<close> bytes.  It returns nothing exactly for paths of slashes only.
\<close>

theorem skipelem_correct:
  "(skipelem path = None \<longleftrightarrow> set path \<subseteq> {SLASH}) \<and>
   (\<forall>rest name. skipelem path = Some (rest, name) \<longrightarrow>
     (\<exists>pre el post. path = pre @ el @ post @ rest \<and> set pre \<subseteq> {SLASH} \<and> set post \<subseteq> {SLASH} \<and> el \<noteq> [] \<and> SLASH \<notin> set el
        \<and> (rest = [] \<or> hd rest \<noteq> SLASH) \<and> (rest \<noteq> [] \<longrightarrow> post \<noteq> []) \<and> name = take DIRSIZ el))"
proof (intro conjI allI impI)
  show "skipelem path = None \<longleftrightarrow> set path \<subseteq> {SLASH}" by (auto simp: skipelem_def Let_def)
  fix rest name assume a: "skipelem path = Some (rest, name)"
  let ?sl = "\<lambda>c. c = SLASH" and ?ns = "\<lambda>c. c \<noteq> SLASH"
  let ?s = "dropWhile ?sl path"
  let ?el = "takeWhile ?ns ?s" and ?t = "dropWhile ?ns ?s"
  have s: "?s \<noteq> []" "rest = dropWhile ?sl ?t" "name = take DIRSIZ ?el"
    using a by (auto simp: skipelem_def Let_def split: if_splits)
  have hd: "hd ?s \<noteq> SLASH" using s(1) hd_dropWhile by blast
  have "path = takeWhile ?sl path @ ?el @ takeWhile ?sl ?t @ rest"
    unfolding s(2) by (metis takeWhile_dropWhile_id append.assoc)
  moreover have "?el \<noteq> []" using s(1) hd takeWhile_eq_Nil_iff [of ?ns ?s] by blast
  moreover have "rest = [] \<or> hd rest \<noteq> SLASH" using hd_dropWhile s(2) by blast
  moreover have "takeWhile ?sl ?t \<noteq> []" if "rest \<noteq> []"
  proof -
    have "?t \<noteq> []" using that s(2) by (metis dropWhile.simps(1))
    then have "hd ?t = SLASH" using hd_dropWhile [of ?ns ?s] by blast
    then show ?thesis using \<open>?t \<noteq> []\<close> takeWhile_eq_Nil_iff [of ?sl ?t] by blast
  qed
  ultimately show "\<exists>pre el post. path = pre @ el @ post @ rest \<and> set pre \<subseteq> {SLASH} \<and> set post \<subseteq> {SLASH} \<and> el \<noteq> [] \<and> SLASH \<notin> set el
        \<and> (rest = [] \<or> hd rest \<noteq> SLASH) \<and> (rest \<noteq> [] \<longrightarrow> post \<noteq> []) \<and> name = take DIRSIZ el"
    using s(3) by (intro exI [of _ "takeWhile ?sl path"] exI [of _ ?el] exI [of _ "takeWhile ?sl ?t"])
      (auto dest: set_takeWhileD)
qed

theorem skipelem_correct_witness:
  "skipelem [47, 47, 97, 47, 98] = Some ([98], [97]) \<and> skipelem [47, 47] = None"
  using skipelem_correct [of "[47, 47]"] by (simp add: skipelem_def DIRSIZ_def)

text \<open>
  C22.  In every state that the operations of the inode cache reach from an empty cache, the reference count of
  each entry is the number of pointers held to it, and two different entries with pointers are for different inodes.
\<close>

theorem icache_references:
  assumes "ic_reach (s, R)"
  shows "(\<forall>i<NINODE. i_ref (f_ic s i) = int (count R i)) \<and>
    (\<forall>i\<in>#R. \<forall>j\<in>#R. i_dev (f_ic s i) = i_dev (f_ic s j) \<and> i_inum (f_ic s i) = i_inum (f_ic s j) \<longrightarrow> i = j)"
  using ic_reach_inv [OF assms] by (simp add: ic_inv_def)

definition demo_empty :: fs where
  "demo_empty = demo_fs\<lparr>f_ic := \<lambda>_. demo_inode\<lparr>i_ref := 0, i_lock := False, i_valid := False\<rparr>\<rparr>"

theorem icache_references_witness:
  "\<exists>s. iget 1 7 demo_empty = Inr (0, s) \<and> i_ref (f_ic s 0) = int (count {#0#} 0)"
proof -
  let ?s = "upd_ip 0 (\<lambda>x. x\<lparr>i_dev := 1, i_inum := 7, i_ref := 1, i_valid := False\<rparr>) demo_empty"
  have n: "[0..<NINODE] = 0 # [1..<NINODE]" by (simp add: NINODE_def upt_rec)
  have r: "i_ref (f_ic demo_empty i) = 0" for i by (simp add: demo_empty_def)
  have e: "first_index (\<lambda>i. i_ref (f_ic demo_empty i) > 0 \<and> i_dev (f_ic demo_empty i) = 1 \<and> i_inum (f_ic demo_empty i) = 7) [0..<NINODE] = None"
      "first_index (\<lambda>i. i_ref (f_ic demo_empty i) = 0) [0..<NINODE] = Some 0"
    using r by (simp_all add: n)
  have g: "iget 1 7 demo_empty = Inr (0, ?s)" unfolding iget_def e option.case by (rule refl)
  have "ic_reach (demo_empty, {#})" by (rule reach_init) (simp add: demo_empty_def)
  from reach_step [OF this step_iget [OF g]] have "ic_reach (?s, {#0#})" by simp
  from icache_references [OF this] have "i_ref (f_ic ?s 0) = int (count {#0#} 0)" by (simp add: NINODE_def)
  then show ?thesis using g by blast
qed



end
