(* ===== verification/Xv6_Pipe.thy ===== *)
theory Xv6_Pipe
  imports Xv6_Prelude
begin

text \<open>
  Pipes (\<^verbatim>\<open>pipe.c\<close>).  The counters \<^verbatim>\<open>nread\<close> and \<^verbatim>\<open>nwrite\<close> are 32-bit words that wrap around.  A function that goes to sleep returns
  \<open>Asleep\<close> with the work that is left; when it is woken, the loop tests its condition again, which is
  the same function on what is left.  The channels that are woken up are part of the result.
\<close>

section \<open>State and operations\<close>

definition PIPESIZE :: nat where "PIPESIZE = 512"

record pipe =
  p_data :: "8 word list"
  p_nread :: "32 word"
  p_nwrite :: "32 word"
  p_readopen :: bool
  p_writeopen :: bool

datatype chan = ChanRead | ChanWrite   \<comment> \<open>\<^verbatim>\<open>&p->nread\<close> and \<^verbatim>\<open>&p->nwrite\<close>\<close>

datatype 'a outcome = Done 'a | Failed | Asleep chan

text \<open>The part of \<^verbatim>\<open>pipealloc\<close> that sets up the pipe in a fresh page, whose contents are arbitrary.\<close>

definition pipe_init :: "8 word list \<Rightarrow> pipe" where
  "pipe_init page = \<lparr>p_data = page, p_nread = 0, p_nwrite = 0, p_readopen = True, p_writeopen = True\<rparr>"

text \<open>\<^verbatim>\<open>pipeclose\<close>; the first result says whether the page is freed.\<close>

definition pipeclose :: "bool \<Rightarrow> pipe \<Rightarrow> bool \<times> chan list \<times> pipe" where
  "pipeclose writable p =
     (let (w, p) = (if writable then ([ChanRead], p\<lparr>p_writeopen := False\<rparr>) else ([ChanWrite], p\<lparr>p_readopen := False\<rparr>)) in
      (\<not> p_readopen p \<and> \<not> p_writeopen p, w, p))"

definition pipe_full :: "pipe \<Rightarrow> bool" where
  "pipe_full p \<longleftrightarrow> p_nwrite p = p_nread p + of_nat PIPESIZE"

text \<open>
  \<^verbatim>\<open>pipewrite\<close> on the bytes that are still to be written: the outcome, the bytes left and the wakeups.
\<close>

fun pipewrite_loop :: "bool \<Rightarrow> 8 word list \<Rightarrow> pipe \<Rightarrow> unit outcome \<times> 8 word list \<times> chan list \<times> pipe" where
  "pipewrite_loop killed [] p = (Done (), [], [ChanRead], p)"
| "pipewrite_loop killed (c # cs) p =
     (if pipe_full p then
        if \<not> p_readopen p \<or> killed then (Failed, c # cs, [], p)
        else (Asleep ChanWrite, c # cs, [ChanRead], p)
      else
        pipewrite_loop killed cs
          (p\<lparr>p_data := (p_data p)[unat (p_nwrite p) mod PIPESIZE := c], p_nwrite := p_nwrite p + 1\<rparr>))"

definition pipewrite :: "bool \<Rightarrow> 8 word list \<Rightarrow> int \<Rightarrow> pipe \<Rightarrow> int outcome \<times> 8 word list \<times> chan list \<times> pipe" where
  "pipewrite killed addr n p =
     (case pipewrite_loop killed (take (nat n) addr) p of
        (Done _, rest, w, p) \<Rightarrow> (Done n, rest, w, p)
      | (Failed, rest, w, p) \<Rightarrow> (Failed, rest, w, p)
      | (Asleep c, rest, w, p) \<Rightarrow> (Asleep c, rest, w, p))"

fun piperead_copy :: "nat \<Rightarrow> pipe \<Rightarrow> 8 word list \<times> pipe" where
  "piperead_copy 0 p = ([], p)"
| "piperead_copy (Suc n) p =
     (if p_nread p = p_nwrite p then ([], p)
      else
        let c = p_data p ! (unat (p_nread p) mod PIPESIZE);
            (cs, p) = piperead_copy n (p\<lparr>p_nread := p_nread p + 1\<rparr>)
        in (c # cs, p))"

definition piperead :: "bool \<Rightarrow> int \<Rightarrow> pipe \<Rightarrow> 8 word list outcome \<times> chan list \<times> pipe" where
  "piperead killed n p =
     (if p_nread p = p_nwrite p \<and> p_writeopen p then
        if killed then (Failed, [], p) else (Asleep ChanRead, [], p)
      else let (cs, p) = piperead_copy (nat n) p in (Done cs, [ChanWrite], p))"

section \<open>The queue of bytes\<close>

definition plen :: "pipe \<Rightarrow> nat" where
  "plen p = unat (p_nwrite p - p_nread p)"

definition pipe_ok :: "pipe \<Rightarrow> bool" where
  "pipe_ok p \<longleftrightarrow> length (p_data p) = PIPESIZE \<and> plen p \<le> PIPESIZE"

definition contents :: "pipe \<Rightarrow> 8 word list" where
  "contents p = map (\<lambda>k. p_data p ! (unat (p_nread p + of_nat k) mod PIPESIZE)) [0..<plen p]"

text \<open>The size of the buffer divides the range of the counters, so the slots are right across the wrap-around.\<close>

lemma slot_add: "unat (w + of_nat k :: 32 word) mod PIPESIZE = (unat w mod PIPESIZE + k) mod PIPESIZE"
proof -
  have d: "PIPESIZE dvd 2 ^ 32" unfolding PIPESIZE_def by (rule dvdI [of _ _ 8388608]) simp
  have "unat (w + of_nat k :: 32 word) = (unat w + k) mod 2 ^ 32" by (simp add: unat_word_ariths unat_of_nat mod_simps)
  then have "unat (w + of_nat k :: 32 word) mod PIPESIZE = (unat w + k) mod PIPESIZE" using mod_mod_cancel [OF d] by simp
  then show ?thesis by (simp add: mod_add_left_eq)
qed

lemma slot_inj:
  assumes "i < PIPESIZE" "j < PIPESIZE" "(a + i) mod PIPESIZE = (a + j) mod PIPESIZE"
  shows "i = j"
proof -
  have "i mod PIPESIZE = j mod PIPESIZE" using assms(3) by (simp add: nat_mod_eq_iff)
  then show ?thesis using assms(1,2) by simp
qed

lemma unat_Suc: "unat d < PIPESIZE \<Longrightarrow> unat (d + 1 :: 32 word) = Suc (unat d)"
  by (simp add: unat_word_ariths PIPESIZE_def)

lemma pipe_full_len: "pipe_ok p \<Longrightarrow> pipe_full p \<longleftrightarrow> plen p = PIPESIZE"
proof -
  have "p_nwrite p = p_nread p + of_nat PIPESIZE \<longleftrightarrow> p_nwrite p - p_nread p = of_nat PIPESIZE" by (auto simp: algebra_simps)
  also have "\<dots> \<longleftrightarrow> plen p = PIPESIZE" by (simp add: plen_def PIPESIZE_def word_unat_eq_iff)
  finally show ?thesis unfolding pipe_full_def .
qed

lemma pipe_empty_len: "p_nread p = p_nwrite p \<longleftrightarrow> plen p = 0"
  by (auto simp: plen_def unat_eq_0)

lemma put_byte:
  fixes c :: "8 word"
  assumes ok: "pipe_ok p" and n: "\<not> pipe_full p"
  defines "p' \<equiv> p\<lparr>p_data := (p_data p)[unat (p_nwrite p) mod PIPESIZE := c], p_nwrite := p_nwrite p + 1\<rparr>"
  shows "pipe_ok p'" "contents p' = contents p @ [c]"
proof -
  have l: "plen p < PIPESIZE" "length (p_data p) = PIPESIZE" using pipe_full_len [OF ok] n ok by (auto simp: pipe_ok_def)
  have len: "plen p' = Suc (plen p)"
    using unat_Suc [of "p_nwrite p - p_nread p"] l(1) by (simp add: plen_def p'_def algebra_simps)
  then show "pipe_ok p'" using l by (simp add: pipe_ok_def p'_def)
  have pos: "0 < PIPESIZE" by (simp add: PIPESIZE_def)
  have w: "p_nwrite p = p_nread p + of_nat (plen p)" by (simp add: plen_def)
  have slot: "unat (p_nwrite p) mod PIPESIZE = (unat (p_nread p) mod PIPESIZE + plen p) mod PIPESIZE"
    by (subst w) (rule slot_add)
  have old: "p_data p' ! (unat (p_nread p + of_nat k) mod PIPESIZE) = p_data p ! (unat (p_nread p + of_nat k) mod PIPESIZE)" if "k < plen p" for k
  proof -
    have "unat (p_nread p + of_nat k) mod PIPESIZE \<noteq> unat (p_nwrite p) mod PIPESIZE"
      unfolding slot slot_add using slot_inj [of k "plen p"] that l(1) by auto
    then show ?thesis by (simp add: p'_def)
  qed
  have new: "p_data p' ! (unat (p_nread p + of_nat (plen p)) mod PIPESIZE) = c"
    using pos l(2) w by (simp add: p'_def)
  have "contents p' = map (\<lambda>k. p_data p' ! (unat (p_nread p + of_nat k) mod PIPESIZE)) ([0..<plen p] @ [plen p])"
    unfolding contents_def len by (simp add: p'_def)
  also have "\<dots> = contents p @ [c]" using old new by (simp add: contents_def)
  finally show "contents p' = contents p @ [c]" .
qed

lemma take_byte:
  assumes ok: "pipe_ok p" and n: "p_nread p \<noteq> p_nwrite p"
  defines "p' \<equiv> p\<lparr>p_nread := p_nread p + 1\<rparr>"
  shows "pipe_ok p'" "contents p = p_data p ! (unat (p_nread p) mod PIPESIZE) # contents p'"
proof -
  have "plen p \<noteq> 0" using n pipe_empty_len by blast
  then obtain m where m: "plen p = Suc m" by (cases "plen p") auto
  have l: "plen p \<le> PIPESIZE" using ok by (simp add: pipe_ok_def)
  have "unat (p_nwrite p' - p_nread p') < PIPESIZE"
  proof -
    have "p_nwrite p - p_nread p = of_nat (Suc m)" using m unfolding plen_def by (metis word_of_nat_eq_iff unsigned_of_nat word_unat_eq_iff of_nat_unat ucast_id)
    then have "p_nwrite p' - p_nread p' = of_nat m" by (simp add: p'_def algebra_simps)
    then show ?thesis using l m by (simp add: unat_of_nat PIPESIZE_def)
  qed
  then have len: "plen p = Suc (plen p')"
    using unat_Suc [of "p_nwrite p' - p_nread p'"] by (simp add: plen_def p'_def)
  then show "pipe_ok p'" using ok by (simp add: pipe_ok_def p'_def)
  have "[0..<plen p] = 0 # map Suc [0..<plen p']" unfolding len by (simp add: upt_conv_Cons map_Suc_upt del: upt_Suc)
  then show "contents p = p_data p ! (unat (p_nread p) mod PIPESIZE) # contents p'"
    by (simp add: contents_def p'_def comp_def algebra_simps)
qed

lemma pipewrite_loop_ok:
  "pipe_ok p \<Longrightarrow> pipewrite_loop killed cs p = (r, rest, w, p') \<Longrightarrow>
   pipe_ok p' \<and> (\<exists>ds. cs = ds @ rest \<and> contents p' = contents p @ ds) \<and> (r = Done () \<longleftrightarrow> rest = [])"
proof (induction cs arbitrary: p)
  case (Cons c cs)
  show ?case
  proof (cases "pipe_full p")
    case True
    then show ?thesis using Cons.prems by (auto split: if_splits)
  next
    case False
    note P = put_byte [OF Cons.prems(1) False, of c]
    from Cons.IH [OF P(1)] Cons.prems(2) False obtain ds where
      "pipe_ok p'" "cs = ds @ rest" "contents p' = (contents p @ [c]) @ ds" "r = Done () \<longleftrightarrow> rest = []"
      unfolding P(2) by auto
    then show ?thesis by (intro conjI exI [of _ "c # ds"]) auto
  qed
qed auto

lemma piperead_copy_ok:
  "pipe_ok p \<Longrightarrow> piperead_copy n p = (cs, p') \<Longrightarrow> pipe_ok p' \<and> contents p = cs @ contents p' \<and> length cs = min n (plen p)"
proof (induction n arbitrary: p cs p')
  case (Suc n)
  show ?case
  proof (cases "p_nread p = p_nwrite p")
    case True
    then show ?thesis using Suc.prems pipe_empty_len [of p] by auto
  next
    case False
    note P = take_byte [OF Suc.prems(1) False]
    obtain ds q where q: "piperead_copy n (p\<lparr>p_nread := p_nread p + 1\<rparr>) = (ds, q)" by (cases "piperead_copy n (p\<lparr>p_nread := p_nread p + 1\<rparr>)")
    have e: "cs = p_data p ! (unat (p_nread p) mod PIPESIZE) # ds" "p' = q" using Suc.prems(2) False q by (auto simp: Let_def)
    have "plen p = Suc (plen (p\<lparr>p_nread := p_nread p + 1\<rparr>))" using arg_cong [OF P(2), of length] by (simp add: contents_def)
    then show ?thesis using Suc.IH [OF P(1) q] P(2) e by simp
  qed
qed auto

section \<open>Runs of a pipe\<close>

text \<open>
  Readers and writers take turns in any order; \<open>run\<close> collects the bytes that the writers have put in and the bytes
  that the readers have got.
\<close>

datatype pevent = PWrite bool "8 word list" | PRead bool int | PClose bool

fun pstep :: "pevent \<Rightarrow> pipe \<Rightarrow> 8 word list \<times> 8 word list \<times> pipe" where
  "pstep (PWrite killed cs) p =
     (case pipewrite_loop killed cs p of (r, rest, w, p) \<Rightarrow> (take (length cs - length rest) cs, [], p))"
| "pstep (PRead killed n) p =
     (case piperead killed n p of (Done ds, w, p) \<Rightarrow> ([], ds, p) | (_, w, p) \<Rightarrow> ([], [], p))"
| "pstep (PClose writable) p = (case pipeclose writable p of (f, w, p) \<Rightarrow> ([], [], p))"

fun prun :: "pevent list \<Rightarrow> pipe \<Rightarrow> 8 word list \<times> 8 word list \<times> pipe" where
  "prun [] p = ([], [], p)"
| "prun (e # es) p =
     (case pstep e p of (i, u, p) \<Rightarrow> case prun es p of (is, us, p) \<Rightarrow> (i @ is, u @ us, p))"

lemma pstep_ok:
  assumes "pipe_ok p" "pstep e p = (i, u, p')"
  shows "pipe_ok p' \<and> contents p @ i = u @ contents p'"
proof (cases e)
  case (PWrite killed cs)
  obtain r rest w q where q: "pipewrite_loop killed cs p = (r, rest, w, q)" by (metis prod_cases4)
  then show ?thesis using pipewrite_loop_ok [OF assms(1) q] assms(2) PWrite by auto
next
  case (PRead killed n)
  show ?thesis
  proof (cases "p_nread p = p_nwrite p \<and> p_writeopen p")
    case True
    then show ?thesis using assms PRead by (auto simp: piperead_def split: if_splits)
  next
    case False
    obtain cs q where q: "piperead_copy (nat n) p = (cs, q)" by (cases "piperead_copy (nat n) p")
    then have "u = cs" "i = []" "p' = q" using assms(2) PRead False by (auto simp: piperead_def)
    then show ?thesis using piperead_copy_ok [OF assms(1) q] by simp
  qed
next
  case (PClose writable)
  then show ?thesis using assms by (auto simp: pipeclose_def pipe_ok_def plen_def contents_def Let_def split: if_splits)
qed

lemma prun_ok: "pipe_ok p \<Longrightarrow> prun es p = (i, u, p') \<Longrightarrow> pipe_ok p' \<and> contents p @ i = u @ contents p'"
proof (induction es arbitrary: p i u p')
  case (Cons e es)
  obtain i1 u1 q where q: "pstep e p = (i1, u1, q)" by (metis prod_cases3)
  obtain i2 u2 r where r: "prun es q = (i2, u2, r)" by (metis prod_cases3)
  have e: "i = i1 @ i2" "u = u1 @ u2" "p' = r" using Cons.prems(2) q r by simp_all
  from pstep_ok [OF Cons.prems(1) q] have 1: "pipe_ok q" "contents p @ i1 = u1 @ contents q" by simp_all
  from Cons.IH [OF 1(1) r] have "pipe_ok r" "contents q @ i2 = u2 @ contents r" by simp_all
  then show ?case unfolding e using 1(2) by (metis append.assoc)
qed auto

section \<open>Properties\<close>

text \<open>
  C39.  A pipe is a queue of at most 512 bytes: in every interleaving of writers and readers, whether they finish, sleep or
  fail, the bytes read followed by the bytes still in the pipe are the bytes that were in it followed by
  the bytes written, in order, also when the 32-bit counters wrap around.
\<close>

theorem pipe_fifo:
  assumes "pipe_ok p" "prun es p = (i, u, p')"
  shows "u @ contents p' = contents p @ i \<and> length (contents p') \<le> PIPESIZE"
  using prun_ok [OF assms] by (simp add: contents_def pipe_ok_def)

definition demo_pipe :: pipe where
  "demo_pipe = (pipe_init (replicate PIPESIZE 0))\<lparr>p_nread := - 1, p_nwrite := - 1\<rparr>"

theorem pipe_fifo_witness:
  "case prun [PWrite False [1, 2, 3], PRead False 2] demo_pipe of (i, u, p) \<Rightarrow> u @ contents p = [1, 2, 3]"
proof -
  have ok: "pipe_ok demo_pipe" by (simp add: pipe_ok_def demo_pipe_def pipe_init_def plen_def)
  obtain i u p where r: "prun [PWrite False [1, 2, 3], PRead False 2] demo_pipe = (i, u, p)" by (metis prod_cases3)
  moreover have "contents demo_pipe = []" by (simp add: contents_def demo_pipe_def plen_def)
  moreover have "i = [1, 2, 3]"
    using r by (auto simp: demo_pipe_def pipe_init_def pipe_full_def PIPESIZE_def piperead_def split: prod.splits if_splits)
  ultimately show ?thesis using pipe_fifo [OF ok r] by simp
qed

end
