(* ===== verification/Xv6_File.thy ===== *)
theory Xv6_File
  imports Fs_System Xv6_Pipe
begin

text \<open>
  Open files (\<^verbatim>\<open>file.c\<close>) and the creation of pipes (\<^verbatim>\<open>pipealloc\<close>), over the file system of project 3.  A pipe lives in a page of
  the page allocator, whose free list is \<open>k_free\<close>; \<open>k_pipe\<close> is the memory of the pages, read as \<^verbatim>\<open>struct pipe\<close>.
  \<open>killed\<close> is \<^verbatim>\<open>myproc()->killed\<close>, \<open>cwd\<close> is \<^verbatim>\<open>myproc()->cwd\<close>.
\<close>

section \<open>State\<close>

definition NFILE :: nat where "NFILE = 100"

datatype ftype = FD_NONE | FD_PIPE | FD_INODE

record file_t =
  fl_type :: ftype
  fl_ref :: int
  fl_readable :: bool
  fl_writable :: bool
  fl_pipe :: nat
  fl_ip :: nat
  fl_off :: nat

record ksys =
  k_fs :: fs
  k_out :: int               \<comment> \<open>\<^verbatim>\<open>log.outstanding\<close>\<close>
  k_file :: "nat \<Rightarrow> file_t"
  k_pipe :: "nat \<Rightarrow> pipe"
  k_free :: "nat list"

abbreviation upd_file :: "nat \<Rightarrow> (file_t \<Rightarrow> file_t) \<Rightarrow> ksys \<Rightarrow> ksys" where
  "upd_file f g s \<equiv> s\<lparr>k_file := (k_file s)(f := g (k_file s f))\<rparr>"

abbreviation upd_pipe :: "nat \<Rightarrow> pipe \<Rightarrow> ksys \<Rightarrow> ksys" where
  "upd_pipe a p s \<equiv> s\<lparr>k_pipe := (k_pipe s)(a := p)\<rparr>"

text \<open>Running an operation of the file system.\<close>

definition on_fs :: "(fs \<Rightarrow> fs result) \<Rightarrow> ksys \<Rightarrow> ksys result" where
  "on_fs f s = rbind (f (k_fs s)) (\<lambda>t. Inr (s\<lparr>k_fs := t\<rparr>))"

definition on_fs_val :: "(fs \<Rightarrow> ('a \<times> fs) result) \<Rightarrow> ksys \<Rightarrow> ('a \<times> ksys) result" where
  "on_fs_val f s = rbind (f (k_fs s)) (\<lambda>(r, t). Inr (r, s\<lparr>k_fs := t\<rparr>))"

definition op_begin :: "ksys \<Rightarrow> ksys" where "op_begin s = s\<lparr>k_out := k_out s + 1\<rparr>"
definition op_end :: "ksys \<Rightarrow> ksys" where "op_end s = s\<lparr>k_out := k_out s - 1\<rparr>"

section \<open>The file table\<close>

definition filealloc :: "ksys \<Rightarrow> nat option \<times> ksys" where
  "filealloc s =
     (case first_index (\<lambda>f. fl_ref (k_file s f) = 0) [0..<NFILE] of
        Some f \<Rightarrow> (Some f, upd_file f (\<lambda>x. x\<lparr>fl_ref := 1\<rparr>) s)
      | None \<Rightarrow> (None, s))"

definition filedup :: "nat \<Rightarrow> ksys \<Rightarrow> ksys result" where
  "filedup f s =
     (if fl_ref (k_file s f) < 1 then Inl (Panic ''filedup'')
      else Inr (upd_file f (\<lambda>x. x\<lparr>fl_ref := fl_ref x + 1\<rparr>) s))"

definition kfree_pipe :: "nat \<Rightarrow> ksys \<Rightarrow> ksys" where
  "kfree_pipe a s = s\<lparr>k_free := a # k_free s\<rparr>"

definition fileclose :: "nat \<Rightarrow> ksys \<Rightarrow> ksys result" where
  "fileclose f s =
     (if fl_ref (k_file s f) < 1 then Inl (Panic ''fileclose'')
      else if fl_ref (k_file s f) - 1 > 0 then Inr (upd_file f (\<lambda>x. x\<lparr>fl_ref := fl_ref x - 1\<rparr>) s)
      else
        let ff = k_file s f; s = upd_file f (\<lambda>x. x\<lparr>fl_ref := 0, fl_type := FD_NONE\<rparr>) s in
        case fl_type ff of
          FD_PIPE \<Rightarrow>
            (case pipeclose (fl_writable ff) (k_pipe s (fl_pipe ff)) of
               (freed, w, p) \<Rightarrow>
                 let s = upd_pipe (fl_pipe ff) p s in Inr (if freed then kfree_pipe (fl_pipe ff) s else s))
        | FD_INODE \<Rightarrow> rbind (on_fs (iput (fl_ip ff)) (op_begin s)) (\<lambda>s. Inr (op_end s))
        | FD_NONE \<Rightarrow> Inr s)"

definition filestat :: "nat \<Rightarrow> ksys \<Rightarrow> (stat option \<times> ksys) result" where
  "filestat f s =
     (if fl_type (k_file s f) = FD_INODE then
        let ip = fl_ip (k_file s f) in
        rbind (on_fs (ilock (Some ip)) s) (\<lambda>s.
        let st = stati ip (k_fs s) in
        rbind (on_fs (iunlock (Some ip)) s) (\<lambda>s. Inr (Some st, s)))
      else Inr (None, s))"

text \<open>A system call returns a value or sleeps in the pipe.\<close>

datatype 'a sysret = Ret 'a | Block chan

definition fileread :: "dev_read \<Rightarrow> bool \<Rightarrow> nat \<Rightarrow> nat \<Rightarrow> int \<Rightarrow> ksys \<Rightarrow> ((int \<times> byte list) sysret \<times> ksys) result" where
  "fileread devsw killed cwd f n s =
     (let x = k_file s f in
      if \<not> fl_readable x then Inr (Ret (- 1, []), s)
      else case fl_type x of
        FD_PIPE \<Rightarrow>
          (case piperead killed n (k_pipe s (fl_pipe x)) of
             (Done ds, w, p) \<Rightarrow> Inr (Ret (int (length ds), ds), upd_pipe (fl_pipe x) p s)
           | (Failed, w, p) \<Rightarrow> Inr (Ret (- 1, []), upd_pipe (fl_pipe x) p s)
           | (Asleep c, w, p) \<Rightarrow> Inr (Block c, upd_pipe (fl_pipe x) p s))
      | FD_INODE \<Rightarrow>
          rbind (on_fs (ilock (Some (fl_ip x))) s) (\<lambda>s.
          rbind (on_fs_val (readi devsw cwd (fl_ip x) (fl_off x) (nat (n mod 2 ^ 32))) s) (\<lambda>((r, ds), s).
          let s = (if r > 0 then upd_file f (\<lambda>x. x\<lparr>fl_off := (fl_off x + nat r) mod 2 ^ 32\<rparr>) s else s) in
          rbind (on_fs (iunlock (Some (fl_ip x))) s) (\<lambda>s. Inr (Ret (r, ds), s))))
      | FD_NONE \<Rightarrow> Inl (Panic ''fileread''))"

text \<open>The most that one round of \<^verbatim>\<open>filewrite\<close> writes: \<^verbatim>\<open>((MAXOPBLOCKS-1-1-2) / 2) * 512\<close>.\<close>

definition MAXWRITE :: nat where "MAXWRITE = ((10 - 1 - 1 - 2) div 2) * 512"

text \<open>One round: write the bytes \<open>src\<close> at the offset of the file, inside a transaction.\<close>

definition filewrite_round :: "dev_write \<Rightarrow> nat \<Rightarrow> nat \<Rightarrow> byte list \<Rightarrow> ksys \<Rightarrow> (int \<times> ksys) result" where
  "filewrite_round devsw cwd f src s =
     (let ip = fl_ip (k_file s f) in
      rbind (on_fs (ilock (Some ip)) (op_begin s)) (\<lambda>s.
      rbind (on_fs_val (writei devsw cwd ip src (fl_off (k_file s f)) (length src)) s) (\<lambda>(r, s).
      let s = (if r > 0 then upd_file f (\<lambda>x. x\<lparr>fl_off := (fl_off x + nat r) mod 2 ^ 32\<rparr>) s else s) in
      rbind (on_fs (iunlock (Some ip)) s) (\<lambda>s. Inr (r, op_end s)))))"

text \<open>The loop of \<^verbatim>\<open>filewrite\<close> on the bytes that are left; it returns whether all of them were written.\<close>

function filewrite_loop :: "dev_write \<Rightarrow> nat \<Rightarrow> nat \<Rightarrow> byte list \<Rightarrow> ksys \<Rightarrow> (bool \<times> ksys) result" where
  "filewrite_loop devsw cwd f src s =
     (if src = [] then Inr (True, s)
      else
        let n1 = min (length src) MAXWRITE in
        rbind (filewrite_round devsw cwd f (take n1 src) s) (\<lambda>(r, s).
          if r < 0 then Inr (False, s)
          else if r \<noteq> int n1 then Inl (Panic ''short filewrite'')
          else filewrite_loop devsw cwd f (drop n1 src) s))"
  by pat_completeness auto
termination by (relation "measure (\<lambda>(dv, cwd, f, src, s). length src)") (auto simp: MAXWRITE_def)

declare filewrite_loop.simps [simp del]

definition filewrite :: "dev_write \<Rightarrow> bool \<Rightarrow> nat \<Rightarrow> nat \<Rightarrow> byte list \<Rightarrow> int \<Rightarrow> ksys \<Rightarrow> ((int \<times> byte list) sysret \<times> ksys) result" where
  "filewrite devsw killed cwd f addr n s =
     (let x = k_file s f in
      if \<not> fl_writable x then Inr (Ret (- 1, []), s)
      else case fl_type x of
        FD_PIPE \<Rightarrow>
          (case pipewrite killed addr n (k_pipe s (fl_pipe x)) of
             (Done r, rest, w, p) \<Rightarrow> Inr (Ret (r, rest), upd_pipe (fl_pipe x) p s)
           | (Failed, rest, w, p) \<Rightarrow> Inr (Ret (- 1, rest), upd_pipe (fl_pipe x) p s)
           | (Asleep c, rest, w, p) \<Rightarrow> Inr (Block c, upd_pipe (fl_pipe x) p s))
      | FD_INODE \<Rightarrow>
          rbind (filewrite_loop devsw cwd f (take (nat n) addr) s) (\<lambda>(ok, s). Inr (Ret (if ok \<and> 0 \<le> n then n else - 1, []), s))
      | FD_NONE \<Rightarrow> Inl (Panic ''filewrite''))"

section \<open>Making a pipe\<close>

definition pipealloc_bad :: "nat option \<Rightarrow> nat option \<Rightarrow> ksys \<Rightarrow> ((nat \<times> nat) option \<times> ksys) result" where
  "pipealloc_bad f0 f1 s =
     rbind (case f0 of None \<Rightarrow> Inr s | Some f \<Rightarrow> fileclose f s) (\<lambda>s.
     rbind (case f1 of None \<Rightarrow> Inr s | Some f \<Rightarrow> fileclose f s) (\<lambda>s. Inr (None, s)))"

definition pipealloc :: "ksys \<Rightarrow> ((nat \<times> nat) option \<times> ksys) result" where
  "pipealloc s =
     (case filealloc s of
        (None, s) \<Rightarrow> pipealloc_bad None None s
      | (Some f0, s) \<Rightarrow>
          (case filealloc s of
             (None, s) \<Rightarrow> pipealloc_bad (Some f0) None s
           | (Some f1, s) \<Rightarrow>
               (case k_free s of
                  [] \<Rightarrow> pipealloc_bad (Some f0) (Some f1) s
                | p # ps \<Rightarrow>
                    let s = upd_pipe p (pipe_init (p_data (k_pipe s p))) (s\<lparr>k_free := ps\<rparr>);
                        s = upd_file f0 (\<lambda>x. x\<lparr>fl_type := FD_PIPE, fl_readable := True, fl_writable := False, fl_pipe := p\<rparr>) s;
                        s = upd_file f1 (\<lambda>x. x\<lparr>fl_type := FD_PIPE, fl_readable := False, fl_writable := True, fl_pipe := p\<rparr>) s
                    in Inr (Some (f0, f1), s))))"

section \<open>Writing through an open file\<close>

lemma writei_plain:
  assumes "i_type (f_ic t ip) \<noteq> T_SYM" "i_type (f_ic t ip) \<noteq> T_DEV"
  shows "writei dw cwd ip src off n t =
    rbind (writei_data ip src off n t) (\<lambda>(r, t). case r of None \<Rightarrow> Inr (- 1, t) | Some r \<Rightarrow> Inr (r, t))"
  using assms by (cases "writei_data ip src off n t")
    (auto simp: writei_def follow.simps [of cwd _ ip t] relock_def Let_def split: option.splits)

abbreviation set_lock :: "nat \<Rightarrow> bool \<Rightarrow> fs \<Rightarrow> fs" where
  "set_lock ip b t \<equiv> upd_ip ip (\<lambda>x. x\<lparr>i_lock := b\<rparr>) t"

lemma lock_irrelevant:
  "node (set_lock ip b t) ip = node t ip" "file_ok (set_lock ip b t) ip = file_ok t ip" "fbyte (set_lock ip b t) ip = fbyte t ip"
  "nfree (set_lock ip b t) = nfree t"
proof -
  show n: "node (set_lock ip b t) ip = node t ip" by (simp add: fun_eq_iff node_def root_def)
  have "tree_ok (set_lock ip b t) ip = tree_ok t ip" unfolding tree_ok_def n by simp
  then show "file_ok (set_lock ip b t) ip = file_ok t ip" unfolding file_ok_def fs_ok_def full_def n by simp
  show "fbyte (set_lock ip b t) ip = fbyte t ip" by (simp add: fun_eq_iff fbyte_def fblk_def n)
  show "nfree (set_lock ip b t) = nfree t" by (simp add: nfree_def)
qed

text \<open>An open regular file: its inode is in the cache, valid, unlocked and well formed.\<close>

definition open_ok :: "ksys \<Rightarrow> nat \<Rightarrow> bool" where
  "open_ok s f \<longleftrightarrow> (let x = k_file s f; i = f_ic (k_fs s) (fl_ip x) in
     fl_type x = FD_INODE \<and> file_ok (k_fs s) (fl_ip x) \<and> 0 < i_ref i \<and> \<not> i_lock i \<and> i_valid i
     \<and> i_type i \<noteq> T_SYM \<and> i_type i \<noteq> T_DEV \<and> fl_off x \<le> i_size i)"

definition fsize :: "ksys \<Rightarrow> nat \<Rightarrow> nat" where
  "fsize s f = i_size (f_ic (k_fs s) (fl_ip (k_file s f)))"

definition fcont :: "ksys \<Rightarrow> nat \<Rightarrow> nat \<Rightarrow> byte" where
  "fcont s f = fbyte (k_fs s) (fl_ip (k_file s f))"

definition nchunks :: "nat \<Rightarrow> nat" where
  "nchunks n = (n + MAXWRITE - 1) div MAXWRITE"

lemma nchunks_step: "0 < n \<Longrightarrow> nchunks n = Suc (nchunks (n - min n MAXWRITE))"
proof (cases "n \<le> MAXWRITE")
  case True
  assume "0 < n"
  then have "n + MAXWRITE - 1 = (n - 1) + 1 * MAXWRITE" "n - 1 < MAXWRITE" "MAXWRITE \<noteq> 0" using True by (simp_all add: MAXWRITE_def)
  then have "(n + MAXWRITE - 1) div MAXWRITE = 1" by (metis div_mult_self1 div_less add_0_right)
  then show ?thesis using True by (simp add: nchunks_def MAXWRITE_def)
next
  case False
  then have "n + MAXWRITE - 1 = (n - MAXWRITE + MAXWRITE - 1) + 1 * MAXWRITE" "MAXWRITE \<noteq> 0" by (simp_all add: MAXWRITE_def)
  then have "(n + MAXWRITE - 1) div MAXWRITE = 1 + (n - MAXWRITE + MAXWRITE - 1) div MAXWRITE"
    by (metis div_mult_self1)
  then show ?thesis using False by (simp add: nchunks_def)
qed

lemma rounds_chunk: "n \<le> MAXWRITE \<Longrightarrow> rounds off n \<le> 4"
proof -
  assume "n \<le> MAXWRITE"
  then have "off mod BSIZE + n + BSIZE - 1 \<le> 2558" using mod_less_divisor [OF BSIZE_pos, of off] by (simp add: BSIZE_def MAXWRITE_def)
  from div_le_mono [OF this, of BSIZE] show ?thesis by (simp add: rounds_def BSIZE_def)
qed

lemma filewrite_step:
  assumes ok: "open_ok s f" and n: "src \<noteq> []" "length src \<le> MAXWRITE" and sz: "fl_off (k_file s f) + length src \<le> MAXFILE * BSIZE"
    and fr: "16 \<le> nfree (k_fs s)"
  shows "\<exists>s'. filewrite_round dw cwd f src s = Inr (int (length src), s') \<and> open_ok s' f \<and> k_out s' = k_out s \<and> fl_ip (k_file s' f) = fl_ip (k_file s f)
    \<and> fl_off (k_file s' f) = fl_off (k_file s f) + length src \<and> fsize s' f = max (fsize s f) (fl_off (k_file s f) + length src)
    \<and> (\<forall>i < MAXFILE * BSIZE. fcont s' f i = patched (fl_off (k_file s f)) src (fcont s f) i)
    \<and> nfree (k_fs s) \<le> nfree (k_fs s') + 16 \<and> k_pipe s' = k_pipe s \<and> k_free s' = k_free s \<and> (\<forall>g. g \<noteq> f \<longrightarrow> k_file s' g = k_file s g)"
proof -
  let ?x = "k_file s f"
  let ?ip = "fl_ip ?x" and ?off = "fl_off ?x" and ?t = "k_fs s"
  let ?i = "f_ic ?t ?ip"
  have O: "fl_type ?x = FD_INODE" "file_ok ?t ?ip" "0 < i_ref ?i" "\<not> i_lock ?i" "i_valid ?i" "i_type ?i \<noteq> T_SYM" "i_type ?i \<noteq> T_DEV" "?off \<le> i_size ?i"
    using ok by (simp_all add: open_ok_def Let_def)
  let ?t1 = "set_lock ?ip True ?t"
  have lk: "ilock (Some ?ip) ?t = Inr ?t1" using O(3-5) by (simp add: ilock_def Let_def)
  have f1: "file_ok ?t1 ?ip" using O(2) lock_irrelevant(2) by blast
  have r: "4 * rounds ?off (length src) \<le> nfree ?t1" using rounds_chunk [OF n(2), of ?off] fr lock_irrelevant(4) [where ip = ?ip and b = True and t = ?t] by simp
  have o1: "?off \<le> i_size (f_ic ?t1 ?ip)" using O(8) by simp
  from writei_data_ok [OF f1 o1 sz refl r] obtain t2 where
    t2: "writei_data ?ip src ?off (length src) ?t1 = Inr (Some (int (length src)), t2)" "file_ok t2 ?ip"
      "i_size (f_ic t2 ?ip) = max (i_size (f_ic ?t1 ?ip)) (?off + length src)"
      "\<And>i. i < MAXFILE * BSIZE \<Longrightarrow> fbyte t2 ?ip i = patched ?off src (fbyte ?t1 ?ip) i"
      "meta (f_ic t2 ?ip) = (meta (f_ic ?t1 ?ip))\<lparr>i_size := max (i_size (f_ic ?t1 ?ip)) (?off + length src)\<rparr>"
      "nfree ?t1 \<le> nfree t2 + 4 * rounds ?off (length src)" by blast
  have mm: "i_ref (meta x) = i_ref x" "i_lock (meta x) = i_lock x" "i_valid (meta x) = i_valid x" "i_type (meta x) = i_type x" for x by (simp_all add: meta_def)
  have m: "i_ref (f_ic t2 ?ip) = i_ref ?i" "i_lock (f_ic t2 ?ip)" "i_valid (f_ic t2 ?ip)" "i_type (f_ic t2 ?ip) = i_type ?i"
    using arg_cong [OF t2(5), of i_ref] arg_cong [OF t2(5), of i_lock] arg_cong [OF t2(5), of i_valid] arg_cong [OF t2(5), of i_type] O(5)
    by (simp_all add: mm)
  have w: "writei dw cwd ?ip src ?off (length src) ?t1 = Inr (int (length src), t2)"
    using writei_plain [of ?t1 ?ip dw cwd src ?off "length src"] O(6,7) t2(1) by simp
  let ?t3 = "set_lock ?ip False t2"
  have ul: "iunlock (Some ?ip) t2 = Inr ?t3" using m(1,2) O(3) by (simp add: iunlock_def)
  have small: "(?off + length src) mod 2 ^ 32 = ?off + length src" using sz maxfile_32 by simp
  let ?s = "(upd_file f (\<lambda>x. x\<lparr>fl_off := ?off + length src\<rparr>) s)\<lparr>k_fs := ?t3\<rparr>"
  have "fcont ?s f i = patched ?off src (fcont s f) i" if "i < MAXFILE * BSIZE" for i
    using t2(4) [OF that] lock_irrelevant(3) [where ip = ?ip and b = True and t = ?t] lock_irrelevant(3) [where ip = ?ip and b = False and t = t2] by (simp add: fcont_def)
  moreover have "fsize ?s f = max (fsize s f) (?off + length src)" using t2(3) by (simp add: fsize_def)
  moreover have "open_ok ?s f" using O t2(2,3) m lock_irrelevant(2) [where ip = ?ip and b = False and t = t2] by (simp add: open_ok_def Let_def)
  moreover have "nfree ?t \<le> nfree (k_fs ?s) + 16"
    using t2(6) rounds_chunk [OF n(2), of ?off] lock_irrelevant(4) [where ip = ?ip and b = True and t = ?t] lock_irrelevant(4) [where ip = ?ip and b = False and t = t2] by simp
  ultimately show ?thesis
    using lk w ul small n(1) by (simp add: filewrite_round_def on_fs_def on_fs_val_def op_begin_def op_end_def Let_def)
qed

lemma filewrite_loop_ok:
  assumes "open_ok s f" "fl_off (k_file s f) + length src \<le> MAXFILE * BSIZE" "16 * nchunks (length src) \<le> nfree (k_fs s)"
  shows "\<exists>s'. filewrite_loop dw cwd f src s = Inr (True, s') \<and> open_ok s' f \<and> k_out s' = k_out s
    \<and> fl_off (k_file s' f) = fl_off (k_file s f) + length src \<and> fsize s' f = max (fsize s f) (fl_off (k_file s f) + length src)
    \<and> (\<forall>i < MAXFILE * BSIZE. fcont s' f i = patched (fl_off (k_file s f)) src (fcont s f) i)
    \<and> k_pipe s' = k_pipe s \<and> k_free s' = k_free s \<and> (\<forall>g. g \<noteq> f \<longrightarrow> k_file s' g = k_file s g)"
  using assms
proof (induction "length src" arbitrary: src s rule: less_induct)
  case less
  have osz: "fl_off (k_file s f) \<le> fsize s f" using less.prems(1) by (simp add: open_ok_def fsize_def Let_def)
  show ?case
  proof (cases "src = []")
    case True
    then show ?thesis using less.prems osz by (auto simp: filewrite_loop.simps patched_def max_def)
  next
    case False
    let ?n = "min (length src) MAXWRITE" and ?off = "fl_off (k_file s f)"
    let ?a = "take ?n src" and ?b = "drop ?n src"
    have n: "0 < length src" "0 < ?n" "length ?a = ?n" "length ?b = length src - ?n" using False by (simp_all add: MAXWRITE_def)
    have ch: "nchunks (length src) = Suc (nchunks (length ?b))" using nchunks_step [OF n(1)] n(4) by simp
    have a: "?a \<noteq> []" "length ?a \<le> MAXWRITE" "?off + length ?a \<le> MAXFILE * BSIZE" "16 \<le> nfree (k_fs s)"
      using n less.prems(2,3) ch by auto
    from filewrite_step [OF less.prems(1) a, of dw cwd] obtain s1 where
      s1: "filewrite_round dw cwd f ?a s = Inr (int (length ?a), s1)"
      "open_ok s1 f" "k_out s1 = k_out s" "fl_ip (k_file s1 f) = fl_ip (k_file s f)" "fl_off (k_file s1 f) = ?off + length ?a"
      "fsize s1 f = max (fsize s f) (?off + length ?a)"
      "\<And>i. i < MAXFILE * BSIZE \<Longrightarrow> fcont s1 f i = patched ?off ?a (fcont s f) i"
      "nfree (k_fs s) \<le> nfree (k_fs s1) + 16" "k_pipe s1 = k_pipe s" "k_free s1 = k_free s" "\<And>g. g \<noteq> f \<Longrightarrow> k_file s1 g = k_file s g"
      by blast
    have run: "filewrite_loop dw cwd f src s = filewrite_loop dw cwd f ?b s1"
      using False s1(1) n(3) by (subst filewrite_loop.simps) (simp add: Let_def)
    have "length ?b < length src" using n by simp
    moreover have "fl_off (k_file s1 f) + length ?b \<le> MAXFILE * BSIZE" using less.prems(2) s1(5) n by simp
    moreover have "16 * nchunks (length ?b) \<le> nfree (k_fs s1)" using less.prems(3) ch s1(8) by simp
    ultimately obtain s' where
      s': "filewrite_loop dw cwd f ?b s1 = Inr (True, s')" "open_ok s' f" "k_out s' = k_out s1"
        "fl_off (k_file s' f) = fl_off (k_file s1 f) + length ?b" "fsize s' f = max (fsize s1 f) (fl_off (k_file s1 f) + length ?b)"
        "\<And>i. i < MAXFILE * BSIZE \<Longrightarrow> fcont s' f i = patched (fl_off (k_file s1 f)) ?b (fcont s1 f) i"
        "k_pipe s' = k_pipe s1" "k_free s' = k_free s1" "\<And>g. g \<noteq> f \<Longrightarrow> k_file s' g = k_file s1 g"
      using less.hyps [OF _ s1(2)] by blast
    have "fcont s' f i = patched ?off src (fcont s f) i" if i: "i < MAXFILE * BSIZE" for i
    proof -
      have "patched (?off + length ?a) ?b (patched ?off ?a (fcont s f)) = patched ?off src (fcont s f)"
        using patched_append [of ?off ?a ?b "fcont s f"] by simp
      then show ?thesis
        using s'(6) [OF i] patched_cong [of "fcont s1 f" i "patched ?off ?a (fcont s f)", OF s1(7) [OF i]] s1(5) by simp
    qed
    moreover have "fl_off (k_file s' f) = ?off + length src" using s'(4) s1(5) n by simp
    moreover have "fsize s' f = max (fsize s f) (?off + length src)"
    proof -
      have "?off + length ?a \<le> ?off + length src" "?off + length ?a + length ?b = ?off + length src" using n by simp_all
      then show ?thesis using s'(5) s1(5,6) by (simp only: max.assoc max_absorb2)
    qed
    ultimately show ?thesis using run s'(1-3,7-9) s1(3,9-11) by auto
  qed
qed

lemma filealloc_Some:
  "filealloc k = (Some f, k') \<Longrightarrow> f < NFILE \<and> fl_ref (k_file k f) = 0 \<and> k' = upd_file f (\<lambda>x. x\<lparr>fl_ref := 1\<rparr>) k"
  by (auto simp: filealloc_def simp del: first_index_None split: option.splits dest: first_index_Some)

lemma filealloc_None: "filealloc k = (None, k') \<Longrightarrow> k' = k"
  by (auto simp: filealloc_def simp del: first_index_None split: option.splits)

text \<open>Giving back a file that was just taken.\<close>

lemma close_fresh:
  "fl_ref (k_file k f) = 0 \<Longrightarrow> fl_type (k_file k f) = FD_NONE \<Longrightarrow> fileclose f (upd_file f (\<lambda>x. x\<lparr>fl_ref := 1\<rparr>) k) = Inr k"
  by (simp add: fileclose_def Let_def) (cases "k_file k f", simp add: fun_upd_idem)

section \<open>Properties\<close>

text \<open>
  C40.  \<^verbatim>\<open>filewrite\<close>, which splits a write into transactions of at most 1536 bytes, is equivalent to one write of all the bytes
  at the offset of the file: it returns their number, advances the offset, extends the file and changes no other
  byte; transactions are closed, and other open files and pipes are untouched.
\<close>

theorem filewrite_equiv:
  assumes "open_ok s f" "fl_writable (k_file s f)" "fl_off (k_file s f) + length src \<le> MAXFILE * BSIZE"
    "16 * nchunks (length src) \<le> nfree (k_fs s)"
  shows "\<exists>s'. filewrite dw killed cwd f src (int (length src)) s = Inr (Ret (int (length src), []), s') \<and> open_ok s' f \<and> k_out s' = k_out s
    \<and> fl_off (k_file s' f) = fl_off (k_file s f) + length src \<and> fsize s' f = max (fsize s f) (fl_off (k_file s f) + length src)
    \<and> (\<forall>i < MAXFILE * BSIZE. fcont s' f i = patched (fl_off (k_file s f)) src (fcont s f) i)
    \<and> k_pipe s' = k_pipe s \<and> (\<forall>g. g \<noteq> f \<longrightarrow> k_file s' g = k_file s g)"
proof -
  from filewrite_loop_ok [OF assms(1,3,4), of dw cwd] obtain s' where
    s': "filewrite_loop dw cwd f src s = Inr (True, s')" "open_ok s' f" "k_out s' = k_out s"
      "fl_off (k_file s' f) = fl_off (k_file s f) + length src" "fsize s' f = max (fsize s f) (fl_off (k_file s f) + length src)"
      "\<forall>i < MAXFILE * BSIZE. fcont s' f i = patched (fl_off (k_file s f)) src (fcont s f) i"
      "k_pipe s' = k_pipe s" "\<forall>g. g \<noteq> f \<longrightarrow> k_file s' g = k_file s g" by blast
  have "fl_type (k_file s f) = FD_INODE" using assms(1) by (simp add: open_ok_def Let_def)
  then have "filewrite dw killed cwd f src (int (length src)) s = Inr (Ret (int (length src), []), s')"
    using assms(2) s'(1) by (simp add: filewrite_def Let_def)
  then show ?thesis using s' by blast
qed

text \<open>The concrete file system with one file open on inode 0.\<close>

definition demo_open :: ksys where
  "demo_open = \<lparr>k_fs = set_lock 0 False demo_fs, k_out = 0,
     k_file = (\<lambda>f. \<lparr>fl_type = (if f = 0 then FD_INODE else FD_NONE), fl_ref = (if f = 0 then 1 else 0), fl_readable = True, fl_writable = True, fl_pipe = 0, fl_ip = 0, fl_off = 0\<rparr>),
     k_pipe = (\<lambda>_. pipe_init (replicate PIPESIZE 0)), k_free = [0]\<rparr>"

lemma demo_open_ok: "open_ok demo_open 0"
proof -
  have "file_ok (set_lock 0 False demo_fs) 0" unfolding lock_irrelevant using demo_dir by (simp add: dir_ok_def)
  then show ?thesis by (simp add: open_ok_def demo_open_def) (simp add: demo_inode_def T_DIR_def T_SYM_def T_DEV_def)
qed

lemma demo_free16: "16 \<le> nfree demo_fs"
proof -
  have "\<not> used demo_fs b" if "b \<in> {5, 6, 7, 8, 9, 10, 11, 12, 13, 14, 15, 16, 17, 18, 19, 20}" for b
    using that by (auto simp: used_def demo_fs_def demo_sb_def demo_blk_def BBLOCK_def BPB_def BSIZE_def bm_free_def bm_mask_def)
  then have "{5, 6, 7, 8, 9, 10, 11, 12, 13, 14, 15, 16, 17, 18, 19, 20} \<subseteq> {b. b < sb_size (f_sb demo_fs) \<and> \<not> used demo_fs b}"
    by (auto simp: demo_sb_def)
  then have "card {5, 6, 7, 8, 9, 10, 11, 12, 13, 14, 15, 16, 17, 18, 19, 20 :: nat} \<le> nfree demo_fs"
    unfolding nfree_def by (rule card_mono [rotated]) simp
  then show ?thesis by simp
qed

theorem filewrite_equiv_witness:
  "\<exists>s'. filewrite (\<lambda>_. None) False 0 0 [1, 2, 3] 3 demo_open = Inr (Ret (3, []), s') \<and> fsize s' 0 = 3 \<and> fcont s' 0 1 = 2"
proof -
  have f: "fl_writable (k_file demo_open 0)" "fl_off (k_file demo_open 0) = 0" "fsize demo_open 0 = 0"
    by (simp_all add: demo_open_def fsize_def demo_inode_def)
  have l: "fl_off (k_file demo_open 0) + length [1, 2, 3 :: byte] \<le> MAXFILE * BSIZE" by (simp add: f ndefs BSIZE_def)
  have "nfree (demo_fs\<lparr>f_ic := F\<rparr>) = nfree demo_fs" for F by (simp add: nfree_def)
  then have r: "16 * nchunks (length [1, 2, 3 :: byte]) \<le> nfree (k_fs demo_open)"
    using demo_free16 by (simp add: demo_open_def nchunks_def MAXWRITE_def)
  have "1 < MAXFILE * BSIZE" by (simp add: ndefs BSIZE_def)
  with filewrite_equiv [OF demo_open_ok f(1) l r, of "\<lambda>_. None" False 0] f show ?thesis
    by (auto simp: patched_def)
qed

end
