(* ===== verification/Xv6_Sysfile.thy ===== *)
theory Xv6_Sysfile
  imports Xv6_File Xv6_Machine
begin

text \<open>
  The file system calls of project 3 (\<^verbatim>\<open>sysfile.c\<close>), the fetching of their arguments from the stack of the process
  (\<^verbatim>\<open>syscall.c\<close>), and what \<^verbatim>\<open>fork\<close> and \<^verbatim>\<open>exit\<close> (\<^verbatim>\<open>proc.c\<close>) do to descriptors and working directories.

  A process \<open>p\<close> is an index of \<^verbatim>\<open>ptable.proc\<close>; \<open>u_mem\<close> is its memory at user addresses.  Every path through a call
  that runs \<^verbatim>\<open>begin_op\<close> ends with one \<^verbatim>\<open>end_op\<close>: the code between them is a function on the file system, which
  \<open>transaction\<close> encloses.  \<open>dr\<close> and \<open>dw\<close> are the device switch.
\<close>

section \<open>State\<close>

definition O_WRONLY :: int where "O_WRONLY = 1"
definition O_RDWR :: int where "O_RDWR = 2"
definition O_RDONLY :: int where "O_RDONLY = 0"
definition O_CREATE :: int where "O_CREATE = 512"

record uproc =
  u_sz :: nat
  u_mem :: "nat \<Rightarrow> byte"
  u_esp :: nat                  \<comment> \<open>\<^verbatim>\<open>tf->esp\<close>\<close>
  u_killed :: bool
  u_ofile :: "nat \<Rightarrow> nat option"
  u_cwd :: "nat option"

record usys =
  u_k :: ksys
  u_proc :: "nat \<Rightarrow> uproc"

abbreviation upd_up :: "nat \<Rightarrow> (uproc \<Rightarrow> uproc) \<Rightarrow> usys \<Rightarrow> usys" where
  "upd_up p g s \<equiv> s\<lparr>u_proc := (u_proc s)(p := g (u_proc s p))\<rparr>"

abbreviation ofile :: "usys \<Rightarrow> nat \<Rightarrow> nat \<Rightarrow> nat option" where
  "ofile s p d \<equiv> u_ofile (u_proc s p) d"

definition set_fd :: "nat \<Rightarrow> nat \<Rightarrow> nat option \<Rightarrow> usys \<Rightarrow> usys" where
  "set_fd p d r s = upd_up p (\<lambda>x. x\<lparr>u_ofile := (u_ofile x)(d := r)\<rparr>) s"

definition on_k :: "(ksys \<Rightarrow> ksys result) \<Rightarrow> usys \<Rightarrow> usys result" where
  "on_k f s = rbind (f (u_k s)) (\<lambda>k. Inr (s\<lparr>u_k := k\<rparr>))"

definition on_k_val :: "(ksys \<Rightarrow> ('a \<times> ksys) result) \<Rightarrow> usys \<Rightarrow> ('a \<times> usys) result" where
  "on_k_val f s = rbind (f (u_k s)) (\<lambda>(r, k). Inr (r, s\<lparr>u_k := k\<rparr>))"

definition transaction :: "(fs \<Rightarrow> ('a \<times> fs) result) \<Rightarrow> usys \<Rightarrow> ('a \<times> usys) result" where
  "transaction f s = on_k_val (\<lambda>k. rbind (on_fs_val f (op_begin k)) (\<lambda>(r, k). Inr (r, op_end k))) s"

text \<open>\<^verbatim>\<open>myproc()->cwd\<close> of a process that has not exited.\<close>

definition cwdp :: "nat \<Rightarrow> usys \<Rightarrow> nat result" where
  "cwdp p s = (case u_cwd (u_proc s p) of None \<Rightarrow> Inl NullDeref | Some c \<Rightarrow> Inr c)"

section \<open>Arguments\<close>

definition u32 :: "int \<Rightarrow> nat" where
  "u32 i = nat (i mod 2 ^ 32)"

definition wr_bytes :: "nat \<Rightarrow> byte list \<Rightarrow> (nat \<Rightarrow> byte) \<Rightarrow> nat \<Rightarrow> byte" where
  "wr_bytes a bs m = (\<lambda>i. if a \<le> i \<and> i < a + length bs then bs ! (i - a) else m i)"

definition rd_bytes :: "nat \<Rightarrow> nat \<Rightarrow> (nat \<Rightarrow> byte) \<Rightarrow> byte list" where
  "rd_bytes a n m = map (\<lambda>i. m (a + i)) [0..<n]"

definition fetchint :: "nat \<Rightarrow> nat \<Rightarrow> usys \<Rightarrow> int option" where
  "fetchint p addr s =
     (let x = u_proc s p in
      if addr \<ge> u_sz x \<or> (addr + 4) mod 2 ^ 32 > u_sz x then None
      else Some (s32 (get32 (rd_bytes addr 4 (u_mem x)) 0)))"

text \<open>The string that starts at \<^verbatim>\<open>addr\<close>, without its terminating zero.\<close>

definition fetchstr :: "nat \<Rightarrow> nat \<Rightarrow> usys \<Rightarrow> byte list option" where
  "fetchstr p addr s =
     (let x = u_proc s p in
      if addr \<ge> u_sz x then None
      else
        let bs = rd_bytes addr (u_sz x - addr) (u_mem x) in
        if 0 \<in> set bs then Some (takeWhile (\<lambda>c. c \<noteq> 0) bs) else None)"

definition argint :: "nat \<Rightarrow> nat \<Rightarrow> usys \<Rightarrow> int option" where
  "argint p n s = fetchint p ((u_esp (u_proc s p) + 4 + 4 * n) mod 2 ^ 32) s"

definition argptr :: "nat \<Rightarrow> nat \<Rightarrow> int \<Rightarrow> usys \<Rightarrow> nat option" where
  "argptr p n sz s =
     (case argint p n s of
        None \<Rightarrow> None
      | Some i \<Rightarrow>
          if sz < 0 \<or> u32 i \<ge> u_sz (u_proc s p) \<or> (u32 i + nat sz) mod 2 ^ 32 > u_sz (u_proc s p) then None
          else Some (u32 i))"

definition argstr :: "nat \<Rightarrow> nat \<Rightarrow> usys \<Rightarrow> byte list option" where
  "argstr p n s = (case argint p n s of None \<Rightarrow> None | Some addr \<Rightarrow> fetchstr p (u32 addr) s)"

definition argfd :: "nat \<Rightarrow> nat \<Rightarrow> usys \<Rightarrow> (nat \<times> nat) option" where
  "argfd p n s =
     (case argint p n s of
        None \<Rightarrow> None
      | Some fd \<Rightarrow>
          if fd < 0 \<or> fd \<ge> int NOFILE then None
          else map_option (Pair (nat fd)) (ofile s p (nat fd)))"

section \<open>Descriptors\<close>

definition fdalloc :: "nat \<Rightarrow> nat \<Rightarrow> usys \<Rightarrow> nat option \<times> usys" where
  "fdalloc p f s =
     (case first_index (\<lambda>fd. ofile s p fd = None) [0..<NOFILE] of
        Some fd \<Rightarrow> (Some fd, set_fd p fd (Some f) s)
      | None \<Rightarrow> (None, s))"

definition sys_dup :: "nat \<Rightarrow> usys \<Rightarrow> (int \<times> usys) result" where
  "sys_dup p s =
     (case argfd p 0 s of
        None \<Rightarrow> Inr (- 1, s)
      | Some (_, f) \<Rightarrow>
          (case fdalloc p f s of
             (None, s) \<Rightarrow> Inr (- 1, s)
           | (Some fd, s) \<Rightarrow> rbind (on_k (filedup f) s) (\<lambda>s. Inr (int fd, s))))"

definition sys_read :: "dev_read \<Rightarrow> nat \<Rightarrow> usys \<Rightarrow> (int sysret \<times> usys) result" where
  "sys_read dr p s =
     (case (argfd p 0 s, argint p 2 s) of
        (Some (_, f), Some n) \<Rightarrow>
          (case argptr p 1 n s of
             None \<Rightarrow> Inr (Ret (- 1), s)
           | Some a \<Rightarrow>
               rbind (cwdp p s) (\<lambda>cwd.
               rbind (on_k_val (fileread dr (u_killed (u_proc s p)) cwd f n) s) (\<lambda>(r, s).
                 case r of
                   Block c \<Rightarrow> Inr (Block c, s)
                 | Ret (r, ds) \<Rightarrow> Inr (Ret r, upd_up p (\<lambda>x. x\<lparr>u_mem := wr_bytes a ds (u_mem x)\<rparr>) s))))
      | _ \<Rightarrow> Inr (Ret (- 1), s))"

definition sys_write :: "dev_write \<Rightarrow> nat \<Rightarrow> usys \<Rightarrow> (int sysret \<times> usys) result" where
  "sys_write dw p s =
     (case (argfd p 0 s, argint p 2 s) of
        (Some (_, f), Some n) \<Rightarrow>
          (case argptr p 1 n s of
             None \<Rightarrow> Inr (Ret (- 1), s)
           | Some a \<Rightarrow>
               rbind (cwdp p s) (\<lambda>cwd.
               rbind (on_k_val (filewrite dw (u_killed (u_proc s p)) cwd f (rd_bytes a (nat n) (u_mem (u_proc s p))) n) s) (\<lambda>(r, s).
                 case r of Block c \<Rightarrow> Inr (Block c, s) | Ret (r, _) \<Rightarrow> Inr (Ret r, s))))
      | _ \<Rightarrow> Inr (Ret (- 1), s))"

definition sys_close :: "nat \<Rightarrow> usys \<Rightarrow> (int \<times> usys) result" where
  "sys_close p s =
     (case argfd p 0 s of
        None \<Rightarrow> Inr (- 1, s)
      | Some (fd, f) \<Rightarrow> rbind (on_k (fileclose f) (set_fd p fd None s)) (\<lambda>s. Inr (0, s)))"

text \<open>\<^verbatim>\<open>struct stat\<close> in memory; the two gaps are padding, which is not written.\<close>

definition put_stat :: "nat \<Rightarrow> stat \<Rightarrow> (nat \<Rightarrow> byte) \<Rightarrow> nat \<Rightarrow> byte" where
  "put_stat a st m =
     wr_bytes (a + 16) (bytes32 (s_size st)) (wr_bytes (a + 12) (take 2 (bytes32 (u16 (s_nlink st))))
       (wr_bytes (a + 8) (bytes32 (s_ino st)) (wr_bytes (a + 4) (bytes32 (s_dev st))
         (wr_bytes a (take 2 (bytes32 (u16 (s_type st)))) m))))"

definition sys_fstat :: "nat \<Rightarrow> usys \<Rightarrow> (int \<times> usys) result" where
  "sys_fstat p s =
     (case (argfd p 0 s, argptr p 1 20 s) of
        (Some (_, f), Some a) \<Rightarrow>
          rbind (on_k_val (filestat f) s) (\<lambda>(r, s).
            case r of
              None \<Rightarrow> Inr (- 1, s)
            | Some st \<Rightarrow> Inr (0, upd_up p (\<lambda>x. x\<lparr>u_mem := put_stat a st (u_mem x)\<rparr>) s))
      | _ \<Rightarrow> Inr (- 1, s))"

definition sys_pipe :: "nat \<Rightarrow> usys \<Rightarrow> (int \<times> usys) result" where
  "sys_pipe p s =
     (case argptr p 0 8 s of
        None \<Rightarrow> Inr (- 1, s)
      | Some a \<Rightarrow>
          rbind (on_k_val pipealloc s) (\<lambda>(r, s).
            case r of
              None \<Rightarrow> Inr (- 1, s)
            | Some (rf, wrf) \<Rightarrow>
                let bad = (\<lambda>s. rbind (on_k (fileclose rf) s) (\<lambda>s. rbind (on_k (fileclose wrf) s) (\<lambda>s. Inr (- 1, s)))) in
                (case fdalloc p rf s of
                   (None, s) \<Rightarrow> bad s
                 | (Some fd0, s) \<Rightarrow>
                     (case fdalloc p wrf s of
                        (None, s) \<Rightarrow> bad (set_fd p fd0 None s)
                      | (Some fd1, s) \<Rightarrow>
                          Inr (0, upd_up p (\<lambda>x. x\<lparr>u_mem := wr_bytes (a + 4) (bytes32 fd1) (wr_bytes a (bytes32 fd0) (u_mem x))\<rparr>) s)))))"

section \<open>Links\<close>

definition short :: "int \<Rightarrow> int" where "short i = s16 (u16 i)"

definition add_nlink :: "nat \<Rightarrow> int \<Rightarrow> fs \<Rightarrow> fs" where
  "add_nlink ip i t = upd_ip ip (\<lambda>x. x\<lparr>i_nlink := short (i_nlink x + i)\<rparr>) t"

definition link_bad :: "nat \<Rightarrow> fs \<Rightarrow> (int \<times> fs) result" where
  "link_bad ip t =
     rbind (ilock (Some ip) t) (\<lambda>t.
     rbind (iupdate ip (add_nlink ip (- 1) t)) (\<lambda>t.
     rbind (iunlockput ip t) (\<lambda>t. Inr (- 1, t))))"

definition link_op :: "nat \<Rightarrow> byte list \<Rightarrow> byte list \<Rightarrow> fs \<Rightarrow> (int \<times> fs) result" where
  "link_op cwd old new t =
     rbind (namei cwd old t) (\<lambda>(r, t).
       case r of
         None \<Rightarrow> Inr (- 1, t)
       | Some ip \<Rightarrow>
           rbind (ilock (Some ip) t) (\<lambda>t.
             if i_type (f_ic t ip) = T_DIR then rbind (iunlockput ip t) (\<lambda>t. Inr (- 1, t))
             else
               rbind (iupdate ip (add_nlink ip 1 t)) (\<lambda>t.
               rbind (iunlock (Some ip) t) (\<lambda>t.
               rbind (nameiparent cwd new t) (\<lambda>(r, t).
                 case r of
                   None \<Rightarrow> link_bad ip t
                 | Some (dp, name) \<Rightarrow>
                     rbind (ilock (Some dp) t) (\<lambda>t.
                       if i_dev (f_ic t dp) \<noteq> i_dev (f_ic t ip) then rbind (iunlockput dp t) (link_bad ip)
                       else
                         rbind (dirlink dp name (i_inum (f_ic t ip)) t) (\<lambda>(r, t).
                           if r < 0 then rbind (iunlockput dp t) (link_bad ip)
                           else rbind (iunlockput dp t) (\<lambda>t. rbind (iput ip t) (\<lambda>t. Inr (0, t))))))))))"

definition sys_link :: "nat \<Rightarrow> usys \<Rightarrow> (int \<times> usys) result" where
  "sys_link p s =
     (case (argstr p 0 s, argstr p 1 s) of
        (Some old, Some new) \<Rightarrow> rbind (cwdp p s) (\<lambda>cwd. transaction (link_op cwd old new) s)
      | _ \<Rightarrow> Inr (- 1, s))"

definition isdirempty :: "nat \<Rightarrow> fs \<Rightarrow> (bool \<times> fs) result" where
  "isdirempty dp t =
     rfold (\<lambda>off (e, t).
         if \<not> e then Inr (e, t)
         else rbind (read_dirent ''isdirempty: readi'' dp off t) (\<lambda>(de, t). Inr (get16 de 0 = 0, t)))
       (drop 2 (dir_offs (i_size (f_ic t dp)))) (True, t)"

definition unlink_op :: "nat \<Rightarrow> byte list \<Rightarrow> fs \<Rightarrow> (int \<times> fs) result" where
  "unlink_op cwd path t =
     rbind (nameiparent cwd path t) (\<lambda>(r, t).
       case r of
         None \<Rightarrow> Inr (- 1, t)
       | Some (dp, name) \<Rightarrow>
           let bad = (\<lambda>t. rbind (iunlockput dp t) (\<lambda>t. Inr (- 1, t))) in
           rbind (ilock (Some dp) t) (\<lambda>t.
             if namecmp name [46] = 0 \<or> namecmp name [46, 46] = 0 then bad t
             else
               rbind (dirlookup dp name t) (\<lambda>(r, t).
                 case r of
                   None \<Rightarrow> bad t
                 | Some (ip, off) \<Rightarrow>
                     rbind (ilock (Some ip) t) (\<lambda>t.
                       if i_nlink (f_ic t ip) < 1 then Inl (Panic ''unlink: nlink < 1'')
                       else
                         rbind (if i_type (f_ic t ip) = T_DIR then isdirempty ip t else Inr (True, t)) (\<lambda>(e, t).
                           if \<not> e then rbind (iunlockput ip t) bad
                           else
                             rbind (writei_data dp (replicate 16 0) off 16 t) (\<lambda>(r, t).
                               if r \<noteq> Some 16 then Inl (Panic ''unlink: writei'')
                               else
                                 rbind (if i_type (f_ic t ip) = T_DIR then iupdate dp (add_nlink dp (- 1) t) else Inr t) (\<lambda>t.
                                 rbind (iunlockput dp t) (\<lambda>t.
                                 rbind (iupdate ip (add_nlink ip (- 1) t)) (\<lambda>t.
                                 rbind (iunlockput ip t) (\<lambda>t. Inr (0, t)))))))))))"

definition sys_unlink :: "nat \<Rightarrow> usys \<Rightarrow> (int \<times> usys) result" where
  "sys_unlink p s =
     (case argstr p 0 s of
        None \<Rightarrow> Inr (- 1, s)
      | Some path \<Rightarrow> rbind (cwdp p s) (\<lambda>cwd. transaction (unlink_op cwd path) s))"

section \<open>Making files\<close>

text \<open>\<^verbatim>\<open>create\<close> returns a locked inode.\<close>

definition create :: "nat \<Rightarrow> byte list \<Rightarrow> int \<Rightarrow> int \<Rightarrow> int \<Rightarrow> fs \<Rightarrow> (nat option \<times> fs) result" where
  "create cwd path type major minor t =
     rbind (nameiparent cwd path t) (\<lambda>(r, t).
       case r of
         None \<Rightarrow> Inr (None, t)
       | Some (dp, name) \<Rightarrow>
           rbind (ilock (Some dp) t) (\<lambda>t.
           rbind (dirlookup dp name t) (\<lambda>(r, t).
             case r of
               Some (ip, _) \<Rightarrow>
                 rbind (iunlockput dp t) (\<lambda>t.
                 rbind (ilock (Some ip) t) (\<lambda>t.
                   if type = T_SYM then Inr (Some ip, t)
                   else if type = T_FILE \<and> i_type (f_ic t ip) = T_FILE then Inr (Some ip, t)
                   else rbind (iunlockput ip t) (\<lambda>t. Inr (None, t))))
             | None \<Rightarrow>
                 rbind (ialloc (i_dev (f_ic t dp)) type t) (\<lambda>(ip, t).
                 rbind (ilock (Some ip) t) (\<lambda>t.
                 rbind (iupdate ip (upd_ip ip (\<lambda>x. x\<lparr>i_major := major, i_minor := minor, i_nlink := 1\<rparr>) t)) (\<lambda>t.
                 rbind (if type = T_DIR then
                          rbind (iupdate dp (add_nlink dp 1 t)) (\<lambda>t.
                          rbind (dirlink ip [46] (i_inum (f_ic t ip)) t) (\<lambda>(r, t).
                            if r < 0 then Inl (Panic ''create dots'')
                            else
                              rbind (dirlink ip [46, 46] (i_inum (f_ic t dp)) t) (\<lambda>(r, t).
                                if r < 0 then Inl (Panic ''create dots'') else Inr t)))
                        else Inr t) (\<lambda>t.
                 rbind (dirlink dp name (i_inum (f_ic t ip)) t) (\<lambda>(r, t).
                   if r < 0 then Inl (Panic ''create: dirlink'')
                   else rbind (iunlockput dp t) (\<lambda>t. Inr (Some ip, t))))))))))"

text \<open>
  The bytes of an inode from \<^verbatim>\<open>addrs\<close> on, where the path of a symbolic link is kept: a longer path is copied past the
  end of the inode.
\<close>

definition addr_bytes :: "inode \<Rightarrow> byte list" where
  "addr_bytes x = concat (map bytes32 (i_addrs x @ [i_D x, i_T x]))"

definition set_path :: "byte list \<Rightarrow> inode \<Rightarrow> inode" where
  "set_path old x =
     (let bs = blit 0 old (addr_bytes x); as = map (\<lambda>k. get32 bs (4 * k)) [0..<NDIRECT + 3] in
      x\<lparr>i_addrs := take (NDIRECT + 1) as, i_D := as ! (NDIRECT + 1), i_T := as ! (NDIRECT + 2)\<rparr>)"

definition symlink_op :: "nat \<Rightarrow> byte list \<Rightarrow> byte list \<Rightarrow> fs \<Rightarrow> (int \<times> fs) result" where
  "symlink_op cwd old new t =
     rbind (namei cwd old t) (\<lambda>(r, t).
       case r of
         None \<Rightarrow> Inr (- 1, t)
       | Some ip \<Rightarrow>
           rbind (namei cwd new t) (\<lambda>(r, t).
             case r of
               Some _ \<Rightarrow> Inr (- 1, t)
             | None \<Rightarrow>
                 rbind (create cwd new T_SYM 0 0 t) (\<lambda>(r, t).
                   case r of
                     None \<Rightarrow> Inr (- 1, t)
                   | Some dp \<Rightarrow>
                       let t = upd_ip dp (\<lambda>x. x\<lparr>i_type := T_SYM\<rparr>) t in
                       if length old > length (addr_bytes (f_ic t dp)) then Inl OutOfBounds
                       else
                         rbind (iupdate dp (upd_ip dp (set_path old) t)) (\<lambda>t.
                         rbind (iunlockput dp t) (\<lambda>t. Inr (0, t))))))"

definition sys_symlink :: "nat \<Rightarrow> usys \<Rightarrow> (int \<times> usys) result" where
  "sys_symlink p s =
     (case (argstr p 0 s, argstr p 1 s) of
        (Some old, Some new) \<Rightarrow> rbind (cwdp p s) (\<lambda>cwd. transaction (symlink_op cwd old new) s)
      | _ \<Rightarrow> Inr (- 1, s))"

text \<open>\<^verbatim>\<open>iunlockput\<close> of what \<^verbatim>\<open>create\<close> made, as in \<^verbatim>\<open>sys_mkdir\<close> and \<^verbatim>\<open>sys_mknod\<close>.\<close>

definition made :: "nat option \<times> fs \<Rightarrow> (int \<times> fs) result" where
  "made = (\<lambda>(r, t). case r of None \<Rightarrow> Inr (- 1, t) | Some ip \<Rightarrow> rbind (iunlockput ip t) (\<lambda>t. Inr (0, t)))"

definition sys_mkdir :: "nat \<Rightarrow> usys \<Rightarrow> (int \<times> usys) result" where
  "sys_mkdir p s =
     rbind (cwdp p s) (\<lambda>cwd.
       transaction (\<lambda>t. case argstr p 0 s of None \<Rightarrow> Inr (- 1, t) | Some path \<Rightarrow> rbind (create cwd path T_DIR 0 0 t) made) s)"

definition sys_mknod :: "nat \<Rightarrow> usys \<Rightarrow> (int \<times> usys) result" where
  "sys_mknod p s =
     rbind (cwdp p s) (\<lambda>cwd.
       transaction (\<lambda>t.
         case (argstr p 0 s, argint p 1 s, argint p 2 s) of
           (Some path, Some major, Some minor) \<Rightarrow> rbind (create cwd path T_DEV (short major) (short minor) t) made
         | _ \<Rightarrow> Inr (- 1, t)) s)"

section \<open>Opening\<close>

text \<open>The first half of \<^verbatim>\<open>sys_open\<close>: the inode, locked; \<open>None\<close> is an error.\<close>

definition open_inode :: "nat \<Rightarrow> byte list \<Rightarrow> int \<Rightarrow> fs \<Rightarrow> (nat option \<times> fs) result" where
  "open_inode cwd path omode t =
     (if and omode O_CREATE \<noteq> 0 then create cwd path T_FILE 0 0 t
      else
        rbind (namei cwd path t) (\<lambda>(r, t).
          case r of
            None \<Rightarrow> Inr (None, t)
          | Some ip \<Rightarrow>
              rbind (ilock (Some ip) t) (\<lambda>t.
                if i_type (f_ic t ip) = T_DIR \<and> omode \<noteq> O_RDONLY then rbind (iunlockput ip t) (\<lambda>t. Inr (None, t))
                else Inr (Some ip, t))))"

definition uop_begin :: "usys \<Rightarrow> usys" where "uop_begin s = s\<lparr>u_k := op_begin (u_k s)\<rparr>"
definition uop_end :: "usys \<Rightarrow> usys" where "uop_end s = s\<lparr>u_k := op_end (u_k s)\<rparr>"

definition filealloc_u :: "usys \<Rightarrow> nat option \<times> usys" where
  "filealloc_u s = (case filealloc (u_k s) of (r, k) \<Rightarrow> (r, s\<lparr>u_k := k\<rparr>))"

text \<open>The failure of \<^verbatim>\<open>filealloc\<close> or \<^verbatim>\<open>fdalloc\<close>.\<close>

definition open_bad :: "nat option \<Rightarrow> nat \<Rightarrow> usys \<Rightarrow> (int \<times> usys) result" where
  "open_bad f ip s =
     rbind (case f of None \<Rightarrow> Inr s | Some f \<Rightarrow> on_k (fileclose f) s) (\<lambda>s.
     rbind (on_k (on_fs (iunlockput ip)) s) (\<lambda>s. Inr (- 1, uop_end s)))"

definition opened :: "nat \<Rightarrow> int \<Rightarrow> file_t \<Rightarrow> file_t" where
  "opened ip omode x = x\<lparr>fl_type := FD_INODE, fl_ip := ip, fl_off := 0, fl_readable := (and omode O_WRONLY = 0),
     fl_writable := (and omode O_WRONLY \<noteq> 0 \<or> and omode O_RDWR \<noteq> 0)\<rparr>"

text \<open>The second half: a file and a descriptor for the inode.\<close>

definition open_fd :: "nat \<Rightarrow> nat \<Rightarrow> int \<Rightarrow> usys \<Rightarrow> (int \<times> usys) result" where
  "open_fd p ip omode s =
     (case filealloc_u s of
        (None, s) \<Rightarrow> open_bad None ip s
      | (Some f, s) \<Rightarrow>
          (case fdalloc p f s of
             (None, s) \<Rightarrow> open_bad (Some f) ip s
           | (Some fd, s) \<Rightarrow>
               rbind (on_k (on_fs (iunlock (Some ip))) s) (\<lambda>s.
                 let s = uop_end s in
                 Inr (int fd, s\<lparr>u_k := upd_file f (opened ip omode) (u_k s)\<rparr>))))"

definition sys_open :: "nat \<Rightarrow> usys \<Rightarrow> (int \<times> usys) result" where
  "sys_open p s =
     (case (argstr p 0 s, argint p 1 s) of
        (Some path, Some omode) \<Rightarrow>
          rbind (cwdp p s) (\<lambda>cwd.
          rbind (on_k_val (on_fs_val (open_inode cwd path omode)) (uop_begin s)) (\<lambda>(r, s).
            case r of
              None \<Rightarrow> Inr (- 1, uop_end s)
            | Some ip \<Rightarrow> open_fd p ip omode s))
      | _ \<Rightarrow> Inr (- 1, s))"

text \<open>The loop of \<^verbatim>\<open>sys_chdir\<close> over symbolic links has no bound: \<open>fuel\<close> rounds.\<close>

fun chdir_follow :: "nat \<Rightarrow> nat \<Rightarrow> nat \<Rightarrow> fs \<Rightarrow> (nat \<times> fs) result" where
  "chdir_follow fuel cwd ip t =
     (if i_type (f_ic t ip) \<noteq> T_SYM then Inr (ip, t)
      else case fuel of
        0 \<Rightarrow> Inl Diverge
      | Suc fuel \<Rightarrow>
          rbind (sym_path (f_ic t ip)) (\<lambda>path.
          rbind (iunlock (Some ip) t) (\<lambda>t.
          rbind (namei cwd path t) (\<lambda>(r, t).
            case r of
              None \<Rightarrow> Inl (Panic ''sys_chdir ip null'')
            | Some ip \<Rightarrow> rbind (ilock (Some ip) t) (chdir_follow fuel cwd ip)))))"

declare chdir_follow.simps [simp del]

definition chdir_op :: "nat \<Rightarrow> nat \<Rightarrow> byte list \<Rightarrow> fs \<Rightarrow> (nat option \<times> fs) result" where
  "chdir_op fuel cwd path t =
     rbind (namei cwd path t) (\<lambda>(r, t).
       case r of
         None \<Rightarrow> Inr (None, t)
       | Some ip \<Rightarrow>
           rbind (ilock (Some ip) t) (\<lambda>t.
           rbind (chdir_follow fuel cwd ip t) (\<lambda>(ip, t).
             if i_type (f_ic t ip) \<noteq> T_DIR then rbind (iunlockput ip t) (\<lambda>t. Inr (None, t))
             else rbind (iunlock (Some ip) t) (\<lambda>t. rbind (iput cwd t) (\<lambda>t. Inr (Some ip, t))))))"

definition sys_chdir :: "nat \<Rightarrow> nat \<Rightarrow> usys \<Rightarrow> (int \<times> usys) result" where
  "sys_chdir fuel p s =
     rbind (cwdp p s) (\<lambda>cwd.
     rbind (transaction (\<lambda>t. case argstr p 0 s of None \<Rightarrow> Inr (None, t) | Some path \<Rightarrow> chdir_op fuel cwd path t) s) (\<lambda>(r, s).
       case r of
         None \<Rightarrow> Inr (- 1, s)
       | Some ip \<Rightarrow> Inr (0, upd_up p (\<lambda>x. x\<lparr>u_cwd := Some ip\<rparr>) s)))"

section \<open>Fork and exit\<close>

text \<open>
  The part of \<^verbatim>\<open>fork\<close> that gives the new process \<open>np\<close> the memory, the trap frame, the open files and the working directory
  of its parent.
\<close>

definition fork_fd :: "nat \<Rightarrow> nat \<Rightarrow> nat \<Rightarrow> usys \<Rightarrow> usys result" where
  "fork_fd p np i s =
     (case ofile s p i of
        None \<Rightarrow> Inr s
      | Some f \<Rightarrow> rbind (on_k (filedup f) s) (\<lambda>s. Inr (set_fd np i (Some f) s)))"

definition fork_child :: "nat \<Rightarrow> nat \<Rightarrow> usys \<Rightarrow> usys result" where
  "fork_child p np s =
     (let x = u_proc s p; s = upd_up np (\<lambda>y. y\<lparr>u_sz := u_sz x, u_mem := u_mem x, u_esp := u_esp x\<rparr>) s in
      rbind (rfold (fork_fd p np) [0..<NOFILE] s) (\<lambda>s.
      rbind (cwdp p s) (\<lambda>cwd.
      rbind (on_k (on_fs (\<lambda>t. Inr (idup cwd t))) s) (\<lambda>s.
      Inr (upd_up np (\<lambda>y. y\<lparr>u_cwd := Some cwd\<rparr>) s)))))"

definition exit_fd :: "nat \<Rightarrow> nat \<Rightarrow> usys \<Rightarrow> usys result" where
  "exit_fd p fd s =
     (case ofile s p fd of
        None \<Rightarrow> Inr s
      | Some f \<Rightarrow> rbind (on_k (fileclose f) s) (\<lambda>s. Inr (set_fd p fd None s)))"

definition exit_files :: "nat \<Rightarrow> usys \<Rightarrow> usys result" where
  "exit_files p s =
     rbind (rfold (exit_fd p) [0..<NOFILE] s) (\<lambda>s.
     rbind (cwdp p s) (\<lambda>cwd.
     rbind (transaction (\<lambda>t. rbind (iput cwd t) (\<lambda>t. Inr ((), t))) s) (\<lambda>(_, s).
     Inr (upd_up p (\<lambda>x. x\<lparr>u_cwd := None\<rparr>) s))))"

end
