(* ===== verification/Xv6_Fd.thy ===== *)
theory Xv6_Fd
  imports Xv6_Sysfile
begin

text \<open>
  Reference counts of open files.  The locale \<open>slot_table\<close> states what a table of references (the descriptors of all processes)
  relies on in the table of counted objects it refers to (\<^verbatim>\<open>ftable\<close>): \<open>dup\<close> and \<open>close\<close> change one count.  It is
  interpreted on \<^verbatim>\<open>filedup\<close> and \<^verbatim>\<open>fileclose\<close>.
\<close>

section \<open>Counting references\<close>

definition slot_count :: "'i set \<Rightarrow> ('i \<Rightarrow> nat option) \<Rightarrow> nat \<Rightarrow> nat" where
  "slot_count I g f = card {i \<in> I. g i = Some f}"

lemma slot_count_pos: "finite I \<Longrightarrow> i \<in> I \<Longrightarrow> g i = Some f \<Longrightarrow> 0 < slot_count I g f"
  unfolding slot_count_def by (rule card_gt_0_iff [THEN iffD2]) auto

lemma slot_count_add:
  assumes "finite I" "i \<in> I" "g i = None"
  shows "slot_count I (g(i := Some f)) = (slot_count I g)(f := Suc (slot_count I g f))"
proof
  fix h
  have "{j \<in> I. (g(i := Some f)) j = Some h} = (if h = f then insert i {j \<in> I. g j = Some h} else {j \<in> I. g j = Some h})"
    using assms(2,3) by auto
  then show "slot_count I (g(i := Some f)) h = ((slot_count I g)(f := Suc (slot_count I g f))) h"
    using assms(1,3) by (simp add: slot_count_def)
qed

lemma slot_count_del:
  assumes "finite I" "i \<in> I" "g i = Some f"
  shows "slot_count I (g(i := None)) = (slot_count I g)(f := slot_count I g f - 1)"
proof
  fix h
  have "{j \<in> I. (g(i := None)) j = Some h} = (if h = f then {j \<in> I. g j = Some h} - {i} else {j \<in> I. g j = Some h})"
    using assms(2,3) by auto
  then show "slot_count I (g(i := None)) h = ((slot_count I g)(f := slot_count I g f - 1)) h"
    using assms by (simp add: slot_count_def)
qed

locale slot_table =
  fixes ok :: "'s \<Rightarrow> (nat \<Rightarrow> nat) \<Rightarrow> bool" and I :: "'i set"
    and get :: "'s \<Rightarrow> 'i \<Rightarrow> nat option" and put :: "'i \<Rightarrow> nat option \<Rightarrow> 's \<Rightarrow> 's"
    and dup :: "nat \<Rightarrow> 's \<Rightarrow> 's result" and close :: "nat \<Rightarrow> 's \<Rightarrow> 's result"
  assumes fin: "finite I"
    and get_put: "get (put i r s) = (get s)(i := r)"
    and ok_put: "ok (put i r s) R = ok s R"
    and dup_ok: "ok s R \<Longrightarrow> 0 < R f \<Longrightarrow> \<exists>s'. dup f s = Inr s' \<and> ok s' (R(f := Suc (R f))) \<and> get s' = get s"
    and close_ok: "ok s R \<Longrightarrow> 0 < R f \<Longrightarrow> close f s = Inr s' \<Longrightarrow> ok s' (R(f := R f - 1)) \<and> get s' = get s"
begin

definition counted :: "'s \<Rightarrow> bool" where
  "counted s \<longleftrightarrow> ok s (slot_count I (get s))"

lemma dup_then_put:
  assumes "counted s" "i \<in> I" "get s i = None" "j \<in> I" "get s j = Some f"
  shows "\<exists>s'. dup f s = Inr s' \<and> counted (put i (Some f) s') \<and> get s' = get s"
  using dup_ok [of s "slot_count I (get s)" f] assms slot_count_pos [OF fin assms(4), of "get s" f, OF assms(5)]
  by (auto simp: counted_def get_put ok_put slot_count_add fin)

lemma put_then_dup:
  assumes "counted s" "i \<in> I" "get s i = None" "j \<in> I" "get s j = Some f"
  shows "\<exists>s'. dup f (put i (Some f) s) = Inr s' \<and> counted s' \<and> get s' = (get s)(i := Some f)"
  using dup_ok [of "put i (Some f) s" "slot_count I (get s)" f] assms slot_count_pos [OF fin assms(4), of "get s" f, OF assms(5)]
  by (auto simp: counted_def get_put ok_put slot_count_add fin)

lemma close_then_clear:
  assumes "counted s" "i \<in> I" "get s i = Some f" "close f s = Inr s'"
  shows "counted (put i None s')" "get s' = get s"
  using close_ok [of s "slot_count I (get s)" f s'] assms slot_count_pos [OF fin assms(2), of "get s" f, OF assms(3)]
  by (auto simp: counted_def get_put ok_put slot_count_del fin)

lemma clear_then_close:
  assumes "counted s" "i \<in> I" "get s i = Some f" "close f (put i None s) = Inr s'"
  shows "counted s'" "get s' = (get s)(i := None)"
  using close_ok [of "put i None s" "slot_count I (get s)" f s'] assms slot_count_pos [OF fin assms(2), of "get s" f, OF assms(3)]
  by (auto simp: counted_def get_put ok_put slot_count_del fin)

lemma put_fresh:
  assumes "ok s ((slot_count I (get s))(f := 1))" "i \<in> I" "get s i = None" "slot_count I (get s) f = 0"
  shows "counted (put i (Some f) s)"
  using assms by (simp add: counted_def get_put ok_put slot_count_add fin)

end

section \<open>The file table\<close>

text \<open>\<open>f\<close> is the reading (\<open>w\<close> false) or the writing end of the pipe in page \<open>a\<close>.\<close>

definition is_end :: "ksys \<Rightarrow> nat \<Rightarrow> bool \<Rightarrow> nat \<Rightarrow> bool" where
  "is_end k a w f \<longleftrightarrow> f < NFILE \<and> fl_type (k_file k f) = FD_PIPE \<and> fl_pipe (k_file k f) = a \<and> fl_writable (k_file k f) = w"

definition pipe_pages :: "ksys \<Rightarrow> nat set" where
  "pipe_pages k = {a. \<exists>w f. is_end k a w f}"

text \<open>
  Pages: each of the pages \<open>P\<close> that pipes may use is either free or in use by a pipe; a pipe knows which of its ends are
  open, and each end is one open file.
\<close>

definition pipes_ok :: "nat set \<Rightarrow> ksys \<Rightarrow> bool" where
  "pipes_ok P k \<longleftrightarrow> distinct (k_free k) \<and> set (k_free k) \<union> pipe_pages k = P \<and> set (k_free k) \<inter> pipe_pages k = {}
     \<and> (\<forall>a. length (p_data (k_pipe k a)) = PIPESIZE)
     \<and> (\<forall>a \<in> pipe_pages k. pipe_ok (k_pipe k a) \<and> p_readopen (k_pipe k a) = (\<exists>f. is_end k a False f)
          \<and> p_writeopen (k_pipe k a) = (\<exists>f. is_end k a True f))
     \<and> (\<forall>f g a w. is_end k a w f \<longrightarrow> is_end k a w g \<longrightarrow> f = g)
     \<and> (\<forall>f a w. is_end k a w f \<longrightarrow> fl_readable (k_file k f) = (\<not> w))"

text \<open>The table of open files with reference counts \<open>R\<close>.\<close>

definition tab_ok :: "nat set \<Rightarrow> ksys \<Rightarrow> (nat \<Rightarrow> nat) \<Rightarrow> bool" where
  "tab_ok P k R \<longleftrightarrow> (\<forall>f. 0 < R f \<longrightarrow> f < NFILE)
     \<and> (\<forall>f<NFILE. fl_ref (k_file k f) = int (R f) \<and> (R f = 0 \<longleftrightarrow> fl_type (k_file k f) = FD_NONE)) \<and> pipes_ok P k"

lemma tab_okD:
  assumes "tab_ok P k R"
  shows "0 < R f \<Longrightarrow> f < NFILE" "f < NFILE \<Longrightarrow> fl_ref (k_file k f) = int (R f)" "f < NFILE \<Longrightarrow> R f = 0 \<longleftrightarrow> fl_type (k_file k f) = FD_NONE"
    "pipes_ok P k"
  using assms by (auto simp: tab_ok_def)

lemma pipes_okD:
  assumes "pipes_ok P k"
  shows "distinct (k_free k)" "set (k_free k) \<union> pipe_pages k = P" "set (k_free k) \<inter> pipe_pages k = {}" "length (p_data (k_pipe k a)) = PIPESIZE"
    "is_end k a w f \<Longrightarrow> pipe_ok (k_pipe k a)" "is_end k a w f \<Longrightarrow> p_readopen (k_pipe k a) = (\<exists>f. is_end k a False f)"
    "is_end k a w f \<Longrightarrow> p_writeopen (k_pipe k a) = (\<exists>f. is_end k a True f)"
    "is_end k a w f \<Longrightarrow> is_end k a w g \<Longrightarrow> f = g" "is_end k a w f \<Longrightarrow> fl_readable (k_file k f) = (\<not> w)"
  using assms unfolding pipes_ok_def pipe_pages_def by blast+

text \<open>What is known of a file depends on its kind, not on the reference count or the offset; nothing depends on the file system.\<close>

definition end_of :: "file_t \<Rightarrow> ftype \<times> nat \<times> bool \<times> bool" where
  "end_of x = (fl_type x, fl_pipe x, fl_writable x, fl_readable x)"

lemma is_end_cong: "(\<And>f. f < NFILE \<Longrightarrow> end_of (k_file k' f) = end_of (k_file k f)) \<Longrightarrow> is_end k' = is_end k"
  by (auto simp: is_end_def end_of_def fun_eq_iff)

lemma pipes_ok_cong:
  assumes e: "\<And>f. f < NFILE \<Longrightarrow> end_of (k_file k' f) = end_of (k_file k f)" and p: "k_pipe k' = k_pipe k" "k_free k' = k_free k"
  shows "pipes_ok P k' = pipes_ok P k"
proof -
  have r: "is_end k a w f \<Longrightarrow> fl_readable (k_file k' f) = fl_readable (k_file k f)" for a w f
    using e [of f] by (simp add: is_end_def end_of_def)
  have e': "is_end k' = is_end k" by (rule is_end_cong) (rule e)
  have "(\<forall>f a w. is_end k a w f \<longrightarrow> fl_readable (k_file k' f) = (\<not> w)) = (\<forall>f a w. is_end k a w f \<longrightarrow> fl_readable (k_file k f) = (\<not> w))"
    using r by auto
  then show ?thesis unfolding pipes_ok_def pipe_pages_def e' p by simp
qed

lemma tab_ok_cong:
  assumes "k_file k' = k_file k" "k_pipe k' = k_pipe k" "k_free k' = k_free k"
  shows "tab_ok P k' R = tab_ok P k R"
  using pipes_ok_cong [of k' k P] assms by (simp add: tab_ok_def)

text \<open>A pipe operation on one page.\<close>

lemma pipes_ok_upd_pipe:
  assumes "pipes_ok P k" "is_end k a w f" "pipe_ok q" "p_readopen q = p_readopen (k_pipe k a)" "p_writeopen q = p_writeopen (k_pipe k a)"
  shows "pipes_ok P (upd_pipe a q k)"
proof -
  have e: "is_end (upd_pipe a q k) = is_end k" by (rule is_end_cong) simp
  show ?thesis using assms unfolding pipes_ok_def pipe_pages_def e by (auto simp: pipe_ok_def)
qed

lemma tab_ok_upd_pipe:
  assumes "tab_ok P k R" "is_end k a w f" "pipe_ok q" "p_readopen q = p_readopen (k_pipe k a)" "p_writeopen q = p_writeopen (k_pipe k a)"
  shows "tab_ok P (upd_pipe a q k) R"
  using pipes_ok_upd_pipe [OF _ assms(2-5)] assms(1) by (simp add: tab_ok_def)

lemma tab_ok_off:
  assumes "tab_ok P k R"
  shows "tab_ok P (upd_file f (\<lambda>x. x\<lparr>fl_off := n\<rparr>) k) R"
proof -
  have "pipes_ok P (upd_file f (\<lambda>x. x\<lparr>fl_off := n\<rparr>) k) = pipes_ok P k" by (rule pipes_ok_cong) (auto simp: end_of_def)
  then show ?thesis using assms by (auto simp: tab_ok_def)
qed

section \<open>\<^verbatim>\<open>filedup\<close> and \<^verbatim>\<open>fileclose\<close>\<close>

lemma tab_ok_ref:
  assumes "tab_ok P k R" "f < NFILE" "fl_type (k_file k f) \<noteq> FD_NONE" "0 < n"
  shows "tab_ok P (upd_file f (\<lambda>x. x\<lparr>fl_ref := int n\<rparr>) k) (R(f := n))"
proof -
  have "pipes_ok P (upd_file f (\<lambda>x. x\<lparr>fl_ref := int n\<rparr>) k) = pipes_ok P k" by (rule pipes_ok_cong) (auto simp: end_of_def)
  then show ?thesis using assms by (auto simp: tab_ok_def)
qed

lemma filedup_ok:
  assumes ok: "tab_ok P k R" and r: "0 < R f"
  shows "\<exists>k'. filedup f k = Inr k' \<and> tab_ok P k' (R(f := Suc (R f)))"
proof -
  have f: "f < NFILE" "fl_ref (k_file k f) = int (R f)" "fl_type (k_file k f) \<noteq> FD_NONE"
    using tab_okD [OF ok] r by (blast, blast, metis less_irrefl)
  have "tab_ok P (upd_file f (\<lambda>x. x\<lparr>fl_ref := int (Suc (R f))\<rparr>) k) (R(f := Suc (R f)))" by (rule tab_ok_ref [OF ok f(1,3)]) simp
  then show ?thesis using r f(2) by (simp add: filedup_def algebra_simps)
qed

text \<open>The file table after the last reference to \<open>f\<close> is gone, before the pipe or the inode is released.\<close>

abbreviation dropped :: "nat \<Rightarrow> ksys \<Rightarrow> ksys" where
  "dropped f k \<equiv> upd_file f (\<lambda>x. x\<lparr>fl_ref := 0, fl_type := FD_NONE\<rparr>) k"

lemma is_end_dropped: "is_end (dropped f k) a w g \<longleftrightarrow> g \<noteq> f \<and> is_end k a w g"
  by (auto simp: is_end_def)

lemma drop_inode:
  assumes "tab_ok P k R" "fl_type (k_file k f) \<noteq> FD_PIPE"
  shows "tab_ok P (dropped f k) (R(f := 0))"
proof -
  have e: "is_end (dropped f k) = is_end k" using assms(2) by (auto simp: is_end_dropped is_end_def fun_eq_iff)
  have "is_end k a w g \<Longrightarrow> k_file (dropped f k) g = k_file k g" for a w g using assms(2) by (auto simp: is_end_def)
  then have "pipes_ok P (dropped f k)" using assms(1) unfolding tab_ok_def pipes_ok_def pipe_pages_def e by auto
  then show ?thesis using assms(1) by (auto simp: tab_ok_def)
qed

lemma pipeclose_cases:
  "pipeclose w p = (freed, c, p') \<Longrightarrow> p_data p' = p_data p \<and> (pipe_ok p \<longrightarrow> pipe_ok p') \<and> freed = (\<not> (if w then p_readopen p else p_writeopen p))
     \<and> p_readopen p' = (p_readopen p \<and> w) \<and> p_writeopen p' = (p_writeopen p \<and> \<not> w)"
  by (cases w) (auto simp: pipeclose_def pipe_ok_def plen_def)

lemma drop_pipe:
  assumes ok: "tab_ok P k R" and f: "is_end k a w f" and c: "pipeclose w (k_pipe k a) = (freed, c, q)"
  shows "tab_ok P (let k' = upd_pipe a q (dropped f k) in if freed then kfree_pipe a k' else k') (R(f := 0))"
proof -
  note T = tab_okD [OF ok]
  note Q = pipes_okD [OF T(4)]
  note C = pipeclose_cases [OF c]
  define K where "K = (let k' = upd_pipe a q (dropped f k) in if freed then kfree_pipe a k' else k')"
  have fs: "k_file K = k_file (dropped f k)" "k_pipe K = (k_pipe k)(a := q)" "k_free K = (if freed then a # k_free k else k_free k)"
    by (auto simp: K_def Let_def kfree_pipe_def)
  have e: "is_end K b v g \<longleftrightarrow> g \<noteq> f \<and> is_end k b v g" for b v g
    using is_end_dropped [where f = f and k = k and a = b and w = v and g = g] by (simp only: is_end_def fs)
  have same: "is_end k b v f \<Longrightarrow> b = a \<and> v = w" for b v using f by (auto simp: is_end_def)
  have uniq: "is_end k a w g \<Longrightarrow> g = f" for g using Q(8) [OF f] by simp
  have other: "(\<exists>g. is_end K a v g) \<longleftrightarrow> v \<noteq> w \<and> (\<exists>g. is_end k a v g)" for v
    unfolding e
  proof
    assume "\<exists>g. g \<noteq> f \<and> is_end k a v g"
    then obtain g where g: "g \<noteq> f" "is_end k a v g" by blast
    have "v \<noteq> w"
    proof
      assume "v = w"
      then show False using uniq [of g] g by simp
    qed
    then show "v \<noteq> w \<and> (\<exists>g. is_end k a v g)" using g(2) by blast
  next
    assume a: "v \<noteq> w \<and> (\<exists>g. is_end k a v g)"
    then obtain g where g: "is_end k a v g" by blast
    have "g \<noteq> f"
    proof
      assume "g = f"
      then show False using same [of a v] g a by simp
    qed
    then show "\<exists>g. g \<noteq> f \<and> is_end k a v g" using g by blast
  qed
  have fr: "freed \<longleftrightarrow> (\<forall>g. \<not> is_end K a (\<not> w) g)"
    using C other [of "\<not> w"] Q(6,7) [OF f] by (cases w) auto
  have elsewhere: "b \<noteq> a \<Longrightarrow> is_end K b v g = is_end k b v g" for b v g using e f by (auto simp: is_end_def)
  have pp: "pipe_pages K = (if freed then pipe_pages k - {a} else pipe_pages k)"
    unfolding pipe_pages_def set_eq_iff mem_Collect_eq
  proof
    fix b
    show "(\<exists>v g. is_end K b v g) = (b \<in> (if freed then {a. \<exists>w f. is_end k a w f} - {a} else {a. \<exists>w f. is_end k a w f}))"
    proof (cases "b = a")
      case True
      have "(\<exists>v g. is_end K a v g) \<longleftrightarrow> \<not> freed" using fr other [of True] other [of False] by (cases w) (auto simp: ex_bool_eq)
      then show ?thesis using True f by auto
    qed (use elsewhere in auto)
  qed
  have ap: "a \<in> pipe_pages k" using f by (auto simp: pipe_pages_def)
  have ends: "p_readopen (k_pipe K b) = (\<exists>g. is_end K b False g) \<and> p_writeopen (k_pipe K b) = (\<exists>g. is_end K b True g) \<and> pipe_ok (k_pipe K b)"
    if b: "b \<in> pipe_pages K" for b
  proof (cases "b = a")
    case True
    then show ?thesis using other C Q(5,6,7) [OF f] fs(2) by auto
  next
    case False
    then obtain v g where "is_end k b v g" using b elsewhere by (auto simp: pipe_pages_def)
    then show ?thesis using Q(5-7) False elsewhere fs(2) by simp
  qed
  have "pipes_ok P K" unfolding pipes_ok_def
  proof (intro conjI)
    show "distinct (k_free K)" using Q(1,3) ap fs(3) by auto
    show "set (k_free K) \<union> pipe_pages K = P" using Q(2) ap pp fs(3) by auto
    show "set (k_free K) \<inter> pipe_pages K = {}" using Q(3) pp fs(3) by auto
    show "\<forall>b. length (p_data (k_pipe K b)) = PIPESIZE" using Q(4) C fs(2) by simp
    show "\<forall>b\<in>pipe_pages K. pipe_ok (k_pipe K b) \<and> p_readopen (k_pipe K b) = (\<exists>f. is_end K b False f) \<and> p_writeopen (k_pipe K b) = (\<exists>f. is_end K b True f)"
      by (intro ballI) (simp add: ends)
    show "\<forall>g h b v. is_end K b v g \<longrightarrow> is_end K b v h \<longrightarrow> g = h" unfolding e using Q(8) by (intro allI impI) (elim conjE, simp)
    show "\<forall>g b v. is_end K b v g \<longrightarrow> fl_readable (k_file K g) = (\<not> v)" unfolding e fs(1)
      by (intro allI impI, elim conjE) (simp add: Q(9))
  qed
  then show ?thesis unfolding K_def [symmetric] using T fs(1) by (simp add: tab_ok_def)
qed

lemma fileclose_ok:
  assumes ok: "tab_ok P k R" and r: "0 < R f" and c: "fileclose f k = Inr k'"
  shows "tab_ok P k' (R(f := R f - 1))"
proof -
  have f: "f < NFILE" "fl_ref (k_file k f) = int (R f)" "fl_type (k_file k f) \<noteq> FD_NONE"
    using tab_okD [OF ok] r by (blast, blast, metis less_irrefl)
  show ?thesis
  proof (cases "R f = 1")
    case False
    then have "k' = upd_file f (\<lambda>x. x\<lparr>fl_ref := int (R f - 1)\<rparr>) k" using c r f(2) by (simp add: fileclose_def of_nat_diff)
    then show ?thesis using tab_ok_ref [OF ok f(1,3), of "R f - 1"] False r by simp
  next
    case True
    show ?thesis
    proof (cases "fl_type (k_file k f)")
      case FD_PIPE
      let ?a = "fl_pipe (k_file k f)" and ?w = "fl_writable (k_file k f)"
      obtain fr w q where q: "pipeclose ?w (k_pipe k ?a) = (fr, w, q)" by (metis prod_cases3)
      have "is_end k ?a ?w f" using f(1) FD_PIPE by (simp add: is_end_def)
      from drop_pipe [OF ok this q] show ?thesis using c True f(2) FD_PIPE q by (auto simp: fileclose_def Let_def)
    next
      case FD_INODE
      then have "tab_ok P (dropped f k) (R(f := 0))" using drop_inode [OF ok] by simp
      moreover have "k_file k' = k_file (dropped f k)" "k_pipe k' = k_pipe (dropped f k)" "k_free k' = k_free (dropped f k)"
        using c True f(2) FD_INODE by (auto simp: fileclose_def Let_def on_fs_def op_begin_def op_end_def rbind_eq_Inr)
      ultimately show ?thesis using tab_ok_cong [of k' "dropped f k" P] True by simp
    qed (use f(3) in simp)
  qed
qed

text \<open>Closing does not fail unless it is the last reference to an inode.\<close>

lemma fileclose_returns:
  assumes "tab_ok P k R" "0 < R f" "1 < R f \<or> fl_type (k_file k f) \<noteq> FD_INODE"
  shows "\<exists>k'. fileclose f k = Inr k'"
proof -
  have f: "fl_ref (k_file k f) = int (R f)" using tab_okD [OF assms(1)] assms(2) by blast
  show ?thesis using assms(2,3) f by (auto simp: fileclose_def Let_def split: ftype.split prod.split)
qed

end
