(* ===== verification/Xv6_Fd_Ops.thy ===== *)
theory Xv6_Fd_Ops
  imports Xv6_Fd
begin

text \<open>
  Every operation of \<^verbatim>\<open>file.c\<close>, and \<^verbatim>\<open>pipealloc\<close>, keeps the invariant \<open>tab_ok\<close> of the table of open files, with the reference
  counts it should have; and the table of descriptors of all processes is an instance of \<open>slot_table\<close>.
\<close>

section \<open>A new pipe\<close>

lemma free_file:
  assumes "tab_ok P k R" "f < NFILE" "fl_ref (k_file k f) = 0"
  shows "R f = 0" "fl_type (k_file k f) = FD_NONE"
  using tab_okD(2,3) [OF assms(1,2)] assms(3) by simp_all

lemma add_pipe:
  assumes ok: "tab_ok P k R" and f: "f0 \<noteq> f1" "f0 < NFILE" "f1 < NFILE" "R f0 = 0" "R f1 = 0"
    and x: "fl_ref xr = 1" "end_of xr = (FD_PIPE, p, False, True)" "fl_ref xw = 1" "end_of xw = (FD_PIPE, p, True, False)"
    and q: "pipe_ok q" "p_readopen q" "p_writeopen q" and fr: "k_free k = p # ps"
    and K: "k_file K = (k_file k)(f0 := xr, f1 := xw)" "k_pipe K = (k_pipe k)(p := q)" "k_free K = ps"
  shows "tab_ok P K (R(f0 := 1, f1 := 1))"
proof -
  note T = tab_okD [OF ok]
  note Q = pipes_okD [OF T(4)]
  have n: "fl_type (k_file k f0) = FD_NONE" "fl_type (k_file k f1) = FD_NONE" using T(3) f by auto
  have x': "fl_type xr = FD_PIPE" "fl_pipe xr = p" "\<not> fl_writable xr" "fl_readable xr" "fl_type xw = FD_PIPE" "fl_pipe xw = p" "fl_writable xw" "\<not> fl_readable xw"
    using x by (auto simp: end_of_def)
  have e: "is_end K b v g \<longleftrightarrow> b = p \<and> (g = f0 \<and> \<not> v \<or> g = f1 \<and> v) \<or> is_end k b v g" for b v g
    using f(1-3) n x' K(1) by (auto simp: is_end_def)
  have np: "\<not> is_end k p v g" for v g using Q(3) fr by (auto simp: pipe_pages_def)
  have pp: "pipe_pages K = insert p (pipe_pages k)" unfolding pipe_pages_def e by auto
  have old: "is_end k b v g \<Longrightarrow> g \<noteq> f0 \<and> g \<noteq> f1 \<and> b \<noteq> p" for b v g using n np by (auto simp: is_end_def)
  have "pipes_ok P K" unfolding pipes_ok_def
  proof (intro conjI)
    show "distinct (k_free K)" using Q(1) K(3) fr by simp
    show "set (k_free K) \<union> pipe_pages K = P" using Q(2) K(3) fr pp by auto
    show "set (k_free K) \<inter> pipe_pages K = {}" using Q(1,3) K(3) fr pp by auto
    show "\<forall>b. length (p_data (k_pipe K b)) = PIPESIZE" using Q(4) K(2) q(1) by (simp add: pipe_ok_def)
    show "\<forall>b\<in>pipe_pages K. pipe_ok (k_pipe K b) \<and> p_readopen (k_pipe K b) = (\<exists>f. is_end K b False f) \<and> p_writeopen (k_pipe K b) = (\<exists>f. is_end K b True f)"
    proof
      fix b assume b: "b \<in> pipe_pages K"
      from b [unfolded pp] consider "b = p" | v g where "b \<noteq> p" "is_end k b v g" by (auto simp: pipe_pages_def)
      then show "pipe_ok (k_pipe K b) \<and> p_readopen (k_pipe K b) = (\<exists>f. is_end K b False f) \<and> p_writeopen (k_pipe K b) = (\<exists>f. is_end K b True f)"
      proof cases
        case 1
        then show ?thesis using q K(2) e by auto
      next
        case 2
        then show ?thesis using Q(5-7) [OF 2(2)] K(2) e by simp
      qed
    qed
    show "\<forall>g h b v. is_end K b v g \<longrightarrow> is_end K b v h \<longrightarrow> g = h"
    proof (intro allI impI)
      fix g h b v assume a: "is_end K b v g" "is_end K b v h"
      show "g = h"
      proof (cases "b = p")
        case True
        then show ?thesis using a np unfolding e by auto
      next
        case False
        then show ?thesis using a Q(8) [of b v g h] unfolding e by simp
      qed
    qed
    show "\<forall>g b v. is_end K b v g \<longrightarrow> fl_readable (k_file K g) = (\<not> v)"
    proof (intro allI impI)
      fix g b v assume "is_end K b v g"
      then consider "g = f0" "\<not> v" | "g = f1" "v" | "is_end k b v g" unfolding e by blast
      then show "fl_readable (k_file K g) = (\<not> v)"
      proof cases
        case 3
        then show ?thesis using Q(9) [OF 3] old [OF 3] K(1) by simp
      qed (use K(1) x' f(1) in auto)
    qed
  qed
  moreover have "fl_ref (k_file K g) = int ((R(f0 := 1, f1 := 1)) g) \<and> ((R(f0 := 1, f1 := 1)) g = 0) = (fl_type (k_file K g) = FD_NONE)" if "g < NFILE" for g
    using T(2,3) [OF that] K(1) x x' f(1) by auto
  ultimately show ?thesis using T(1) f(2,3) by (auto simp: tab_ok_def)
qed

lemma pipealloc_ok:
  assumes ok: "tab_ok P k R"
  shows "pipealloc k = Inr (None, k) \<or>
    (\<exists>f0 f1 k'. pipealloc k = Inr (Some (f0, f1), k') \<and> f0 \<noteq> f1 \<and> R f0 = 0 \<and> R f1 = 0 \<and> tab_ok P k' (R(f0 := 1, f1 := 1))
       \<and> fl_type (k_file k' f0) = FD_PIPE \<and> fl_type (k_file k' f1) = FD_PIPE)"
proof (cases "filealloc k")
  case (Pair r0 k0)
  note P0 = Pair
  show ?thesis
  proof (cases r0)
    case None
    then show ?thesis using P0 filealloc_None by (auto simp: pipealloc_def pipealloc_bad_def)
  next
    case (Some f0)
    have f0: "f0 < NFILE" "fl_ref (k_file k f0) = 0" and k0: "k0 = upd_file f0 (\<lambda>x. x\<lparr>fl_ref := 1\<rparr>) k"
      using P0 Some filealloc_Some by auto
    note z0 = free_file [OF ok f0]
    have c0: "fileclose f0 k0 = Inr k" unfolding k0 using close_fresh [OF f0(2) z0(2)] .
    obtain r1 k1 where P1: "filealloc k0 = (r1, k1)" by (cases "filealloc k0")
    show ?thesis
    proof (cases r1)
      case None
      then show ?thesis using P0 P1 Some filealloc_None [of k0 k1] c0 by (simp add: pipealloc_def pipealloc_bad_def)
    next
      case s1: (Some f1)
      have f1: "f1 < NFILE" "fl_ref (k_file k0 f1) = 0" and k1: "k1 = upd_file f1 (\<lambda>x. x\<lparr>fl_ref := 1\<rparr>) k0"
        using P1 s1 filealloc_Some by auto
      have ne: "f0 \<noteq> f1" using f1(2) k0 by auto
      have f1': "fl_ref (k_file k f1) = 0" using f1(2) k0 ne by simp
      note z1 = free_file [OF ok f1(1) f1']
      let ?u = "upd_file f1 (\<lambda>x. x\<lparr>fl_ref := 1\<rparr>) k"
      have "k1 = upd_file f0 (\<lambda>x. x\<lparr>fl_ref := 1\<rparr>) ?u" using ne by (simp add: k1 k0 fun_upd_twist)
      then have c1: "fileclose f0 k1 = Inr ?u" using close_fresh [of ?u f0] f0(2) z0(2) ne by simp
      show ?thesis
      proof (cases "k_free k")
        case Nil
        then show ?thesis using P0 P1 Some s1 c1 close_fresh [OF f1' z1(2)] by (simp add: pipealloc_def pipealloc_bad_def k1 k0)
      next
        case (Cons p ps)
        let ?q = "pipe_init (p_data (k_pipe k p))"
        have "pipe_ok ?q" using pipes_okD(4) [OF tab_okD(4) [OF ok]] by (simp add: pipe_ok_def pipe_init_def plen_def)
        note add = add_pipe [OF ok ne f0(1) f1(1) z0(1) z1(1) _ _ _ _ this _ _ Cons, unfolded One_nat_def,
          where xr = "(k_file k f0)\<lparr>fl_ref := 1, fl_type := FD_PIPE, fl_readable := True, fl_writable := False, fl_pipe := p\<rparr>"
            and xw = "(k_file k f1)\<lparr>fl_ref := 1, fl_type := FD_PIPE, fl_readable := False, fl_writable := True, fl_pipe := p\<rparr>"]
        show ?thesis
          using P0 P1 Some s1 Cons ne z0(1) z1(1)
          by (simp add: pipealloc_def Let_def k1 k0) (rule add; simp add: end_of_def pipe_init_def fun_upd_twist)
      qed
    qed
  qed
qed

section \<open>Reading and writing\<close>

lemma tab_ok_fs: "tab_ok P k R \<Longrightarrow> on_fs f k = Inr k' \<Longrightarrow> tab_ok P k' R"
  using tab_ok_cong [of k' k P R] by (auto simp: on_fs_def rbind_eq_Inr)

lemma tab_ok_fs_val: "tab_ok P k R \<Longrightarrow> on_fs_val f k = Inr (r, k') \<Longrightarrow> tab_ok P k' R"
  using tab_ok_cong [of k' k P R] by (auto simp: on_fs_val_def rbind_eq_Inr)

lemma tab_ok_op [simp]: "tab_ok P (op_begin k) R = tab_ok P k R" "tab_ok P (op_end k) R = tab_ok P k R"
  by (rule tab_ok_cong; simp add: op_begin_def op_end_def)+

lemma piperead_flags:
  assumes "piperead_copy n p = (cs, p')"
  shows "p_readopen p' = p_readopen p \<and> p_writeopen p' = p_writeopen p"
  using assms
proof (induction n arbitrary: p cs p')
  case (Suc n)
  obtain ds q where q: "piperead_copy n (p\<lparr>p_nread := p_nread p + 1\<rparr>) = (ds, q)" by fastforce
  from Suc.IH [OF this] Suc.prems q show ?case by (auto simp: Let_def split: if_splits)
qed simp

lemma pipewrite_flags:
  "pipewrite_loop kl cs p = (r, rest, w, p') \<Longrightarrow> p_readopen p' = p_readopen p \<and> p_writeopen p' = p_writeopen p"
  by (induction cs arbitrary: p) (auto split: if_splits)

lemma piperead_keeps:
  assumes "piperead kl n p = (r, w, p')" "pipe_ok p"
  shows "pipe_ok p'" "p_readopen p' = p_readopen p" "p_writeopen p' = p_writeopen p"
  using assms piperead_copy_ok [OF assms(2), of "nat n"] piperead_flags [of "nat n" p]
  by (auto simp: piperead_def Let_def split: if_splits prod.splits)

lemma pipewrite_keeps:
  assumes "pipewrite kl cs n p = (r, rest, w, p')" "pipe_ok p"
  shows "pipe_ok p'" "p_readopen p' = p_readopen p" "p_writeopen p' = p_writeopen p"
  using assms pipewrite_loop_ok [OF assms(2), of kl "take (nat n) cs"] pipewrite_flags [of kl "take (nat n) cs" p]
  by (auto simp: pipewrite_def split: prod.splits outcome.splits)

lemma fileread_ok:
  assumes ok: "tab_ok P k R" and f: "0 < R f" and r: "fileread dr kl cwd f n k = Inr (r, k')"
  shows "tab_ok P k' R"
proof (cases "fl_readable (k_file k f)")
  case True
  show ?thesis
  proof (cases "fl_type (k_file k f)")
    case FD_PIPE
    let ?a = "fl_pipe (k_file k f)"
    obtain o' w q where q: "piperead kl n (k_pipe k ?a) = (o', w, q)" by (metis prod_cases3)
    have e: "is_end k ?a (fl_writable (k_file k f)) f" using tab_okD(1) [OF ok f] FD_PIPE by (simp add: is_end_def)
    note K = piperead_keeps [OF q pipes_okD(5) [OF tab_okD(4) [OF ok] e]]
    have "k' = upd_pipe ?a q k" using r True FD_PIPE q by (auto simp: fileread_def Let_def split: outcome.splits)
    then show ?thesis using tab_ok_upd_pipe [OF ok e K] by simp
  next
    case FD_INODE
    let ?ip = "fl_ip (k_file k f)"
    from r obtain k1 v ds k2 where s: "on_fs (ilock (Some ?ip)) k = Inr k1"
        "on_fs_val (readi dr cwd ?ip (fl_off (k_file k f)) (nat (n mod 2 ^ 32))) k1 = Inr ((v, ds), k2)"
        "on_fs (iunlock (Some ?ip)) (if v > 0 then upd_file f (\<lambda>x. x\<lparr>fl_off := (fl_off x + nat v) mod 2 ^ 32\<rparr>) k2 else k2) = Inr k'"
      using True FD_INODE by (auto simp: fileread_def Let_def rbind_eq_Inr)
    have "tab_ok P k2 R" by (rule tab_ok_fs_val [OF tab_ok_fs [OF ok s(1)] s(2)])
    then have "tab_ok P (if v > 0 then upd_file f (\<lambda>x. x\<lparr>fl_off := (fl_off x + nat v) mod 2 ^ 32\<rparr>) k2 else k2) R"
      using tab_ok_off by auto
    then show ?thesis using s(3) tab_ok_fs by blast
  qed (use r True in \<open>simp add: fileread_def Let_def\<close>)
qed (use r ok in \<open>simp add: fileread_def Let_def\<close>)

lemma filewrite_round_keeps:
  assumes ok: "tab_ok P k R" and r: "filewrite_round dw cwd f src k = Inr (v, k')"
  shows "tab_ok P k' R"
proof -
  let ?ip = "fl_ip (k_file k f)"
  from r obtain k1 k2 k3 where s: "on_fs (ilock (Some ?ip)) (op_begin k) = Inr k1"
      "on_fs_val (writei dw cwd ?ip src (fl_off (k_file k1 f)) (length src)) k1 = Inr (v, k2)"
      "on_fs (iunlock (Some ?ip)) (if v > 0 then upd_file f (\<lambda>x. x\<lparr>fl_off := (fl_off x + nat v) mod 2 ^ 32\<rparr>) k2 else k2) = Inr k3" "k' = op_end k3"
    by (auto simp: filewrite_round_def Let_def rbind_eq_Inr)
  have "tab_ok P k2 R" by (rule tab_ok_fs_val [OF tab_ok_fs [OF _ s(1)] s(2)]) (use ok in simp)
  then have "tab_ok P (if v > 0 then upd_file f (\<lambda>x. x\<lparr>fl_off := (fl_off x + nat v) mod 2 ^ 32\<rparr>) k2 else k2) R"
    using tab_ok_off by auto
  then show ?thesis using s(3,4) tab_ok_fs by auto
qed

lemma filewrite_loop_keeps:
  assumes "tab_ok P k R" "filewrite_loop dw cwd f src k = Inr (b, k')"
  shows "tab_ok P k' R"
  using assms
proof (induction dw cwd f src k arbitrary: b k' rule: filewrite_loop.induct)
  case (1 dw cwd f src k)
  show ?case
  proof (cases "src = []")
    case True
    then show ?thesis using "1.prems" by (simp add: filewrite_loop.simps)
  next
    case False
    let ?n = "min (length src) MAXWRITE"
    from "1.prems"(2) False obtain v k1 where s: "filewrite_round dw cwd f (take ?n src) k = Inr (v, k1)"
        "(if v < 0 then Inr (False, k1) else if v \<noteq> int ?n then Inl (Panic ''short filewrite'') else filewrite_loop dw cwd f (drop ?n src) k1) = Inr (b, k')"
      by (subst (asm) filewrite_loop.simps) (auto simp: Let_def rbind_eq_Inr)
    note k1 = filewrite_round_keeps [OF "1.prems"(1) s(1)]
    show ?thesis
    proof (cases "v < 0")
      case True
      then show ?thesis using s(2) k1 by simp
    next
      case v: False
      then have "v = int ?n" "filewrite_loop dw cwd f (drop ?n src) k1 = Inr (b, k')" using s(2) by (auto split: if_splits)
      then show ?thesis using "1.IH" [OF False refl, of "(v, k1)" v k1] s(1) v k1 by simp
    qed
  qed
qed

lemma filewrite_ok:
  assumes ok: "tab_ok P k R" and f: "0 < R f" and r: "filewrite dw kl cwd f cs n k = Inr (r, k')"
  shows "tab_ok P k' R"
proof (cases "fl_writable (k_file k f)")
  case True
  show ?thesis
  proof (cases "fl_type (k_file k f)")
    case FD_PIPE
    let ?a = "fl_pipe (k_file k f)"
    obtain o' rest w q where q: "pipewrite kl cs n (k_pipe k ?a) = (o', rest, w, q)" by (metis prod_cases4)
    have e: "is_end k ?a (fl_writable (k_file k f)) f" using tab_okD(1) [OF ok f] FD_PIPE by (simp add: is_end_def)
    note K = pipewrite_keeps [OF q pipes_okD(5) [OF tab_okD(4) [OF ok] e]]
    have "k' = upd_pipe ?a q k" using r True FD_PIPE q by (auto simp: filewrite_def Let_def split: outcome.splits)
    then show ?thesis using tab_ok_upd_pipe [OF ok e K] by simp
  next
    case FD_INODE
    then show ?thesis using r True filewrite_loop_keeps [OF ok] by (auto simp: filewrite_def Let_def rbind_eq_Inr)
  qed (use r True in \<open>simp add: filewrite_def Let_def\<close>)
qed (use r ok in \<open>simp add: filewrite_def Let_def\<close>)

lemma filestat_ok: "tab_ok P k R \<Longrightarrow> filestat f k = Inr (r, k') \<Longrightarrow> tab_ok P k' R"
  by (auto simp: filestat_def Let_def rbind_eq_Inr split: if_splits intro: tab_ok_fs)

end
