(* ===== verification/Xv6_Fd_Calls.thy ===== *)
theory Xv6_Fd_Calls
  imports Xv6_Fd_Ops
begin

text \<open>
  The system calls on descriptors keep the invariant \<open>fd_inv\<close>: the reference count of every open file is the number of
  descriptors, of all processes, that refer to it, and the pages of pipes are accounted for.
\<close>

section \<open>The invariant\<close>

definition fd_slots :: "(nat \<times> nat) set" where
  "fd_slots = {..<NPROC} \<times> {..<NOFILE}"

definition fds :: "usys \<Rightarrow> nat \<times> nat \<Rightarrow> nat option" where
  "fds s = (\<lambda>(p, d). ofile s p d)"

definition nrefs :: "usys \<Rightarrow> nat \<Rightarrow> nat" where
  "nrefs s = slot_count fd_slots (fds s)"

definition running :: "nat \<Rightarrow> usys \<Rightarrow> bool" where
  "running p s \<longleftrightarrow> p < NPROC \<and> u_cwd (u_proc s p) \<noteq> None"

definition fd_inv :: "nat set \<Rightarrow> usys \<Rightarrow> bool" where
  "fd_inv P s \<longleftrightarrow> tab_ok P (u_k s) (nrefs s)
     \<and> (\<forall>p<NPROC. u_cwd (u_proc s p) = None \<longrightarrow> (\<forall>d<NOFILE. ofile s p d = None))"

lemma in_slots [simp]: "(p, d) \<in> fd_slots \<longleftrightarrow> p < NPROC \<and> d < NOFILE"
  by (simp add: fd_slots_def)

lemma fds_simps [simp]:
  "fds (s\<lparr>u_k := k\<rparr>) = fds s" "fds s (p, d) = ofile s p d" "fds (set_fd p d r s) = (fds s)((p, d) := r)" "u_k (set_fd p d r s) = u_k s"
  "u_cwd (u_proc (set_fd p d r s) q) = u_cwd (u_proc s q)"
  by (auto simp: fds_def set_fd_def fun_eq_iff)

lemma set_fd_other [simp]: "q \<noteq> p \<Longrightarrow> u_proc (set_fd p d r s) q = u_proc s q"
  by (simp add: set_fd_def)

interpretation fdt: slot_table "\<lambda>s. tab_ok P (u_k s)" fd_slots fds "\<lambda>(p, d). set_fd p d" "\<lambda>f. on_k (filedup f)" "\<lambda>f. on_k (fileclose f)" for P
proof
  show "finite fd_slots" by (simp add: fd_slots_def)
  show "\<exists>s'. on_k (filedup f) s = Inr s' \<and> tab_ok P (u_k s') (R(f := Suc (R f))) \<and> fds s' = fds s" if "tab_ok P (u_k s) R" "0 < R f" for s R f
    using filedup_ok [OF that] by (auto simp: on_k_def)
  show "tab_ok P (u_k s') (R(f := R f - 1)) \<and> fds s' = fds s" if "tab_ok P (u_k s) R" "0 < R f" "on_k (fileclose f) s = Inr s'" for s R f s'
    using fileclose_ok [OF that(1,2)] that(3) by (auto simp: on_k_def rbind_eq_Inr)
qed auto

lemma counted_iff: "fdt.counted P s \<longleftrightarrow> tab_ok P (u_k s) (nrefs s)"
  by (simp add: fdt.counted_def nrefs_def)

lemma fd_inv_counted: "fd_inv P s \<Longrightarrow> fdt.counted P s"
  by (simp add: fd_inv_def counted_iff)

text \<open>A call of process \<open>p\<close> leaves the other processes alone.\<close>

definition others :: "nat \<Rightarrow> usys \<Rightarrow> usys \<Rightarrow> bool" where
  "others p s s' \<longleftrightarrow> (\<forall>q. q \<noteq> p \<longrightarrow> u_proc s' q = u_proc s q)"

definition call_ok :: "nat set \<Rightarrow> nat \<Rightarrow> usys \<Rightarrow> usys \<Rightarrow> bool" where
  "call_ok P p s s' \<longleftrightarrow> fdt.counted P s' \<and> others p s s' \<and> u_cwd (u_proc s' p) \<noteq> None"

lemma call_ok_inv: "fd_inv P s \<Longrightarrow> call_ok P p s s' \<Longrightarrow> fd_inv P s'"
proof -
  assume i: "fd_inv P s" and c: "call_ok P p s s'"
  have "ofile s' q d = None" if "q < NPROC" "u_cwd (u_proc s' q) = None" "d < NOFILE" for q d
  proof -
    have "q \<noteq> p" using c that(2) by (auto simp: call_ok_def)
    then have "u_proc s' q = u_proc s q" using c by (simp add: call_ok_def others_def)
    then show ?thesis using i that by (simp add: fd_inv_def)
  qed
  then show ?thesis using c by (simp add: fd_inv_def call_ok_def counted_iff)
qed

lemma others_simps [simp]: "others p s s" "others p s (s'\<lparr>u_k := k\<rparr>) = others p s s'" "others p s (set_fd p d r s') = others p s s'"
  "others p s (upd_up p g s') = others p s s'"
  by (auto simp: others_def)

lemma call_ok_refl: "fd_inv P s \<Longrightarrow> running p s \<Longrightarrow> call_ok P p s s"
  by (simp add: call_ok_def running_def fd_inv_counted)

lemma call_ok_same:
  assumes "fd_inv P s" "running p s" "tab_ok P (u_k s') (nrefs s)" "fds s' = fds s" "others p s s'" "u_cwd (u_proc s' p) \<noteq> None"
  shows "call_ok P p s s'"
  using assms by (simp add: call_ok_def counted_iff nrefs_def)

lemma fds_proc: "u_proc s' = u_proc s \<Longrightarrow> fds s' = fds s"
  by (simp add: fds_def)

lemma fds_mem [simp]: "fds (upd_up p (\<lambda>x. x\<lparr>u_mem := m\<rparr>) s) = fds s" "fds (upd_up p (\<lambda>x. x\<lparr>u_cwd := c\<rparr>) s) = fds s"
  by (auto simp: fds_def fun_eq_iff)

section \<open>Descriptor calls\<close>

lemma argfd_Some: "argfd p n s = Some (d, f) \<Longrightarrow> d < NOFILE \<and> ofile s p d = Some f"
  by (auto simp: argfd_def split: option.splits if_splits)

lemma fdalloc_Some: "fdalloc p f s = (Some d, s') \<Longrightarrow> d < NOFILE \<and> ofile s p d = None \<and> s' = set_fd p d (Some f) s"
  by (auto simp: fdalloc_def simp del: first_index_None split: option.splits dest: first_index_Some)

lemma fdalloc_None: "fdalloc p f s = (None, s') \<Longrightarrow> s' = s"
  by (auto simp: fdalloc_def simp del: first_index_None split: option.splits)

lemma nrefs_pos: "p < NPROC \<Longrightarrow> d < NOFILE \<Longrightarrow> ofile s p d = Some f \<Longrightarrow> 0 < nrefs s f"
  unfolding nrefs_def by (rule slot_count_pos [where i = "(p, d)"]) (auto simp: fd_slots_def fds_def)

lemma on_k_proc: "on_k f s = Inr s' \<Longrightarrow> u_proc s' = u_proc s" "on_k_val g s = Inr (r, s') \<Longrightarrow> u_proc s' = u_proc s"
  by (auto simp: on_k_def on_k_val_def rbind_eq_Inr)

lemma sys_dup_ok:
  assumes i: "fd_inv P s" "running p s"
  shows "\<exists>r s'. sys_dup p s = Inr (r, s') \<and> call_ok P p s s'"
proof (cases "argfd p 0 s")
  case None
  then show ?thesis using call_ok_refl [OF i] by (simp add: sys_dup_def)
next
  case (Some df)
  then obtain d f where a: "argfd p 0 s = Some (d, f)" by (cases df) auto
  note A = argfd_Some [OF a]
  obtain r s1 where b: "fdalloc p f s = (r, s1)" by (cases "fdalloc p f s")
  show ?thesis
  proof (cases r)
    case None
    then show ?thesis using fdalloc_None [of p f s s1] b a call_ok_refl [OF i] by (simp add: sys_dup_def)
  next
    case r: (Some d')
    note B = fdalloc_Some [OF b [unfolded r]]
    have p: "p < NPROC" using i(2) by (simp add: running_def)
    from fdt.put_then_dup [OF fd_inv_counted [OF i(1)], of "(p, d')" "(p, d)" f] A B p obtain s' where
      s': "on_k (filedup f) (set_fd p d' (Some f) s) = Inr s'" "fdt.counted P s'" by auto
    have "u_proc s' = u_proc s1" using on_k_proc(1) [OF s'(1)] B by simp
    then have "call_ok P p s s'" using s'(2) i(2) B by (simp add: call_ok_def running_def others_def)
    then show ?thesis using a b r B s' by (simp add: sys_dup_def)
  qed
qed

lemma sys_close_ok:
  assumes i: "fd_inv P s" "running p s" and r: "sys_close p s = Inr (r, s')"
  shows "call_ok P p s s'"
proof (cases "argfd p 0 s")
  case None
  then show ?thesis using r call_ok_refl [OF i] by (simp add: sys_close_def)
next
  case (Some df)
  then obtain d f where a: "argfd p 0 s = Some (d, f)" by (cases df) auto
  note A = argfd_Some [OF a]
  have c: "on_k (fileclose f) (set_fd p d None s) = Inr s'" using r a by (auto simp: sys_close_def rbind_eq_Inr)
  have "fdt.counted P s'" using fdt.clear_then_close(1) [OF fd_inv_counted [OF i(1)], of "(p, d)" f s'] c A i(2) by (simp add: running_def)
  then show ?thesis using on_k_proc(1) [OF c] i(2) by (simp add: call_ok_def running_def others_def)
qed

lemma sys_read_cases:
  assumes "sys_read dr p s = Inr (r, s')"
  obtains "s' = s"
    | d f n a cwd v k where "argfd p 0 s = Some (d, f)" "fileread dr (u_killed (u_proc s p)) cwd f n (u_k s) = Inr (v, k)"
        "s' = s\<lparr>u_k := k\<rparr> \<or> (\<exists>ds. s' = upd_up p (\<lambda>x. x\<lparr>u_mem := wr_bytes a ds (u_mem x)\<rparr>) (s\<lparr>u_k := k\<rparr>))"
proof (cases "argfd p 0 s = None \<or> argint p 2 s = None \<or> argptr p 1 (the (argint p 2 s)) s = None")
  case True
  then show ?thesis using assms that(1) by (auto simp: sys_read_def split: option.splits)
next
  case False
  then obtain d f n a where a: "argfd p 0 s = Some (d, f)" "argint p 2 s = Some n" "argptr p 1 n s = Some a" by auto
  from assms a obtain cwd v k where k: "fileread dr (u_killed (u_proc s p)) cwd f n (u_k s) = Inr (v, k)"
      "(case v of Block c \<Rightarrow> Inr (Block c, s\<lparr>u_k := k\<rparr>)
        | Ret (r, ds) \<Rightarrow> Inr (Ret r, upd_up p (\<lambda>x. x\<lparr>u_mem := wr_bytes a ds (u_mem x)\<rparr>) (s\<lparr>u_k := k\<rparr>))) = (Inr (r, s') :: _ result)"
    by (auto simp: sys_read_def on_k_val_def rbind_eq_Inr)
  show ?thesis by (rule that(2) [OF a(1) k(1), of a]) (use k(2) in \<open>auto split: sysret.splits\<close>)
qed

lemma sys_write_cases:
  assumes "sys_write dw p s = Inr (r, s')"
  obtains "s' = s"
    | d f n cs cwd v k where "argfd p 0 s = Some (d, f)" "filewrite dw (u_killed (u_proc s p)) cwd f cs n (u_k s) = Inr (v, k)" "s' = s\<lparr>u_k := k\<rparr>"
proof (cases "argfd p 0 s = None \<or> argint p 2 s = None \<or> argptr p 1 (the (argint p 2 s)) s = None")
  case True
  then show ?thesis using assms that(1) by (auto simp: sys_write_def split: option.splits)
next
  case False
  then obtain d f n a where a: "argfd p 0 s = Some (d, f)" "argint p 2 s = Some n" "argptr p 1 n s = Some a" by auto
  from assms a obtain cwd v k where k: "filewrite dw (u_killed (u_proc s p)) cwd f (rd_bytes a (nat n) (u_mem (u_proc s p))) n (u_k s) = Inr (v, k)"
      "(case v of Block c \<Rightarrow> Inr (Block c, s\<lparr>u_k := k\<rparr>) | Ret (r, _) \<Rightarrow> Inr (Ret r, s\<lparr>u_k := k\<rparr>)) = (Inr (r, s') :: _ result)"
    by (auto simp: sys_write_def on_k_val_def rbind_eq_Inr)
  show ?thesis by (rule that(2) [OF a(1) k(1)]) (use k(2) in \<open>auto split: sysret.splits\<close>)
qed

lemma sys_read_ok:
  assumes i: "fd_inv P s" "running p s" and r: "sys_read dr p s = Inr (r, s')"
  shows "call_ok P p s s'"
  using r
proof (cases rule: sys_read_cases)
  case 1
  then show ?thesis using call_ok_refl [OF i] by simp
next
  case (2 d f n a cwd v k)
  have n: "0 < nrefs s f" using argfd_Some [OF 2(1)] nrefs_pos i(2) by (auto simp: running_def)
  have "tab_ok P (u_k s) (nrefs s)" using i(1) by (simp add: fd_inv_def)
  from fileread_ok [OF this n 2(2)] have "tab_ok P k (nrefs s)" .
  then show ?thesis using 2(3) i(2) by (auto simp: running_def others_def intro!: call_ok_same [OF i])
qed

lemma sys_write_ok:
  assumes i: "fd_inv P s" "running p s" and r: "sys_write dw p s = Inr (r, s')"
  shows "call_ok P p s s'"
  using r
proof (cases rule: sys_write_cases)
  case 1
  then show ?thesis using call_ok_refl [OF i] by simp
next
  case (2 d f n cs cwd v k)
  have n: "0 < nrefs s f" using argfd_Some [OF 2(1)] nrefs_pos i(2) by (auto simp: running_def)
  have "tab_ok P (u_k s) (nrefs s)" using i(1) by (simp add: fd_inv_def)
  from filewrite_ok [OF this n 2(2)] have "tab_ok P k (nrefs s)" .
  then show ?thesis using 2(3) i(2) by (auto simp: running_def others_def intro!: call_ok_same [OF i])
qed

lemma sys_fstat_ok:
  assumes i: "fd_inv P s" "running p s" and r: "sys_fstat p s = Inr (r, s')"
  shows "call_ok P p s s'"
proof -
  from r consider "s' = s"
    | f v k a where "filestat f (u_k s) = Inr (v, k)" "s' = s\<lparr>u_k := k\<rparr> \<or> (\<exists>st. s' = upd_up p (\<lambda>x. x\<lparr>u_mem := put_stat a st (u_mem x)\<rparr>) (s\<lparr>u_k := k\<rparr>))"
    by (auto simp: sys_fstat_def on_k_val_def rbind_eq_Inr split: option.splits) blast+
  then show ?thesis
  proof cases
    case 1
    then show ?thesis using call_ok_refl [OF i] by simp
  next
    case 2
    have "tab_ok P k (nrefs s)" using filestat_ok [OF _ 2(1)] i(1) by (simp add: fd_inv_def)
    then show ?thesis using 2(2) i(2) by (auto simp: running_def others_def intro!: call_ok_same [OF i])
  qed
qed

text \<open>The calls on paths do not touch the file table.\<close>

lemma transaction_ok:
  assumes "fd_inv P s" "running p s" "transaction f s = Inr (r, s')"
  shows "call_ok P p s s'"
proof (rule call_ok_same [OF assms(1,2)])
  from assms(3) obtain k1 k2 where k: "on_fs_val f (op_begin (u_k s)) = Inr (r, k1)" "s' = s\<lparr>u_k := op_end k1\<rparr>"
    by (auto simp: transaction_def on_k_val_def rbind_eq_Inr)
  then show "tab_ok P (u_k s') (nrefs s)" using tab_ok_fs_val [of P "op_begin (u_k s)" "nrefs s"] assms(1) by (simp add: fd_inv_def)
  show "fds s' = fds s" "others p s s'" "u_cwd (u_proc s' p) \<noteq> None" using k assms(2) by (auto simp: running_def)
qed

lemma path_calls_ok:
  assumes i: "fd_inv P s" "running p s"
  shows "sys_link p s = Inr (r, s') \<Longrightarrow> call_ok P p s s'" "sys_unlink p s = Inr (r, s') \<Longrightarrow> call_ok P p s s'"
    "sys_symlink p s = Inr (r, s') \<Longrightarrow> call_ok P p s s'" "sys_mkdir p s = Inr (r, s') \<Longrightarrow> call_ok P p s s'"
    "sys_mknod p s = Inr (r, s') \<Longrightarrow> call_ok P p s s'"
  using call_ok_refl [OF i] transaction_ok [OF i]
  by (auto simp: sys_link_def sys_unlink_def sys_symlink_def sys_mkdir_def sys_mknod_def rbind_eq_Inr split: option.splits)

lemma sys_chdir_ok:
  assumes i: "fd_inv P s" "running p s" and r: "sys_chdir fuel p s = Inr (r, s')"
  shows "call_ok P p s s'"
proof -
  from r obtain cwd v s1 where s1: "transaction (\<lambda>t. case argstr p 0 s of None \<Rightarrow> Inr (None, t) | Some path \<Rightarrow> chdir_op fuel cwd path t) s = Inr (v, s1)"
      "(case v of None \<Rightarrow> Inr (- 1, s1) | Some ip \<Rightarrow> Inr (0, upd_up p (\<lambda>x. x\<lparr>u_cwd := Some ip\<rparr>) s1)) = (Inr (r, s') :: _ result)"
    by (auto simp: sys_chdir_def rbind_eq_Inr)
  note T = transaction_ok [OF i s1(1)]
  show ?thesis using s1(2) T by (auto simp: call_ok_def counted_iff nrefs_def split: option.splits)
qed

section \<open>\<^verbatim>\<open>sys_pipe\<close> and \<^verbatim>\<open>sys_open\<close>\<close>

lemma fileclose_frame: "fileclose f k = Inr k' \<Longrightarrow> g \<noteq> f \<Longrightarrow> k_file k' g = k_file k g"
  by (auto simp: fileclose_def Let_def on_fs_def op_begin_def op_end_def kfree_pipe_def rbind_eq_Inr split: if_splits ftype.splits prod.splits)

text \<open>Giving back both ends of a pipe that was just made.\<close>

lemma close_both:
  assumes "tab_ok P k (R(f := 1, g := 1))" "f \<noteq> g" "R f = 0" "R g = 0" "fl_type (k_file k f) = FD_PIPE" "fl_type (k_file k g) = FD_PIPE"
  shows "\<exists>k1 k2. fileclose f k = Inr k1 \<and> fileclose g k1 = Inr k2 \<and> tab_ok P k2 R"
proof -
  from fileclose_returns [OF assms(1), of f] assms(2,5) obtain k1 where k1: "fileclose f k = Inr k1" by auto
  have "tab_ok P k1 ((R(f := 1, g := 1))(f := (R(f := 1, g := 1)) f - 1))" using fileclose_ok [OF assms(1) _ k1] assms(2) by simp
  moreover have "(R(f := 1, g := 1))(f := (R(f := 1, g := 1)) f - 1) = R(g := 1)" using assms(2,3) by (auto simp: fun_eq_iff)
  ultimately have t1: "tab_ok P k1 (R(g := 1))" by simp
  have "fl_type (k_file k1 g) = FD_PIPE" using fileclose_frame [OF k1, of g] assms(2,6) by simp
  with fileclose_returns [OF t1, of g] obtain k2 where k2: "fileclose g k1 = Inr k2" by auto
  have "tab_ok P k2 ((R(g := 1))(g := (R(g := 1)) g - 1))" using fileclose_ok [OF t1 _ k2] by simp
  moreover have "(R(g := 1))(g := (R(g := 1)) g - 1) = R" using assms(4) by (auto simp: fun_eq_iff)
  ultimately show ?thesis using k1 k2 by auto
qed

lemma sys_pipe_ok:
  assumes i: "fd_inv P s" "running p s"
  shows "\<exists>r s'. sys_pipe p s = Inr (r, s') \<and> call_ok P p s s'"
proof (cases "argptr p 0 8 s")
  case None
  then show ?thesis using call_ok_refl [OF i] by (simp add: sys_pipe_def)
next
  case a: (Some a)
  have p: "p < NPROC" "u_cwd (u_proc s p) \<noteq> None" and T: "tab_ok P (u_k s) (nrefs s)" using i by (simp_all add: running_def fd_inv_def)
  from pipealloc_ok [OF T] show ?thesis
  proof (elim disjE exE conjE)
    assume "pipealloc (u_k s) = Inr (None, u_k s)"
    then show ?thesis using a call_ok_refl [OF i] by (simp add: sys_pipe_def on_k_val_def)
  next
    fix f0 f1 k' assume k': "pipealloc (u_k s) = Inr (Some (f0, f1), k')" "f0 \<noteq> f1" "nrefs s f0 = 0" "nrefs s f1 = 0"
      "tab_ok P k' ((nrefs s)(f0 := 1, f1 := 1))" "fl_type (k_file k' f0) = FD_PIPE" "fl_type (k_file k' f1) = FD_PIPE"
    let ?s = "s\<lparr>u_k := k'\<rparr>"
    from close_both [OF k'(5,2-4,6,7)] obtain k1 k2 where c: "fileclose f0 k' = Inr k1" "fileclose f1 k1 = Inr k2" "tab_ok P k2 (nrefs s)" by blast
    obtain r0 s0 where b0: "fdalloc p f0 ?s = (r0, s0)" by (cases "fdalloc p f0 ?s")
    show ?thesis
    proof (cases r0)
      case None
      have "call_ok P p s (s\<lparr>u_k := k2\<rparr>)" using c(3) p by (auto intro!: call_ok_same [OF i])
      moreover have "s0 = ?s" using fdalloc_None [of p f0 ?s s0] b0 None by simp
      ultimately show ?thesis using a k'(1) b0 None c by (simp add: sys_pipe_def on_k_val_def on_k_def)
    next
      case (Some d0)
      note B0 = fdalloc_Some [OF b0 [unfolded Some]]
      obtain r1 s1 where b1: "fdalloc p f1 s0 = (r1, s1)" by (cases "fdalloc p f1 s0")
      show ?thesis
      proof (cases r1)
        case None
        let ?t = "set_fd p d0 None s0"
        have "u_k ?t = k'" "fds ?t = fds s" "others p s ?t" "u_cwd (u_proc ?t p) \<noteq> None" using B0 p by (auto simp: fds_def fun_eq_iff set_fd_def others_def)
        then have "call_ok P p s (?t\<lparr>u_k := k2\<rparr>)" using c(3) by (auto intro!: call_ok_same [OF i])
        moreover have "s1 = s0" using fdalloc_None [of p f1 s0 s1] b1 None by simp
        ultimately show ?thesis using a k'(1) b0 Some b1 None c \<open>u_k ?t = k'\<close> by (simp add: sys_pipe_def on_k_val_def on_k_def)
      next
        case r1: (Some d1)
        note B1 = fdalloc_Some [OF b1 [unfolded r1]]
        let ?u = "upd_up p (\<lambda>x. x\<lparr>u_mem := wr_bytes (a + 4) (bytes32 d1) (wr_bytes a (bytes32 d0) (u_mem x))\<rparr>) s1"
        have f: "fds s1 = (fds s)((p, d0) := Some f0, (p, d1) := Some f1)" "u_k s1 = k'" using B0 B1 by simp_all
        have n: "fds s (p, d0) = None" "((fds s)((p, d0) := Some f0)) (p, d1) = None" using B0 B1 by (auto simp: set_fd_def)
        have "nrefs s1 = (nrefs s)(f0 := 1, f1 := 1)"
          using slot_count_add [OF fdt.fin, of "(p, d0)" "fds s" f0] slot_count_add [OF fdt.fin, of "(p, d1)" "(fds s)((p, d0) := Some f0)" f1] n B0 B1 p(1) k'(2-4)
          by (simp add: nrefs_def f)
        then have "fdt.counted P ?u" using k'(5) f by (simp add: counted_iff nrefs_def)
        then have "call_ok P p s ?u" using B0 B1 p by (simp add: call_ok_def others_def)
        then show ?thesis using a k'(1) b0 Some b1 r1 by (simp add: sys_pipe_def on_k_val_def)
      qed
    qed
  qed
qed

lemma add_inode:
  assumes ok: "tab_ok P k R" and f: "f < NFILE" "R f = 0" and x: "fl_ref x = 1" "fl_type x = FD_INODE"
    and K: "k_file K = (k_file k)(f := x)" "k_pipe K = k_pipe k" "k_free K = k_free k"
  shows "tab_ok P K (R(f := 1))"
proof -
  note T = tab_okD [OF ok]
  have n: "fl_type (k_file k f) = FD_NONE" using T(3) f by blast
  have e: "is_end K = is_end k" using n x K(1) by (auto simp: is_end_def fun_eq_iff)
  have same: "is_end k a w g \<Longrightarrow> k_file K g = k_file k g" for a w g using n K(1) by (auto simp: is_end_def)
  have "pipes_ok P K" using T(4) same unfolding pipes_ok_def pipe_pages_def e K(2,3) by auto
  then show ?thesis using T(1-3) f K(1) x by (auto simp: tab_ok_def)
qed

lemma uop_simps [simp]:
  "u_proc (uop_begin s) = u_proc s" "u_proc (uop_end s) = u_proc s" "u_k (uop_begin s) = op_begin (u_k s)" "u_k (uop_end s) = op_end (u_k s)"
  by (simp_all add: uop_begin_def uop_end_def)

lemma open_bad_ok:
  assumes i: "fd_inv P s" "running p s" and s1: "u_proc s1 = u_proc s" and r: "open_bad f ip s1 = Inr (r, s')"
    and k: "case f of None \<Rightarrow> tab_ok P (u_k s1) (nrefs s) | Some f \<Rightarrow> \<exists>k. fileclose f (u_k s1) = Inr k \<and> tab_ok P k (nrefs s)"
  shows "call_ok P p s s'"
proof -
  from r obtain s2 s3 where s2: "(case f of None \<Rightarrow> Inr s1 | Some f \<Rightarrow> on_k (fileclose f) s1) = Inr s2"
      "on_k (on_fs (iunlockput ip)) s2 = Inr s3" "s' = uop_end s3" by (auto simp: open_bad_def rbind_eq_Inr)
  have t2: "tab_ok P (u_k s2) (nrefs s)" "u_proc s2 = u_proc s" using s2(1) k s1 by (auto simp: on_k_def split: option.splits)
  have "tab_ok P (u_k s3) (nrefs s)" using s2(2) tab_ok_fs [OF t2(1)] by (auto simp: on_k_def rbind_eq_Inr)
  moreover have "u_proc s' = u_proc s" using on_k_proc(1) [OF s2(2)] s2(3) t2(2) by simp
  ultimately show ?thesis using s2(3) i(2) by (auto simp: running_def others_def intro!: call_ok_same [OF i] fds_proc)
qed

lemma open_fd_ok:
  assumes i: "fd_inv P s" "running p s" and T: "tab_ok P (u_k s1) (nrefs s)" and q: "u_proc s1 = u_proc s"
    and r: "open_fd p ip omode s1 = Inr (r, s')"
  shows "call_ok P p s s'"
proof (cases "filealloc (u_k s1)")
  case (Pair v k)
  show ?thesis
  proof (cases v)
    case None
    then have "k = u_k s1" using Pair filealloc_None by simp
    then have "open_bad None ip s1 = Inr (r, s')" using Pair None r by (simp add: open_fd_def filealloc_u_def)
    then show ?thesis using open_bad_ok [OF i q, of None ip r s'] T by simp
  next
    case (Some f)
    have f: "f < NFILE" "fl_ref (k_file (u_k s1) f) = 0" and k: "k = upd_file f (\<lambda>x. x\<lparr>fl_ref := 1\<rparr>) (u_k s1)"
      using Pair Some filealloc_Some by auto
    note z = free_file [OF T f]
    let ?s = "s1\<lparr>u_k := k\<rparr>"
    obtain v1 s2 where b: "fdalloc p f ?s = (v1, s2)" by (cases "fdalloc p f ?s")
    have r1: "(case v1 of None \<Rightarrow> open_bad (Some f) ip s2
        | Some fd \<Rightarrow> rbind (on_k (on_fs (iunlock (Some ip))) s2) (\<lambda>s. let s = uop_end s in Inr (int fd, s\<lparr>u_k := upd_file f (opened ip omode) (u_k s)\<rparr>))) = Inr (r, s')"
      using r Pair Some b by (auto simp: open_fd_def filealloc_u_def split: option.splits)
    show ?thesis
    proof (cases v1)
      case None
      have "s2 = ?s" using fdalloc_None [of p f ?s s2] b None by simp
      then show ?thesis
        using r1 None open_bad_ok [OF i, of s2 "Some f" ip r s'] close_fresh [OF f(2) z(2)] T k q by simp
    next
      case d: (Some d)
      note B = fdalloc_Some [OF b [unfolded d]]
      from r1 d obtain s3 where s3: "on_k (on_fs (iunlock (Some ip))) s2 = Inr s3" "s' = (uop_end s3)\<lparr>u_k := upd_file f (opened ip omode) (op_end (u_k s3))\<rparr>"
        by (auto simp: rbind_eq_Inr Let_def)
      have k3: "k_file (u_k s3) = k_file k" "k_pipe (u_k s3) = k_pipe k" "k_free (u_k s3) = k_free k"
        using s3(1) B by (auto simp: on_k_def on_fs_def rbind_eq_Inr)
      have "tab_ok P (u_k s') ((nrefs s)(f := 1))"
        by (rule add_inode [OF T f(1) z(1), where x = "opened ip omode ((k_file (u_k s1) f)\<lparr>fl_ref := 1\<rparr>)"])
          (use s3(2) k3 k in \<open>simp_all add: opened_def op_end_def\<close>)
      moreover have pr: "u_proc s' = u_proc s2" using s3(2) on_k_proc(1) [OF s3(1)] by simp
      then have fd: "fds s' = (fds s)((p, d) := Some f)" using B fds_proc [OF q] fds_proc [OF pr] by simp
      moreover have "nrefs s' = (nrefs s)(f := 1)"
      proof -
        have "fds s (p, d) = None" using B q by simp
        from slot_count_add [OF fdt.fin, of "(p, d)" "fds s" f, OF _ this] show ?thesis using B i(2) z(1) by (simp add: nrefs_def fd running_def)
      qed
      ultimately have "fdt.counted P s'" by (simp add: counted_iff)
      then show ?thesis using pr B q i(2) by (simp add: call_ok_def others_def running_def)
    qed
  qed
qed

lemma sys_open_ok:
  assumes i: "fd_inv P s" "running p s" and r: "sys_open p s = Inr (r, s')"
  shows "call_ok P p s s'"
proof (cases "argstr p 0 s = None \<or> argint p 1 s = None")
  case True
  then show ?thesis using r call_ok_refl [OF i] by (auto simp: sys_open_def split: option.splits)
next
  case False
  then obtain path omode where a: "argstr p 0 s = Some path" "argint p 1 s = Some omode" by auto
  from r a obtain cwd v s1 where s1: "on_k_val (on_fs_val (open_inode cwd path omode)) (uop_begin s) = Inr (v, s1)"
      "(case v of None \<Rightarrow> Inr (- 1, uop_end s1) | Some ip \<Rightarrow> open_fd p ip omode s1) = Inr (r, s')"
    by (auto simp: sys_open_def rbind_eq_Inr)
  have t1: "tab_ok P (u_k s1) (nrefs s)" and q1: "u_proc s1 = u_proc s"
    using s1(1) tab_ok_fs_val [of P "op_begin (u_k s)" "nrefs s"] i(1) on_k_proc(2) [OF s1(1)] by (auto simp: fd_inv_def on_k_val_def rbind_eq_Inr)
  show ?thesis
  proof (cases v)
    case None
    then have s': "s' = uop_end s1" using s1(2) by simp
    show ?thesis using t1 q1 i(2) fds_proc [of s' s] unfolding s' by (auto simp: running_def others_def intro!: call_ok_same [OF i])
  next
    case (Some ip)
    then show ?thesis using open_fd_ok [OF i t1 q1] s1(2) by simp
  qed
qed

section \<open>Fork and exit\<close>

lemma rfold_returned:
  assumes "rfold f xs s = Inr s'" "I [] s"
    and "\<And>ys x zs s s'. xs = ys @ x # zs \<Longrightarrow> I ys s \<Longrightarrow> f x s = Inr s' \<Longrightarrow> I (ys @ [x]) s'"
  shows "I xs s'"
proof -
  have "I (ys @ zs) s'" if "xs = ys @ zs" "I ys s" "rfold f zs s = Inr s'" for ys zs s
    using that
  proof (induction zs arbitrary: ys s)
    case (Cons z zs)
    then obtain t where t: "f z s = Inr t" "rfold f zs t = Inr s'" by (auto simp: rbind_eq_Inr)
    then show ?case using Cons.IH [of "ys @ [z]" t] assms(3) [OF Cons.prems(1,2) t(1)] Cons.prems(1) by simp
  qed simp
  from this [of "[]" xs s] assms show ?thesis by simp
qed

lemma upt_split: "[0..<n] = ys @ i # zs \<Longrightarrow> i < n \<and> ys = [0..<i]"
proof -
  assume a: "[0..<n] = ys @ i # zs"
  have l: "length ys < n" using arg_cong [OF a, of length] by simp
  have "[0..<n] ! length ys = i" "take (length ys) [0..<n] = ys" using a by simp_all
  then show ?thesis using l by simp
qed

lemma fork_child_ok:
  assumes i: "fd_inv P s" "running p s" and n: "np < NPROC" "np \<noteq> p" "u_cwd (u_proc s np) = None"
  shows "\<exists>s'. fork_child p np s = Inr s' \<and> call_ok P np s s' \<and> (\<forall>d<NOFILE. ofile s' np d = ofile s p d) \<and> u_cwd (u_proc s' np) = u_cwd (u_proc s p)
    \<and> u_mem (u_proc s' np) = u_mem (u_proc s p)"
proof -
  have p: "p < NPROC" using i(2) by (simp add: running_def)
  obtain cwd where cwd: "u_cwd (u_proc s p) = Some cwd" using i(2) by (auto simp: running_def)
  let ?x = "u_proc s p"
  let ?s = "upd_up np (\<lambda>y. y\<lparr>u_sz := u_sz ?x, u_mem := u_mem ?x, u_esp := u_esp ?x\<rparr>) s"
  let ?I = "\<lambda>ys t. fdt.counted P t \<and> others np s t \<and> (\<forall>d<NOFILE. ofile t np d = (if d \<in> set ys then ofile s p d else None)) \<and> u_mem (u_proc t np) = u_mem ?x"
  have f0: "fds ?s = fds s" by (auto simp: fds_def fun_eq_iff)
  have "\<exists>t. rfold (fork_fd p np) [0..<NOFILE] ?s = Inr t \<and> ?I [0..<NOFILE] t"
  proof (rule rfold_rule)
    show "?I [] ?s" using fd_inv_counted [OF i(1)] f0 n i(1) by (simp add: counted_iff nrefs_def others_def fd_inv_def)
  next
    fix ys d zs t assume y: "[0..<NOFILE] = ys @ d # zs" and I: "?I ys t"
    have d: "d < NOFILE" "d \<notin> set ys" using upt_split [OF y] by auto
    have op: "ofile t p d = ofile s p d" using I n(2) by (simp add: others_def)
    show "\<exists>t'. fork_fd p np d t = Inr t' \<and> ?I (ys @ [d]) t'"
    proof (cases "ofile s p d")
      case None
      then show ?thesis using I op by (auto simp: fork_fd_def)
    next
      case (Some f)
      have "ofile t np d = None" using I d by simp
      with fdt.dup_then_put [of P t "(np, d)" "(p, d)" f] I n(1) p d(1) op Some obtain t' where
        t': "on_k (filedup f) t = Inr t'" "fdt.counted P (set_fd np d (Some f) t')" by auto
      have "u_proc t' = u_proc t" using on_k_proc(1) [OF t'(1)] .
      then have "?I (ys @ [d]) (set_fd np d (Some f) t')" using I t'(2) Some by (auto simp: others_def set_fd_def)
      then show ?thesis using t'(1) op Some by (simp add: fork_fd_def)
    qed
  qed
  then obtain t where t: "rfold (fork_fd p np) [0..<NOFILE] ?s = Inr t" "?I [0..<NOFILE] t" by blast
  let ?u = "upd_up np (\<lambda>y. y\<lparr>u_cwd := Some cwd\<rparr>) (t\<lparr>u_k := (u_k t)\<lparr>k_fs := idup cwd (k_fs (u_k t))\<rparr>\<rparr>)"
  have "u_cwd (u_proc t p) = Some cwd" using t(2) n(2) cwd by (simp add: others_def)
  then have "fork_child p np s = Inr ?u" using t(1) by (simp add: fork_child_def Let_def cwdp_def on_k_def on_fs_def)
  moreover have "fds ?u = fds t" by (auto simp: fds_def fun_eq_iff)
  then have "fdt.counted P ?u"
    using t(2) tab_ok_cong [of "(u_k t)\<lparr>k_fs := idup cwd (k_fs (u_k t))\<rparr>" "u_k t" P "nrefs t"] by (simp add: counted_iff nrefs_def)
  ultimately show ?thesis using t(2) cwd by (simp add: call_ok_def others_def)
qed

lemma exit_files_ok:
  assumes i: "fd_inv P s" "running p s" and r: "exit_files p s = Inr s'"
  shows "fd_inv P s' \<and> (\<forall>d<NOFILE. ofile s' p d = None) \<and> u_cwd (u_proc s' p) = None"
proof -
  have p: "p < NPROC" using i(2) by (simp add: running_def)
  from r obtain t cwd u where t: "rfold (exit_fd p) [0..<NOFILE] s = Inr t"
      "transaction (\<lambda>t. rbind (iput cwd t) (\<lambda>t. Inr ((), t))) t = Inr u" "s' = upd_up p (\<lambda>x. x\<lparr>u_cwd := None\<rparr>) (snd u)"
    by (auto simp: exit_files_def rbind_eq_Inr)
  let ?I = "\<lambda>ys t. call_ok P p s t \<and> (\<forall>d \<in> set ys. ofile t p d = None)"
  have I: "?I [0..<NOFILE] t"
  proof (rule rfold_returned [OF t(1)])
    show "?I [] s" using call_ok_refl [OF i] by simp
  next
    fix ys d zs v v' assume y: "[0..<NOFILE] = ys @ d # zs" and I: "?I ys v" and e: "exit_fd p d v = Inr v'"
    show "?I (ys @ [d]) v'"
    proof (cases "ofile v p d")
      case None
      then show ?thesis using I e by (simp add: exit_fd_def)
    next
      case (Some f)
      then obtain w where w: "on_k (fileclose f) v = Inr w" "v' = set_fd p d None w" using e by (auto simp: exit_fd_def rbind_eq_Inr)
      have "fdt.counted P v'" using fdt.close_then_clear(1) [of P v "(p, d)" f w] I w upt_split [OF y] p Some by (simp add: call_ok_def)
      moreover have "u_proc w = u_proc v" using on_k_proc(1) [OF w(1)] .
      ultimately show ?thesis using I w(2) by (auto simp: call_ok_def others_def set_fd_def)
    qed
  qed
  have it: "fd_inv P t" "running p t" using call_ok_inv [OF i(1)] I p by (auto simp: call_ok_def running_def)
  obtain u' where u: "u = ((), u')" by (cases u) auto
  have c: "call_ok P p t u'" using transaction_ok [OF it] t(2) u by simp
  have q: "u_proc u' = u_proc t" using t(2) u by (auto simp: transaction_def on_k_val_def rbind_eq_Inr)
  have "fd_inv P u'" using call_ok_inv [OF it(1) c] .
  moreover have "nrefs s' = nrefs u'" using t(3) u by (simp add: nrefs_def)
  ultimately show ?thesis using t(3) u q I by (auto simp: fd_inv_def)
qed

end
