(* ===== verification/Xv6_Fd_System.thy ===== *)
theory Xv6_Fd_System
  imports Xv6_Fd_Calls
begin

text \<open>
  Processes that run arbitrary programs and make system calls on files: the step relation \<open>ustep\<close>, and the properties of open
  files and pipes that hold in every state they reach.
\<close>

section \<open>Steps\<close>

inductive ustep :: "dev_read \<Rightarrow> dev_write \<Rightarrow> usys \<Rightarrow> usys \<Rightarrow> bool" for dr dw where
  user: "running p s \<Longrightarrow> ustep dr dw s (upd_up p (\<lambda>x. x\<lparr>u_sz := sz, u_mem := m, u_esp := e, u_killed := kl\<rparr>) s)"
| dup: "running p s \<Longrightarrow> sys_dup p s = Inr (r, s') \<Longrightarrow> ustep dr dw s s'"
| rd: "running p s \<Longrightarrow> sys_read dr p s = Inr (v, s') \<Longrightarrow> ustep dr dw s s'"
| wrt: "running p s \<Longrightarrow> sys_write dw p s = Inr (v, s') \<Longrightarrow> ustep dr dw s s'"
| close: "running p s \<Longrightarrow> sys_close p s = Inr (r, s') \<Longrightarrow> ustep dr dw s s'"
| fstat: "running p s \<Longrightarrow> sys_fstat p s = Inr (r, s') \<Longrightarrow> ustep dr dw s s'"
| link: "running p s \<Longrightarrow> sys_link p s = Inr (r, s') \<Longrightarrow> ustep dr dw s s'"
| symlink: "running p s \<Longrightarrow> sys_symlink p s = Inr (r, s') \<Longrightarrow> ustep dr dw s s'"
| unlink: "running p s \<Longrightarrow> sys_unlink p s = Inr (r, s') \<Longrightarrow> ustep dr dw s s'"
| opn: "running p s \<Longrightarrow> sys_open p s = Inr (r, s') \<Longrightarrow> ustep dr dw s s'"
| mkdir: "running p s \<Longrightarrow> sys_mkdir p s = Inr (r, s') \<Longrightarrow> ustep dr dw s s'"
| mknod: "running p s \<Longrightarrow> sys_mknod p s = Inr (r, s') \<Longrightarrow> ustep dr dw s s'"
| chdir: "running p s \<Longrightarrow> sys_chdir fuel p s = Inr (r, s') \<Longrightarrow> ustep dr dw s s'"
| pipe: "running p s \<Longrightarrow> sys_pipe p s = Inr (r, s') \<Longrightarrow> ustep dr dw s s'"
| fork: "running p s \<Longrightarrow> np < NPROC \<Longrightarrow> np \<noteq> p \<Longrightarrow> u_cwd (u_proc s np) = None \<Longrightarrow> fork_child p np s = Inr s' \<Longrightarrow> ustep dr dw s s'"
| exit: "running p s \<Longrightarrow> exit_files p s = Inr s' \<Longrightarrow> ustep dr dw s s'"

lemma user_ok:
  assumes "fd_inv P s" "running p s"
  shows "call_ok P p s (upd_up p (\<lambda>x. x\<lparr>u_sz := sz, u_mem := m, u_esp := e, u_killed := kl\<rparr>) s)"
  using assms by (intro call_ok_same) (auto simp: fd_inv_def running_def others_def fds_def fun_eq_iff)

lemma ustep_inv: "ustep dr dw s s' \<Longrightarrow> fd_inv P s \<Longrightarrow> fd_inv P s'"
proof (induction rule: ustep.induct)
  case (user p s sz m e kl)
  then show ?case using call_ok_inv user_ok by blast
next
  case (dup p s r s')
  then show ?case using call_ok_inv sys_dup_ok [of P s p] by auto
next
  case (pipe p s r s')
  then show ?case using call_ok_inv sys_pipe_ok [of P s p] by auto
next
  case (fork p s np s')
  then show ?case using call_ok_inv fork_child_ok [of P s p np] by auto
next
  case (exit p s s')
  then show ?case using exit_files_ok by blast
qed (blast intro: call_ok_inv sys_read_ok sys_write_ok sys_close_ok sys_fstat_ok path_calls_ok sys_open_ok sys_chdir_ok)+

lemma ureach_inv: "(ustep dr dw)\<^sup>*\<^sup>* s s' \<Longrightarrow> fd_inv P s \<Longrightarrow> fd_inv P s'"
  by (induction rule: rtranclp_induct) (auto intro: ustep_inv)

section \<open>Pipes through system calls\<close>

lemma length_contents: "length (contents p) = plen p"
  by (simp add: contents_def)

lemma pipewrite_room:
  assumes "pipe_ok p" "plen p + length cs \<le> PIPESIZE"
  shows "\<exists>w p'. pipewrite_loop kl cs p = (Done (), [], w, p') \<and> contents p' = contents p @ cs"
  using assms
proof (induction cs arbitrary: p)
  case (Cons c cs)
  have n: "\<not> pipe_full p" using pipe_full_len [OF Cons.prems(1)] Cons.prems(2) by simp
  note B = put_byte [OF Cons.prems(1) n, of c]
  have "plen (p\<lparr>p_data := (p_data p)[unat (p_nwrite p) mod PIPESIZE := c], p_nwrite := p_nwrite p + 1\<rparr>) = Suc (plen p)"
    using arg_cong [OF B(2), of length] by (simp add: length_contents)
  then show ?case using Cons.IH [OF B(1)] Cons.prems(2) n B(2) by auto
qed simp

lemma rd_wr_bytes: "rd_bytes a (length bs) (wr_bytes a bs m) = bs"
  by (auto simp: rd_bytes_def wr_bytes_def intro: nth_equalityI)

lemma length_rd_bytes [simp]: "length (rd_bytes a n m) = n"
  by (simp add: rd_bytes_def)

text \<open>The arguments of a call depend on the calling process only.\<close>

lemma args_cong:
  assumes "u_proc s' p = u_proc s p"
  shows "argint p n s' = argint p n s" "argptr p n z s' = argptr p n z s" "argfd p n s' = argfd p n s" "cwdp p s' = cwdp p s"
  using assms by (simp_all add: argint_def fetchint_def argptr_def argfd_def cwdp_def Let_def split: option.split)

lemma write_pipe:
  assumes i: "fd_inv P s" "running p s" and e: "is_end (u_k s) a True f"
    and arg: "argfd p 0 s = Some (d, f)" "argint p 2 s = Some (int n)" "argptr p 1 (int n) s = Some buf"
    and room: "plen (k_pipe (u_k s) a) + n \<le> PIPESIZE"
  shows "\<exists>q. sys_write dw p s = Inr (Ret (int n), s\<lparr>u_k := upd_pipe a q (u_k s)\<rparr>)
    \<and> contents q = contents (k_pipe (u_k s) a) @ rd_bytes buf n (u_mem (u_proc s p))"
proof -
  have ok: "pipe_ok (k_pipe (u_k s) a)" using i(1) pipes_okD(5) [OF tab_okD(4) e, of P "nrefs s"] by (simp add: fd_inv_def)
  have f: "fl_writable (k_file (u_k s) f)" "fl_type (k_file (u_k s) f) = FD_PIPE" "fl_pipe (k_file (u_k s) f) = a" using e by (auto simp: is_end_def)
  from pipewrite_room [OF ok, of "rd_bytes buf n (u_mem (u_proc s p))" "u_killed (u_proc s p)"] room obtain w q where
    q: "pipewrite_loop (u_killed (u_proc s p)) (rd_bytes buf n (u_mem (u_proc s p))) (k_pipe (u_k s) a) = (Done (), [], w, q)"
      "contents q = contents (k_pipe (u_k s) a) @ rd_bytes buf n (u_mem (u_proc s p))" by auto
  obtain cwd where "cwdp p s = Inr cwd" using i(2) by (auto simp: cwdp_def running_def split: option.splits)
  then show ?thesis using arg f q by (auto simp: sys_write_def on_k_val_def filewrite_def pipewrite_def Let_def)
qed

lemma read_pipe:
  assumes i: "fd_inv P s" "running p s" and e: "is_end (u_k s) a False f"
    and arg: "argfd p 0 s = Some (d, f)" "argint p 2 s = Some (int n)" "argptr p 1 (int n) s = Some buf"
    and c: "contents (k_pipe (u_k s) a) = bs" "bs \<noteq> []"
  shows "\<exists>s'. sys_read dr p s = Inr (Ret (int (min n (length bs))), s') \<and> contents (k_pipe (u_k s') a) = drop n bs
    \<and> rd_bytes buf (min n (length bs)) (u_mem (u_proc s' p)) = take n bs"
proof -
  note Q = pipes_okD [OF tab_okD(4), of P "u_k s" "nrefs s"]
  have T: "tab_ok P (u_k s) (nrefs s)" using i(1) by (simp add: fd_inv_def)
  have ok: "pipe_ok (k_pipe (u_k s) a)" using Q(5) [OF T e] .
  have f: "fl_readable (k_file (u_k s) f)" "fl_type (k_file (u_k s) f) = FD_PIPE" "fl_pipe (k_file (u_k s) f) = a" using e Q(9) [OF T e] by (auto simp: is_end_def)
  obtain cs q where q: "piperead_copy n (k_pipe (u_k s) a) = (cs, q)" by fastforce
  have l: "plen (k_pipe (u_k s) a) = length bs" using c(1) length_contents by metis
  note R = piperead_copy_ok [OF ok q]
  have b: "bs = cs @ contents q" and n: "length cs = min n (length bs)" using R c(1) l by metis+
  have "take (length cs) bs = cs" "drop (length cs) bs = contents q" unfolding b by simp_all
  moreover have "take (min n (length bs)) bs = take n bs" "drop (min n (length bs)) bs = drop n bs" by (simp_all add: min_def)
  ultimately have cs: "cs = take n bs" "contents q = drop n bs" using n by metis+
  have "p_nread (k_pipe (u_k s) a) \<noteq> p_nwrite (k_pipe (u_k s) a)" using pipe_empty_len [of "k_pipe (u_k s) a"] l c(2) by simp
  then have pr: "piperead (u_killed (u_proc s p)) (int n) (k_pipe (u_k s) a) = (Done cs, [ChanWrite], q)" using q by (simp add: piperead_def)
  obtain cwd where "cwdp p s = Inr cwd" using i(2) by (auto simp: cwdp_def running_def split: option.splits)
  then have "sys_read dr p s = Inr (Ret (int (length cs)), upd_up p (\<lambda>x. x\<lparr>u_mem := wr_bytes buf cs (u_mem x)\<rparr>) (s\<lparr>u_k := upd_pipe a q (u_k s)\<rparr>))"
    using arg f pr by (simp add: sys_read_def on_k_val_def fileread_def Let_def)
  moreover have "length cs = min n (length bs)" using cs(1) by simp
  ultimately show ?thesis using cs rd_wr_bytes [of buf cs] by simp
qed


section \<open>What opening does\<close>





section \<open>Properties\<close>

text \<open>
  C32.  Whatever programs the processes run and however their calls interleave: the reference count of every open file is the
  number of descriptors of all processes that refer to it, a file is closed exactly when there is none, and
  every page of a pipe is either free or in use, never both, and knows which of its ends are open; no page is lost.
\<close>

theorem fd_refcount:
  assumes "fd_inv P s0" "(ustep dr dw)\<^sup>*\<^sup>* s0 s"
  shows "(\<forall>f<NFILE. fl_ref (k_file (u_k s) f) = int (card {(p, d). p < NPROC \<and> d < NOFILE \<and> ofile s p d = Some f})
       \<and> (fl_type (k_file (u_k s) f) = FD_NONE \<longleftrightarrow> (\<forall>p<NPROC. \<forall>d<NOFILE. ofile s p d \<noteq> Some f)))
     \<and> distinct (k_free (u_k s)) \<and> set (k_free (u_k s)) \<union> pipe_pages (u_k s) = P \<and> set (k_free (u_k s)) \<inter> pipe_pages (u_k s) = {}
     \<and> (\<forall>a \<in> pipe_pages (u_k s). p_readopen (k_pipe (u_k s) a) = (\<exists>f. is_end (u_k s) a False f)
          \<and> p_writeopen (k_pipe (u_k s) a) = (\<exists>f. is_end (u_k s) a True f))"
proof -
  have "fd_inv P s" using ureach_inv assms by blast
  then have T: "tab_ok P (u_k s) (nrefs s)" by (simp add: fd_inv_def)
  have n: "nrefs s f = card {(p, d). p < NPROC \<and> d < NOFILE \<and> ofile s p d = Some f}" for f
    unfolding nrefs_def slot_count_def by (rule arg_cong [of _ _ card]) (auto simp: fds_def)
  have "nrefs s f = 0 \<longleftrightarrow> (\<forall>p<NPROC. \<forall>d<NOFILE. ofile s p d \<noteq> Some f)" for f
  proof -
    have "finite {i \<in> fd_slots. fds s i = Some f}" using fdt.fin by simp
    then show ?thesis by (auto simp: nrefs_def slot_count_def)
  qed
  then show ?thesis using T n unfolding tab_ok_def pipes_ok_def by auto
qed


text \<open>
  C34.  What one process writes into an empty pipe, another reads out of it: the write returns the number of bytes, the read
  that follows returns the same number (or what it asked for, if less) and puts these bytes, in order, into the
  buffer of the reader; what it did not ask for stays in the pipe.
\<close>

theorem pipe_between_processes:
  assumes "fd_inv P s" "running p s" "running q s" "p \<noteq> q" "is_end (u_k s) a True f" "is_end (u_k s) a False g"
    and "argfd p 0 s = Some (d, f)" "argint p 2 s = Some (int n)" "argptr p 1 (int n) s = Some src" "0 < n" "n \<le> PIPESIZE"
    and "argfd q 0 s = Some (e, g)" "argint q 2 s = Some (int m)" "argptr q 1 (int m) s = Some dst"
    and "contents (k_pipe (u_k s) a) = []"
  shows "\<exists>s1 s2. sys_write dw p s = Inr (Ret (int n), s1) \<and> sys_read dr q s1 = Inr (Ret (int (min m n)), s2)
    \<and> rd_bytes dst (min m n) (u_mem (u_proc s2 q)) = take m (rd_bytes src n (u_mem (u_proc s p)))
    \<and> contents (k_pipe (u_k s2) a) = drop m (rd_bytes src n (u_mem (u_proc s p)))"
proof -
  let ?bs = "rd_bytes src n (u_mem (u_proc s p))"
  have "plen (k_pipe (u_k s) a) = 0" using arg_cong [OF assms(15), of length] by (simp add: length_contents)
  then have "plen (k_pipe (u_k s) a) + n \<le> PIPESIZE" using assms(11) by simp
  from write_pipe [OF assms(1,2,5,7-9) this, of dw] obtain x where
    w: "sys_write dw p s = Inr (Ret (int n), s\<lparr>u_k := upd_pipe a x (u_k s)\<rparr>)" "contents x = ?bs" using assms(15) by auto
  let ?s = "s\<lparr>u_k := upd_pipe a x (u_k s)\<rparr>"
  have pq: "u_proc ?s q = u_proc s q" by simp
  have i: "fd_inv P ?s" using sys_write_ok [OF assms(1,2) w(1)] call_ok_inv assms(1) by blast
  have r: "running q ?s" "is_end (u_k ?s) a False g" using assms(3,6) by (simp_all add: running_def is_end_def)
  have c: "contents (k_pipe (u_k ?s) a) = ?bs" "?bs \<noteq> []" using w(2) assms(10) by (simp_all add: rd_bytes_def)
  from read_pipe [OF i r args_cong(3) [OF pq, THEN trans, OF assms(12)] args_cong(1) [OF pq, THEN trans, OF assms(13)]
      args_cong(2) [OF pq, THEN trans, OF assms(14)] c, of dr]
  show ?thesis using w(1) by auto
qed


section \<open>Two processes and a pipe\<close>

text \<open>
  Processes 0 and 1 share the two ends of a pipe, at descriptors 0 and 1; three arguments are on the stack, the path
  \<open>/\<close> is at address 200 and the bytes 7, 8, 9 at 100.
\<close>

definition demo_mem :: "nat \<Rightarrow> nat \<Rightarrow> nat \<Rightarrow> nat \<Rightarrow> byte" where
  "demo_mem x y z = (\<lambda>i. if i = 4 then byte_of x else if i = 8 then byte_of y else if i = 12 then byte_of z else if i = 200 then 47
     else if i = 100 then 7 else if i = 101 then 8 else if i = 102 then 9 else 0)"

definition demo_up :: "(nat \<Rightarrow> byte) \<Rightarrow> uproc" where
  "demo_up m = \<lparr>u_sz = 4096, u_mem = m, u_esp = 0, u_killed = False, u_ofile = (\<lambda>d. if d < 2 then Some d else None), u_cwd = Some 0\<rparr>"

definition demo_u :: "(nat \<Rightarrow> byte) \<Rightarrow> (nat \<Rightarrow> byte) \<Rightarrow> usys" where
  "demo_u m0 m1 = \<lparr>u_k = demo_open\<lparr>k_file := (\<lambda>f. if f < 2 then \<lparr>fl_type = FD_PIPE, fl_ref = 2, fl_readable = (f = 0), fl_writable = (f = 1), fl_pipe = 0, fl_ip = 0, fl_off = 0\<rparr>
        else (k_file demo_open 1)), k_free := [1]\<rparr>,
     u_proc = (\<lambda>p. if p = 0 then demo_up m0 else if p = 1 then demo_up m1 else (demo_up m0)\<lparr>u_ofile := Map.empty, u_cwd := None\<rparr>)\<rparr>"

lemma demo_end: "is_end (u_k (demo_u m0 m1)) a w f \<longleftrightarrow> a = 0 \<and> (f = 0 \<and> \<not> w \<or> f = 1 \<and> w)"
  by (auto simp: is_end_def demo_u_def demo_open_def NFILE_def)

lemma demo_pages: "pipe_pages (u_k (demo_u m0 m1)) = {0}"
  by (auto simp: pipe_pages_def demo_end)

lemma demo_pipe: "k_pipe (u_k (demo_u m0 m1)) a = pipe_init (replicate PIPESIZE 0)"
  by (simp add: demo_u_def demo_open_def)

lemma demo_nrefs: "nrefs (demo_u m0 m1) f = (if f < 2 then 2 else 0)"
proof -
  have "{i \<in> fd_slots. fds (demo_u m0 m1) i = Some f} = (if f < 2 then {(0, f), (1, f)} else {})"
    by (auto simp: fd_slots_def fds_def demo_u_def demo_up_def NPROC_def NOFILE_def split: if_splits)
  then show ?thesis by (simp add: nrefs_def slot_count_def)
qed

lemma demo_fd_inv: "fd_inv {0, 1} (demo_u m0 m1)"
proof -
  have k: "k_free (u_k (demo_u m0 m1)) = [1]" by (simp add: demo_u_def)
  have r: "fl_readable (k_file (u_k (demo_u m0 m1)) f) = (\<not> w)" if "is_end (u_k (demo_u m0 m1)) a w f" for f a w
    using that by (auto simp: demo_end) (auto simp: demo_u_def)
  have "pipes_ok {0, 1} (u_k (demo_u m0 m1))"
    unfolding pipes_ok_def demo_pages demo_pipe k using r by (auto simp: demo_end pipe_init_def pipe_ok_def plen_def)
  then show ?thesis
    by (auto simp: fd_inv_def tab_ok_def demo_nrefs) (auto simp: demo_u_def demo_up_def demo_open_def NFILE_def split: if_splits)
qed

lemma demo_running: "running 0 (demo_u m0 m1)" "running 1 (demo_u m0 m1)"
  by (simp_all add: running_def demo_u_def demo_up_def NPROC_def)

lemma demo_args:
  assumes "x < 256" "y < 256" "z < 256"
  shows "argint 0 0 (demo_u (demo_mem x y z) m1) = Some (int x)" "argint 0 1 (demo_u (demo_mem x y z) m1) = Some (int y)"
    "argint 0 2 (demo_u (demo_mem x y z) m1) = Some (int z)" "argint 1 0 (demo_u m0 (demo_mem x y z)) = Some (int x)"
    "argint 1 1 (demo_u m0 (demo_mem x y z)) = Some (int y)" "argint 1 2 (demo_u m0 (demo_mem x y z)) = Some (int z)"
  using assms
  by (simp_all add: argint_def fetchint_def demo_u_def demo_up_def demo_mem_def Let_def rd_bytes_def get32_def get16_def s32_def upt_rec)

lemma demo_fds: "ofile (demo_u m0 m1) 0 d = (if d < 2 then Some d else None)" "ofile (demo_u m0 m1) 1 d = (if d < 2 then Some d else None)"
    "u_sz (u_proc (demo_u m0 m1) 0) = 4096" "u_sz (u_proc (demo_u m0 m1) 1) = 4096"
    "u_mem (u_proc (demo_u m0 m1) 0) = m0" "u_mem (u_proc (demo_u m0 m1) 1) = m1"
  by (simp_all add: demo_u_def demo_up_def)

lemmas demo_procs = demo_fds demo_fds [unfolded One_nat_def]

theorem fd_refcount_witness:
  "\<exists>s. ustep (\<lambda>_. None) (\<lambda>_. None) (demo_u (demo_mem 1 0 0) (demo_mem 0 0 0)) s
     \<and> fl_ref (k_file (u_k s) 1) = int (card {(p, d). p < NPROC \<and> d < NOFILE \<and> ofile s p d = Some 1})"
proof -
  let ?s = "demo_u (demo_mem 1 0 0) (demo_mem 0 0 0)"
  obtain r s where "sys_dup 0 ?s = Inr (r, s)" using sys_dup_ok [OF demo_fd_inv demo_running(1)] by blast
  then have s: "ustep (\<lambda>_. None) (\<lambda>_. None) ?s s" by (rule ustep.dup [OF demo_running(1)])
  from fd_refcount [OF demo_fd_inv r_into_rtranclp, OF s] s show ?thesis by (auto simp: NFILE_def)
qed


theorem pipe_between_processes_witness:
  "\<exists>s1 s2. sys_write (\<lambda>_. None) 0 (demo_u (demo_mem 1 100 3) (demo_mem 0 50 2)) = Inr (Ret 3, s1) \<and> sys_read (\<lambda>_. None) 1 s1 = Inr (Ret 2, s2)
     \<and> u_mem (u_proc s2 1) 50 = 7 \<and> u_mem (u_proc s2 1) 51 = 8 \<and> contents (k_pipe (u_k s2) 0) = [9]"
proof -
  let ?s = "demo_u (demo_mem 1 100 3) (demo_mem 0 50 2)"
  have a: "argfd 0 0 ?s = Some (1, 1)" "argint 0 2 ?s = Some (int 3)" "argptr 0 1 (int 3) ?s = Some 100"
      "argfd 1 0 ?s = Some (0, 0)" "argint 1 2 ?s = Some (int 2)" "argptr 1 1 (int 2) ?s = Some 50"
    using demo_args [of 1 100 3] demo_args [of 0 50 2] by (simp_all add: argfd_def argptr_def demo_procs NOFILE_def u32_def)
  have e: "is_end (u_k ?s) 0 True 1" "is_end (u_k ?s) 0 False 0" "contents (k_pipe (u_k ?s) 0) = []" "0 < (3 :: nat)" "3 \<le> PIPESIZE" "(0 :: nat) \<noteq> 1"
    by (simp_all add: demo_end demo_pipe contents_def plen_def pipe_init_def PIPESIZE_def)
  from pipe_between_processes [OF demo_fd_inv demo_running e(6,1,2) a(1-3) e(4,5) a(4-6) e(3), of "\<lambda>_. None" "\<lambda>_. None"]
  obtain s1 s2 where s: "sys_write (\<lambda>_. None) 0 ?s = Inr (Ret (int 3), s1)" "sys_read (\<lambda>_. None) 1 s1 = Inr (Ret (int (min 2 3)), s2)"
    "rd_bytes 50 (min 2 3) (u_mem (u_proc s2 1)) = take 2 (rd_bytes 100 3 (u_mem (u_proc ?s 0)))"
    "contents (k_pipe (u_k s2) 0) = drop 2 (rd_bytes 100 3 (u_mem (u_proc ?s 0)))" by blast
  have "rd_bytes 100 3 (u_mem (u_proc ?s 0)) = [7, 8, 9]" by (simp add: demo_fds rd_bytes_def demo_mem_def upt_rec)
  then show ?thesis using s by (simp add: rd_bytes_def upt_rec)
qed





end
