(* ===== verification/Xv6_Kalloc.thy ===== *)
theory Xv6_Kalloc
  imports Xv6_String
begin

text \<open>
  The page allocator (\<^verbatim>\<open>kalloc.c\<close>).  Kernel memory is a function from kernel virtual addresses to bytes; a free page holds the
  pointer to the next one in its first four bytes, and a pointer is a number, 0 for \<^verbatim>\<open>NULL\<close>.  \<open>ke\<close> is the address of the linker
  symbol \<^verbatim>\<open>end\<close>.  \<open>kmem.lock\<close> protects sections that are atomic here.
\<close>

section \<open>Addresses and words\<close>

definition PGSIZE :: nat where "PGSIZE = 4096"
definition KERNBASE :: nat where "KERNBASE = 2 ^ 31"
definition EXTMEM :: nat where "EXTMEM = 1048576"
definition PHYSTOP :: nat where "PHYSTOP = 234881024"
definition DEVSPACE :: nat where "DEVSPACE = 4261412864"
definition KERNLINK :: nat where "KERNLINK = KERNBASE + EXTMEM"

definition V2P :: "nat \<Rightarrow> nat" where "V2P a = (a + 2 ^ 32 - KERNBASE) mod 2 ^ 32"
definition P2V :: "nat \<Rightarrow> nat" where "P2V a = (a + KERNBASE) mod 2 ^ 32"

definition PGROUNDUP :: "nat \<Rightarrow> nat" where "PGROUNDUP sz = (sz + PGSIZE - 1) mod 2 ^ 32 div PGSIZE * PGSIZE"
definition PGROUNDDOWN :: "nat \<Rightarrow> nat" where "PGROUNDDOWN a = a div PGSIZE * PGSIZE"

definition rd32 :: "mem \<Rightarrow> nat \<Rightarrow> nat" where
  "rd32 m a = get32 [m a, m (a + 1), m (a + 2), m (a + 3)] 0"

definition wr32 :: "nat \<Rightarrow> nat \<Rightarrow> mem \<Rightarrow> mem" where
  "wr32 a v m = m(a := byte_of v, a + 1 := byte_of (v div 256), a + 2 := byte_of (v div 65536), a + 3 := byte_of (v div 16777216))"

lemma V2P_high: "KERNBASE \<le> a \<Longrightarrow> a < 2 ^ 32 \<Longrightarrow> V2P a = a - KERNBASE"
  by (simp add: V2P_def KERNBASE_def le_mod_geq)

lemma V2P_low: "a < KERNBASE \<Longrightarrow> V2P a = a + KERNBASE"
  by (simp add: V2P_def KERNBASE_def)

lemma P2V_low: "a < KERNBASE \<Longrightarrow> P2V a = a + KERNBASE"
  by (simp add: P2V_def KERNBASE_def)

section \<open>The allocator\<close>

record vm =
  v_mem :: mem
  v_freelist :: nat

definition kfree :: "nat \<Rightarrow> nat \<Rightarrow> vm \<Rightarrow> vm result" where
  "kfree ke v s =
     (if v mod PGSIZE \<noteq> 0 \<or> v < ke \<or> V2P v \<ge> PHYSTOP then Inl (Panic ''kfree'')
      else Inr (s\<lparr>v_mem := wr32 v (v_freelist s) (memset v 1 PGSIZE (v_mem s)), v_freelist := v\<rparr>))"

definition kalloc :: "vm \<Rightarrow> nat \<times> vm" where
  "kalloc s =
     (let r = v_freelist s in
      (r, if r \<noteq> 0 then s\<lparr>v_freelist := rd32 (v_mem s) r\<rparr> else s))"

lemma kfree_bound: "kfree ke v s = Inr s' \<Longrightarrow> v < 2 ^ 32 \<Longrightarrow> v + PGSIZE < 2 ^ 32"
  using V2P_high [of v] V2P_low [of v]
  by (cases "KERNBASE \<le> v") (auto simp: kfree_def PHYSTOP_def KERNBASE_def PGSIZE_def split: if_splits)

function freerange_loop :: "nat \<Rightarrow> nat \<Rightarrow> nat \<Rightarrow> vm \<Rightarrow> vm result" where
  "freerange_loop ke p vend s =
     (if (p + PGSIZE) mod 2 ^ 32 \<le> vend then rbind (kfree ke p s) (freerange_loop ke ((p + PGSIZE) mod 2 ^ 32) vend) else Inr s)"
  by pat_completeness auto
termination
proof (relation "measure (\<lambda>(ke, p, vend, s). if p < 2 ^ 32 then 2 ^ 32 - p else 2 ^ 32 + 1)", goal_cases)
  case (2 ke p vend s s')
  then show ?case using kfree_bound [of ke p s s'] by (auto simp: PGSIZE_def)
qed simp

declare freerange_loop.simps [simp del]

definition freerange :: "nat \<Rightarrow> nat \<Rightarrow> nat \<Rightarrow> vm \<Rightarrow> vm result" where
  "freerange ke vstart vend s = freerange_loop ke (PGROUNDUP vstart) vend s"

text \<open>\<^verbatim>\<open>kinit1\<close> and \<^verbatim>\<open>kinit2\<close> differ in the use of the lock only.\<close>

definition kinit :: "nat \<Rightarrow> nat \<Rightarrow> nat \<Rightarrow> vm \<Rightarrow> vm result" where
  "kinit ke vstart vend s = freerange ke vstart vend s"

text \<open>\<^verbatim>\<open>frees\<close> of project 2 counts the free pages; \<open>fuel\<close> rounds.\<close>

fun frees_loop :: "nat \<Rightarrow> nat \<Rightarrow> nat \<Rightarrow> vm \<Rightarrow> nat result" where
  "frees_loop fuel r cnt s =
     (if r = 0 then Inr cnt
      else case fuel of 0 \<Rightarrow> Inl Diverge | Suc fuel \<Rightarrow> frees_loop fuel (rd32 (v_mem s) r) (cnt + 1) s)"

declare frees_loop.simps [simp del]

definition frees :: "nat \<Rightarrow> vm \<Rightarrow> nat result" where
  "frees fuel s = frees_loop fuel (v_freelist s) 0 s"

section \<open>Words in memory\<close>

lemma rd32_bound: "rd32 m a < 2 ^ 32"
  unfolding rd32_def by (rule get32_bound)

lemma rd32_wr32 [simp]: "rd32 (wr32 a v m) a = v mod 2 ^ 32"
proof -
  have "rd32 (wr32 a v m) a = get32 (put32 0 v [0, 0, 0, 0]) 0"
    by (simp add: rd32_def wr32_def put32_def put16_def get32_def get16_def div_mult2_eq [symmetric])
  then show ?thesis by simp
qed

lemma wr32_other: "x < a \<or> a + 4 \<le> x \<Longrightarrow> wr32 a v m x = m x"
  by (auto simp: wr32_def)

lemma rd32_cong: "(\<And>x. a \<le> x \<Longrightarrow> x < a + 4 \<Longrightarrow> m' x = m x) \<Longrightarrow> rd32 m' a = rd32 m a"
  by (simp add: rd32_def)

lemma rd32_wr32_other: "b + 4 \<le> a \<or> a + 4 \<le> b \<Longrightarrow> rd32 (wr32 a v m) b = rd32 m b"
  by (rule rd32_cong) (auto simp: wr32_other)

text \<open>Pages of memory the allocator manages, and the bytes of a page.\<close>

definition is_page :: "nat \<Rightarrow> nat \<Rightarrow> bool" where
  "is_page ke v \<longleftrightarrow> v mod PGSIZE = 0 \<and> ke \<le> v \<and> v < KERNBASE + PHYSTOP"

text \<open>The kernel is linked above \<^verbatim>\<open>KERNBASE\<close>.\<close>

definition in_page :: "nat \<Rightarrow> nat \<Rightarrow> bool" where
  "in_page v x \<longleftrightarrow> v \<le> x \<and> x < v + PGSIZE"

lemma in_page_div: "v mod PGSIZE = 0 \<Longrightarrow> in_page v x \<longleftrightarrow> x div PGSIZE * PGSIZE = v"
  by (auto simp: in_page_def PGSIZE_def)

lemma in_page_unique: "v mod PGSIZE = 0 \<Longrightarrow> w mod PGSIZE = 0 \<Longrightarrow> in_page v x \<Longrightarrow> in_page w x \<Longrightarrow> v = w"
  using in_page_div by simp

lemma pages_apart: "v mod PGSIZE = 0 \<Longrightarrow> w mod PGSIZE = 0 \<Longrightarrow> v \<noteq> w \<Longrightarrow> in_page v x \<Longrightarrow> \<not> in_page w x"
  by (metis in_page_unique)

section \<open>The free list\<close>

fun chain :: "mem \<Rightarrow> nat \<Rightarrow> nat list \<Rightarrow> bool" where
  "chain m p [] \<longleftrightarrow> p = 0"
| "chain m p (x # xs) \<longleftrightarrow> p = x \<and> x \<noteq> 0 \<and> chain m (rd32 m x) xs"

definition free_ok :: "nat \<Rightarrow> vm \<Rightarrow> nat list \<Rightarrow> bool" where
  "free_ok ke s xs \<longleftrightarrow> chain (v_mem s) (v_freelist s) xs \<and> distinct xs \<and> (\<forall>x \<in> set xs. is_page ke x) \<and> KERNBASE < ke"

lemma chain_cong: "(\<And>x. x \<in> set xs \<Longrightarrow> rd32 m' x = rd32 m x) \<Longrightarrow> chain m' p xs = chain m p xs"
  by (induction xs arbitrary: p) auto

lemma chain_head: "chain m p xs \<Longrightarrow> p = (case xs of [] \<Rightarrow> 0 | x # _ \<Rightarrow> x)"
  by (cases xs) auto

lemma free_ok_frame:
  assumes "free_ok ke s xs" "v_freelist s' = v_freelist s" "\<And>x a. x \<in> set xs \<Longrightarrow> in_page x a \<Longrightarrow> v_mem s' a = v_mem s a"
  shows "free_ok ke s' xs"
proof -
  have "rd32 (v_mem s') x = rd32 (v_mem s) x" if "x \<in> set xs" for x
    by (rule rd32_cong) (rule assms(3) [OF that], simp add: in_page_def PGSIZE_def)
  then show ?thesis using assms(1,2) chain_cong [of xs "v_mem s'" "v_mem s"] by (simp add: free_ok_def)
qed

lemma kfree_ok:
  assumes "free_ok ke s xs" "is_page ke v" "v \<notin> set xs"
  shows "\<exists>s'. kfree ke v s = Inr s' \<and> free_ok ke s' (v # xs) \<and> (\<forall>x. \<not> in_page v x \<longrightarrow> v_mem s' x = v_mem s x)"
proof -
  have ke: "KERNBASE < ke" using assms(1) by (simp add: free_ok_def)
  let ?s = "s\<lparr>v_mem := wr32 v (v_freelist s) (memset v 1 PGSIZE (v_mem s)), v_freelist := v\<rparr>"
  have "V2P v < PHYSTOP" using assms(2) ke V2P_high [of v] by (auto simp: is_page_def KERNBASE_def PHYSTOP_def)
  then have k: "kfree ke v s = Inr ?s" using assms(2) by (simp add: kfree_def is_page_def)
  have out: "v_mem ?s x = v_mem s x" if "\<not> in_page v x" for x
    using that by (auto simp: wr32_def memset_correct in_page_def PGSIZE_def)
  have m: "rd32 (v_mem ?s) x = rd32 (v_mem s) x" if "x \<in> set xs" for x
  proof (rule rd32_cong)
    fix y assume "x \<le> y" "y < x + 4"
    then have "in_page x y" by (simp add: in_page_def PGSIZE_def)
    moreover have "x mod PGSIZE = 0" "v mod PGSIZE = 0" "x \<noteq> v" using that assms by (auto simp: free_ok_def is_page_def)
    ultimately have "\<not> in_page v y" using pages_apart [of x v y] by simp
    then show "v_mem ?s y = v_mem s y" by (rule out)
  qed
  have fl: "v_freelist s < 2 ^ 32"
    using chain_head [of "v_mem s" "v_freelist s" xs] assms(1) by (cases xs) (auto simp: free_ok_def is_page_def KERNBASE_def PHYSTOP_def)
  have "v \<noteq> 0" using assms(2) ke by (auto simp: is_page_def)
  then have "free_ok ke ?s (v # xs)"
    using assms m fl chain_cong [of xs "v_mem ?s" "v_mem s" "v_freelist s"] by (simp add: free_ok_def)
  then show ?thesis using k out by blast
qed

lemma kalloc_nil: "free_ok ke s [] \<Longrightarrow> kalloc s = (0, s)"
  by (simp add: free_ok_def kalloc_def)

lemma kalloc_cons:
  assumes "free_ok ke s (x # xs)"
  shows "\<exists>s'. kalloc s = (x, s') \<and> free_ok ke s' xs \<and> v_mem s' = v_mem s" "x \<noteq> 0" "is_page ke x" "x \<notin> set xs"
  using assms by (auto simp: free_ok_def kalloc_def Let_def)

lemma frees_loop_ok: "chain (v_mem s) r xs \<Longrightarrow> length xs \<le> fuel \<Longrightarrow> frees_loop fuel r cnt s = Inr (cnt + length xs)"
proof (induction xs arbitrary: r fuel cnt)
  case Nil
  then show ?case by (simp add: frees_loop.simps)
next
  case (Cons x xs)
  then obtain k where "fuel = Suc k" "length xs \<le> k" by (cases fuel) auto
  then show ?case using Cons.IH [of "rd32 (v_mem s) x" k "cnt + 1"] Cons.prems(1) by (subst frees_loop.simps) simp
qed

end
