(* ===== verification/Xv6_Vm.thy ===== *)
theory Xv6_Vm
  imports Xv6_Kalloc Fs_Path
begin

text \<open>
  Page tables (\<^verbatim>\<open>vm.c\<close>), the same in the three projects.  A page directory is the kernel address of its page; its entries are
  words of the memory of \<open>Xv6_Kalloc\<close>.  \<open>ke\<close> and \<open>kd\<close> are the linker symbols \<^verbatim>\<open>end\<close> and \<^verbatim>\<open>data\<close>.  A loop whose \<^verbatim>\<open>uint\<close> counter would
  wrap around before it ends does not return, which is \<open>Diverge\<close>; a null pointer is 0.
\<close>

section \<open>Page table entries\<close>

definition NPDENTRIES :: nat where "NPDENTRIES = 1024"
definition NPTENTRIES :: nat where "NPTENTRIES = 1024"
definition PTE_P :: nat where "PTE_P = 1"
definition PTE_W :: nat where "PTE_W = 2"
definition PTE_U :: nat where "PTE_U = 4"

definition PDX :: "nat \<Rightarrow> nat" where "PDX va = va div 2 ^ 22 mod 1024"
definition PTX :: "nat \<Rightarrow> nat" where "PTX va = va div 2 ^ 12 mod 1024"

text \<open>\<^verbatim>\<open>PGADDR(d, 0, 0)\<close>\<close>

definition PGADDR :: "nat \<Rightarrow> nat" where "PGADDR d = d * 2 ^ 22 mod 2 ^ 32"

definition PTE_ADDR :: "nat \<Rightarrow> nat" where "PTE_ADDR pte = pte div 4096 * 4096"
definition PTE_FLAGS :: "nat \<Rightarrow> nat" where "PTE_FLAGS pte = and pte 4095"

section \<open>Operations\<close>

text \<open>The address of the entry for \<open>va\<close>, or 0.\<close>

definition walkpgdir :: "nat \<Rightarrow> nat \<Rightarrow> bool \<Rightarrow> vm \<Rightarrow> nat \<times> vm" where
  "walkpgdir pgdir va alloc s =
     (let pde = pgdir + 4 * PDX va in
      if and (rd32 (v_mem s) pde) PTE_P \<noteq> 0 then (P2V (PTE_ADDR (rd32 (v_mem s) pde)) + 4 * PTX va, s)
      else if \<not> alloc then (0, s)
      else
        case kalloc s of (pgtab, s) \<Rightarrow>
          if pgtab = 0 then (0, s)
          else
            let s = s\<lparr>v_mem := memset pgtab 0 PGSIZE (v_mem s)\<rparr>;
                s = s\<lparr>v_mem := wr32 pde (or (or (or (V2P pgtab) PTE_P) PTE_W) PTE_U) (v_mem s)\<rparr>
            in (pgtab + 4 * PTX va, s))"

text \<open>
  The loop of \<^verbatim>\<open>mappages\<close>; \<open>n\<close> pages are left after this one.  Both \<^verbatim>\<open>a\<close> and \<^verbatim>\<open>last\<close> are multiples of the page size, so that
  \<^verbatim>\<open>a == last\<close> holds after their distance, modulo \<open>2 ^ 32\<close>, in pages.
\<close>

fun mappages_loop :: "nat \<Rightarrow> nat \<Rightarrow> nat \<Rightarrow> nat \<Rightarrow> nat \<Rightarrow> vm \<Rightarrow> (int \<times> vm) result" where
  "mappages_loop n pgdir a pa perm s =
     (case walkpgdir pgdir a True s of (pte, s) \<Rightarrow>
        if pte = 0 then Inr (- 1, s)
        else if and (rd32 (v_mem s) pte) PTE_P \<noteq> 0 then Inl (Panic ''remap'')
        else
          let s = s\<lparr>v_mem := wr32 pte (or (or pa perm) PTE_P) (v_mem s)\<rparr> in
          case n of
            0 \<Rightarrow> Inr (0, s)
          | Suc n \<Rightarrow> mappages_loop n pgdir ((a + PGSIZE) mod 2 ^ 32) ((pa + PGSIZE) mod 2 ^ 32) perm s)"

declare mappages_loop.simps [simp del]

definition mappages :: "nat \<Rightarrow> nat \<Rightarrow> nat \<Rightarrow> nat \<Rightarrow> nat \<Rightarrow> vm \<Rightarrow> (int \<times> vm) result" where
  "mappages pgdir va sz pa perm s =
     (let a = PGROUNDDOWN va; last_a = PGROUNDDOWN ((va + sz + 2 ^ 32 - 1) mod 2 ^ 32) in
      mappages_loop ((last_a + 2 ^ 32 - a) mod 2 ^ 32 div PGSIZE) pgdir a pa perm s)"

text \<open>
  The loop of \<^verbatim>\<open>deallocuvm\<close>: without a page table the rest of its 4 MB is skipped.
\<close>

function deallocuvm_loop :: "nat \<Rightarrow> nat \<Rightarrow> nat \<Rightarrow> nat \<Rightarrow> vm \<Rightarrow> vm result" where
  "deallocuvm_loop ke pgdir a oldsz s =
     (if \<not> a < oldsz then Inr s
      else
        let pte = fst (walkpgdir pgdir a False s);
            nxt = (if pte = 0 then PGADDR (PDX a + 1) else (a + PGSIZE) mod 2 ^ 32) in
        rbind (if pte \<noteq> 0 \<and> and (rd32 (v_mem s) pte) PTE_P \<noteq> 0 then
                 let pa = PTE_ADDR (rd32 (v_mem s) pte) in
                 if pa = 0 then Inl (Panic ''kfree'')
                 else rbind (kfree ke (P2V pa) s) (\<lambda>s. Inr (s\<lparr>v_mem := wr32 pte 0 (v_mem s)\<rparr>))
               else Inr s) (\<lambda>s.
        if nxt \<le> a then Inl Diverge else deallocuvm_loop ke pgdir nxt oldsz s))"
  by pat_completeness auto
termination by (relation "measure (\<lambda>(ke, pgdir, a, oldsz, s). oldsz - a)") auto

declare deallocuvm_loop.simps [simp del]

definition deallocuvm :: "nat \<Rightarrow> nat \<Rightarrow> nat \<Rightarrow> nat \<Rightarrow> vm \<Rightarrow> (nat \<times> vm) result" where
  "deallocuvm ke pgdir oldsz newsz s =
     (if newsz \<ge> oldsz then Inr (oldsz, s)
      else rbind (deallocuvm_loop ke pgdir (PGROUNDUP newsz) oldsz s) (\<lambda>s. Inr (newsz, s)))"

definition freevm :: "nat \<Rightarrow> nat \<Rightarrow> vm \<Rightarrow> vm result" where
  "freevm ke pgdir s =
     (if pgdir = 0 then Inl (Panic ''freevm: no pgdir'')
      else
        rbind (deallocuvm ke pgdir KERNBASE 0 s) (\<lambda>(_, s).
        rbind (rfold (\<lambda>i s.
            let pde = rd32 (v_mem s) (pgdir + 4 * i) in
            if and pde PTE_P \<noteq> 0 then kfree ke (P2V (PTE_ADDR pde)) s else Inr s) [0..<NPDENTRIES] s) (\<lambda>s.
        kfree ke pgdir s)))"

text \<open>The table \<^verbatim>\<open>kmap\<close>: virtual address, physical start and end, permissions.\<close>

definition kmap :: "nat \<Rightarrow> (nat \<times> nat \<times> nat \<times> nat) list" where
  "kmap kd = [(KERNBASE, 0, EXTMEM, PTE_W), (KERNLINK, V2P KERNLINK, V2P kd, 0), (kd, V2P kd, PHYSTOP, PTE_W), (DEVSPACE, DEVSPACE, 0, PTE_W)]"

fun kmap_loop :: "nat \<Rightarrow> nat \<Rightarrow> (nat \<times> nat \<times> nat \<times> nat) list \<Rightarrow> vm \<Rightarrow> (nat \<times> vm) result" where
  "kmap_loop ke pgdir [] s = Inr (pgdir, s)"
| "kmap_loop ke pgdir ((virt, phys_start, phys_end, perm) # ks) s =
     rbind (mappages pgdir virt ((phys_end + 2 ^ 32 - phys_start) mod 2 ^ 32) phys_start perm s) (\<lambda>(r, s).
       if r < 0 then rbind (freevm ke pgdir s) (\<lambda>s. Inr (0, s)) else kmap_loop ke pgdir ks s)"

definition setupkvm :: "nat \<Rightarrow> nat \<Rightarrow> vm \<Rightarrow> (nat \<times> vm) result" where
  "setupkvm ke kd s =
     (case kalloc s of (pgdir, s) \<Rightarrow>
        if pgdir = 0 then Inr (0, s)
        else
          let s = s\<lparr>v_mem := memset pgdir 0 PGSIZE (v_mem s)\<rparr> in
          if P2V PHYSTOP > DEVSPACE then Inl (Panic ''PHYSTOP too high'')
          else kmap_loop ke pgdir (kmap kd) s)"

text \<open>\<open>init\<close> are the bytes of the first program; a failed \<^verbatim>\<open>kalloc\<close> is not checked.\<close>

definition wr_mem :: "nat \<Rightarrow> byte list \<Rightarrow> mem \<Rightarrow> mem" where
  "wr_mem a bs m = (\<lambda>x. if a \<le> x \<and> x < a + length bs then bs ! (x - a) else m x)"

definition inituvm :: "nat \<Rightarrow> byte list \<Rightarrow> vm \<Rightarrow> vm result" where
  "inituvm pgdir init s =
     (if length init \<ge> PGSIZE then Inl (Panic ''inituvm: more than a page'')
      else
        case kalloc s of (m, s) \<Rightarrow>
          if m = 0 then Inl NullDeref
          else
            let s = s\<lparr>v_mem := memset m 0 PGSIZE (v_mem s)\<rparr> in
            rbind (mappages pgdir 0 PGSIZE (V2P m) (or PTE_W PTE_U) s) (\<lambda>(_, s).
            Inr (s\<lparr>v_mem := wr_mem m init (v_mem s)\<rparr>)))"

text \<open>The multiples of the page size from \<open>lo\<close> on, below \<open>hi\<close>.\<close>

definition pg_list :: "nat \<Rightarrow> nat \<Rightarrow> nat list" where
  "pg_list lo hi = map (\<lambda>k. lo + k * PGSIZE) [0..<(hi - lo + PGSIZE - 1) div PGSIZE]"

text \<open>The loop of \<^verbatim>\<open>loaduvm\<close>, over memory and file system.\<close>

fun loaduvm_loop :: "dev_read \<Rightarrow> nat \<Rightarrow> nat \<Rightarrow> nat \<Rightarrow> nat \<Rightarrow> nat \<Rightarrow> nat \<Rightarrow> nat list \<Rightarrow> vm \<times> fs \<Rightarrow> (int \<times> vm \<times> fs) result" where
  "loaduvm_loop dr cwd pgdir addr ip offset sz [] (s, t) = Inr (0, s, t)"
| "loaduvm_loop dr cwd pgdir addr ip offset sz (i # is) (s, t) =
     (let pte = fst (walkpgdir pgdir ((addr + i) mod 2 ^ 32) False s) in
      if pte = 0 then Inl (Panic ''loaduvm: address should exist'')
      else
        let pa = PTE_ADDR (rd32 (v_mem s) pte); n = (if sz - i < PGSIZE then sz - i else PGSIZE) in
        rbind (readi dr cwd ip ((offset + i) mod 2 ^ 32) n t) (\<lambda>((r, ds), t).
          let s = s\<lparr>v_mem := wr_mem (P2V pa) ds (v_mem s)\<rparr> in
          if r \<noteq> int n then Inr (- 1, s, t) else loaduvm_loop dr cwd pgdir addr ip offset sz is (s, t)))"

definition loaduvm :: "dev_read \<Rightarrow> nat \<Rightarrow> nat \<Rightarrow> nat \<Rightarrow> nat \<Rightarrow> nat \<Rightarrow> nat \<Rightarrow> vm \<times> fs \<Rightarrow> (int \<times> vm \<times> fs) result" where
  "loaduvm dr cwd pgdir addr ip offset sz s =
     (if addr mod PGSIZE \<noteq> 0 then Inl (Panic ''loaduvm: addr must be page aligned'')
      else if sz > 2 ^ 32 - PGSIZE then Inl Diverge
      else loaduvm_loop dr cwd pgdir addr ip offset sz (pg_list 0 sz) s)"

fun allocuvm_loop :: "nat \<Rightarrow> nat \<Rightarrow> nat \<Rightarrow> nat \<Rightarrow> nat list \<Rightarrow> vm \<Rightarrow> (nat \<times> vm) result" where
  "allocuvm_loop ke pgdir oldsz newsz [] s = Inr (newsz, s)"
| "allocuvm_loop ke pgdir oldsz newsz (a # as) s =
     (case kalloc s of (m, s) \<Rightarrow>
        if m = 0 then rbind (deallocuvm ke pgdir newsz oldsz s) (\<lambda>(_, s). Inr (0, s))
        else
          let s = s\<lparr>v_mem := memset m 0 PGSIZE (v_mem s)\<rparr> in
          rbind (mappages pgdir a PGSIZE (V2P m) (or PTE_W PTE_U) s) (\<lambda>(r, s).
            if r < 0 then
              rbind (deallocuvm ke pgdir newsz oldsz s) (\<lambda>(_, s). rbind (kfree ke m s) (\<lambda>s. Inr (0, s)))
            else allocuvm_loop ke pgdir oldsz newsz as s))"

definition allocuvm :: "nat \<Rightarrow> nat \<Rightarrow> nat \<Rightarrow> nat \<Rightarrow> vm \<Rightarrow> (nat \<times> vm) result" where
  "allocuvm ke pgdir oldsz newsz s =
     (if newsz \<ge> KERNBASE then Inr (0, s)
      else if newsz < oldsz then Inr (oldsz, s)
      else allocuvm_loop ke pgdir oldsz newsz (pg_list (PGROUNDUP oldsz) newsz) s)"

text \<open>\<^verbatim>\<open>*pte &= ~PTE_U\<close>\<close>

definition clearpteu :: "nat \<Rightarrow> nat \<Rightarrow> vm \<Rightarrow> vm result" where
  "clearpteu pgdir uva s =
     (let pte = fst (walkpgdir pgdir uva False s) in
      if pte = 0 then Inl (Panic ''clearpteu'')
      else
        let x = rd32 (v_mem s) pte in
        Inr (s\<lparr>v_mem := wr32 pte (if and x PTE_U \<noteq> 0 then x - PTE_U else x) (v_mem s)\<rparr>))"

fun copyuvm_loop :: "nat \<Rightarrow> nat \<Rightarrow> nat \<Rightarrow> nat list \<Rightarrow> vm \<Rightarrow> (nat \<times> vm) result" where
  "copyuvm_loop ke pgdir d [] s = Inr (d, s)"
| "copyuvm_loop ke pgdir d (i # is) s =
     (let pte = fst (walkpgdir pgdir i False s); bad = (\<lambda>s. rbind (freevm ke d s) (\<lambda>s. Inr (0, s))) in
      if pte = 0 then Inl (Panic ''copyuvm: pte should exist'')
      else if and (rd32 (v_mem s) pte) PTE_P = 0 then Inl (Panic ''copyuvm: page not present'')
      else
        let pa = PTE_ADDR (rd32 (v_mem s) pte); flags = PTE_FLAGS (rd32 (v_mem s) pte) in
        case kalloc s of (m, s) \<Rightarrow>
          if m = 0 then bad s
          else
            let s = s\<lparr>v_mem := memmove m (P2V pa) PGSIZE (v_mem s)\<rparr> in
            rbind (mappages d i PGSIZE (V2P m) flags s) (\<lambda>(r, s).
              if r < 0 then rbind (kfree ke m s) bad else copyuvm_loop ke pgdir d is s))"

definition copyuvm :: "nat \<Rightarrow> nat \<Rightarrow> nat \<Rightarrow> nat \<Rightarrow> vm \<Rightarrow> (nat \<times> vm) result" where
  "copyuvm ke kd pgdir sz s =
     rbind (setupkvm ke kd s) (\<lambda>(d, s).
       if d = 0 then Inr (0, s)
       else if sz > 2 ^ 32 - PGSIZE then Inl Diverge
       else copyuvm_loop ke pgdir d (pg_list 0 sz) s)"

text \<open>\<^verbatim>\<open>uva2ka\<close> does not check the pointer that \<^verbatim>\<open>walkpgdir\<close> returns.\<close>

definition uva2ka :: "nat \<Rightarrow> nat \<Rightarrow> vm \<Rightarrow> nat result" where
  "uva2ka pgdir uva s =
     (let pte = fst (walkpgdir pgdir uva False s) in
      if pte = 0 then Inl NullDeref
      else
        let x = rd32 (v_mem s) pte in
        if and x PTE_P = 0 then Inr 0
        else if and x PTE_U = 0 then Inr 0
        else Inr (P2V (PTE_ADDR x)))"

function copyout :: "nat \<Rightarrow> nat \<Rightarrow> byte list \<Rightarrow> vm \<Rightarrow> (int \<times> vm) result" where
  "copyout pgdir va buf s =
     (if buf = [] then Inr (0, s)
      else
        let va0 = PGROUNDDOWN va in
        rbind (uva2ka pgdir va0 s) (\<lambda>pa0.
          if pa0 = 0 then Inr (- 1, s)
          else
            let n = min (PGSIZE - (va - va0)) (length buf) in
            copyout pgdir ((va0 + PGSIZE) mod 2 ^ 32) (drop n buf) (s\<lparr>v_mem := wr_mem (pa0 + (va - va0)) (take n buf) (v_mem s)\<rparr>)))"
  by pat_completeness auto
termination
proof (relation "measure (\<lambda>(pgdir, va, buf, s). length buf)", goal_cases)
  case (2 pgdir va buf s va0 pa0 n)
  have "va - va0 < PGSIZE" using 2 by (simp add: PGROUNDDOWN_def PGSIZE_def minus_div_mult_eq_mod)
  then show ?case using 2 by simp
qed simp

declare copyout.simps [simp del]

end
