(* ===== verification/Xv6_Vm_Map.thy ===== *)
theory Xv6_Vm_Map
  imports Xv6_Vm
begin

text \<open>
  A page table as a map from virtual pages to entries: \<open>lookup\<close> is the walk of the hardware.  \<open>pt_ok\<close> says that the pages of
  the table are distinct pages of the allocator that are not free; \<^verbatim>\<open>walkpgdir\<close> and \<^verbatim>\<open>mappages\<close> keep it and change the map at the
  pages they are told to.
\<close>

section \<open>Bits and addresses\<close>

lemma and_P: "and x PTE_P \<noteq> 0 \<longleftrightarrow> odd x"
  by (simp add: PTE_P_def and_one_eq odd_iff_mod_2_eq_one)

lemma or_low:
  assumes "(a :: nat) mod 4096 = 0" "f < 4096"
  shows "or a f = a + f"
proof -
  have "and a f = 0"
  proof (rule bit_eqI)
    fix n
    have "\<not> (bit a n \<and> bit f n)"
    proof
      assume b: "bit a n \<and> bit f n"
      show False
      proof (cases "n < 12")
        case True
        have "bit (a mod 2 ^ 12) n = bit a n" unfolding take_bit_eq_mod [symmetric] using True by (simp add: bit_take_bit_iff)
        then show False using assms(1) b by simp
      next
        case False
        have "bit (f mod 2 ^ 12) n = False" unfolding take_bit_eq_mod [symmetric] using False by (simp add: bit_take_bit_iff)
        then show False using assms(2) b by simp
      qed
    qed
    then show "bit (and a f) n = bit 0 n" by (simp add: bit_and_iff)
  qed
  then show ?thesis using disjunctive_add_eq_or [of a f] by simp
qed

lemma or_flags: "(f :: nat) < 4096 \<Longrightarrow> or f 1 < 4096" "odd (or (f :: nat) 1)"
proof -
  have e: "or f 1 = f + of_bool (even f)" by (rule or_one_eq)
  show "odd (or f 1)" unfolding e by simp
  assume "f < 4096"
  moreover have "f \<noteq> 4095" if "even f" using that by auto
  ultimately have "even f \<Longrightarrow> f < 4095" by fastforce
  then show "or f 1 < 4096" unfolding e using \<open>f < 4096\<close> by (cases "even f") auto
qed

lemma PTE_FLAGS_mod: "PTE_FLAGS x = x mod 4096"
proof -
  have "and x (mask 12) = take_bit 12 x" by (simp add: take_bit_eq_mask)
  then show ?thesis by (simp add: PTE_FLAGS_def take_bit_eq_mod mask_eq_exp_minus_1)
qed

lemma page_mod: "is_page ke v \<Longrightarrow> v mod 4096 = 0" "is_page ke v \<Longrightarrow> v < 2 ^ 32"
  by (auto simp: is_page_def PGSIZE_def KERNBASE_def PHYSTOP_def)

lemma entry_addr:
  assumes "is_page ke v" "KERNBASE < ke" "f < 4096"
  shows "or (V2P v) f = V2P v + f" "P2V (PTE_ADDR (or (V2P v) f)) = v" "or (V2P v) f < 2 ^ 32" "odd f \<Longrightarrow> odd (or (V2P v) f)"
proof -
  have v: "V2P v = v - KERNBASE" "KERNBASE \<le> v" "v < 2 ^ 32" "v - KERNBASE < PHYSTOP" using assms V2P_high [of v] page_mod(2) [of ke v] by (auto simp: is_page_def)
  have a: "(v - KERNBASE) mod 4096 = 0" using assms(1) v(2) by (auto simp: is_page_def KERNBASE_def PGSIZE_def dvd_diff_nat)
  show e: "or (V2P v) f = V2P v + f" unfolding v(1) by (rule or_low [OF a assms(3)])
  have "(v - KERNBASE + f) div 4096 * 4096 = v - KERNBASE" using a assms(3) by (auto elim!: dvdE)
  then show "P2V (PTE_ADDR (or (V2P v) f)) = v" unfolding e unfolding v(1) PTE_ADDR_def using v P2V_low [of "v - KERNBASE"] by (simp add: PHYSTOP_def KERNBASE_def)
  show "or (V2P v) f < 2 ^ 32" unfolding e unfolding v(1) using v(4) assms(3) by (simp add: PHYSTOP_def)
  show "odd f \<Longrightarrow> odd (or (V2P v) f)" 
  proof -
    obtain k where k: "v - KERNBASE = 4096 * k" using a by (auto elim!: dvdE)
    show "odd f \<Longrightarrow> odd (or (V2P v) f)" unfolding e unfolding v(1) k by simp
  qed
qed

section \<open>Words in pages\<close>

lemma word_apart:
  assumes "v mod 4096 = 0" "w mod 4096 = 0" "i < 1024" "j < 1024" "v \<noteq> w \<or> i \<noteq> j"
  shows "v + 4 * i + 4 \<le> w + 4 * j \<or> w + 4 * j + 4 \<le> v + 4 * (i :: nat)"
proof -
  obtain a b where "v = 4096 * a" "w = 4096 * b" using assms(1,2) by (auto elim!: dvdE)
  then show ?thesis using assms(3-5) by (cases a b rule: linorder_cases) auto
qed

lemma rd_slot:
  assumes "v mod 4096 = 0" "w mod 4096 = 0" "i < 1024" "j < 1024" "x < 2 ^ 32"
  shows "rd32 (wr32 (v + 4 * i) x m) (w + 4 * j) = (if v = w \<and> i = j then x else rd32 m (w + 4 * j))"
proof (cases "v = w \<and> i = j")
  case True
  then show ?thesis using assms(5) by simp
next
  case False
  then show ?thesis using word_apart [OF assms(1-4)] rd32_wr32_other [of "w + 4 * j" "v + 4 * i" x m] by auto
qed

lemma rd_cleared:
  assumes "t mod 4096 = 0" "w mod 4096 = 0" "j < 1024"
  shows "rd32 (memset t 0 PGSIZE m) (w + 4 * j) = (if w = t then 0 else rd32 m (w + 4 * j))"
proof (cases "w = t")
  case True
  then show ?thesis using assms(3) by (simp add: rd32_def memset_correct PGSIZE_def get32_def get16_def)
next
  case False
  have "memset t 0 PGSIZE m x = m x" if "w + 4 * j \<le> x" "x < w + 4 * j + 4" for x
  proof -
    obtain a b where "t = 4096 * a" "w = 4096 * b" using assms(1,2) by (auto elim!: dvdE)
    then have "\<not> (t \<le> x \<and> x < t + 4096)" using assms(3) False that by (cases a b rule: linorder_cases) auto
    then show ?thesis by (auto simp: memset_correct PGSIZE_def)
  qed
  then have "rd32 (memset t 0 PGSIZE m) (w + 4 * j) = rd32 m (w + 4 * j)" by (rule rd32_cong)
  then show ?thesis using False by simp
qed

section \<open>Page tables\<close>

abbreviation pde :: "mem \<Rightarrow> nat \<Rightarrow> nat \<Rightarrow> nat" where
  "pde m pd i \<equiv> rd32 m (pd + 4 * i)"

definition tab :: "mem \<Rightarrow> nat \<Rightarrow> nat \<Rightarrow> nat" where
  "tab m pd i = P2V (PTE_ADDR (pde m pd i))"

definition slot :: "mem \<Rightarrow> nat \<Rightarrow> nat \<Rightarrow> nat" where
  "slot m pd va = tab m pd (PDX va) + 4 * PTX va"

definition lookup :: "mem \<Rightarrow> nat \<Rightarrow> nat \<Rightarrow> nat option" where
  "lookup m pd va =
     (if odd (pde m pd (PDX va)) \<and> odd (rd32 m (slot m pd va)) then Some (rd32 m (slot m pd va)) else None)"

definition pt_ok :: "nat \<Rightarrow> mem \<Rightarrow> nat \<Rightarrow> nat list \<Rightarrow> bool" where
  "pt_ok ke m pd xs \<longleftrightarrow> KERNBASE < ke \<and> is_page ke pd \<and> pd \<notin> set xs
     \<and> (\<forall>i<1024. odd (pde m pd i) \<longrightarrow> is_page ke (tab m pd i) \<and> tab m pd i \<notin> set xs \<and> tab m pd i \<noteq> pd)
     \<and> (\<forall>i<1024. \<forall>j<1024. odd (pde m pd i) \<longrightarrow> odd (pde m pd j) \<longrightarrow> tab m pd i = tab m pd j \<longrightarrow> i = j)"

definition pt_pages :: "mem \<Rightarrow> nat \<Rightarrow> nat set" where
  "pt_pages m pd = insert pd {tab m pd i | i. i < 1024 \<and> odd (pde m pd i)}"

lemma pt_okD:
  assumes "pt_ok ke m pd xs"
  shows "KERNBASE < ke" "is_page ke pd" "pd \<notin> set xs" "i < 1024 \<Longrightarrow> odd (pde m pd i) \<Longrightarrow> is_page ke (tab m pd i)"
    "i < 1024 \<Longrightarrow> odd (pde m pd i) \<Longrightarrow> tab m pd i \<notin> set xs" "i < 1024 \<Longrightarrow> odd (pde m pd i) \<Longrightarrow> tab m pd i \<noteq> pd"
    "i < 1024 \<Longrightarrow> j < 1024 \<Longrightarrow> odd (pde m pd i) \<Longrightarrow> odd (pde m pd j) \<Longrightarrow> tab m pd i = tab m pd j \<Longrightarrow> i = j"
    "pd mod 4096 = 0" "i < 1024 \<Longrightarrow> odd (pde m pd i) \<Longrightarrow> tab m pd i mod 4096 = 0"
  using assms page_mod(1) unfolding pt_ok_def by blast+

lemma pt_pages_page: "pt_ok ke m pd xs \<Longrightarrow> p \<in> pt_pages m pd \<Longrightarrow> is_page ke p \<and> p \<notin> set xs"
  by (auto simp: pt_pages_def dest: pt_okD)

lemma PDX_PTX [simp]: "PDX va < 1024" "PTX va < 1024"
  by (simp_all add: PDX_def PTX_def)

lemma same_page: "v < 2 ^ 32 \<Longrightarrow> w < 2 ^ 32 \<Longrightarrow> PDX v = PDX w \<and> PTX v = PTX w \<longleftrightarrow> v div 4096 = w div 4096"
proof -
  have "v div 2 ^ 22 = v div 4096 div 1024" for v :: nat by (simp add: div_mult2_eq [symmetric])
  moreover assume "v < 2 ^ 32" "w < 2 ^ 32"
  then have "v div 4096 < 1048576" "w div 4096 < 1048576" by auto
  ultimately have "PDX v = v div 4096 div 1024" "PDX w = w div 4096 div 1024" by (auto simp: PDX_def less_mult_imp_div_less)
  then show ?thesis unfolding PTX_def by (simp add: power2_eq_square) (metis div_mult_mod_eq)
qed

text \<open>The table does not depend on memory outside its pages.\<close>

lemma pt_frame:
  assumes ok: "pt_ok ke m pd xs" and f: "\<And>p x. p \<in> pt_pages m pd \<Longrightarrow> in_page p x \<Longrightarrow> m' x = m x"
  shows "\<And>i. i < 1024 \<Longrightarrow> pde m' pd i = pde m pd i" "\<And>i. i < 1024 \<Longrightarrow> tab m' pd i = tab m pd i"
    "\<And>i j. i < 1024 \<Longrightarrow> odd (pde m pd i) \<Longrightarrow> j < 1024 \<Longrightarrow> rd32 m' (tab m pd i + 4 * j) = rd32 m (tab m pd i + 4 * j)"
    "lookup m' pd = lookup m pd" "pt_ok ke m' pd xs" "pt_pages m' pd = pt_pages m pd"
proof -
  have w: "rd32 m' (p + 4 * i) = rd32 m (p + 4 * i)" if "p \<in> pt_pages m pd" "i < 1024" for p i
    by (rule rd32_cong) (rule f [OF that(1)], use that(2) in \<open>simp add: in_page_def PGSIZE_def\<close>)
  show p: "pde m' pd i = pde m pd i" if "i < 1024" for i using w [of pd] that by (simp add: pt_pages_def)
  then show t: "tab m' pd i = tab m pd i" if "i < 1024" for i using that by (simp add: tab_def)
  show e: "rd32 m' (tab m pd i + 4 * j) = rd32 m (tab m pd i + 4 * j)" if "i < 1024" "odd (pde m pd i)" "j < 1024" for i j
    by (rule w) (use that in \<open>auto simp: pt_pages_def\<close>)
  show "lookup m' pd = lookup m pd" by (auto simp: fun_eq_iff lookup_def slot_def p t e)
  show "pt_ok ke m' pd xs" using ok p t unfolding pt_ok_def by metis
  show "pt_pages m' pd = pt_pages m pd" 
    unfolding pt_pages_def using p t by (intro arg_cong [of _ _ "insert pd"] Collect_cong) metis
qed

text \<open>An entry of the table is written.\<close>

lemma write_slot:
  assumes ok: "pt_ok ke m pd xs" and p: "odd (pde m pd (PDX va))" and x: "x < 2 ^ 32" and va: "va < 2 ^ 32"
  defines "m' \<equiv> wr32 (slot m pd va) x m"
  shows "\<And>w. w < 2 ^ 32 \<Longrightarrow> lookup m' pd w = (if w div 4096 = va div 4096 then if odd x then Some x else None else lookup m pd w)"
    "pt_ok ke m' pd xs" "pt_pages m' pd = pt_pages m pd" "\<And>i. i < 1024 \<Longrightarrow> pde m' pd i = pde m pd i" "\<And>i. i < 1024 \<Longrightarrow> tab m' pd i = tab m pd i"
    "\<And>y. \<not> in_page (tab m pd (PDX va)) y \<Longrightarrow> m' y = m y"
proof -
  note D = pt_okD [OF ok]
  let ?t = "tab m pd (PDX va)"
  have t: "?t mod 4096 = 0" "?t \<noteq> pd" using D(6,9) p by simp_all
  show e: "pde m' pd i = pde m pd i" if "i < 1024" for i
    unfolding m'_def slot_def using rd_slot [OF t(1) D(8) PDX_PTX(2) that x, of va m] t(2) by simp
  show te: "tab m' pd i = tab m pd i" if "i < 1024" for i using e that by (simp add: tab_def)
  have r: "rd32 m' (tab m pd (PDX w) + 4 * PTX w) = (if PDX w = PDX va \<and> PTX w = PTX va then x else rd32 m (slot m pd w))" if o: "odd (pde m pd (PDX w))" for w
  proof -
    have "tab m pd (PDX w) mod 4096 = 0" using D(9) o by simp
    from rd_slot [OF t(1) this, of "PTX va" "PTX w" x m, OF PDX_PTX(2) PDX_PTX(2) x] have
      "rd32 m' (tab m pd (PDX w) + 4 * PTX w) = (if ?t = tab m pd (PDX w) \<and> PTX va = PTX w then x else rd32 m (slot m pd w))"
      by (simp add: m'_def slot_def)
    moreover have "?t = tab m pd (PDX w) \<longleftrightarrow> PDX va = PDX w" using D(7) [of "PDX va" "PDX w"] p o by auto
    ultimately show ?thesis by auto
  qed
  show "lookup m' pd w = (if w div 4096 = va div 4096 then if odd x then Some x else None else lookup m pd w)" if "w < 2 ^ 32" for w
  proof (cases "odd (pde m pd (PDX w))")
    case True
    then show ?thesis using r [OF True] same_page [OF that va] by (simp add: lookup_def slot_def e te)
  next
    case False
    then have "w div 4096 \<noteq> va div 4096" using same_page [OF that va] p by auto
    then show ?thesis using False by (simp add: lookup_def e)
  qed
  show "pt_ok ke m' pd xs" using ok e te unfolding pt_ok_def by metis
  show "pt_pages m' pd = pt_pages m pd" unfolding pt_pages_def using e te by (intro arg_cong [of _ _ "insert pd"] Collect_cong) metis
  show "m' y = m y" if "\<not> in_page ?t y" for y
  proof -
    have "y < slot m pd va \<or> slot m pd va + 4 \<le> y" using that PDX_PTX(2) [of va] unfolding in_page_def PGSIZE_def slot_def by linarith
    then show ?thesis unfolding m'_def by (rule wr32_other)
  qed
qed

text \<open>A fresh page becomes an empty page table.\<close>

lemma new_table:
  assumes ok: "pt_ok ke m pd (t # xs)" and t: "is_page ke t" "t \<notin> set xs" and p: "i < 1024" "even (pde m pd i)"
  defines "m' \<equiv> wr32 (pd + 4 * i) (or (or (or (V2P t) PTE_P) PTE_W) PTE_U) (memset t 0 PGSIZE m)"
  shows "lookup m' pd = lookup m pd" "pt_ok ke m' pd xs" "pt_pages m' pd = insert t (pt_pages m pd)" "odd (pde m' pd i)" "tab m' pd i = t"
    "\<And>y. \<not> in_page pd y \<Longrightarrow> \<not> in_page t y \<Longrightarrow> m' y = m y"
proof -
  note D = pt_okD [OF ok]
  let ?v = "or (V2P t) 7"
  have v: "or (or (or (V2P t) PTE_P) PTE_W) PTE_U = ?v"
    by (simp add: or.assoc PTE_P_def PTE_W_def PTE_U_def)
  have E: "P2V (PTE_ADDR ?v) = t" "?v < 2 ^ 32" "odd ?v" using entry_addr [OF t(1) D(1), of 7] by simp_all
  have a: "t mod 4096 = 0" "pd mod 4096 = 0" "pd \<noteq> t" using page_mod(1) [OF t(1)] D(3,8) by auto
  have r: "rd32 m' (w + 4 * j) = (if w = pd \<and> j = i then ?v else if w = t then 0 else rd32 m (w + 4 * j))" if "w mod 4096 = 0" "j < 1024" for w j
    unfolding m'_def v using rd_slot [OF a(2) that(1) p(1) that(2) E(2)] rd_cleared [OF a(1) that, of m] by auto
  have e: "pde m' pd j = (if j = i then ?v else pde m pd j)" if "j < 1024" for j using r [OF a(2) that] a(3) by simp
  have te: "tab m' pd j = (if j = i then t else tab m pd j)" if "j < 1024" for j using e [OF that] E(1) by (simp add: tab_def)
  show "odd (pde m' pd i)" "tab m' pd i = t" using e te p(1) E(3) by simp_all
  have old: "tab m pd j \<noteq> t" if "j < 1024" "odd (pde m pd j)" for j using D(5) [OF that] by auto
  show "lookup m' pd = lookup m pd"
  proof
    fix w
    show "lookup m' pd w = lookup m pd w"
    proof (cases "PDX w = i")
      case True
      then show ?thesis using e te p r [of t "PTX w"] a E(3) by (simp add: lookup_def slot_def)
    next
      case False
      then show ?thesis using e te r [of "tab m pd (PDX w)" "PTX w"] D(6,9) [of "PDX w"] old [of "PDX w"] by (auto simp: lookup_def slot_def)
    qed
  qed
  show "pt_ok ke m' pd xs" unfolding pt_ok_def
  proof (intro conjI allI impI)
    show "KERNBASE < ke" "is_page ke pd" "pd \<notin> set xs" using D(1-3) by auto
    fix j assume j: "j < 1024" "odd (pde m' pd j)"
    show "is_page ke (tab m' pd j)" "tab m' pd j \<notin> set xs" "tab m' pd j \<noteq> pd" using j e te t a(3) D(4-6) [of j] by (auto split: if_splits)
    fix k assume k: "k < 1024" "odd (pde m' pd k)" "tab m' pd j = tab m' pd k"
    then show "j = k" using j e te D(7) [of j k] old [of j] old [of k] by (auto split: if_splits)
  qed
  show "pt_pages m' pd = insert t (pt_pages m pd)"
  proof -
    have "{tab m' pd j | j. j < 1024 \<and> odd (pde m' pd j)} = insert t {tab m pd j | j. j < 1024 \<and> odd (pde m pd j)}"
    proof (intro equalityI subsetI)
      fix y assume "y \<in> {tab m' pd j | j. j < 1024 \<and> odd (pde m' pd j)}"
      then obtain j where "y = tab m' pd j" "j < 1024" "odd (pde m' pd j)" by blast
      then show "y \<in> insert t {tab m pd j | j. j < 1024 \<and> odd (pde m pd j)}" using e te by (auto split: if_splits)
    next
      fix y assume "y \<in> insert t {tab m pd j | j. j < 1024 \<and> odd (pde m pd j)}"
      then consider "y = t" | j where "y = tab m pd j" "j < 1024" "odd (pde m pd j)" by blast
      then show "y \<in> {tab m' pd j | j. j < 1024 \<and> odd (pde m' pd j)}"
      proof cases
        case 1
        then have "y = tab m' pd i \<and> i < 1024 \<and> odd (pde m' pd i)" using e te p(1) E(3) by simp
        then show ?thesis by blast
      next
        case (2 j)
        then have "j \<noteq> i" using p(2) by auto
        then have "y = tab m' pd j \<and> j < 1024 \<and> odd (pde m' pd j)" using e te 2 by simp
        then show ?thesis by blast
      qed
    qed
    then show ?thesis unfolding pt_pages_def by auto
  qed
  show "m' y = m y" if "\<not> in_page pd y" "\<not> in_page t y" for y
    using that p(1) by (auto simp: m'_def in_page_def PGSIZE_def memset_correct wr32_other)
qed

section \<open>\<^verbatim>\<open>walkpgdir\<close> and \<^verbatim>\<open>mappages\<close>\<close>

text \<open>The table takes the pages it needs from the front of the free list, and only its own pages change.\<close>

definition grows :: "nat \<Rightarrow> nat \<Rightarrow> vm \<Rightarrow> nat list \<Rightarrow> vm \<Rightarrow> nat list \<Rightarrow> bool" where
  "grows ke pd s xs s' xs' \<longleftrightarrow> free_ok ke s' xs' \<and> pt_ok ke (v_mem s') pd xs'
     \<and> (\<exists>ys. xs = ys @ xs' \<and> pt_pages (v_mem s') pd = pt_pages (v_mem s) pd \<union> set ys)
     \<and> (\<forall>x. (\<forall>p \<in> pt_pages (v_mem s') pd. \<not> in_page p x) \<longrightarrow> v_mem s' x = v_mem s x)"

lemma growsD:
  assumes "grows ke pd s xs s' xs'"
  shows "free_ok ke s' xs'" "pt_ok ke (v_mem s') pd xs'" "set xs' \<subseteq> set xs" "pt_pages (v_mem s') pd \<union> set xs' = pt_pages (v_mem s) pd \<union> set xs"
    "pt_pages (v_mem s) pd \<subseteq> pt_pages (v_mem s') pd" "(\<And>p. p \<in> pt_pages (v_mem s') pd \<Longrightarrow> \<not> in_page p x) \<Longrightarrow> v_mem s' x = v_mem s x"
  using assms by (auto simp: grows_def)

lemma grows_refl: "free_ok ke s xs \<Longrightarrow> pt_ok ke (v_mem s) pd xs \<Longrightarrow> grows ke pd s xs s xs"
  by (simp add: grows_def)

lemma grows_trans:
  assumes "grows ke pd s xs s1 ys" "grows ke pd s1 ys s2 zs"
  shows "grows ke pd s xs s2 zs"
  using assms unfolding grows_def by (auto simp: Un_assoc)

lemma free_ok_disjoint:
  assumes "free_ok ke s xs" "is_page ke p" "p \<notin> set xs" "\<And>x. \<not> in_page p x \<Longrightarrow> m x = v_mem s x"
  shows "free_ok ke (s\<lparr>v_mem := m\<rparr>) xs"
proof (rule free_ok_frame [OF assms(1)])
  fix x a assume "x \<in> set xs" "in_page x a"
  then have "\<not> in_page p a" using assms(1-3) pages_apart [of x p a] by (auto simp: free_ok_def is_page_def)
  then show "v_mem (s\<lparr>v_mem := m\<rparr>) a = v_mem s a" using assms(4) by simp
qed simp

lemma slot_nonzero: "pt_ok ke m pd xs \<Longrightarrow> odd (pde m pd (PDX va)) \<Longrightarrow> slot m pd va \<noteq> 0"
  using pt_okD(1) [of ke m pd xs] pt_okD(4) [of ke m pd xs "PDX va"] by (auto simp: slot_def is_page_def KERNBASE_def)

lemma walk_lookup:
  assumes "pt_ok ke (v_mem s) pd xs"
  shows "walkpgdir pd va False s = (if odd (pde (v_mem s) pd (PDX va)) then slot (v_mem s) pd va else 0, s)"
  using and_P [of "pde (v_mem s) pd (PDX va)"] by (simp add: walkpgdir_def Let_def slot_def tab_def)

lemma walk_alloc:
  assumes f: "free_ok ke s xs" and ok: "pt_ok ke (v_mem s) pd xs"
  shows "(walkpgdir pd va True s = (0, s) \<and> xs = [] \<and> lookup (v_mem s) pd va = None)
    \<or> (\<exists>s' xs'. walkpgdir pd va True s = (slot (v_mem s') pd va, s') \<and> slot (v_mem s') pd va \<noteq> 0 \<and> odd (pde (v_mem s') pd (PDX va))
        \<and> grows ke pd s xs s' xs' \<and> lookup (v_mem s') pd = lookup (v_mem s) pd \<and> length xs \<le> length xs' + 1)"
proof (cases "odd (pde (v_mem s) pd (PDX va))")
  case True
  then have "walkpgdir pd va True s = (slot (v_mem s) pd va, s)"
    using and_P [of "pde (v_mem s) pd (PDX va)"] by (simp add: walkpgdir_def Let_def slot_def tab_def)
  then show ?thesis using True grows_refl [OF f ok] slot_nonzero [OF ok True] by auto
next
  case False
  have w: "walkpgdir pd va True s = (case kalloc s of (pgtab, s) \<Rightarrow> if pgtab = 0 then (0, s) else
      (pgtab + 4 * PTX va, s\<lparr>v_mem := wr32 (pd + 4 * PDX va) (or (or (or (V2P pgtab) PTE_P) PTE_W) PTE_U) (memset pgtab 0 PGSIZE (v_mem s))\<rparr>))"
    using False and_P [of "pde (v_mem s) pd (PDX va)"] by (cases "kalloc s") (simp add: walkpgdir_def Let_def)
  show ?thesis
  proof (cases xs)
    case Nil
    then show ?thesis using w kalloc_nil [of ke s] f False by (auto simp: lookup_def)
  next
    case (Cons t ts)
    from kalloc_cons [OF f [unfolded Cons]] obtain s1 where s1: "kalloc s = (t, s1)" "free_ok ke s1 ts" "v_mem s1 = v_mem s"
      and t: "t \<noteq> 0" "is_page ke t" "t \<notin> set ts" by blast
    let ?m1 = "memset t 0 PGSIZE (v_mem s)"
    let ?m = "wr32 (pd + 4 * PDX va) (or (or (or (V2P t) PTE_P) PTE_W) PTE_U) ?m1"
    let ?s = "s1\<lparr>v_mem := ?m\<rparr>"
    have "even (pde (v_mem s) pd (PDX va))" using False by simp
    note N = new_table [OF ok [unfolded Cons] t(2,3) PDX_PTX(1) this]
    have w': "walkpgdir pd va True s = (slot (v_mem ?s) pd va, ?s)" using w s1 t(1) N(5) by (simp add: slot_def)
    have "free_ok ke (s1\<lparr>v_mem := ?m1\<rparr>) ts"
      by (rule free_ok_disjoint [OF s1(2) t(2,3)]) (auto simp: s1(3) memset_correct in_page_def)
    moreover have pd: "is_page ke pd" "pd \<notin> set ts" using pt_okD(2,3) [OF ok] Cons by simp_all
    ultimately have "free_ok ke ((s1\<lparr>v_mem := ?m1\<rparr>)\<lparr>v_mem := ?m\<rparr>) ts"
    proof (rule free_ok_disjoint)
      fix x assume "\<not> in_page pd x"
      then have "x < pd + 4 * PDX va \<or> pd + 4 * PDX va + 4 \<le> x" using PDX_PTX(1) [of va] unfolding in_page_def PGSIZE_def by linarith
      then show "?m x = v_mem (s1\<lparr>v_mem := ?m1\<rparr>) x" by (simp add: wr32_other)
    qed
    then have "grows ke pd s xs ?s ts" using N(2,3,6) unfolding grows_def Cons by (auto simp: pt_pages_def)
    then show ?thesis using w' N(1,2,4) slot_nonzero [of ke ?m pd ts va] Cons by auto
  qed
qed

text \<open>The entry that \<^verbatim>\<open>mappages\<close> writes.\<close>

definition entry :: "nat \<Rightarrow> nat \<Rightarrow> nat" where
  "entry pa perm = or (or pa perm) PTE_P"

lemma entry_props:
  assumes "pa mod 4096 = 0" "pa < 2 ^ 32" "perm < 4096"
  shows "entry pa perm = pa + or perm 1" "entry pa perm < 2 ^ 32" "odd (entry pa perm)" "PTE_ADDR (entry pa perm) = pa"
proof -
  note F = or_flags [of perm]
  have o: "or perm 1 < 4096" using F(1) assms(3) .
  show e: "entry pa perm = pa + or perm 1" using or_low [OF assms(1) o] by (simp add: entry_def PTE_P_def or.assoc)
  obtain k where k: "pa = 4096 * k" using assms(1) by (auto elim!: dvdE)
  show "odd (entry pa perm)" unfolding e unfolding k using F(2) by simp
  have "k < 1048576" using assms(2) k by simp
  then show "entry pa perm < 2 ^ 32" unfolding e unfolding k using o by simp
  have "(4096 * k + or perm 1) div 4096 = k" using o by simp
  then show "PTE_ADDR (entry pa perm) = pa" unfolding e unfolding k by (simp add: PTE_ADDR_def)
qed

text \<open>One page.\<close>

lemma map_page:
  assumes f: "free_ok ke s xs" and ok: "pt_ok ke (v_mem s) pd xs" and va: "va < 2 ^ 32" and pa: "pa mod 4096 = 0" "pa < 2 ^ 32" "perm < 4096"
    and n: "lookup (v_mem s) pd va = None"
  shows "(walkpgdir pd va True s = (0, s) \<and> xs = [])
    \<or> (\<exists>pte s1 s' xs'. walkpgdir pd va True s = (pte, s1) \<and> pte \<noteq> 0 \<and> even (rd32 (v_mem s1) pte)
        \<and> s' = s1\<lparr>v_mem := wr32 pte (or (or pa perm) PTE_P) (v_mem s1)\<rparr> \<and> grows ke pd s xs s' xs' \<and> length xs \<le> length xs' + 1
        \<and> (\<forall>w < 2 ^ 32. lookup (v_mem s') pd w = (if w div 4096 = va div 4096 then Some (entry pa perm) else lookup (v_mem s) pd w)))"
  using walk_alloc [OF f ok, of va]
proof (elim disjE exE conjE)
  assume "walkpgdir pd va True s = (0, s)" "xs = []"
  then show ?thesis by simp
next
  fix s1 xs' assume s1: "walkpgdir pd va True s = (slot (v_mem s1) pd va, s1)" "slot (v_mem s1) pd va \<noteq> 0" "odd (pde (v_mem s1) pd (PDX va))"
    "grows ke pd s xs s1 xs'" "lookup (v_mem s1) pd = lookup (v_mem s) pd" "length xs \<le> length xs' + 1"
  let ?x = "entry pa perm" and ?m = "v_mem s1"
  let ?s = "s1\<lparr>v_mem := wr32 (slot ?m pd va) ?x ?m\<rparr>"
  note G = growsD [OF s1(4)]
  note W = write_slot [OF G(2) s1(3) entry_props(2) [OF pa] va]
  have ev: "even (rd32 ?m (slot ?m pd va))" using n s1(3,5) by (auto simp: lookup_def fun_eq_iff split: if_splits)
  have t: "is_page ke (tab ?m pd (PDX va))" "tab ?m pd (PDX va) \<notin> set xs'" using pt_okD(4,5) [OF G(2)] s1(3) by simp_all
  have "free_ok ke ?s xs'" by (rule free_ok_disjoint [OF G(1) t]) (rule W(6))
  moreover have "tab ?m pd (PDX va) \<in> pt_pages ?m pd" using s1(3) PDX_PTX(1) unfolding pt_pages_def by blast
  ultimately have "grows ke pd s1 xs' ?s xs'" using W(2,3,6) by (auto simp: grows_def)
  then have "grows ke pd s xs ?s xs'" using grows_trans [OF s1(4)] by blast
  then show ?thesis using s1 ev W(1) entry_props(3) [OF pa] by (auto simp: entry_def)
qed

text \<open>The map after \<open>k\<close> pages from \<open>a\<close> on have been mapped to \<open>pa\<close>.\<close>

definition mapped :: "nat \<Rightarrow> nat \<Rightarrow> nat \<Rightarrow> nat \<Rightarrow> (nat \<Rightarrow> nat option) \<Rightarrow> nat \<Rightarrow> nat option" where
  "mapped k a pa perm l w =
     (if a \<le> w \<and> w < a + k * 4096 then Some (entry ((pa + (w - a) div 4096 * 4096) mod 2 ^ 32) perm) else l w)"

lemma page_div: "a mod 4096 = 0 \<Longrightarrow> w div 4096 = a div 4096 \<longleftrightarrow> a \<le> w \<and> w < a + (4096 :: nat)"
proof -
  assume "a mod 4096 = 0"
  then obtain b where b: "a = 4096 * b" by (auto elim!: dvdE)
  have "w = 4096 * (w div 4096) + w mod 4096" "w mod 4096 < 4096" by simp_all
  then have "w div 4096 = b \<Longrightarrow> 4096 * b \<le> w \<and> w < 4096 * b + 4096" by linarith
  moreover have "4096 * b \<le> w \<Longrightarrow> w < 4096 * b + 4096 \<Longrightarrow> w div 4096 = b" by (rule div_nat_eqI) simp_all
  ultimately show ?thesis unfolding b by auto
qed

lemma mapped_cong: "l w = l' w \<Longrightarrow> mapped k a pa perm l w = mapped k a pa perm l' w"
  by (simp add: mapped_def)

lemma mapped_Suc:
  assumes "a mod 4096 = 0" "pa < 2 ^ 32"
  shows "mapped k (a + 4096) ((pa + 4096) mod 2 ^ 32) perm (\<lambda>w. if w div 4096 = a div 4096 then Some (entry pa perm) else l w) w = mapped (Suc k) a pa perm l w"
proof -
  note same = page_div [OF assms(1), of w]
  show ?thesis
  proof (cases "a + 4096 \<le> w")
    case True
    then obtain d where d: "w = a + 4096 + d" using le_Suc_ex by blast
    have "((pa + 4096) mod 2 ^ 32 + d div 4096 * 4096) mod 2 ^ 32 = (pa + 4096 + d div 4096 * 4096) mod 2 ^ 32" by (rule mod_add_left_eq)
    also have "(4096 + d) div 4096 = d div 4096 + 1" by (rule div_add_self1) simp
    then have "pa + 4096 + d div 4096 * 4096 = pa + (4096 + d) div 4096 * 4096" by simp
    finally have e: "((pa + 4096) mod 2 ^ 32 + d div 4096 * 4096) mod 2 ^ 32 = (pa + (4096 + d) div 4096 * 4096) mod 2 ^ 32" .
    have c: "w - (a + 4096) = d" "w - a = 4096 + d" "w < a + 4096 + k * 4096 \<longleftrightarrow> w < a + Suc k * 4096" "a \<le> w" "\<not> w < a + 4096" using d by auto
    show ?thesis unfolding mapped_def c(1,2) e c(3) using True c(4,5) same by simp
  next
    case False
    then show ?thesis using same assms(2) by (auto simp: mapped_def)
  qed
qed

lemma mappages_loop_ok:
  assumes "free_ok ke s xs" "pt_ok ke (v_mem s) pd xs" "a mod 4096 = 0" "a + (n + 1) * 4096 \<le> 2 ^ 32" "pa mod 4096 = 0" "pa < 2 ^ 32" "perm < 4096"
    and "\<And>w. a \<le> w \<Longrightarrow> w < a + (n + 1) * 4096 \<Longrightarrow> lookup (v_mem s) pd w = None"
  shows "\<exists>r s' xs' k. mappages_loop n pd a pa perm s = Inr (r, s') \<and> grows ke pd s xs s' xs' \<and> length xs \<le> length xs' + k
    \<and> (\<forall>w < 2 ^ 32. lookup (v_mem s') pd w = mapped k a pa perm (lookup (v_mem s) pd) w)
    \<and> (r = 0 \<and> k = n + 1 \<or> r = - 1 \<and> k \<le> n \<and> xs' = [])"
  using assms
proof (induction n arbitrary: a pa s xs)
  case (0 a pa s xs)
  have a: "a < 2 ^ 32" "lookup (v_mem s) pd a = None" using "0.prems"(4,8) by simp_all
  note same = page_div [OF "0.prems"(3)]
  from map_page [OF "0.prems"(1,2) a(1) "0.prems"(5-7) a(2)] show ?case
  proof (elim disjE exE conjE)
    assume "walkpgdir pd a True s = (0, s)" "xs = []"
    then show ?thesis using grows_refl [OF "0.prems"(1,2)] by (auto simp: mappages_loop.simps mapped_def)
  next
    fix pte s1 s' xs'
    assume s1: "walkpgdir pd a True s = (pte, s1)" "pte \<noteq> 0" "even (rd32 (v_mem s1) pte)" "s' = s1\<lparr>v_mem := wr32 pte (or (or pa perm) PTE_P) (v_mem s1)\<rparr>"
      "grows ke pd s xs s' xs'" "length xs \<le> length xs' + 1"
      "\<forall>w < 2 ^ 32. lookup (v_mem s') pd w = (if w div 4096 = a div 4096 then Some (entry pa perm) else lookup (v_mem s) pd w)"
    have "mappages_loop 0 pd a pa perm s = Inr (0, s')" using s1(1-4) and_P [of "rd32 (v_mem s1) pte"] by (simp add: mappages_loop.simps Let_def)
    moreover have "\<forall>w < 2 ^ 32. lookup (v_mem s') pd w = mapped 1 a pa perm (lookup (v_mem s) pd) w"
      using s1(7) same "0.prems"(6) by (auto simp: mapped_def)
    ultimately show ?thesis using s1(5,6) by auto
  qed
next
  case (Suc n a pa s xs)
  have a: "a < 2 ^ 32" "lookup (v_mem s) pd a = None" using Suc.prems(4,8) by simp_all
  from map_page [OF Suc.prems(1,2) a(1) Suc.prems(5-7) a(2)] show ?case
  proof (elim disjE exE conjE)
    assume "walkpgdir pd a True s = (0, s)" "xs = []"
    then have "mappages_loop (Suc n) pd a pa perm s = Inr (- 1, s)" by (simp add: mappages_loop.simps)
    moreover have "\<forall>w < 2 ^ 32. lookup (v_mem s) pd w = mapped 0 a pa perm (lookup (v_mem s) pd) w" by (auto simp: mapped_def)
    ultimately show ?thesis using grows_refl [OF Suc.prems(1,2)] \<open>xs = []\<close> by fastforce
  next
    fix pte s1 s' xs'
    assume s1: "walkpgdir pd a True s = (pte, s1)" "pte \<noteq> 0" "even (rd32 (v_mem s1) pte)" "s' = s1\<lparr>v_mem := wr32 pte (or (or pa perm) PTE_P) (v_mem s1)\<rparr>"
      "grows ke pd s xs s' xs'" "length xs \<le> length xs' + 1"
      "\<forall>w < 2 ^ 32. lookup (v_mem s') pd w = (if w div 4096 = a div 4096 then Some (entry pa perm) else lookup (v_mem s) pd w)"
    note G = growsD [OF s1(5)]
    let ?a = "a + 4096" and ?pa = "(pa + 4096) mod 2 ^ 32"
    have run: "mappages_loop (Suc n) pd a pa perm s = mappages_loop n pd ?a ?pa perm s'"
      using s1(1-4) and_P [of "rd32 (v_mem s1) pte"] Suc.prems(4) by (subst mappages_loop.simps) (simp add: Let_def PGSIZE_def)
    have a': "?a mod 4096 = 0" "?a + (n + 1) * 4096 \<le> 2 ^ 32" "?pa mod 4096 = 0" "?pa < 2 ^ 32"
      using Suc.prems(3-5) by (simp_all add: mod_mod_cancel)
    have none: "lookup (v_mem s') pd w = None" if "?a \<le> w" "w < ?a + (n + 1) * 4096" for w
    proof -
      have "w div 4096 \<noteq> a div 4096" using that(1) div_le_mono [of "a + 4096" w 4096] by simp
      then show ?thesis using s1(7) that Suc.prems(4) Suc.prems(8) [of w] by simp
    qed
    from Suc.IH [OF G(1,2) a'(1-4) Suc.prems(7) none] obtain r s2 ys k where
      s2: "mappages_loop n pd ?a ?pa perm s' = Inr (r, s2)" "grows ke pd s' xs' s2 ys" "length xs' \<le> length ys + k"
        "\<forall>w < 2 ^ 32. lookup (v_mem s2) pd w = mapped k ?a ?pa perm (lookup (v_mem s') pd) w"
        "r = 0 \<and> k = n + 1 \<or> r = - 1 \<and> k \<le> n \<and> ys = []" by blast
    have "lookup (v_mem s2) pd w = mapped (Suc k) a pa perm (lookup (v_mem s) pd) w" if "w < 2 ^ 32" for w
    proof -
      have "mapped k ?a ?pa perm (lookup (v_mem s') pd) w
          = mapped k ?a ?pa perm (\<lambda>w. if w div 4096 = a div 4096 then Some (entry pa perm) else lookup (v_mem s) pd w) w"
        by (rule mapped_cong) (use s1(7) that in simp)
      then show ?thesis using mapped_Suc [OF Suc.prems(3,6)] s2(4) that by simp
    qed
    then show ?thesis using run s2(1,3,5) s1(6) grows_trans [OF s1(5) s2(2)]
      by (intro exI [of _ r] exI [of _ s2] exI [of _ ys] exI [of _ "Suc k"]) auto
  qed
qed

lemma mappages_eq:
  assumes "va mod 4096 = 0" "va + (n + 1) * 4096 \<le> 2 ^ 32"
  shows "mappages pd va ((n + 1) * 4096) pa perm s = mappages_loop n pd va pa perm s"
proof -
  obtain b where b: "va = 4096 * b" using assms(1) by (auto elim!: dvdE)
  let ?l = "(va + (n + 1) * 4096 + 2 ^ 32 - 1) mod 2 ^ 32"
  have "?l = va + (n + 1) * 4096 - 1" using assms(2) by (simp add: mod_if)
  also have "\<dots> = 4096 * (b + n) + 4095" unfolding b by simp
  finally have l0: "?l = 4096 * (b + n) + 4095" .
  have "(4096 * x + 4095) div 4096 = x" for x :: nat by simp
  then have l: "PGROUNDDOWN ?l = 4096 * (b + n)" unfolding PGROUNDDOWN_def PGSIZE_def l0 by (simp only: mult.commute)
  have "(4096 * (b + n) + 2 ^ 32 - va) mod 2 ^ 32 = 4096 * n" using assms(2) unfolding b by (simp add: mod_if)
  moreover have "PGROUNDDOWN va = va" unfolding b by (simp add: PGROUNDDOWN_def PGSIZE_def)
  ultimately show ?thesis unfolding mappages_def Let_def l by (simp add: PGSIZE_def)
qed

end
