(* ===== verification/Xv6_Vm_User.thy ===== *)
theory Xv6_Vm_User
  imports Xv6_Vm_Map
begin

text \<open>
  Address spaces: the user part of a page table, below \<^verbatim>\<open>KERNBASE\<close>, maps different pages to different pages of the allocator
  (\<open>as_ok\<close>).  \<open>ubyte\<close> is user memory as the process sees it.  Here are the effects of writing a page, of adding one and of
  taking one away, and what \<^verbatim>\<open>copyout\<close>, \<^verbatim>\<open>deallocuvm\<close> and \<^verbatim>\<open>freevm\<close> do.
\<close>

section \<open>Address spaces\<close>

definition frame :: "nat \<Rightarrow> nat" where
  "frame x = P2V (PTE_ADDR x)"

definition uframes :: "mem \<Rightarrow> nat \<Rightarrow> nat set" where
  "uframes m pd = {frame x | va x. va < KERNBASE \<and> lookup m pd va = Some x}"

definition as_ok :: "nat \<Rightarrow> mem \<Rightarrow> nat \<Rightarrow> nat list \<Rightarrow> bool" where
  "as_ok ke m pd xs \<longleftrightarrow> pt_ok ke m pd xs
     \<and> (\<forall>va x. va < KERNBASE \<longrightarrow> lookup m pd va = Some x \<longrightarrow> is_page ke (frame x) \<and> frame x \<notin> set xs \<and> frame x \<notin> pt_pages m pd)
     \<and> (\<forall>va w x y. va < KERNBASE \<longrightarrow> w < KERNBASE \<longrightarrow> lookup m pd va = Some x \<longrightarrow> lookup m pd w = Some y \<longrightarrow> frame x = frame y \<longrightarrow> va div 4096 = w div 4096)"

definition ubyte :: "mem \<Rightarrow> nat \<Rightarrow> nat \<Rightarrow> byte option" where
  "ubyte m pd va = map_option (\<lambda>x. m (frame x + va mod 4096)) (lookup m pd va)"

definition own :: "mem \<Rightarrow> nat \<Rightarrow> nat set" where
  "own m pd = pt_pages m pd \<union> uframes m pd"

definition untouched :: "nat set \<Rightarrow> mem \<Rightarrow> mem \<Rightarrow> bool" where
  "untouched S m m' \<longleftrightarrow> (\<forall>x. (\<forall>p \<in> S. \<not> in_page p x) \<longrightarrow> m' x = m x)"

lemma as_okD:
  assumes "as_ok ke m pd xs"
  shows "pt_ok ke m pd xs" "va < KERNBASE \<Longrightarrow> lookup m pd va = Some x \<Longrightarrow> is_page ke (frame x)" "va < KERNBASE \<Longrightarrow> lookup m pd va = Some x \<Longrightarrow> frame x \<notin> set xs"
    "va < KERNBASE \<Longrightarrow> lookup m pd va = Some x \<Longrightarrow> frame x \<notin> pt_pages m pd"
    "va < KERNBASE \<Longrightarrow> w < KERNBASE \<Longrightarrow> lookup m pd va = Some x \<Longrightarrow> lookup m pd w = Some y \<Longrightarrow> frame x = frame y \<Longrightarrow> va div 4096 = w div 4096"
  using assms unfolding as_ok_def by blast+

lemma own_page: "as_ok ke m pd xs \<Longrightarrow> p \<in> own m pd \<Longrightarrow> is_page ke p \<and> p \<notin> set xs"
  unfolding own_def uframes_def by (auto dest: pt_pages_page [OF as_okD(1)] as_okD(2,3))

lemma untouched_refl [simp]: "untouched S m m"
  by (simp add: untouched_def)

lemma untouched_trans: "untouched S m m1 \<Longrightarrow> untouched S m1 m2 \<Longrightarrow> untouched S m m2"
  by (simp add: untouched_def)

lemma untouched_mono: "untouched S m m' \<Longrightarrow> S \<subseteq> T \<Longrightarrow> untouched T m m'"
  unfolding untouched_def by blast

lemma untouched_page:
  assumes "untouched S m m'" "is_page ke p" "\<forall>q \<in> S. is_page ke q" "p \<notin> S" "in_page p x"
  shows "m' x = m x"
proof -
  have "\<not> in_page q x" if "q \<in> S" for q
  proof
    assume "in_page q x"
    then have "q = p" using in_page_unique [of q p x] assms(2,3,5) that by (auto simp: is_page_def)
    then show False using that assms(4) by simp
  qed
  then show ?thesis using assms(1) by (simp add: untouched_def)
qed

lemma KB_32: "va < KERNBASE \<Longrightarrow> va < 2 ^ 32"
  by (simp add: KERNBASE_def)

lemma KB_div: "w div 4096 = va div 4096 \<Longrightarrow> va < KERNBASE \<Longrightarrow> w < KERNBASE"
  using div_less_iff_less_mult [of 4096 w 524288] div_less_iff_less_mult [of 4096 va 524288] by (simp add: KERNBASE_def)

lemma lookup_same: "v < KERNBASE \<Longrightarrow> w < KERNBASE \<Longrightarrow> v div 4096 = w div 4096 \<Longrightarrow> lookup m pd v = lookup m pd w"
  using same_page [of v w] KB_32 by (simp add: lookup_def slot_def)

text \<open>The free list may change as long as it stays away from the pages of the address space.\<close>

lemma as_ok_list: "as_ok ke m pd xs \<Longrightarrow> own m pd \<inter> set ys = {} \<Longrightarrow> as_ok ke m pd ys"
proof -
  assume a: "as_ok ke m pd xs" and d: "own m pd \<inter> set ys = {}"
  note P = pt_okD [OF as_okD(1) [OF a]]
  have "tab m pd i \<notin> set ys" if "i < 1024" "odd (pde m pd i)" for i
    using d that unfolding own_def pt_pages_def by blast
  moreover have "pd \<notin> set ys" using d by (auto simp: own_def pt_pages_def)
  ultimately have "pt_ok ke m pd ys" using as_okD(1) [OF a] unfolding pt_ok_def by blast
  moreover have "frame x \<notin> set ys" if "va < KERNBASE" "lookup m pd va = Some x" for va x
    using d that unfolding own_def uframes_def by blast
  ultimately show ?thesis using a unfolding as_ok_def by blast
qed

text \<open>Writes elsewhere.\<close>

lemma as_frame:
  assumes ok: "as_ok ke m pd xs" and u: "untouched S m m'" and S: "\<forall>q \<in> S. is_page ke q" "S \<inter> pt_pages m pd = {}"
  shows "lookup m' pd = lookup m pd" "as_ok ke m' pd xs" "pt_pages m' pd = pt_pages m pd" "uframes m' pd = uframes m pd"
    "\<And>w. w < KERNBASE \<Longrightarrow> (\<And>x. lookup m pd w = Some x \<Longrightarrow> frame x \<notin> S) \<Longrightarrow> ubyte m' pd w = ubyte m pd w"
proof -
  have f: "m' x = m x" if "p \<in> pt_pages m pd" "in_page p x" for p x
    using untouched_page [OF u _ S(1) _ that(2)] pt_pages_page [OF as_okD(1) [OF ok] that(1)] that(1) S(2) by blast
  show l: "lookup m' pd = lookup m pd" by (rule pt_frame(4) [OF as_okD(1) [OF ok]]) (erule (1) f)
  show p: "pt_pages m' pd = pt_pages m pd" by (rule pt_frame(6) [OF as_okD(1) [OF ok]]) (erule (1) f)
  have q: "pt_ok ke m' pd xs" by (rule pt_frame(5) [OF as_okD(1) [OF ok]]) (erule (1) f)
  show "uframes m' pd = uframes m pd" by (simp add: uframes_def l)
  show "as_ok ke m' pd xs" using ok q unfolding as_ok_def l p by blast
  show "ubyte m' pd w = ubyte m pd w" if "w < KERNBASE" "\<And>x. lookup m pd w = Some x \<Longrightarrow> frame x \<notin> S" for w
  proof (cases "lookup m pd w")
    case None
    then show ?thesis by (simp add: ubyte_def l)
  next
    case (Some x)
    have "in_page (frame x) (frame x + w mod 4096)" by (simp add: in_page_def PGSIZE_def)
    then have "m' (frame x + w mod 4096) = m (frame x + w mod 4096)"
      using untouched_page [OF u as_okD(2) [OF ok that(1) Some] S(1) that(2) [OF Some]] by blast
    then show ?thesis by (simp add: ubyte_def l Some)
  qed
qed

section \<open>Writing user memory\<close>

lemma write_user:
  assumes ok: "as_ok ke m pd xs" and va: "va < KERNBASE" "lookup m pd va = Some x" and n: "va mod 4096 + length bs \<le> 4096"
  defines "m' \<equiv> wr_mem (frame x + va mod 4096) bs m"
  shows "lookup m' pd = lookup m pd" "as_ok ke m' pd xs" "uframes m' pd = uframes m pd" "pt_pages m' pd = pt_pages m pd" "untouched {frame x} m m'"
    "\<And>w. w < KERNBASE \<Longrightarrow> ubyte m' pd w = (if va \<le> w \<and> w < va + length bs then Some (bs ! (w - va)) else ubyte m pd w)"
proof -
  show u: "untouched {frame x} m m'" using n by (auto simp: untouched_def m'_def wr_mem_def in_page_def PGSIZE_def)
  have S: "\<forall>q \<in> {frame x}. is_page ke q" "{frame x} \<inter> pt_pages m pd = {}" using as_okD(2,4) [OF ok va] by auto
  note F = as_frame [OF ok u S]
  show l: "lookup m' pd = lookup m pd" and "as_ok ke m' pd xs" "uframes m' pd = uframes m pd" "pt_pages m' pd = pt_pages m pd" using F(1-4) by simp_all
  let ?a = "va div 4096 * 4096"
  have a: "?a mod 4096 = 0" "va = ?a + va mod 4096" "?a div 4096 = va div 4096" by simp_all
  show "ubyte m' pd w = (if va \<le> w \<and> w < va + length bs then Some (bs ! (w - va)) else ubyte m pd w)" if w: "w < KERNBASE" for w
  proof (cases "w div 4096 = va div 4096")
    case True
    have pg: "?a \<le> w" "w < ?a + 4096" using page_div [OF a(1), of w] True a(3) by simp_all
    have lw: "lookup m pd w = Some x" using va(2) lookup_same [OF w va(1) True] by simp
    have wm: "w = ?a + w mod 4096" using div_mult_mod_eq [of w 4096] True by simp
    have c: "frame x + va mod 4096 \<le> frame x + w mod 4096 \<and> frame x + w mod 4096 < frame x + va mod 4096 + length bs \<longleftrightarrow> va \<le> w \<and> w < va + length bs"
        "frame x + w mod 4096 - (frame x + va mod 4096) = w - va" using wm a(2) by linarith+
    have "ubyte m' pd w = Some (m' (frame x + w mod 4096))" "ubyte m pd w = Some (m (frame x + w mod 4096))" by (simp_all add: ubyte_def l lw)
    moreover have "m' (frame x + w mod 4096) = (if va \<le> w \<and> w < va + length bs then bs ! (w - va) else m (frame x + w mod 4096))"
      unfolding m'_def wr_mem_def c ..
    ultimately show ?thesis by simp
  next
    case False
    have "\<not> (va \<le> w \<and> w < va + length bs)"
    proof
      assume "va \<le> w \<and> w < va + length bs"
      then have "?a \<le> w" "w < ?a + 4096" using a(2) n by linarith+
      then show False using False page_div [OF a(1), of w] a(3) by simp
    qed
    moreover have "frame y \<notin> {frame x}" if "lookup m pd w = Some y" for y using as_okD(5) [OF ok w va(1) that va(2)] False by auto
    ultimately show ?thesis using F(5) [OF w] by auto
  qed
qed

lemma copyout_ok:
  assumes "free_ok ke s xs" "as_ok ke (v_mem s) pd xs"
    and "\<And>w. va \<le> w \<Longrightarrow> w < va + length buf \<Longrightarrow> w < KERNBASE \<and> (\<exists>x. lookup (v_mem s) pd w = Some x \<and> and x PTE_U \<noteq> 0)"
  shows "\<exists>s'. copyout pd va buf s = Inr (0, s') \<and> free_ok ke s' xs \<and> as_ok ke (v_mem s') pd xs \<and> lookup (v_mem s') pd = lookup (v_mem s) pd
    \<and> (\<forall>w < KERNBASE. ubyte (v_mem s') pd w = (if va \<le> w \<and> w < va + length buf then Some (buf ! (w - va)) else ubyte (v_mem s) pd w))
    \<and> untouched (uframes (v_mem s) pd) (v_mem s) (v_mem s')"
  using assms
proof (induction "length buf" arbitrary: va buf s rule: less_induct)
  case less
  show ?case
  proof (cases "buf = []")
    case True
    then show ?thesis using less.prems by (auto simp: copyout.simps)
  next
    case False
    let ?va0 = "PGROUNDDOWN va"
    let ?n = "min (PGSIZE - (va - ?va0)) (length buf)"
    have v0: "?va0 = va div 4096 * 4096" "va - ?va0 = va mod 4096" by (simp_all add: PGROUNDDOWN_def PGSIZE_def minus_div_mult_eq_mod)
    have pg0: "?va0 \<le> va" "va < ?va0 + 4096" using page_div [of ?va0 va] by (simp_all add: v0(1))
    obtain x where va: "va < KERNBASE" "lookup (v_mem s) pd va = Some x" "and x PTE_U \<noteq> 0" using less.prems(3) [of va] False by auto
    note A = as_okD [OF less.prems(2)]
    have va0: "?va0 < KERNBASE" "?va0 div 4096 = va div 4096" using va(1) v0(1) KB_div [of ?va0 va] by simp_all
    have l0: "lookup (v_mem s) pd ?va0 = Some x" using va(2) lookup_same [OF va0(1) va(1) va0(2)] by simp
    have fx: "frame x \<noteq> 0" using A(2) [OF va(1,2)] pt_okD(1) [OF A(1)] by (auto simp: is_page_def)
    have uk: "uva2ka pd ?va0 s = Inr (frame x)"
    proof -
      have "odd (pde (v_mem s) pd (PDX ?va0))" "rd32 (v_mem s) (slot (v_mem s) pd ?va0) = x" "odd x" using l0 by (auto simp: lookup_def split: if_splits)
      then show ?thesis using walk_lookup [OF A(1), of ?va0] slot_nonzero [OF A(1), of ?va0] va(3) and_P [of x]
        by (auto simp: uva2ka_def Let_def frame_def)
    qed
    let ?b = "take ?n buf" and ?s = "s\<lparr>v_mem := wr_mem (frame x + va mod 4096) (take ?n buf) (v_mem s)\<rparr>"
    have n: "0 < ?n" "length ?b = ?n" "va mod 4096 + length ?b \<le> 4096" using False v0(2) by (auto simp: PGSIZE_def)
    note W = write_user [OF less.prems(2) va(1,2) n(3)]
    let ?va1 = "(?va0 + PGSIZE) mod 2 ^ 32"
    have v1: "?va1 = ?va0 + 4096" using va0(1) by (simp add: PGSIZE_def KERNBASE_def)
    have run: "copyout pd va buf s = copyout pd ?va1 (drop ?n buf) ?s"
      using False uk fx v0(2) by (subst copyout.simps) (simp add: Let_def)
    have f1: "free_ok ke ?s xs"
      by (rule free_ok_disjoint [OF less.prems(1) A(2,3) [OF va(1,2)]]) (use W(5) in \<open>auto simp: untouched_def\<close>)
    have rest: "w < KERNBASE \<and> (\<exists>x. lookup (v_mem ?s) pd w = Some x \<and> and x PTE_U \<noteq> 0)" if "?va1 \<le> w" "w < ?va1 + length (drop ?n buf)" for w
    proof -
      have "?va0 \<le> va" "va < ?va0 + 4096" "?n = PGSIZE - (va - ?va0) \<or> ?n = length buf" "length (drop ?n buf) = length buf - ?n"
        using v0 pg0 by (auto simp: min_def)
      then have "va \<le> w" "w < va + length buf" using that v1 unfolding PGSIZE_def by linarith+
      then show ?thesis using less.prems(3) [of w] W(1) by simp
    qed
    have "length (drop ?n buf) < length buf" using n(1) by simp
    moreover have a1: "as_ok ke (v_mem ?s) pd xs" using W(2) by simp
    ultimately obtain s' where s': "copyout pd ?va1 (drop ?n buf) ?s = Inr (0, s')" "free_ok ke s' xs" "as_ok ke (v_mem s') pd xs"
        "lookup (v_mem s') pd = lookup (v_mem ?s) pd"
        "\<forall>w < KERNBASE. ubyte (v_mem s') pd w = (if ?va1 \<le> w \<and> w < ?va1 + length (drop ?n buf) then Some (drop ?n buf ! (w - ?va1)) else ubyte (v_mem ?s) pd w)"
        "untouched (uframes (v_mem ?s) pd) (v_mem ?s) (v_mem s')" using less.hyps [OF _ f1 a1 rest] by blast
    have "ubyte (v_mem s') pd w = (if va \<le> w \<and> w < va + length buf then Some (buf ! (w - va)) else ubyte (v_mem s) pd w)" if w: "w < KERNBASE" for w
    proof (cases "drop ?n buf = []")
      case True
      then have "length buf \<le> ?n" by simp
      then have t: "take ?n buf = buf" by simp
      have "\<not> (?va1 \<le> w \<and> w < ?va1 + length (drop ?n buf))" unfolding True by auto
      then have "ubyte (v_mem s') pd w = ubyte (v_mem ?s) pd w" using s'(5) w by (simp only: if_False)
      also have "\<dots> = ubyte (wr_mem (frame x + va mod 4096) (take ?n buf) (v_mem s)) pd w" by simp
      finally show ?thesis using W(6) [OF w] unfolding t by simp
    next
      case d: False
      then have "?n = PGSIZE - (va - ?va0)" by (auto simp: min_def split: if_splits)
      then have v: "?va1 = va + ?n" using v1 pg0 unfolding PGSIZE_def by linarith
      have "take ?n buf ! (w - va) = buf ! (w - va)" if "va \<le> w" "\<not> va + ?n \<le> w" by (rule nth_take) (use that in linarith)
      then show ?thesis using s'(5) w W(6) [OF w] n(2) unfolding v by auto
    qed
    moreover have "untouched (uframes (v_mem s) pd) (v_mem s) (v_mem s')"
    proof (rule untouched_trans [of _ _ "v_mem ?s"])
      show "untouched (uframes (v_mem s) pd) (v_mem s) (v_mem ?s)"
      proof -
        have "{frame x} \<subseteq> uframes (v_mem s) pd" using va(1,2) unfolding uframes_def by blast
        from untouched_mono [OF W(5) this] show ?thesis by simp
      qed
      show "untouched (uframes (v_mem s) pd) (v_mem ?s) (v_mem s')" using s'(6) W(3) by simp
    qed
    ultimately show ?thesis using run s'(1-4) W(1) by auto
  qed
qed

end
