(* ===== verification/Xv6_Vm_Free.thy ===== *)
theory Xv6_Vm_Free
  imports Xv6_Vm_User
begin

text \<open>
  Giving memory back: \<^verbatim>\<open>deallocuvm\<close> unmaps and frees the user pages of a range, \<^verbatim>\<open>freevm\<close> everything that an address space owns;
  neither panics, frees a page twice or loses one.
\<close>

section \<open>One page\<close>

lemma uframesI: "va < KERNBASE \<Longrightarrow> lookup m pd va = Some x \<Longrightarrow> frame x \<in> uframes m pd"
  unfolding uframes_def by blast

definition shrinks :: "nat \<Rightarrow> nat \<Rightarrow> vm \<Rightarrow> nat list \<Rightarrow> vm \<Rightarrow> nat list \<Rightarrow> bool" where
  "shrinks ke pd s xs s' xs' \<longleftrightarrow> free_ok ke s' xs' \<and> as_ok ke (v_mem s') pd xs' \<and> pt_pages (v_mem s') pd = pt_pages (v_mem s) pd
     \<and> uframes (v_mem s') pd \<union> set xs' = uframes (v_mem s) pd \<union> set xs \<and> set xs \<subseteq> set xs' \<and> untouched (own (v_mem s) pd) (v_mem s) (v_mem s')
     \<and> (\<forall>w < KERNBASE. lookup (v_mem s') pd w = None \<or> lookup (v_mem s') pd w = lookup (v_mem s) pd w \<and> ubyte (v_mem s') pd w = ubyte (v_mem s) pd w)"

lemma shrinks_refl: "free_ok ke s xs \<Longrightarrow> as_ok ke (v_mem s) pd xs \<Longrightarrow> shrinks ke pd s xs s xs"
  by (simp add: shrinks_def)

lemma shrinks_frames: "shrinks ke pd s xs s' xs' \<Longrightarrow> uframes (v_mem s') pd \<subseteq> uframes (v_mem s) pd"
  unfolding shrinks_def uframes_def by fastforce

lemma shrinks_trans:
  assumes a: "shrinks ke pd s xs s1 ys" and b: "shrinks ke pd s1 ys s2 zs"
  shows "shrinks ke pd s xs s2 zs"
proof -
  have "own (v_mem s1) pd \<subseteq> own (v_mem s) pd" using shrinks_frames [OF a] a unfolding own_def shrinks_def by blast
  then have "untouched (own (v_mem s) pd) (v_mem s1) (v_mem s2)" using b untouched_mono unfolding shrinks_def by blast
  then have "untouched (own (v_mem s) pd) (v_mem s) (v_mem s2)" using a untouched_trans unfolding shrinks_def by blast
  moreover have "lookup (v_mem s2) pd w = None \<or> lookup (v_mem s2) pd w = lookup (v_mem s) pd w \<and> ubyte (v_mem s2) pd w = ubyte (v_mem s) pd w" if "w < KERNBASE" for w
    using a b that unfolding shrinks_def by metis
  ultimately show ?thesis using a b unfolding shrinks_def by auto
qed

lemma unmap_page:
  assumes f: "free_ok ke s xs" and ok: "as_ok ke (v_mem s) pd xs" and va: "va < KERNBASE" "lookup (v_mem s) pd va = Some x"
  shows "\<exists>s1 s2. kfree ke (frame x) s = Inr s1 \<and> s2 = s1\<lparr>v_mem := wr32 (slot (v_mem s) pd va) 0 (v_mem s1)\<rparr> \<and> shrinks ke pd s xs s2 (frame x # xs)
    \<and> (\<forall>w < 2 ^ 32. lookup (v_mem s2) pd w = (if w div 4096 = va div 4096 then None else lookup (v_mem s) pd w))"
proof -
  note A = as_okD [OF ok]
  have F: "is_page ke (frame x)" "frame x \<notin> set xs" "frame x \<notin> pt_pages (v_mem s) pd" using A(2-4) [OF va] .
  from kfree_ok [OF f F(1,2)] obtain s1 where s1: "kfree ke (frame x) s = Inr s1" "free_ok ke s1 (frame x # xs)"
    "\<forall>y. \<not> in_page (frame x) y \<longrightarrow> v_mem s1 y = v_mem s y" by blast
  have u1: "untouched {frame x} (v_mem s) (v_mem s1)" using s1(3) by (simp add: untouched_def)
  have S: "\<forall>q \<in> {frame x}. is_page ke q" "{frame x} \<inter> pt_pages (v_mem s) pd = {}" using F by auto
  note E = as_frame [OF ok u1 S]
  let ?m1 = "v_mem s1"
  have p: "odd (pde ?m1 pd (PDX va))" using va(2) E(1) by (auto simp: lookup_def fun_eq_iff split: if_splits)
  have p0: "odd (pde (v_mem s) pd (PDX va))" using va(2) by (auto simp: lookup_def split: if_splits)
  have sl: "slot ?m1 pd va = slot (v_mem s) pd va"
  proof -
    have same: "?m1 y = v_mem s y" if "in_page pd y" for y
      using untouched_page [OF u1 pt_okD(2) [OF A(1)] S(1) _ that] F(3) by (auto simp: pt_pages_def)
    have "pde ?m1 pd (PDX va) = pde (v_mem s) pd (PDX va)"
    proof (rule rd32_cong)
      fix y assume "pd + 4 * PDX va \<le> y" "y < pd + 4 * PDX va + 4"
      then have "in_page pd y" using PDX_PTX(1) [of va] unfolding in_page_def PGSIZE_def by linarith
      then show "?m1 y = v_mem s y" by (rule same)
    qed
    then show ?thesis by (simp add: slot_def tab_def)
  qed
  let ?m2 = "wr32 (slot ?m1 pd va) 0 ?m1" and ?s2 = "s1\<lparr>v_mem := wr32 (slot ?m1 pd va) 0 ?m1\<rparr>"
  let ?t = "tab ?m1 pd (PDX va)"
  have z: "(0 :: nat) < 2 ^ 32" by simp
  note W = write_slot [OF as_okD(1) [OF E(2)] p z KB_32 [OF va(1)]]
  have t: "?t \<in> pt_pages (v_mem s) pd" using p PDX_PTX(1) E(3) unfolding pt_pages_def by blast
  have tp: "is_page ke ?t" "?t \<notin> set xs" "?t \<noteq> frame x" using pt_pages_page [OF A(1) t] t F(3) by auto
  have l: "lookup ?m2 pd w = (if w div 4096 = va div 4096 then None else lookup (v_mem s) pd w)" if "w < 2 ^ 32" for w
    using W(1) [OF that] E(1) by simp
  have f2: "free_ok ke ?s2 (frame x # xs)"
    by (rule free_ok_disjoint [OF s1(2) tp(1)]) (use tp W(6) in auto)
  have pp: "pt_pages ?m2 pd = pt_pages (v_mem s) pd" using W(3) E(3) by simp
  have uf: "uframes ?m2 pd = uframes (v_mem s) pd - {frame x}"
  proof (intro equalityI subsetI)
    fix q assume "q \<in> uframes ?m2 pd"
    then obtain w y where w: "w < KERNBASE" "lookup ?m2 pd w = Some y" "q = frame y" unfolding uframes_def by blast
    then have o: "w div 4096 \<noteq> va div 4096" "lookup (v_mem s) pd w = Some y" using l [OF KB_32 [OF w(1)]] by (auto split: if_splits)
    then have "frame y \<noteq> frame x" using A(5) [OF w(1) va(1) o(2) va(2)] by blast
    then show "q \<in> uframes (v_mem s) pd - {frame x}" using uframesI [OF w(1) o(2)] w(3) by simp
  next
    fix q assume "q \<in> uframes (v_mem s) pd - {frame x}"
    then obtain w y where w: "w < KERNBASE" "lookup (v_mem s) pd w = Some y" "q = frame y" "frame y \<noteq> frame x" unfolding uframes_def by blast
    have "w div 4096 \<noteq> va div 4096"
    proof
      assume "w div 4096 = va div 4096"
      then show False using lookup_same [OF w(1) va(1), of "v_mem s" pd] w(2,4) va(2) by simp
    qed
    then have "lookup ?m2 pd w = Some y" using l [OF KB_32 [OF w(1)]] w(2) by simp
    then show "q \<in> uframes ?m2 pd" using uframesI [OF w(1), of ?m2 pd y] w(3) by simp
  qed
  have fx: "frame x \<in> uframes (v_mem s) pd" using uframesI [OF va] .
  have "as_ok ke ?m2 pd xs" unfolding as_ok_def
  proof (intro conjI allI impI)
    show "pt_ok ke ?m2 pd xs" using W(2) .
    fix w y assume w: "w < KERNBASE" "lookup ?m2 pd w = Some y"
    then have o: "lookup (v_mem s) pd w = Some y" using l [OF KB_32 [OF w(1)]] by (auto split: if_splits)
    show "is_page ke (frame y)" "frame y \<notin> set xs" "frame y \<notin> pt_pages ?m2 pd" using A(2-4) [OF w(1) o] pp by simp_all
    fix w' y' assume w': "w' < KERNBASE" "lookup ?m2 pd w' = Some y'" "frame y = frame y'"
    then have "lookup (v_mem s) pd w' = Some y'" using l [OF KB_32 [OF w'(1)]] by (auto split: if_splits)
    then show "w div 4096 = w' div 4096" using A(5) [OF w(1) w'(1) o _ w'(3)] by blast
  qed
  moreover have "own ?m2 pd \<inter> set (frame x # xs) = {}"
    using own_page [OF ok] uf pp F(3) unfolding own_def by auto
  ultimately have a2: "as_ok ke ?m2 pd (frame x # xs)" by (rule as_ok_list)
  have u2: "untouched (own (v_mem s) pd) (v_mem s) ?m2"
  proof (rule untouched_trans)
    show "untouched (own (v_mem s) pd) (v_mem s) ?m1" using untouched_mono [OF u1, of "own (v_mem s) pd"] fx by (auto simp: own_def)
    have "untouched {?t} ?m1 ?m2" using W(6) by (simp add: untouched_def)
    then show "untouched (own (v_mem s) pd) ?m1 ?m2" using untouched_mono [of "{?t}" _ _ "own (v_mem s) pd"] t by (auto simp: own_def)
  qed
  have b: "lookup ?m2 pd w = None \<or> lookup ?m2 pd w = lookup (v_mem s) pd w \<and> ubyte ?m2 pd w = ubyte (v_mem s) pd w" if w: "w < KERNBASE" for w
  proof (cases "lookup ?m2 pd w")
    case (Some y)
    then have o: "w div 4096 \<noteq> va div 4096" "lookup (v_mem s) pd w = Some y" using l [OF KB_32 [OF w]] by (auto split: if_splits)
    have "frame y \<noteq> frame x" using A(5) [OF w va(1) o(2) va(2)] o(1) by blast
    then have "frame y \<notin> {frame x, ?t}" using A(4) [OF w o(2)] t by auto
    moreover have "untouched {frame x, ?t} (v_mem s) ?m2"
      using s1(3) W(6) by (simp add: untouched_def)
    moreover have "\<forall>q \<in> {frame x, ?t}. is_page ke q" using F tp by simp
    moreover have "in_page (frame y) (frame y + w mod 4096)" by (simp add: in_page_def PGSIZE_def)
    ultimately have "?m2 (frame y + w mod 4096) = v_mem s (frame y + w mod 4096)"
      using untouched_page [of "{frame x, ?t}" "v_mem s" ?m2 ke "frame y"] A(2) [OF w o(2)] by blast
    then show ?thesis using Some o by (simp add: ubyte_def)
  qed simp
  have "shrinks ke pd s xs ?s2 (frame x # xs)" using f2 a2 pp uf u2 b fx unfolding shrinks_def by auto
  then show ?thesis using s1(1) l sl by auto
qed

section \<open>\<^verbatim>\<open>deallocuvm\<close>\<close>

text \<open>One round of the loop: what it frees and where it goes on.\<close>

abbreviation dealloc_next :: "nat \<Rightarrow> nat \<Rightarrow> vm \<Rightarrow> nat" where
  "dealloc_next pd a s \<equiv> (if fst (walkpgdir pd a False s) = 0 then PGADDR (PDX a + 1) else (a + PGSIZE) mod 2 ^ 32)"

abbreviation dealloc_page :: "nat \<Rightarrow> nat \<Rightarrow> nat \<Rightarrow> vm \<Rightarrow> vm result" where
  "dealloc_page ke pd a s \<equiv>
     (if fst (walkpgdir pd a False s) \<noteq> 0 \<and> and (rd32 (v_mem s) (fst (walkpgdir pd a False s))) PTE_P \<noteq> 0 then
        let pa = PTE_ADDR (rd32 (v_mem s) (fst (walkpgdir pd a False s))) in
        if pa = 0 then Inl (Panic ''kfree'')
        else rbind (kfree ke (P2V pa) s) (\<lambda>t. Inr (t\<lparr>v_mem := wr32 (fst (walkpgdir pd a False s)) 0 (v_mem t)\<rparr>))
      else Inr s)"

lemma dealloc_round:
  assumes f: "free_ok ke s xs" and ok: "as_ok ke (v_mem s) pd xs" and a: "a mod 4096 = 0" "a < KERNBASE"
  shows "\<exists>s1 ys. dealloc_page ke pd a s = Inr s1 \<and> shrinks ke pd s xs s1 ys \<and> a < dealloc_next pd a s \<and> dealloc_next pd a s mod 4096 = 0
    \<and> (\<forall>w < 2 ^ 32. lookup (v_mem s1) pd w = (if a \<le> w \<and> w < dealloc_next pd a s then None else lookup (v_mem s) pd w))
    \<and> (dealloc_next pd a s = a + 4096 \<or> (\<forall>w. a \<le> w \<longrightarrow> w < dealloc_next pd a s \<longrightarrow> lookup (v_mem s) pd w = None))"
proof (cases "odd (pde (v_mem s) pd (PDX a))")
  case False
  note A = as_okD [OF ok]
  have w: "fst (walkpgdir pd a False s) = 0" using walk_lookup [OF A(1)] False by simp
  have d: "PDX a = a div 2 ^ 22" "a div 2 ^ 22 < 512" using a(2) by (auto simp: PDX_def KERNBASE_def less_mult_imp_div_less)
  then have n: "PGADDR (PDX a + 1) = (a div 2 ^ 22 + 1) * 2 ^ 22" by (simp add: PGADDR_def)
  have lt: "a < (a div 2 ^ 22 + 1) * 2 ^ 22" using dividend_less_div_times [of "2 ^ 22" a] by simp
  have none: "lookup (v_mem s) pd v = None" if "a \<le> v" "v < (a div 2 ^ 22 + 1) * 2 ^ 22" for v
  proof -
    have "v div 2 ^ 22 < a div 2 ^ 22 + 1" using that(2) less_mult_imp_div_less by blast
    moreover have "a div 2 ^ 22 \<le> v div 2 ^ 22" using that(1) by (rule div_le_mono)
    ultimately have "v div 2 ^ 22 = a div 2 ^ 22" by linarith
    then have "PDX v = PDX a" by (simp add: PDX_def)
    then show ?thesis using False by (simp add: lookup_def)
  qed
  have "(a div 2 ^ 22 + 1) * 2 ^ 22 mod 4096 = 0" by simp
  then show ?thesis unfolding w using n lt none shrinks_refl [OF f ok] by auto
next
  case True
  note A = as_okD [OF ok]
  let ?sl = "slot (v_mem s) pd a"
  have w: "fst (walkpgdir pd a False s) = ?sl" "?sl \<noteq> 0" using walk_lookup [OF A(1)] True slot_nonzero [OF A(1)] by simp_all
  have n: "(a + PGSIZE) mod 2 ^ 32 = a + 4096" using a(2) by (simp add: PGSIZE_def KERNBASE_def)
  have m: "(a + 4096) mod 4096 = 0" using a(1) by simp
  note pg = page_div [OF a(1)]
  show ?thesis
  proof (cases "lookup (v_mem s) pd a")
    case None
    then have "even (rd32 (v_mem s) ?sl)" using True by (auto simp: lookup_def split: if_splits)
    moreover have "lookup (v_mem s) pd v = None" if "a \<le> v" "v < a + 4096" for v
      using lookup_same [of v a "v_mem s" pd] KB_div [of v a] pg that a(2) None by simp
    ultimately show ?thesis unfolding w(1) using w(2) and_P [of "rd32 (v_mem s) ?sl"] n m shrinks_refl [OF f ok] by auto
  next
    case (Some x)
    then have x: "rd32 (v_mem s) ?sl = x" "odd x" by (auto simp: lookup_def split: if_splits)
    have "PTE_ADDR x \<noteq> 0" using A(2) [OF a(2) Some] pt_okD(1) [OF A(1)] by (auto simp: frame_def is_page_def P2V_def KERNBASE_def)
    moreover from unmap_page [OF f ok a(2) Some] obtain s1 s2 where s: "kfree ke (frame x) s = Inr s1" "s2 = s1\<lparr>v_mem := wr32 ?sl 0 (v_mem s1)\<rparr>"
      "shrinks ke pd s xs s2 (frame x # xs)" "\<forall>v < 2 ^ 32. lookup (v_mem s2) pd v = (if v div 4096 = a div 4096 then None else lookup (v_mem s) pd v)" by blast
    ultimately have "dealloc_page ke pd a s = Inr s2" unfolding w(1) using w(2) x and_P [of x] by (simp add: frame_def)
    then show ?thesis unfolding w(1) using w(2) n m s(3,4) pg by (intro exI [of _ s2] exI [of _ "frame x # xs"]) auto
  qed
qed

lemma deallocuvm_loop_ok:
  assumes "free_ok ke s xs" "as_ok ke (v_mem s) pd xs" "a mod 4096 = 0" "oldsz \<le> KERNBASE"
  shows "\<exists>s' xs'. deallocuvm_loop ke pd a oldsz s = Inr s' \<and> shrinks ke pd s xs s' xs'
    \<and> (\<forall>w < 2 ^ 32. lookup (v_mem s') pd w = (if a \<le> w \<and> w div 4096 * 4096 < oldsz then None else lookup (v_mem s) pd w))"
  using assms
proof (induction "oldsz - a" arbitrary: a s xs rule: less_induct)
  case less
  have up: "a \<le> w div 4096 * 4096" if "a \<le> w" for w using div_le_mono [OF that, of 4096] less.prems(3) by (auto elim!: dvdE)
  show ?case
  proof (cases "a < oldsz")
    case False
    then have "deallocuvm_loop ke pd a oldsz s = Inr s" by (simp add: deallocuvm_loop.simps)
    moreover have "\<not> (a \<le> w \<and> w div 4096 * 4096 < oldsz)" for w using up [of w] False by linarith
    ultimately show ?thesis using shrinks_refl [OF less.prems(1,2)] by (intro exI [of _ s] exI [of _ xs]) auto
  next
    case True
    let ?n = "dealloc_next pd a s"
    from dealloc_round [OF less.prems(1-3)] True less.prems(4) obtain s1 ys where
      s1: "dealloc_page ke pd a s = Inr s1" "shrinks ke pd s xs s1 ys" "a < ?n" "?n mod 4096 = 0"
        "\<forall>w < 2 ^ 32. lookup (v_mem s1) pd w = (if a \<le> w \<and> w < ?n then None else lookup (v_mem s) pd w)"
        "?n = a + 4096 \<or> (\<forall>w. a \<le> w \<longrightarrow> w < ?n \<longrightarrow> lookup (v_mem s) pd w = None)" by fastforce
    have run: "deallocuvm_loop ke pd a oldsz s = deallocuvm_loop ke pd ?n oldsz s1"
      unfolding deallocuvm_loop.simps [of ke pd a oldsz s] Let_def s1(1) [unfolded Let_def] using True s1(3) by (simp only: rbind_simps not_le [symmetric]) simp
    have d: "oldsz - ?n < oldsz - a" using True s1(3) by linarith
    have ok1: "free_ok ke s1 ys" "as_ok ke (v_mem s1) pd ys" using s1(2) by (simp_all add: shrinks_def)
    from less.hyps [OF d ok1 s1(4) less.prems(4)] obtain s' xs' where
      s': "deallocuvm_loop ke pd ?n oldsz s1 = Inr s'" "shrinks ke pd s1 ys s' xs'"
        "\<forall>w < 2 ^ 32. lookup (v_mem s') pd w = (if ?n \<le> w \<and> w div 4096 * 4096 < oldsz then None else lookup (v_mem s1) pd w)" by blast
    have "lookup (v_mem s') pd w = (if a \<le> w \<and> w div 4096 * 4096 < oldsz then None else lookup (v_mem s) pd w)" if "w < 2 ^ 32" for w
    proof (cases "a \<le> w \<and> w < ?n")
      case w: True
      have "lookup (v_mem s) pd w = None \<or> w div 4096 * 4096 < oldsz"
      proof (cases "?n = a + 4096")
        case n: True
        have "w < a + 4096" using w unfolding n by blast
        then have "w div 4096 = a div 4096" using page_div [OF less.prems(3), of w] w by simp
        then show ?thesis using True less.prems(3) by (auto elim!: dvdE)
      qed (use s1(6) w in blast)
      moreover have "lookup (v_mem s') pd w = None" using s'(3) s1(5) that w by (metis not_le)
      ultimately show ?thesis using w by auto
    next
      case w: False
      have "lookup (v_mem s1) pd w = lookup (v_mem s) pd w" using s1(5) [rule_format, OF that] unfolding if_not_P [OF w] .
      moreover have "?n \<le> w \<longleftrightarrow> a \<le> w" using w s1(3) by linarith
      ultimately show ?thesis using s'(3) [rule_format, OF that] by (simp only:)
    qed
    then show ?thesis using run s'(1) shrinks_trans [OF s1(2) s'(2)] by auto
  qed
qed

lemma deallocuvm_ok:
  assumes "free_ok ke s xs" "as_ok ke (v_mem s) pd xs" "newsz < oldsz" "oldsz \<le> KERNBASE"
  shows "\<exists>s' xs'. deallocuvm ke pd oldsz newsz s = Inr (newsz, s') \<and> shrinks ke pd s xs s' xs'
    \<and> (\<forall>w < 2 ^ 32. lookup (v_mem s') pd w = (if PGROUNDUP newsz \<le> w \<and> w div 4096 * 4096 < oldsz then None else lookup (v_mem s) pd w))"
proof -
  have "PGROUNDUP newsz mod 4096 = 0" by (simp add: PGROUNDUP_def PGSIZE_def)
  from deallocuvm_loop_ok [OF assms(1,2) this assms(4)] assms(3) show ?thesis by (auto simp: deallocuvm_def)
qed

section \<open>\<^verbatim>\<open>freevm\<close>\<close>

lemma free_tables:
  assumes f: "free_ok ke s xs" and ok: "pt_ok ke (v_mem s) pd xs"
  shows "\<exists>s' zs. rfold (\<lambda>i s. let pde = rd32 (v_mem s) (pd + 4 * i) in if and pde PTE_P \<noteq> 0 then kfree ke (P2V (PTE_ADDR pde)) s else Inr s) [0..<1024] s = Inr s'
    \<and> free_ok ke s' zs \<and> insert pd (set zs) = set xs \<union> pt_pages (v_mem s) pd \<and> pd \<notin> set zs \<and> untouched (pt_pages (v_mem s) pd) (v_mem s) (v_mem s')"
proof -
  note D = pt_okD [OF ok]
  let ?m = "v_mem s"
  let ?T = "\<lambda>us. {tab ?m pd i | i. i \<in> set us \<and> odd (pde ?m pd i)}"
  let ?I = "\<lambda>us t. \<exists>zs. free_ok ke t zs \<and> set zs = set xs \<union> ?T us \<and> untouched (?T us) ?m (v_mem t)"
  have "\<exists>s'. rfold (\<lambda>i s. let pde = rd32 (v_mem s) (pd + 4 * i) in if and pde PTE_P \<noteq> 0 then kfree ke (P2V (PTE_ADDR pde)) s else Inr s) [0..<1024] s = Inr s' \<and> ?I [0..<1024] s'"
  proof (rule rfold_rule)
    show "?I [] s" using f by auto
  next
    fix us i js t assume eq: "[0..<1024] = us @ i # js" and "?I us t"
    then obtain zs where I: "free_ok ke t zs" "set zs = set xs \<union> ?T us" "untouched (?T us) ?m (v_mem t)" by blast
    have i: "i < 1024" "set us \<subseteq> {..<1024}" "i \<notin> set us"
    proof -
      have "distinct (us @ i # js)" unfolding eq [symmetric] by simp
      then show "i \<notin> set us" by simp
      have "set (us @ i # js) = {0..<1024}" unfolding eq [symmetric] by simp
      then show "i < 1024" "set us \<subseteq> {..<1024}" by auto
    qed
    have T: "\<forall>q \<in> ?T us. is_page ke q" "pd \<notin> ?T us"
    proof -
      have "is_page ke q \<and> pd \<noteq> q" if "q \<in> ?T us" for q
      proof -
        from that obtain j where "j \<in> set us" "odd (pde ?m pd j)" "q = tab ?m pd j" by blast
        then show ?thesis using D(4,6) [of j] i(2) by (simp add: subset_eq)
      qed
      then show "\<forall>q \<in> ?T us. is_page ke q" "pd \<notin> ?T us" by blast+
    qed
    have "pde (v_mem t) pd i = pde ?m pd i"
    proof (rule rd32_cong)
      fix y assume "pd + 4 * i \<le> y" "y < pd + 4 * i + 4"
      then have "in_page pd y" using i(1) unfolding in_page_def PGSIZE_def by linarith
      then show "v_mem t y = ?m y" using untouched_page [OF I(3) D(2) T] by blast
    qed
    then have e: "pde (v_mem t) pd i = pde ?m pd i" "P2V (PTE_ADDR (pde (v_mem t) pd i)) = tab ?m pd i" by (simp_all add: tab_def)
    show "\<exists>t'. (let pde = rd32 (v_mem t) (pd + 4 * i) in if and pde PTE_P \<noteq> 0 then kfree ke (P2V (PTE_ADDR pde)) t else Inr t) = Inr t' \<and> ?I (us @ [i]) t'"
    proof (cases "odd (pde ?m pd i)")
      case False
      then have "?T (us @ [i]) = ?T us" by auto
      then show ?thesis using False e and_P [of "pde ?m pd i"] I by auto
    next
      case True
      have "tab ?m pd i \<notin> ?T us"
      proof
        assume "tab ?m pd i \<in> ?T us"
        then obtain j where "j \<in> set us" "odd (pde ?m pd j)" "tab ?m pd i = tab ?m pd j" by blast
        then show False using D(7) [of i j] i True by auto
      qed
      then have "tab ?m pd i \<notin> set zs" using I(2) D(5) [OF i(1) True] by auto
      from kfree_ok [OF I(1) D(4) [OF i(1) True] this] obtain t' where
        t': "kfree ke (tab ?m pd i) t = Inr t'" "free_ok ke t' (tab ?m pd i # zs)" "\<forall>x. \<not> in_page (tab ?m pd i) x \<longrightarrow> v_mem t' x = v_mem t x" by blast
      have T': "?T (us @ [i]) = insert (tab ?m pd i) (?T us)" using True by auto
      have "untouched (?T (us @ [i])) ?m (v_mem t')" unfolding T' using I(3) t'(3) by (simp add: untouched_def)
      moreover have "set (tab ?m pd i # zs) = set xs \<union> ?T (us @ [i])" unfolding T' using I(2) by auto
      ultimately have "?I (us @ [i]) t'" using t'(2) by blast
      moreover have "(let pde = rd32 (v_mem t) (pd + 4 * i) in if and pde PTE_P \<noteq> 0 then kfree ke (P2V (PTE_ADDR pde)) t else Inr t) = Inr t'"
        using t'(1) True e and_P [of "pde ?m pd i"] by simp
      ultimately show ?thesis by blast
    qed
  qed
  then obtain s' zs where s': "rfold (\<lambda>i s. let pde = rd32 (v_mem s) (pd + 4 * i) in if and pde PTE_P \<noteq> 0 then kfree ke (P2V (PTE_ADDR pde)) s else Inr s) [0..<1024] s = Inr s'"
    "free_ok ke s' zs" "set zs = set xs \<union> ?T [0..<1024]" "untouched (?T [0..<1024]) ?m (v_mem s')" by blast
  have P: "pt_pages ?m pd = insert pd (?T [0..<1024])" unfolding pt_pages_def by auto
  have "pd \<notin> ?T [0..<1024]"
  proof
    assume "pd \<in> ?T [0..<1024]"
    then obtain j where "j \<in> set [0..<1024]" "odd (pde ?m pd j)" "pd = tab ?m pd j" by blast
    then show False using D(6) [of j] by simp
  qed
  then have "pd \<notin> set zs" using s'(3) D(3) by blast
  moreover have "untouched (pt_pages ?m pd) ?m (v_mem s')" using untouched_mono [OF s'(4)] P by blast
  ultimately show ?thesis using s'(1-3) P by blast
qed

lemma freevm_ok:
  assumes f: "free_ok ke s xs" and ok: "as_ok ke (v_mem s) pd xs"
  shows "\<exists>s' xs'. freevm ke pd s = Inr s' \<and> free_ok ke s' xs' \<and> set xs' = set xs \<union> own (v_mem s) pd \<and> untouched (own (v_mem s) pd) (v_mem s) (v_mem s')"
proof -
  have ke: "KERNBASE < ke" "is_page ke pd" "pd \<noteq> 0" using pt_okD(1,2) [OF as_okD(1) [OF ok]] by (auto simp: is_page_def)
  have "0 < KERNBASE" by (simp add: KERNBASE_def)
  from deallocuvm_ok [OF f ok this le_refl] obtain s1 ys where
    s1: "deallocuvm ke pd KERNBASE 0 s = Inr (0, s1)" "shrinks ke pd s xs s1 ys"
      "\<forall>w < 2 ^ 32. lookup (v_mem s1) pd w = (if PGROUNDUP 0 \<le> w \<and> w div 4096 * 4096 < KERNBASE then None else lookup (v_mem s) pd w)" by blast
  have "lookup (v_mem s1) pd w = None" if "w < KERNBASE" for w
  proof -
    have "w div 4096 * 4096 < KERNBASE" using that by (metis div_times_less_eq_dividend le_less_trans)
    then show ?thesis using s1(3) KB_32 [OF that] by (simp add: PGROUNDUP_def PGSIZE_def)
  qed
  then have u: "uframes (v_mem s1) pd = {}" unfolding uframes_def by auto
  have S: "free_ok ke s1 ys" "as_ok ke (v_mem s1) pd ys" "pt_pages (v_mem s1) pd = pt_pages (v_mem s) pd" "set ys = uframes (v_mem s) pd \<union> set xs"
    "untouched (own (v_mem s) pd) (v_mem s) (v_mem s1)" using s1(2) u unfolding shrinks_def by auto
  from free_tables [OF S(1) as_okD(1) [OF S(2)]] obtain s2 zs where
    s2: "rfold (\<lambda>i s. let pde = rd32 (v_mem s) (pd + 4 * i) in if and pde PTE_P \<noteq> 0 then kfree ke (P2V (PTE_ADDR pde)) s else Inr s) [0..<1024] s1 = Inr s2"
      "free_ok ke s2 zs" "insert pd (set zs) = set ys \<union> pt_pages (v_mem s1) pd" "pd \<notin> set zs" "untouched (pt_pages (v_mem s1) pd) (v_mem s1) (v_mem s2)" by blast
  from kfree_ok [OF s2(2) ke(2) s2(4)] obtain s3 where
    s3: "kfree ke pd s2 = Inr s3" "free_ok ke s3 (pd # zs)" "\<forall>x. \<not> in_page pd x \<longrightarrow> v_mem s3 x = v_mem s2 x" by blast
  have "freevm ke pd s = Inr s3" using ke(3) s1(1) s2(1) s3(1) by (simp add: freevm_def NPDENTRIES_def)
  moreover have "set (pd # zs) = set xs \<union> own (v_mem s) pd" using s2(3) S(3,4) by (auto simp: own_def)
  moreover have "untouched (own (v_mem s) pd) (v_mem s) (v_mem s3)"
  proof (rule untouched_trans [OF untouched_trans [OF S(5)]])
    show "untouched (own (v_mem s) pd) (v_mem s1) (v_mem s2)" using untouched_mono [OF s2(5)] S(3) by (simp add: own_def)
    have "untouched {pd} (v_mem s2) (v_mem s3)" using s3(3) by (simp add: untouched_def)
    then show "untouched (own (v_mem s) pd) (v_mem s2) (v_mem s3)" by (rule untouched_mono) (simp add: own_def pt_pages_def)
  qed
  ultimately show ?thesis using s3(2) by blast
qed

end
