(* ===== verification/Xv6_Vm_Grow.thy ===== *)
theory Xv6_Vm_Grow
  imports Xv6_Vm_Free
begin

text \<open>
  Giving memory out: \<^verbatim>\<open>allocuvm\<close> adds zeroed pages to an address space or, out of memory, leaves its mappings as they were.
  Every operation only moves pages between an address space and the free list (\<open>conserves\<close>).
\<close>

section \<open>Moving pages\<close>

definition conserves :: "nat \<Rightarrow> nat \<Rightarrow> vm \<Rightarrow> nat list \<Rightarrow> vm \<Rightarrow> nat list \<Rightarrow> bool" where
  "conserves ke pd s xs s' xs' \<longleftrightarrow> free_ok ke s' xs' \<and> as_ok ke (v_mem s') pd xs'
     \<and> own (v_mem s') pd \<union> set xs' = own (v_mem s) pd \<union> set xs \<and> untouched (own (v_mem s) pd \<union> set xs) (v_mem s) (v_mem s')"

lemma conserves_trans: "conserves ke pd s xs s1 ys \<Longrightarrow> conserves ke pd s1 ys s2 zs \<Longrightarrow> conserves ke pd s xs s2 zs"
  by (auto simp: conserves_def intro: untouched_trans)

lemma shrinks_conserves: "shrinks ke pd s xs s' xs' \<Longrightarrow> conserves ke pd s xs s' xs'"
  using untouched_mono [of "own (v_mem s) pd" "v_mem s" "v_mem s'" "own (v_mem s) pd \<union> set xs"]
  by (auto simp: shrinks_def conserves_def own_def)

lemma P2V_V2P:
  assumes "is_page ke v" "KERNBASE < ke"
  shows "P2V (V2P v) = v" "V2P v mod 4096 = 0" "V2P v < 2 ^ 32"
proof -
  have v: "V2P v = v - KERNBASE" "KERNBASE \<le> v" "v - KERNBASE < KERNBASE"
    using assms V2P_high [of v] by (auto simp: is_page_def KERNBASE_def PHYSTOP_def)
  then show "P2V (V2P v) = v" "V2P v < 2 ^ 32" using P2V_low [of "V2P v"] by (auto simp: KERNBASE_def)
  have "KERNBASE mod 4096 = 0" by (simp add: KERNBASE_def)
  then show "V2P v mod 4096 = 0" using v(1,2) page_mod(1) [OF assms(1)] by (simp add: mod_eq_0_iff_dvd)
qed

lemma entry_frame: "is_page ke v \<Longrightarrow> KERNBASE < ke \<Longrightarrow> perm < 4096 \<Longrightarrow> frame (entry (V2P v) perm) = v"
  using entry_props(4) [OF P2V_V2P(2,3)] by (simp add: frame_def P2V_V2P(1))

lemma entry_flags: "is_page ke v \<Longrightarrow> KERNBASE < ke \<Longrightarrow> perm < 4096 \<Longrightarrow> PTE_FLAGS (entry (V2P v) perm) = or perm 1"
proof -
  assume a: "is_page ke v" "KERNBASE < ke" "perm < 4096"
  then obtain q where "V2P v = 4096 * q" using P2V_V2P(2) by (auto elim!: dvdE)
  then show ?thesis using entry_props(1) [OF P2V_V2P(2,3) [OF a(1,2)] a(3)] or_flags(1) [OF a(3)] by (simp add: PTE_FLAGS_mod)
qed

section \<open>One page\<close>

text \<open>The page \<open>x\<close> is mapped at \<open>a\<close>, by page tables that took pages from the free list.\<close>

lemma frames_added:
  assumes ok: "as_ok ke m pd (x # xs)" and x: "is_page ke x" "x \<notin> set xs" and a: "a < KERNBASE" "lookup m pd a = None"
    and pt: "pt_ok ke m' pd zs" "pt_pages m' pd \<union> set zs = pt_pages m pd \<union> set xs"
    and l: "\<forall>w < 2 ^ 32. lookup m' pd w = (if w div 4096 = a div 4096 then Some e else lookup m pd w)" "frame e = x"
  shows "as_ok ke m' pd zs" "uframes m' pd = insert x (uframes m pd)"
proof -
  note A = as_okD [OF ok]
  have old: "is_page ke (frame y) \<and> frame y \<notin> set zs \<and> frame y \<notin> pt_pages m' pd \<and> frame y \<noteq> x" if "w < KERNBASE" "lookup m pd w = Some y" for w y
    using A(2-4) [OF that] pt(2) by auto
  have "x \<notin> pt_pages m pd" using pt_pages_page [OF A(1), of x] by auto
  then have new: "is_page ke x \<and> x \<notin> set zs \<and> x \<notin> pt_pages m' pd" using x pt(2) by auto
  have split: "w div 4096 = a div 4096 \<and> frame y = x \<or> w div 4096 \<noteq> a div 4096 \<and> lookup m pd w = Some y" if "w < KERNBASE" "lookup m' pd w = Some y" for w y
    using l(1) KB_32 [OF that(1)] that(2) l(2) by (auto split: if_splits)
  show "as_ok ke m' pd zs" unfolding as_ok_def
  proof (intro conjI allI impI)
    show "pt_ok ke m' pd zs" using pt(1) .
    fix w y assume w: "w < KERNBASE" "lookup m' pd w = Some y"
    then show "is_page ke (frame y)" "frame y \<notin> set zs" "frame y \<notin> pt_pages m' pd" using old [OF w(1)] new split by blast+
    fix w' y' assume w': "w' < KERNBASE" "lookup m' pd w' = Some y'" "frame y = frame y'"
    from split [OF w] split [OF w'(1,2)] show "w div 4096 = w' div 4096"
      using old [OF w(1)] old [OF w'(1)] A(5) [OF w(1) w'(1) _ _ w'(3)] w'(3) by auto
  qed
  show "uframes m' pd = insert x (uframes m pd)"
  proof (intro equalityI subsetI)
    fix q assume "q \<in> uframes m' pd"
    then obtain w y where "w < KERNBASE" "lookup m' pd w = Some y" "q = frame y" unfolding uframes_def by blast
    then show "q \<in> insert x (uframes m pd)" using split [of w y] uframesI [of w m pd] by auto
  next
    fix q assume "q \<in> insert x (uframes m pd)"
    then consider "q = x" | w y where "w < KERNBASE" "lookup m pd w = Some y" "q = frame y" unfolding uframes_def by blast
    then show "q \<in> uframes m' pd"
    proof cases
      case 1
      then show ?thesis using uframesI [OF a(1), of m' pd] l KB_32 [OF a(1)] by auto
    next
      case 2
      have "w div 4096 \<noteq> a div 4096" using lookup_same [OF 2(1) a(1), of m pd] 2(2) a(2) by auto
      then show ?thesis using uframesI [OF 2(1), of m' pd] l(1) KB_32 [OF 2(1)] 2(2,3) by auto
    qed
  qed
qed

lemma bytes_added:
  assumes ok: "as_ok ke m' pd zs" and l: "\<forall>w < 2 ^ 32. lookup m' pd w = (if w div 4096 = a div 4096 then Some e else lookup g pd w)" "frame e = x"
    and u: "untouched (pt_pages m' pd) g m'" and w: "w < KERNBASE"
  shows "ubyte m' pd w = (if w div 4096 = a div 4096 then Some (g (x + w mod 4096)) else ubyte g pd w)"
proof -
  have lw: "lookup m' pd w = (if w div 4096 = a div 4096 then Some e else lookup g pd w)" using l(1) KB_32 [OF w] by blast
  show ?thesis
  proof (cases "lookup m' pd w")
    case None
    then show ?thesis using lw by (auto simp: ubyte_def split: if_splits)
  next
    case (Some y)
    have "\<forall>q \<in> pt_pages m' pd. is_page ke q" using pt_pages_page [OF as_okD(1) [OF ok]] by blast
    moreover have "in_page (frame y) (frame y + w mod 4096)" by (simp add: in_page_def PGSIZE_def)
    ultimately have "m' (frame y + w mod 4096) = g (frame y + w mod 4096)"
      using untouched_page [OF u as_okD(2) [OF ok w Some]] as_okD(4) [OF ok w Some] by blast
    then show ?thesis using Some lw l(2) by (auto simp: ubyte_def split: if_splits)
  qed
qed

text \<open>A free page that has been filled is mapped, or there is no memory for its page table.\<close>

lemma add_page:
  assumes f: "free_ok ke s (x # xs)" and ok: "as_ok ke (v_mem s) pd (x # xs)" and g: "untouched {x} (v_mem s) g"
    and a: "a < KERNBASE" "a mod 4096 = 0" "lookup (v_mem s) pd a = None" and perm: "perm < 4096"
    and k: "kalloc s = (x, s1)"
  shows "(xs = [] \<and> mappages pd a PGSIZE (V2P x) perm (s1\<lparr>v_mem := g\<rparr>) = Inr (- 1, s1\<lparr>v_mem := g\<rparr>) \<and> free_ok ke (s1\<lparr>v_mem := g\<rparr>) []
      \<and> as_ok ke g pd [x] \<and> own g pd = own (v_mem s) pd \<and> lookup g pd = lookup (v_mem s) pd \<and> (\<forall>w < KERNBASE. ubyte g pd w = ubyte (v_mem s) pd w))
    \<or> (\<exists>s3 zs. mappages pd a PGSIZE (V2P x) perm (s1\<lparr>v_mem := g\<rparr>) = Inr (0, s3) \<and> conserves ke pd s (x # xs) s3 zs \<and> length xs \<le> length zs + 1
      \<and> (\<forall>w < 2 ^ 32. lookup (v_mem s3) pd w = (if w div 4096 = a div 4096 then Some (entry (V2P x) perm) else lookup (v_mem s) pd w))
      \<and> (\<forall>w < KERNBASE. ubyte (v_mem s3) pd w = (if w div 4096 = a div 4096 then Some (g (x + w mod 4096)) else ubyte (v_mem s) pd w)))"
proof -
  let ?s2 = "s1\<lparr>v_mem := g\<rparr>"
  from kalloc_cons [OF f] k have K: "free_ok ke s1 xs" "v_mem s1 = v_mem s" "is_page ke x" "x \<notin> set xs" by auto
  note A = as_okD [OF ok]
  have ke: "KERNBASE < ke" using pt_okD(1) [OF A(1)] .
  note X = P2V_V2P [OF K(3) ke]
  have xo: "x \<notin> own (v_mem s) pd" using own_page [OF ok, of x] by auto
  have S: "\<forall>q \<in> {x}. is_page ke q" "{x} \<inter> pt_pages (v_mem s) pd = {}" using K(3) xo by (auto simp: own_def)
  note F = as_frame [OF ok g S]
  have go: "own g pd = own (v_mem s) pd" by (simp add: own_def F)
  have f2: "free_ok ke ?s2 xs" by (rule free_ok_disjoint [OF K(1,3,4)]) (use g K(2) in \<open>simp add: untouched_def\<close>)
  have gb: "ubyte g pd w = ubyte (v_mem s) pd w" if "w < KERNBASE" for w
    by (rule F(5) [OF that]) (use A(3) [OF that] in auto)
  have ok2: "as_ok ke g pd xs" by (rule as_ok_list [OF F(2)]) (use own_page [OF F(2)] in auto)
  have n2: "lookup (v_mem ?s2) pd a = None" using a(3) F(1) by simp
  have mp: "mappages pd a PGSIZE (V2P x) perm ?s2 = mappages_loop 0 pd a (V2P x) perm ?s2"
    using mappages_eq [of a 0] a(1,2) by (simp add: PGSIZE_def KERNBASE_def)
  have okp: "pt_ok ke (v_mem ?s2) pd xs" using as_okD(1) [OF ok2] by simp
  from map_page [OF f2 okp KB_32 [OF a(1)] X(2,3) perm n2] show ?thesis
  proof (elim disjE exE conjE)
    assume w: "walkpgdir pd a True ?s2 = (0, ?s2)" and xs: "xs = []"
    then have "mappages pd a PGSIZE (V2P x) perm ?s2 = Inr (- 1, ?s2)" unfolding mp by (subst mappages_loop.simps) simp
    then show ?thesis using xs f2 F(1,2) go gb by auto
  next
    fix pte t s3 zs
    assume w: "walkpgdir pd a True ?s2 = (pte, t)" "pte \<noteq> 0" "even (rd32 (v_mem t) pte)" "s3 = t\<lparr>v_mem := wr32 pte (or (or (V2P x) perm) PTE_P) (v_mem t)\<rparr>"
      and gr: "grows ke pd ?s2 xs s3 zs" and len: "length xs \<le> length zs + 1"
      and l: "\<forall>w < 2 ^ 32. lookup (v_mem s3) pd w = (if w div 4096 = a div 4096 then Some (entry (V2P x) perm) else lookup (v_mem ?s2) pd w)"
    have "mappages pd a PGSIZE (V2P x) perm ?s2 = Inr (0, s3)"
      unfolding mp using w and_P [of "rd32 (v_mem t) pte"] by (subst mappages_loop.simps) (simp add: Let_def)
    moreover note G = growsD [OF gr]
    have l3: "lookup (v_mem s3) pd w = (if w div 4096 = a div 4096 then Some (entry (V2P x) perm) else lookup (v_mem s) pd w)" if "w < 2 ^ 32" for w
      using l that F(1) by simp
    have pt3: "pt_pages (v_mem s3) pd \<union> set zs = pt_pages (v_mem s) pd \<union> set xs" using G(4) F(3) by simp
    have fr: "frame (entry (V2P x) perm) = x" using entry_frame [OF K(3) ke perm] .
    have la: "\<forall>w < 2 ^ 32. lookup (v_mem s3) pd w = (if w div 4096 = a div 4096 then Some (entry (V2P x) perm) else lookup (v_mem s) pd w)" using l3 by blast
    note N = frames_added [OF ok K(3,4) a(1,3) G(2) pt3 la fr]
    have cons: "own (v_mem s3) pd \<union> set zs = own (v_mem s) pd \<union> set (x # xs)" unfolding own_def N(2) using pt3 by auto
    have u3: "untouched (pt_pages (v_mem s3) pd) g (v_mem s3)" using G(6) by (simp add: untouched_def)
    have un: "untouched (own (v_mem s) pd \<union> set (x # xs)) (v_mem s) (v_mem s3)"
    proof (rule untouched_trans)
      show "untouched (own (v_mem s) pd \<union> set (x # xs)) (v_mem s) g" by (rule untouched_mono [OF g]) simp
      show "untouched (own (v_mem s) pd \<union> set (x # xs)) g (v_mem s3)" by (rule untouched_mono [OF u3]) (use cons in \<open>auto simp: own_def\<close>)
    qed
    have b: "ubyte (v_mem s3) pd w = (if w div 4096 = a div 4096 then Some (g (x + w mod 4096)) else ubyte (v_mem s) pd w)" if w: "w < KERNBASE" for w
      using bytes_added [OF N(1) la [folded F(1)] fr u3 w] gb [OF w] by simp
    have "conserves ke pd s (x # xs) s3 zs" using G(1) N(1) cons un by (simp add: conserves_def)
    ultimately show ?thesis using len l3 b by blast
  qed
qed

section \<open>\<^verbatim>\<open>allocuvm\<close>\<close>

lemma pg_map_Suc: "map (\<lambda>k. a + k * PGSIZE) [0..<Suc n] = a # map (\<lambda>k. (a + PGSIZE) + k * PGSIZE) [0..<n]"
  by (simp add: upt_conv_Cons map_Suc_upt [symmetric] comp_def add.assoc del: upt_Suc)

text \<open>The way out when memory runs out: the pages mapped so far go back, and so does a page that is not mapped yet.\<close>

definition undone :: "nat \<Rightarrow> nat \<Rightarrow> nat \<Rightarrow> mem \<Rightarrow> mem \<Rightarrow> bool" where
  "undone pd oldsz newsz m m' \<longleftrightarrow>
     (\<forall>w < 2 ^ 32. lookup m' pd w = (if PGROUNDUP oldsz \<le> w \<and> w div 4096 * 4096 < newsz then None else lookup m pd w))
     \<and> (\<forall>w < KERNBASE. lookup m' pd w = None \<or> ubyte m' pd w = ubyte m pd w)"

lemma undo_alloc:
  assumes f: "free_ok ke s xs" and ok: "as_ok ke (v_mem s) pd xs" and n: "oldsz < newsz" "newsz < KERNBASE"
  shows "\<exists>s' ys. deallocuvm ke pd newsz oldsz s = Inr (oldsz, s') \<and> conserves ke pd s xs s' ys \<and> undone pd oldsz newsz (v_mem s) (v_mem s')
    \<and> (set xs \<subseteq> set ys)"
proof -
  from deallocuvm_ok [OF f ok n(1)] n(2) obtain s' ys where
    s': "deallocuvm ke pd newsz oldsz s = Inr (oldsz, s')" "shrinks ke pd s xs s' ys"
    "\<forall>w < 2 ^ 32. lookup (v_mem s') pd w = (if PGROUNDUP oldsz \<le> w \<and> w div 4096 * 4096 < newsz then None else lookup (v_mem s) pd w)" by auto
  moreover have "lookup (v_mem s') pd w = None \<or> ubyte (v_mem s') pd w = ubyte (v_mem s) pd w" if "w < KERNBASE" for w
    using s'(2) that unfolding shrinks_def by blast
  moreover have "set xs \<subseteq> set ys" using s'(2) unfolding shrinks_def by blast
  ultimately show ?thesis using shrinks_conserves [OF s'(2)] unfolding undone_def by blast
qed

lemma free_unmapped:
  assumes c: "free_ok ke s ys" "as_ok ke (v_mem s) pd ys" and x: "is_page ke x" "x \<notin> set ys" "x \<notin> own (v_mem s) pd"
  shows "\<exists>s'. kfree ke x s = Inr s' \<and> free_ok ke s' (x # ys) \<and> as_ok ke (v_mem s') pd (x # ys) \<and> own (v_mem s') pd = own (v_mem s) pd
    \<and> untouched {x} (v_mem s) (v_mem s') \<and> lookup (v_mem s') pd = lookup (v_mem s) pd \<and> (\<forall>w < KERNBASE. ubyte (v_mem s') pd w = ubyte (v_mem s) pd w)"
proof -
  from kfree_ok [OF c(1) x(1,2)] obtain s' where s': "kfree ke x s = Inr s'" "free_ok ke s' (x # ys)" "\<forall>y. \<not> in_page x y \<longrightarrow> v_mem s' y = v_mem s y" by blast
  have u: "untouched {x} (v_mem s) (v_mem s')" using s'(3) by (simp add: untouched_def)
  have S: "\<forall>q \<in> {x}. is_page ke q" "{x} \<inter> pt_pages (v_mem s) pd = {}" using x by (auto simp: own_def)
  note F = as_frame [OF c(2) u S]
  have o: "own (v_mem s') pd = own (v_mem s) pd" by (simp add: own_def F)
  have "as_ok ke (v_mem s') pd (x # ys)" by (rule as_ok_list [OF F(2)]) (use own_page [OF c(2)] x(3) o in auto)
  moreover have "ubyte (v_mem s') pd w = ubyte (v_mem s) pd w" if "w < KERNBASE" for w
  proof (rule F(5) [OF that])
    fix y assume "lookup (v_mem s) pd w = Some y"
    then show "frame y \<notin> {x}" using uframesI [OF that] x(3) by (auto simp: own_def)
  qed
  ultimately show ?thesis using s'(1,2) u o F(1) by blast
qed

definition alloc_done :: "nat \<Rightarrow> nat \<Rightarrow> nat \<Rightarrow> mem \<Rightarrow> mem \<Rightarrow> bool" where
  "alloc_done pd lo hi m m' \<longleftrightarrow>
     (\<forall>w < 2 ^ 32. if lo \<le> w \<and> w < hi then \<exists>x. lookup m' pd w = Some x \<and> PTE_FLAGS x = 7 else lookup m' pd w = lookup m pd w)
     \<and> (\<forall>w < KERNBASE. ubyte m' pd w = (if lo \<le> w \<and> w < hi then Some 0 else ubyte m pd w))"

lemma alloc_done_empty: "alloc_done pd lo lo m m"
  by (auto simp: alloc_done_def)

lemma WU: "or PTE_W PTE_U = 6" "or (6 :: nat) 1 = 7"
  by (simp_all add: PTE_W_def PTE_U_def)

lemma alloc_page:
  assumes f: "free_ok ke s xs" and ok: "as_ok ke (v_mem s) pd xs" and a: "a < KERNBASE" "a mod 4096 = 0" "lookup (v_mem s) pd a = None"
    and n: "oldsz < newsz" "newsz < KERNBASE"
  shows "(length xs < 2 \<and> (\<exists>s' ys. allocuvm_loop ke pd oldsz newsz (a # as) s = Inr (0, s') \<and> conserves ke pd s xs s' ys \<and> undone pd oldsz newsz (v_mem s) (v_mem s')))
    \<or> (\<exists>s' ys. allocuvm_loop ke pd oldsz newsz (a # as) s = allocuvm_loop ke pd oldsz newsz as s' \<and> conserves ke pd s xs s' ys \<and> length xs \<le> length ys + 2
        \<and> alloc_done pd a (a + 4096) (v_mem s) (v_mem s'))"
proof (cases xs)
  case Nil
  then have k: "kalloc s = (0, s)" using kalloc_nil f by simp
  from undo_alloc [OF f ok n] obtain s' ys where
    "deallocuvm ke pd newsz oldsz s = Inr (oldsz, s')" "conserves ke pd s xs s' ys" "undone pd oldsz newsz (v_mem s) (v_mem s')" by blast
  then show ?thesis using k Nil by auto
next
  case (Cons x zs)
  from f Cons obtain s1 where k: "kalloc s = (x, s1)" "free_ok ke s1 zs" "v_mem s1 = v_mem s" "x \<noteq> 0" "is_page ke x" "x \<notin> set zs" using kalloc_cons [of ke s x zs] by auto
  let ?g = "memset x 0 PGSIZE (v_mem s)" and ?s2 = "s1\<lparr>v_mem := memset x 0 PGSIZE (v_mem s)\<rparr>"
  have g: "untouched {x} (v_mem s) ?g" by (auto simp: untouched_def memset_correct in_page_def)
  have loop: "allocuvm_loop ke pd oldsz newsz (a # as) s = rbind (mappages pd a PGSIZE (V2P x) 6 ?s2) (\<lambda>(r, s).
            if r < 0 then
              rbind (deallocuvm ke pd newsz oldsz s) (\<lambda>(_, s). rbind (kfree ke x s) (\<lambda>s. Inr (0, s)))
            else allocuvm_loop ke pd oldsz newsz as s)" using k(1,3,4) by (simp add: Let_def WU)
  have p: "(6 :: nat) < 4096" by simp
  have f': "free_ok ke s (x # zs)" and ok': "as_ok ke (v_mem s) pd (x # zs)" using f ok Cons by simp_all
  have ke: "KERNBASE < ke" using pt_okD(1) [OF as_okD(1) [OF ok]] .
  from add_page [OF f' ok' g a p k(1)] show ?thesis
  proof (elim disjE exE conjE, goal_cases)
    case 1
    have o2: "as_ok ke (v_mem ?s2) pd []" using as_ok_list [OF 1(4), of "[]"] by simp
    from undo_alloc [OF 1(3) o2 n] obtain s3 ys where
      s3: "deallocuvm ke pd newsz oldsz ?s2 = Inr (oldsz, s3)" "conserves ke pd ?s2 [] s3 ys" "undone pd oldsz newsz ?g (v_mem s3)" by auto
    have C: "free_ok ke s3 ys" "as_ok ke (v_mem s3) pd ys" "own (v_mem s3) pd \<union> set ys = own (v_mem s) pd" "untouched (own (v_mem s) pd) ?g (v_mem s3)"
      using s3(2) 1(5) by (auto simp: conserves_def)
    have x: "x \<notin> own (v_mem s3) pd \<union> set ys" using own_page [OF ok', of x] C(3) by auto
    then have x': "x \<notin> set ys" "x \<notin> own (v_mem s3) pd" by simp_all
    from free_unmapped [OF C(1,2) k(5) x'] obtain s4 where s4: "kfree ke x s3 = Inr s4" "free_ok ke s4 (x # ys)" "as_ok ke (v_mem s4) pd (x # ys)"
      "own (v_mem s4) pd = own (v_mem s3) pd" "untouched {x} (v_mem s3) (v_mem s4)" "lookup (v_mem s4) pd = lookup (v_mem s3) pd"
      "\<forall>w < KERNBASE. ubyte (v_mem s4) pd w = ubyte (v_mem s3) pd w" by blast
    let ?O = "own (v_mem s) pd \<union> set xs"
    have "untouched ?O (v_mem s) ?g" "untouched ?O ?g (v_mem s3)" "untouched ?O (v_mem s3) (v_mem s4)"
      using untouched_mono [OF g, of ?O] untouched_mono [OF C(4), of ?O] untouched_mono [OF s4(5), of ?O] Cons by auto
    then have "untouched ?O (v_mem s) (v_mem s4)" by (blast intro: untouched_trans)
    then have "conserves ke pd s xs s4 (x # ys)" using s4(2-4) C(3) 1(1) Cons by (auto simp: conserves_def)
    moreover have "undone pd oldsz newsz (v_mem s) (v_mem s4)" using s3(3) 1(6,7) s4(6,7) by (simp add: undone_def)
    moreover have "allocuvm_loop ke pd oldsz newsz (a # as) s = Inr (0, s4)" unfolding loop using 1(2) s3(1) s4(1) by simp
    ultimately show ?thesis using Cons 1(1) by auto
  next
    case (2 s3 ys)
    have e: "PTE_FLAGS (entry (V2P x) 6) = 7" using entry_flags [OF k(5) ke p] WU(2) by simp
    have z: "?g (x + w mod 4096) = 0" for w by (simp add: memset_correct PGSIZE_def)
    note pg = page_div [OF a(2)]
    have "alloc_done pd a (a + 4096) (v_mem s) (v_mem s3)" using 2(4,5) e unfolding alloc_done_def pg z by auto
    moreover have "allocuvm_loop ke pd oldsz newsz (a # as) s = allocuvm_loop ke pd oldsz newsz as s3" unfolding loop using 2(1) by simp
    ultimately show ?thesis using 2(2,3) Cons by auto
  qed
qed

lemma alloc_doneD:
  assumes "alloc_done pd lo hi m m'"
  shows "w < 2 ^ 32 \<Longrightarrow> lo \<le> w \<Longrightarrow> w < hi \<Longrightarrow> \<exists>x. lookup m' pd w = Some x \<and> PTE_FLAGS x = 7" "w < 2 ^ 32 \<Longrightarrow> \<not> (lo \<le> w \<and> w < hi) \<Longrightarrow> lookup m' pd w = lookup m pd w"
    "w < KERNBASE \<Longrightarrow> lo \<le> w \<Longrightarrow> w < hi \<Longrightarrow> ubyte m' pd w = Some 0" "w < KERNBASE \<Longrightarrow> \<not> (lo \<le> w \<and> w < hi) \<Longrightarrow> ubyte m' pd w = ubyte m pd w"
  using assms unfolding alloc_done_def by metis+

lemma alloc_done_trans:
  assumes "alloc_done pd a b m m1" "alloc_done pd b c m1 m2" "a \<le> b" "b \<le> c"
  shows "alloc_done pd a c m m2"
proof -
  note A = alloc_doneD [OF assms(1)] and B = alloc_doneD [OF assms(2)]
  have "if a \<le> w \<and> w < c then \<exists>x. lookup m2 pd w = Some x \<and> PTE_FLAGS x = 7 else lookup m2 pd w = lookup m pd w" if "w < 2 ^ 32" for w
    using A(1,2) [OF that] B(1,2) [OF that] assms(3,4) by (cases "w < b") auto
  moreover have "ubyte m2 pd w = (if a \<le> w \<and> w < c then Some 0 else ubyte m pd w)" if "w < KERNBASE" for w
    using A(3,4) [OF that] B(3,4) [OF that] assms(3,4) by (cases "w < b") auto
  ultimately show ?thesis by (simp add: alloc_done_def)
qed

lemma undone_after:
  assumes d: "alloc_done pd a (a + 4096) m m1" and u: "undone pd oldsz newsz m1 m2" and a: "PGROUNDUP oldsz \<le> a" "a mod 4096 = 0" "a < newsz"
  shows "undone pd oldsz newsz m m2"
proof -
  have r: "PGROUNDUP oldsz \<le> w \<and> w div 4096 * 4096 < newsz" if "a \<le> w \<and> w < a + 4096" for w
    using page_div [OF a(2), of w] that a by (auto elim!: dvdE)
  show ?thesis unfolding undone_def
  proof (intro conjI allI impI)
    fix w :: nat assume w: "w < 2 ^ 32"
    show "lookup m2 pd w = (if PGROUNDUP oldsz \<le> w \<and> w div 4096 * 4096 < newsz then None else lookup m pd w)"
    proof (cases "a \<le> w \<and> w < a + 4096")
      case True
      then show ?thesis using u w r [OF True] by (simp add: undone_def)
    next
      case False
      then have "lookup m1 pd w = lookup m pd w" using d w unfolding alloc_done_def by metis
      then show ?thesis using u w by (simp add: undone_def)
    qed
  next
    fix w assume w: "w < KERNBASE"
    show "lookup m2 pd w = None \<or> ubyte m2 pd w = ubyte m pd w"
    proof (cases "a \<le> w \<and> w < a + 4096")
      case True
      then show ?thesis using u KB_32 [OF w] r [OF True] by (simp add: undone_def)
    next
      case False
      then have "ubyte m1 pd w = ubyte m pd w" using d w unfolding alloc_done_def by metis
      then show ?thesis using u w unfolding undone_def by metis
    qed
  qed
qed

lemma allocuvm_loop_ok:
  assumes "free_ok ke s xs" "as_ok ke (v_mem s) pd xs" "a mod 4096 = 0" "PGROUNDUP oldsz \<le> a" "a + n * 4096 < newsz + 4096" "oldsz < newsz" "newsz < KERNBASE"
    and "\<And>w. a \<le> w \<Longrightarrow> w < a + n * 4096 \<Longrightarrow> lookup (v_mem s) pd w = None"
  shows "\<exists>r s' ys. allocuvm_loop ke pd oldsz newsz (map (\<lambda>k. a + k * PGSIZE) [0..<n]) s = Inr (r, s') \<and> conserves ke pd s xs s' ys
    \<and> (r = newsz \<and> alloc_done pd a (a + n * 4096) (v_mem s) (v_mem s') \<or> r = 0 \<and> length xs < 2 * n \<and> undone pd oldsz newsz (v_mem s) (v_mem s'))"
  using assms(1-5,8)
proof (induction n arbitrary: a s xs)
  case 0
  then show ?case using alloc_done_empty by (auto simp: conserves_def)
next
  case (Suc n)
  let ?as = "map (\<lambda>k. (a + PGSIZE) + k * PGSIZE) [0..<n]"
  have a: "a < newsz" "a < KERNBASE" "lookup (v_mem s) pd a = None" using Suc.prems(5,6) assms(7) by auto
  note R = pg_map_Suc [of a n]
  from alloc_page [OF Suc.prems(1,2) a(2) Suc.prems(3) a(3) assms(6,7), of ?as] show ?case
  proof (elim disjE conjE exE)
    fix s' ys assume "length xs < 2" "allocuvm_loop ke pd oldsz newsz (a # ?as) s = Inr (0, s')" "conserves ke pd s xs s' ys" "undone pd oldsz newsz (v_mem s) (v_mem s')"
    then show ?thesis unfolding R by auto
  next
    fix s1 ys assume s1: "allocuvm_loop ke pd oldsz newsz (a # ?as) s = allocuvm_loop ke pd oldsz newsz ?as s1" "conserves ke pd s xs s1 ys" "length xs \<le> length ys + 2"
      "alloc_done pd a (a + 4096) (v_mem s) (v_mem s1)"
    have c: "free_ok ke s1 ys" "as_ok ke (v_mem s1) pd ys" using s1(2) by (simp_all add: conserves_def)
    have b: "(a + PGSIZE) mod 4096 = 0" "PGROUNDUP oldsz \<le> a + PGSIZE" "a + PGSIZE + n * 4096 < newsz + 4096" using Suc.prems(3-5) by (simp_all add: PGSIZE_def)
    have none: "lookup (v_mem s1) pd w = None" if "a + PGSIZE \<le> w" "w < a + PGSIZE + n * 4096" for w
    proof -
      have "w < 2 ^ 32" "\<not> (a \<le> w \<and> w < a + 4096)" "a \<le> w" "w < a + Suc n * 4096" using that Suc.prems(5) assms(7) by (auto simp: PGSIZE_def KERNBASE_def)
      then show ?thesis using s1(4) Suc.prems(6) [of w] unfolding alloc_done_def by metis
    qed
    from Suc.IH [OF c b none] obtain r s' zs where
      s': "allocuvm_loop ke pd oldsz newsz ?as s1 = Inr (r, s')" "conserves ke pd s1 ys s' zs"
        "r = newsz \<and> alloc_done pd (a + PGSIZE) (a + PGSIZE + n * 4096) (v_mem s1) (v_mem s') \<or> r = 0 \<and> length ys < 2 * n \<and> undone pd oldsz newsz (v_mem s1) (v_mem s')" by blast
    have "r = newsz \<and> alloc_done pd a (a + Suc n * 4096) (v_mem s) (v_mem s') \<or> r = 0 \<and> length xs < 2 * Suc n \<and> undone pd oldsz newsz (v_mem s) (v_mem s')"
      using s'(3)
    proof (elim disjE conjE)
      assume "r = newsz" "alloc_done pd (a + PGSIZE) (a + PGSIZE + n * 4096) (v_mem s1) (v_mem s')"
      then show ?thesis using alloc_done_trans [OF s1(4), of "a + PGSIZE + n * 4096" "v_mem s'"] by (simp add: PGSIZE_def ac_simps)
    next
      assume "r = 0" "length ys < 2 * n" "undone pd oldsz newsz (v_mem s1) (v_mem s')"
      then show ?thesis using undone_after [OF s1(4) _ Suc.prems(4,3) a(1)] s1(3) by simp
    qed
    then show ?thesis unfolding R using s1(1) s'(1) conserves_trans [OF s1(2) s'(2)] by auto
  qed
qed

lemma PGROUNDUP_bounds:
  assumes "sz \<le> KERNBASE"
  shows "PGROUNDUP sz mod 4096 = 0" "sz \<le> PGROUNDUP sz" "PGROUNDUP sz < sz + 4096"
proof -
  have "(sz + 4096 - 1) mod 2 ^ 32 = sz + 4095" using assms by (simp add: KERNBASE_def)
  then have e: "PGROUNDUP sz = (sz + 4095) div 4096 * 4096" by (simp add: PGROUNDUP_def PGSIZE_def)
  show "PGROUNDUP sz mod 4096 = 0" unfolding e by simp
  have "(sz + 4095) div 4096 * 4096 + (sz + 4095) mod 4096 = sz + 4095" "(sz + 4095) mod 4096 < 4096" by simp_all
  then show "sz \<le> PGROUNDUP sz" "PGROUNDUP sz < sz + 4096" unfolding e by linarith+
qed

text \<open>The number of pages that \<^verbatim>\<open>allocuvm\<close> adds.\<close>

definition new_pages :: "nat \<Rightarrow> nat \<Rightarrow> nat" where
  "new_pages oldsz newsz = (PGROUNDUP newsz - PGROUNDUP oldsz) div 4096"

lemma new_pages_list:
  assumes "oldsz \<le> newsz" "newsz \<le> KERNBASE"
  shows "pg_list (PGROUNDUP oldsz) newsz = map (\<lambda>k. PGROUNDUP oldsz + k * PGSIZE) [0..<new_pages oldsz newsz]"
    "PGROUNDUP oldsz + new_pages oldsz newsz * 4096 = PGROUNDUP newsz"
proof -
  note O = PGROUNDUP_bounds [of oldsz] and N = PGROUNDUP_bounds [of newsz]
  obtain p q where pq: "PGROUNDUP oldsz = 4096 * p" "PGROUNDUP newsz = 4096 * q" using O(1) N(1) assms by (auto elim!: dvdE)
  then have "p \<le> q" using O N assms by linarith
  then obtain j where j: "q = p + j" using le_Suc_ex by blast
  then show e: "PGROUNDUP oldsz + new_pages oldsz newsz * 4096 = PGROUNDUP newsz" by (simp add: new_pages_def pq diff_mult_distrib2 [symmetric])
  have k: "new_pages oldsz newsz = q - p" using e pq \<open>p \<le> q\<close> by simp
  have "(newsz - 4096 * p + 4095) div 4096 = q - p"
  proof (rule div_nat_eqI)
    show "4096 * (q - p) \<le> newsz - 4096 * p + 4095" "newsz - 4096 * p + 4095 < 4096 * Suc (q - p)" using N(2,3) O(2,3) assms unfolding pq j by simp_all
  qed
  then have "(newsz - PGROUNDUP oldsz + PGSIZE - 1) div PGSIZE = new_pages oldsz newsz" using pq k by (simp add: PGSIZE_def)
  then show "pg_list (PGROUNDUP oldsz) newsz = map (\<lambda>k. PGROUNDUP oldsz + k * PGSIZE) [0..<new_pages oldsz newsz]" by (simp only: pg_list_def)
qed

lemma allocuvm_ok:
  assumes f: "free_ok ke s xs" and ok: "as_ok ke (v_mem s) pd xs" and n: "oldsz \<le> newsz" "newsz < KERNBASE"
    and none: "\<And>w. PGROUNDUP oldsz \<le> w \<Longrightarrow> w < PGROUNDUP newsz \<Longrightarrow> lookup (v_mem s) pd w = None"
  shows "\<exists>r s' ys. allocuvm ke pd oldsz newsz s = Inr (r, s') \<and> conserves ke pd s xs s' ys
    \<and> (r = newsz \<and> alloc_done pd (PGROUNDUP oldsz) (PGROUNDUP newsz) (v_mem s) (v_mem s')
      \<or> r = 0 \<and> length xs < 2 * new_pages oldsz newsz \<and> (\<forall>w < 2 ^ 32. lookup (v_mem s') pd w = lookup (v_mem s) pd w)
        \<and> (\<forall>w < KERNBASE. ubyte (v_mem s') pd w = ubyte (v_mem s) pd w))"
proof -
  note O = PGROUNDUP_bounds [of oldsz] and N = PGROUNDUP_bounds [of newsz]
  note L = new_pages_list [OF n(1) less_imp_le [OF n(2)]]
  have run: "allocuvm ke pd oldsz newsz s = allocuvm_loop ke pd oldsz newsz (map (\<lambda>k. PGROUNDUP oldsz + k * PGSIZE) [0..<new_pages oldsz newsz]) s"
    using n L(1) by (simp add: allocuvm_def)
  show ?thesis
  proof (cases "oldsz = newsz")
    case True
    then have "new_pages oldsz newsz = 0" by (simp add: new_pages_def)
    then have "allocuvm ke pd oldsz newsz s = Inr (newsz, s)" using run by simp
    then show ?thesis using True alloc_done_empty f ok by (auto simp: conserves_def)
  next
    case False
    then have lt: "oldsz < newsz" using n(1) by simp
    have m: "PGROUNDUP oldsz mod 4096 = 0" "PGROUNDUP oldsz \<le> PGROUNDUP oldsz" "PGROUNDUP oldsz + new_pages oldsz newsz * 4096 < newsz + 4096" using O(1) N(3) n L(2) by simp_all
    have "lookup (v_mem s) pd w = None" if "PGROUNDUP oldsz \<le> w" "w < PGROUNDUP oldsz + new_pages oldsz newsz * 4096" for w using none that unfolding L(2) by blast
    from allocuvm_loop_ok [OF f ok m lt n(2) this] obtain r s' ys where
      s': "allocuvm ke pd oldsz newsz s = Inr (r, s')" "conserves ke pd s xs s' ys"
        "r = newsz \<and> alloc_done pd (PGROUNDUP oldsz) (PGROUNDUP newsz) (v_mem s) (v_mem s') \<or> r = 0 \<and> length xs < 2 * new_pages oldsz newsz \<and> undone pd oldsz newsz (v_mem s) (v_mem s')"
      unfolding run L(2) by blast
    have same: "lookup (v_mem s') pd w = lookup (v_mem s) pd w" if "undone pd oldsz newsz (v_mem s) (v_mem s')" "w < 2 ^ 32" for w
    proof (cases "PGROUNDUP oldsz \<le> w \<and> w div 4096 * 4096 < newsz")
      case True
      obtain q where "PGROUNDUP newsz = 4096 * q" using N(1) n by (auto elim!: dvdE)
      moreover have "w < w div 4096 * 4096 + 4096" using dividend_less_div_times [of 4096 w] by simp
      moreover have "newsz \<le> PGROUNDUP newsz" using N(2) n by simp
      moreover have "w div 4096 < q" using calculation conjunct2 [OF True] by linarith
      ultimately have "w < PGROUNDUP newsz" by linarith
      then show ?thesis using that True none [of w] by (simp add: undone_def)
    qed (use that in \<open>auto simp: undone_def\<close>)
    have "ubyte (v_mem s') pd w = ubyte (v_mem s) pd w" if "undone pd oldsz newsz (v_mem s) (v_mem s')" "w < KERNBASE" for w
      using same [OF that(1) KB_32 [OF that(2)]] that by (auto simp: undone_def ubyte_def)
    then show ?thesis using s' same by blast
  qed
qed

end
