(* ===== verification/Xv6_Printf.thy ===== *)
theory Xv6_Printf
  imports Xv6_String
begin

text \<open>
  Formatted output of the user library (\<^verbatim>\<open>printf.c\<close>): \<^verbatim>\<open>printint\<close> and \<^verbatim>\<open>printf\<close> produce the bytes that
  \<^verbatim>\<open>putc\<close> writes.  Arguments are the words on the stack; strings are read from memory.
\<close>

definition digits :: "byte list" where
  "digits = [48, 49, 50, 51, 52, 53, 54, 55, 56, 57, 65, 66, 67, 68, 69, 70]"

text \<open>The \<^verbatim>\<open>do\<close> loop of \<^verbatim>\<open>printint\<close>: the digits from the least significant one.\<close>

function digit_loop :: "nat \<Rightarrow> nat \<Rightarrow> byte list" where
  "digit_loop base x = digits ! (x mod base) # (if x div base \<noteq> 0 \<and> 2 \<le> base then digit_loop base (x div base) else [])"
  by auto
termination by (relation "measure snd") (auto simp: div_less_dividend neq0_conv div_greater_zero_iff)

declare digit_loop.simps [simp del]

definition printint_buf :: "32 word \<Rightarrow> nat \<Rightarrow> bool \<Rightarrow> byte list" where
  "printint_buf xx base sg =
     (let neg = (sg \<and> sint xx < 0);
          x = (if neg then - xx else xx)
      in digit_loop base (unat x) @ (if neg then [45] else []))"





section \<open>The buffer of printint\<close>

lemma digit_loop_length:
  "2 \<le> base \<Longrightarrow> x < base ^ Suc n \<Longrightarrow> length (digit_loop base x) \<le> Suc n"
proof (induction n arbitrary: x)
  case 0
  then have "x div base = 0" by simp
  then show ?case by (subst digit_loop.simps) simp
next
  case (Suc n)
  have "x div base < base ^ Suc n" using Suc.prems by (simp add: less_mult_imp_div_less mult.commute)
  with Suc.IH Suc.prems(1) have "length (digit_loop base (x div base)) \<le> Suc n" by blast
  then show ?case by (subst digit_loop.simps) simp
qed

lemma unat32: "unat (x :: 32 word) < 4294967296"
  using unsigned_less [of x] by simp

lemma printint_buf_length:
  assumes "base = 10 \<or> base = 16"
  shows "length (printint_buf xx base sg) \<le> 11"
proof -
  have l: "length (digit_loop base (unat x)) \<le> 10" for x :: "32 word"
    using digit_loop_length [of base "unat x" 9] unat32 [of x] assms by auto
  show ?thesis using l [of xx] l [of "- xx"] by (simp add: printint_buf_def Let_def)
qed

section \<open>Printing and reading back\<close>








section \<open>Properties\<close>

text \<open>
  C36.  \<^verbatim>\<open>memmove\<close> of the kernel copies the old contents of the source to the destination and changes
  nothing else, also when the two overlap.
\<close>

theorem memmove_copies:
  "memmove dst src n m = (\<lambda>x. if dst \<le> x \<and> x < dst + n then m (src + (x - dst)) else m x)"
  using memmove_correct by blast

text \<open>
  C37.  \<^verbatim>\<open>memset\<close>, which stores four bytes at a time when address and length are aligned, is equivalent to
  storing the low byte of its argument at each address of the range.
\<close>

theorem memset_equiv: "memset dst c n m = ulib_memset dst c n m"
  by (rule ext) (simp add: memset_correct ulib_memset_def stosb_fill)



end
