(* ===== verification/Spec2Isabelle.thy ===== *)
theory Spec2Isabelle
  imports Mlfq_Kernel Lwp_System Fs_Refine Xv6_Fd_System Xv6_Vm_Grow Xv6_Printf
begin

text \<open>
  \<^bold>\<open>Verification of three xv6 kernels\<close>

  The repository holds three projects on the teaching kernel xv6: a multi level feedback queue scheduler
  (\<^verbatim>\<open>src/project1_scheduler\<close>), light weight threads with memory limits (\<^verbatim>\<open>src/project2_LWP\<close>) and a file system with
  multi level indirect blocks, symbolic links and a buffered log with \<^verbatim>\<open>sync\<close> (\<^verbatim>\<open>src/project3_filesystem\<close>).
  Files that the projects did not change are the same in the three directories; they are modelled once,
  from project 3.

  \<^bold>\<open>Conventions.\<close>  Every function of the code is a HOL function with the same name.  State is passed
  explicitly as a record; a pointer into a table of the kernel is an index, and \<^verbatim>\<open>NULL\<close> is \<open>None\<close> or 0.  A function that can
  panic, dereference a null pointer, leave an array or not terminate has the type \<open>'a result\<close> (\<open>Xv6_Prelude\<close>):
  \<open>Inl\<close> of a \<open>fault\<close>, or \<open>Inr\<close> of the value and the new state.  Machine integers are words where they wrap.
  Locks make critical sections atomic, which is how the model runs them; where the code gets a lock wrong
  the lock is part of the state (\<^verbatim>\<open>ptable.lock\<close> in \<open>Lwp_Proc\<close>, the sleep locks of buffers in \<open>Fs_Cache\<close> and of inodes
  in \<open>Fs_Inode\<close>).  A function that gives up the CPU ends at that point, and its continuation is an operation of
  its own.  Code outside the modelled files (page tables, the page allocator, devices) is a parameter: the records
  \<open>kops\<close> and \<open>lops\<close> of the calls that are made on it.

  \<^bold>\<open>Shared ground.\<close>  \<open>Xv6_Prelude\<close> has results, loops over arrays and first matches.  \<open>Xv6_Machine\<close> has process
  states, trap frames, contexts and \<open>kops\<close>.  \<open>Xv6_String\<close> and \<open>Xv6_Printf\<close> model \<^verbatim>\<open>string.c\<close>, \<^verbatim>\<open>ulib.c\<close> and \<^verbatim>\<open>printf.c\<close>
  over a byte memory: \<^verbatim>\<open>memmove\<close> is right for overlapping ranges, the word-wise \<^verbatim>\<open>memset\<close> is equivalent to the
  byte-wise one, \<^verbatim>\<open>strncmp\<close> compares fields, \<^verbatim>\<open>atoi\<close> reads what \<^verbatim>\<open>printf\<close> prints, and the buffer of \<^verbatim>\<open>printint\<close> is large enough.

  \<^bold>\<open>Project 1.\<close>  \<open>Mlfq_Queue\<close> models the intrusive doubly linked queues of \<^verbatim>\<open>queue.c\<close>; the locale \<open>proc_queue\<close> is the
  list contract the scheduler relies on, and its interpretation discharges it for the pointer code.  \<open>Mlfq_Proc\<close>
  models \<^verbatim>\<open>proc.c\<close>: allocation, fork, exit, wait, sleep, wakeup, kill, the choice of the next process, quanta,
  boosting and the scheduler lock.  \<open>Mlfq_Sched\<close>, \<open>Mlfq_Steps\<close> and \<open>Mlfq_Life\<close> prove that each operation preserves
  the invariant \<open>sched_inv\<close>; \<open>Mlfq_Kernel\<close> closes them under a step relation of the whole kernel and holds the
  properties: the invariant of every reachable state, that no step fails, the scheduling policy, that the scheduler's
  inner loop ends (its fuel, \<open>NPROC + 1\<close> rounds, is never used up), and what boosting, expiry, unlocking, fork, exit and
  wait do; and the errors found (\<open>setLevel\<close> past the array, a failed allocation that makes the next one panic).

  \<^bold>\<open>Project 2.\<close>  \<open>Lwp_Proc\<close> models \<^verbatim>\<open>proc.c\<close> with threads: thread creation, exit and join, the round robin over threads
  inside the round robin over processes, the copies between a process and its running thread, memory limits.
  \<open>Lwp_Exec\<close> models \<^verbatim>\<open>exec.c\<close> (\<^verbatim>\<open>exec\<close> and \<^verbatim>\<open>exec2\<close> with every error path) and the system calls of \<^verbatim>\<open>sysproc.c\<close>.
  \<open>Lwp_Threads\<close> is about the round robin, \<open>Lwp_Inv\<close> has the invariant of one process, \<open>Lwp_Steps\<close>, \<open>Lwp_Life\<close>, \<open>Lwp_Calls\<close> and
  \<open>Lwp_Thread_Ops\<close> carry it through every operation, \<open>Lwp_Kernel\<close> closes them under the step relation \<open>lreach\<close>, and
  \<open>Lwp_System\<close> holds the properties: the invariant and that the scheduler does not panic, the thread calls as a map from identifiers to exit
  values, fairness of the round robin, the memory limit, and the lock that leaks on errors.

  \<^bold>\<open>Project 3.\<close>  From the disk upwards: \<open>Fs_Bytes\<close> (blocks as bytes), \<open>Fs_Cache\<close> (\<^verbatim>\<open>bio.c\<close>, \<^verbatim>\<open>memide.c\<close>), \<open>Fs_Log\<close>
  (\<^verbatim>\<open>log.c\<close>) and \<open>Fs_Txn\<close>, whose properties are recovery from a crash at any point of a commit, durability of \<^verbatim>\<open>sync\<close> and the
  effect of one logged update.  \<open>Fs_Store\<close> is the block layer as the rest of the file system sees it, an array of blocks
  with locks; the locale \<open>block_layer\<close> of \<open>Fs_Refine\<close> states that contract, and its interpretation shows that the
  cache and the log implement it.  \<open>Fs_Inode\<close> and \<open>Fs_Path\<close> model \<^verbatim>\<open>fs.c\<close>; \<open>Fs_Alloc\<close> (bitmap), \<open>Fs_Bmap\<close> (the tree of
  indirect blocks up to triple), \<open>Fs_File\<close> (contents, disk inodes), \<open>Fs_Dir\<close> (directories as maps) and \<open>Fs_Icache\<close>
  (reference counts against the pointers held) are its proofs, and \<open>Fs_System\<close> its properties.  \<open>Xv6_Pipe\<close> and
  \<open>Xv6_File\<close> model \<^verbatim>\<open>pipe.c\<close> and \<^verbatim>\<open>file.c\<close>: a pipe is a queue of at most 512 bytes in every interleaving, a write split into
  transactions equals one write, \<^verbatim>\<open>pipealloc\<close> leaks nothing on error.

  \<^bold>\<open>Bounds and fuel.\<close>  \<open>scan_queue\<close>, \<open>scan_min\<close> and \<open>sched_loop\<close> run on fuel \<open>NPROC\<close> or \<open>NPROC + 1\<close>, \<open>rr_scan\<close> on
  \<open>NTHREAD\<close>; in each case the invariant gives a list or a cycle of at most that length, so that \<open>Diverge\<close> does not occur.  All
  other loops are structural or have a termination proof.

  \<^bold>\<open>Not modelled.\<close>  Boot and assembly, drivers (console, keyboard, uart, ide, apic), interrupt entry, spin lock hardware,
  page tables (\<^verbatim>\<open>vm.c\<close>) and the page allocator: hardware, or parameters of the models that use them.  The user programs (shell,
  \<^verbatim>\<open>usertests\<close>, the tests of each project, \<^verbatim>\<open>grep\<close>, \<^verbatim>\<open>ls\<close> and so on) and \<^verbatim>\<open>mkfs\<close>: clients of the kernel that do not
  carry its logic.
\<close>

end
